(* ===== verification/Prelude.thy ===== *)
theory Prelude
  imports Main "HOL-Library.Word" "HOL-Library.Multiset"
begin

text \<open>
  Shared vocabulary of the development: the widths of the C integers, the faults a C program
  can run into, sequencing of computations that may fault, array accesses with their bounds
  check, and the search loops that several components share.
\<close>

section \<open>Collections of facts\<close>

named_theorems res_simps \<open>sequencing of computations that may fault\<close>
named_theorems arr_simps \<open>checked array accesses\<close>

section \<open>C integers\<close>

type_synonym byte = "8 word"
type_synonym u32 = "32 word"
type_synonym u64 = "64 word"

text \<open>
  Memory is little-endian: \<open>le_nat\<close> reads a sequence of bytes as an unsigned number and
  \<open>le_bytes n\<close> writes a number into \<open>n\<close> bytes, keeping its low \<open>8 * n\<close> bits.
  \<open>signed w\<close> reads an unsigned \<open>w\<close>-bit number as two's complement and
  \<open>wrap w\<close> is the bit pattern of a signed one.
\<close>

fun le_nat :: "byte list \<Rightarrow> nat" where
  "le_nat [] = 0"
| "le_nat (b # bs) = unat b + 256 * le_nat bs"

fun le_bytes :: "nat \<Rightarrow> nat \<Rightarrow> byte list" where
  "le_bytes 0 v = []"
| "le_bytes (Suc n) v = of_nat (v mod 256) # le_bytes n (v div 256)"

definition signed :: "nat \<Rightarrow> nat \<Rightarrow> int" where
  "signed w n = (if n < 2 ^ (w - 1) then int n else int n - 2 ^ w)"

definition wrap :: "nat \<Rightarrow> int \<Rightarrow> nat" where
  "wrap w i = nat (i mod 2 ^ w)"

lemma unat_byte_bound [simp]: "unat (b :: byte) < 256"
proof -
  have "unat b < 2 ^ LENGTH(8)" by (rule unsigned_less)
  then show ?thesis by simp
qed

lemma unat_u32_bound: "unat (a :: u32) < 2 ^ 32"
proof -
  have "unat a < 2 ^ LENGTH(32)" by (rule unsigned_less)
  then show ?thesis by simp
qed

lemma unat_of_nat32: "n < 2 ^ 32 \<Longrightarrow> unat (of_nat n :: u32) = n"
  by (simp add: unat_of_nat take_bit_eq_mod)

lemma length_le_bytes [simp]: "length (le_bytes n v) = n"
  by (induction n arbitrary: v) auto

lemma le_nat_bound: "le_nat bs < 256 ^ length bs"
proof (induction bs)
  case Nil
  then show ?case by simp
next
  case (Cons b bs)
  have "unat b < 256" by simp
  then have "unat b + 256 * le_nat bs < 256 * Suc (le_nat bs)" by simp
  also have "\<dots> \<le> 256 * 256 ^ length bs"
    using Cons by (intro mult_le_mono2) simp
  finally show ?case by simp
qed

lemma le_nat_le_bytes [simp]: "le_nat (le_bytes n v) = v mod 256 ^ n"
proof (induction n arbitrary: v)
  case 0
  then show ?case by simp
next
  case (Suc n)
  have "unat (of_nat (v mod 256) :: byte) = v mod 256"
    by (simp add: unat_of_nat)
  with Suc show ?case by (simp add: mod_mult2_eq)
qed

lemma le_bytes_le_nat [simp]: "le_bytes (length bs) (le_nat bs) = bs"
proof (induction bs)
  case Nil
  then show ?case by simp
next
  case (Cons b bs)
  have b: "unat b < 256" by simp
  then have "(unat b + 256 * le_nat bs) mod 256 = unat b"
    by simp
  moreover have "(unat b + 256 * le_nat bs) div 256 = le_nat bs"
    using b by simp
  ultimately show ?case using Cons by simp
qed

lemma signed_wrap: "- (2 ^ (w - 1)) \<le> i \<Longrightarrow> i < 2 ^ (w - 1) \<Longrightarrow> 0 < w \<Longrightarrow> signed w (wrap w i) = i"
proof -
  assume b: "- (2 ^ (w - 1)) \<le> i" "i < 2 ^ (w - 1)" "0 < w"
  define p :: int where "p = 2 ^ (w - 1)"
  have p: "2 ^ w = 2 * p" "0 < p"
    using b(3) by (cases w, auto simp: p_def)
  have np: "int (2 ^ (w - 1)) = p" by (simp add: p_def)
  show ?thesis
  proof (cases "0 \<le> i")
    case True
    then have "i mod (2 * p) = i"
      using b(2) p by (simp add: p_def)
    with True b(2) show ?thesis
      by (simp add: signed_def wrap_def p(1) nat_less_iff p_def)
  next
    case False
    have "i mod (2 * p) = (i + 2 * p) mod (2 * p)" by simp
    also have "\<dots> = i + 2 * p"
      using False b(1) p by (intro mod_pos_pos_trivial) (auto simp: p_def)
    finally have m: "i mod (2 * p) = i + 2 * p" .
    have "\<not> nat (i + 2 * p) < 2 ^ (w - 1)"
      using b(1) np p(2) by (simp add: p_def nat_less_iff)
    moreover have "- p \<le> i" using b(1) by (simp add: p_def)
    then have "0 \<le> i + 2 * p" using p(2) by linarith
    ultimately show ?thesis
      by (simp add: signed_def wrap_def p(1) m)
  qed
qed

section \<open>Faults and their propagation\<close>

text \<open>
  \<open>Panic\<close> is a call of the kernel's \<open>panic\<close>; \<open>OutOfBounds\<close> is an access outside
  an array, which C leaves undefined; \<open>NullDeref\<close> is a dereference of the null pointer;
  \<open>Spins\<close> says that the code waits, in the loop of a spin lock or asleep, for something that
  another processor or process has to do.
\<close>

datatype fault = Panic string | OutOfBounds | NullDeref | Spins

type_synonym 'a res = "fault + 'a"

fun bindE :: "'e + 'a \<Rightarrow> ('a \<Rightarrow> 'e + 'b) \<Rightarrow> 'e + 'b" where
  "bindE (Inl e) f = Inl e"
| "bindE (Inr x) f = f x"

lemma bindE_cong [fundef_cong]:
  assumes "m = m'" and "\<And>x. m' = Inr x \<Longrightarrow> f x = g x"
  shows "bindE m f = bindE m' g"
  using assms by (cases m') auto

lemma bindE_Inr_iff [res_simps]:
  "bindE m f = Inr y \<longleftrightarrow> (\<exists>x. m = Inr x \<and> f x = Inr y)"
  by (cases m) auto

lemma bindE_Inl_iff [res_simps]:
  "bindE m f = Inl e \<longleftrightarrow> m = Inl e \<or> (\<exists>x. m = Inr x \<and> f x = Inl e)"
  by (cases m) auto

lemma bindE_assoc: "bindE (bindE m f) g = bindE m (\<lambda>x. bindE (f x) g)"
  by (cases m) auto

lemma bindE_right_unit [simp]: "bindE m Inr = m"
  by (cases m) auto

section \<open>Arrays\<close>

text \<open>
  An array is a list; \<open>aget\<close> and \<open>aset\<close> are the C accesses \<open>a[i]\<close> and
  \<open>a[i] = v\<close> for a signed index.
\<close>

definition aget :: "'a list \<Rightarrow> int \<Rightarrow> 'a res" where
  "aget xs i = (if 0 \<le> i \<and> nat i < length xs then Inr (xs ! nat i) else Inl OutOfBounds)"

definition aset :: "'a list \<Rightarrow> int \<Rightarrow> 'a \<Rightarrow> 'a list res" where
  "aset xs i v = (if 0 \<le> i \<and> nat i < length xs then Inr (xs[nat i := v]) else Inl OutOfBounds)"

lemma aget_Inr [arr_simps]: "i < length xs \<Longrightarrow> aget xs (int i) = Inr (xs ! i)"
  by (simp add: aget_def)

lemma aset_Inr [arr_simps]: "i < length xs \<Longrightarrow> aset xs (int i) v = Inr (xs[i := v])"
  by (simp add: aset_def)

lemma aget_fault_iff: "aget xs i = Inl e \<longleftrightarrow> e = OutOfBounds \<and> (i < 0 \<or> int (length xs) \<le> i)"
  by (auto simp: aget_def)

lemma aset_length: "aset xs i v = Inr ys \<Longrightarrow> length ys = length xs"
  by (auto simp: aset_def split: if_splits)

section \<open>First-match search loops\<close>

text \<open>
  \<open>for (p = a; p < &a[N]; p++) if (P p) return p;\<close>: the index of the first element that
  satisfies the test, if there is one.
\<close>

fun find_index :: "('a \<Rightarrow> bool) \<Rightarrow> 'a list \<Rightarrow> nat option" where
  "find_index P [] = None"
| "find_index P (x # xs) = (if P x then Some 0 else map_option Suc (find_index P xs))"

lemma find_index_None [simp]: "find_index P xs = None \<longleftrightarrow> (\<forall>x\<in>set xs. \<not> P x)"
  by (induction xs) auto

lemma find_index_SomeD:
  assumes "find_index P xs = Some i"
  shows "i < length xs" and "P (xs ! i)" and "\<And>j. j < i \<Longrightarrow> \<not> P (xs ! j)"
proof -
  have "i < length xs \<and> P (xs ! i) \<and> (\<forall>j < i. \<not> P (xs ! j))"
    using assms
  proof (induction xs arbitrary: i)
    case Nil
    then show ?case by simp
  next
    case (Cons x xs)
    show ?case
    proof (cases "P x")
      case True
      with Cons.prems show ?thesis by auto
    next
      case False
      with Cons.prems obtain k where k: "find_index P xs = Some k" "i = Suc k"
        by auto
      with Cons.IH [OF k(1)] False show ?thesis
        by (auto simp: less_Suc_eq_0_disj)
    qed
  qed
  then show "i < length xs" and "P (xs ! i)" and "\<And>j. j < i \<Longrightarrow> \<not> P (xs ! j)"
    by auto
qed

lemma find_index_Some_iff:
  "find_index P xs = Some i \<longleftrightarrow> i < length xs \<and> P (xs ! i) \<and> (\<forall>j < i. \<not> P (xs ! j))"
proof
  assume "find_index P xs = Some i"
  then show "i < length xs \<and> P (xs ! i) \<and> (\<forall>j < i. \<not> P (xs ! j))"
    using find_index_SomeD [of P xs i] by auto
next
  assume R: "i < length xs \<and> P (xs ! i) \<and> (\<forall>j < i. \<not> P (xs ! j))"
  then obtain k where k: "find_index P xs = Some k"
    using find_index_None [of P xs] by (cases "find_index P xs") auto
  with find_index_SomeD [OF k] R have "k = i"
    by (metis linorder_neqE_nat)
  with k show "find_index P xs = Some i" by simp
qed

lemma find_index_ex: "\<exists>x\<in>set xs. P x \<Longrightarrow> \<exists>i. find_index P xs = Some i"
  using find_index_None [of P xs] by (metis not_Some_eq)

section \<open>Lists split at a position\<close>

lemma list_update_append_hd:
  "length pre = k \<Longrightarrow> (pre @ x # post)[k := v] = pre @ v # post"
  by auto

lemma drop_nth_Cons: "i < length xs \<Longrightarrow> drop i xs = xs ! i # drop (Suc i) xs"
  by (rule Cons_nth_drop_Suc [symmetric])

lemma take_Suc_snoc: "i < length xs \<Longrightarrow> take (Suc i) xs = take i xs @ [xs ! i]"
  by (rule take_Suc_conv_app_nth)

section \<open>Loops over a range and fields of a block of bytes\<close>

text \<open>\<open>for (i = a; i < b; i++) f(i);\<close> with a body that may fault.\<close>

fun forE :: "('i \<Rightarrow> 's \<Rightarrow> 'e + 's) \<Rightarrow> 'i list \<Rightarrow> 's \<Rightarrow> 'e + 's" where
  "forE f [] s = Inr s"
| "forE f (i # is) s = bindE (f i s) (forE f is)"

lemma forE_append: "forE f (xs @ ys) s = bindE (forE f xs s) (forE f ys)"
proof (induction xs arbitrary: s)
  case Nil
  then show ?case by simp
next
  case (Cons x xs)
  then show ?case by (cases "f x s") simp_all
qed

lemma forE_Nil [simp]: "forE f [] = Inr"
  by (rule ext) simp

lemma forE_snoc: "forE f (xs @ [y]) s = bindE (forE f xs s) (f y)"
  by (cases "forE f xs s") (simp_all add: forE_append)

text \<open>\<open>get_at\<close> and \<open>put_at\<close> read and overwrite the bytes from an offset on.\<close>

definition get_at :: "nat \<Rightarrow> nat \<Rightarrow> byte list \<Rightarrow> byte list" where
  "get_at off n d = take n (drop off d)"

definition put_at :: "nat \<Rightarrow> byte list \<Rightarrow> byte list \<Rightarrow> byte list" where
  "put_at off bs d = take off d @ bs @ drop (off + length bs) d"

abbreviation get_le :: "nat \<Rightarrow> nat \<Rightarrow> byte list \<Rightarrow> nat" where
  "get_le off n d \<equiv> le_nat (get_at off n d)"

abbreviation put_le :: "nat \<Rightarrow> nat \<Rightarrow> nat \<Rightarrow> byte list \<Rightarrow> byte list" where
  "put_le off n v d \<equiv> put_at off (le_bytes n v) d"

lemma length_get_at: "off + n \<le> length d \<Longrightarrow> length (get_at off n d) = n"
  by (simp add: get_at_def)

lemma length_put_at [simp]: "off + length bs \<le> length d \<Longrightarrow> length (put_at off bs d) = length d"
  by (simp add: put_at_def)

lemma get_put_at_same: "off + length bs \<le> length d \<Longrightarrow> get_at off (length bs) (put_at off bs d) = bs"
  by (simp add: get_at_def put_at_def)

lemma put_at_nth:
  assumes "off + length bs \<le> length d" and "i < length d"
  shows "put_at off bs d ! i = (if off \<le> i \<and> i < off + length bs then bs ! (i - off) else d ! i)"
  using assms by (auto simp: put_at_def nth_append nth_drop min_def)

lemma get_put_at_other:
  assumes "off + length bs \<le> length d" and "off' + n \<le> off \<or> off + length bs \<le> off'" and "off' + n \<le> length d"
  shows "get_at off' n (put_at off bs d) = get_at off' n d"
proof (rule nth_equalityI)
  show "length (get_at off' n (put_at off bs d)) = length (get_at off' n d)"
    using assms by (simp add: get_at_def)
  fix i assume "i < length (get_at off' n (put_at off bs d))"
  then have "i < n" by (simp add: get_at_def)
  then show "get_at off' n (put_at off bs d) ! i = get_at off' n d ! i"
    using assms put_at_nth [OF assms(1), of "off' + i"] by (auto simp: get_at_def nth_drop)
qed

lemma get_put_le_same: "off + n \<le> length d \<Longrightarrow> get_le off n (put_le off n v d) = v mod 256 ^ n"
  using get_put_at_same [of off "le_bytes n v" d] by simp

end
