(* ===== verification/Psort.thy ===== *)
theory Psort
  imports Prelude
begin

text \<open>
  The parallel sort \<open>p3a/psort.c\<close>: the in-place merge sort on an array of record pointers,
  the two kinds of worker threads, the rounds of parallel merges and the program's main
  function. The main result is that every run, whatever the number of processors and whatever
  the order in which the threads of a phase run, outputs the records in the order of a stable
  sort by key, and never accesses the array out of bounds.
\<close>

section \<open>Records\<close>

text \<open>
  \<open>record_t\<close> is a 4-byte key and a 96-byte value; the input file is mapped into memory and
  \<open>record_ptr\<close> points at one of its records, so it is modelled by the index of that record.
\<close>

type_synonym record_ptr = nat

definition RECORD_LEN :: nat where
  "RECORD_LEN = 100"

definition record_bytes :: "byte list \<Rightarrow> record_ptr \<Rightarrow> byte list" where
  "record_bytes mapped p = take RECORD_LEN (drop (RECORD_LEN * p) mapped)"

definition record_key :: "byte list \<Rightarrow> record_ptr \<Rightarrow> int" where
  "record_key mapped p = signed 32 (le_nat (take 4 (record_bytes mapped p)))"

definition initRecords :: "byte list \<Rightarrow> record_ptr list" where
  "initRecords mapped = [0..<length mapped div RECORD_LEN]"

text \<open>
  \<open>output\<close>: the new file has the size of the input; the records fill it from the start and
  the bytes that \<open>ftruncate\<close> added behind the last whole record stay zero.
\<close>

definition output_file :: "byte list \<Rightarrow> record_ptr list \<Rightarrow> byte list" where
  "output_file mapped records =
     concat (map (record_bytes mapped) records) @
     replicate (length mapped - RECORD_LEN * length records) 0"

section \<open>Merging two runs in place\<close>

text \<open>The copy loops that fill the temporaries \<open>L\<close> and \<open>R\<close>.\<close>

fun load_run :: "record_ptr list \<Rightarrow> int \<Rightarrow> nat \<Rightarrow> record_ptr list res" where
  "load_run records base 0 = Inr []"
| "load_run records base (Suc n) =
     bindE (load_run records base n) (\<lambda>xs.
     bindE (aget records (base + int n)) (\<lambda>x. Inr (xs @ [x])))"

text \<open>The loop that runs while both temporaries have elements left.\<close>

function merge_both ::
  "(record_ptr \<Rightarrow> int) \<Rightarrow> record_ptr list \<Rightarrow> record_ptr list \<Rightarrow> nat \<Rightarrow> nat \<Rightarrow> int \<Rightarrow>
   record_ptr list \<Rightarrow> (nat \<times> nat \<times> int \<times> record_ptr list) res" where
  "merge_both key L R i j k records =
     (if i < length L \<and> j < length R then
        if key (L ! i) \<le> key (R ! j)
        then bindE (aset records k (L ! i)) (\<lambda>rs. merge_both key L R (Suc i) j (k + 1) rs)
        else bindE (aset records k (R ! j)) (\<lambda>rs. merge_both key L R i (Suc j) (k + 1) rs)
      else Inr (i, j, k, records))"
  by pat_completeness auto
termination
  by (relation "measure (\<lambda>(key, L, R, i, j, k, records). (length L - i) + (length R - j))") auto

declare merge_both.simps [simp del]

text \<open>The loop that copies what is left of one temporary.\<close>

function merge_rest ::
  "record_ptr list \<Rightarrow> nat \<Rightarrow> int \<Rightarrow> record_ptr list \<Rightarrow> (int \<times> record_ptr list) res" where
  "merge_rest L i k records =
     (if i < length L
      then bindE (aset records k (L ! i)) (\<lambda>rs. merge_rest L (Suc i) (k + 1) rs)
      else Inr (k, records))"
  by pat_completeness auto
termination
  by (relation "measure (\<lambda>(L, i, k, records). length L - i)") auto

declare merge_rest.simps [simp del]

definition merge ::
  "(record_ptr \<Rightarrow> int) \<Rightarrow> int \<Rightarrow> int \<Rightarrow> int \<Rightarrow> record_ptr list \<Rightarrow> record_ptr list res" where
  "merge key left mid right records =
     bindE (load_run records left (nat (mid - left + 1))) (\<lambda>L.
     bindE (load_run records (mid + 1) (nat (right - mid))) (\<lambda>R.
     bindE (merge_both key L R 0 0 left records) (\<lambda>(i, j, k, records).
     bindE (merge_rest L i k records) (\<lambda>(k, records).
     bindE (merge_rest R j k records) (\<lambda>(k, records). Inr records)))))"

function mergeSort ::
  "(record_ptr \<Rightarrow> int) \<Rightarrow> int \<Rightarrow> int \<Rightarrow> record_ptr list \<Rightarrow> record_ptr list res" where
  "mergeSort key left right records =
     (if left \<ge> right then Inr records
      else let mid = left + (right - left) div 2 in
        bindE (mergeSort key left mid records) (\<lambda>records.
        bindE (mergeSort key (mid + 1) right records) (\<lambda>records.
        merge key left mid right records)))"
  by pat_completeness auto
termination
  by (relation "measure (\<lambda>(key, left, right, records). nat (right - left))") auto

declare mergeSort.simps [simp del]

section \<open>Worker threads and the rounds of merges\<close>

definition threads_mergeSort ::
  "(record_ptr \<Rightarrow> int) \<Rightarrow> int \<Rightarrow> int \<Rightarrow> nat \<Rightarrow> record_ptr list \<Rightarrow> record_ptr list res" where
  "threads_mergeSort key num_records procs curr_thread records =
     (let left = int curr_thread * (num_records div procs);
          right = (if int curr_thread = procs - 1 then num_records - 1
                   else left + num_records div procs - 1)
      in mergeSort key left right records)"

record threads_t =
  curr :: int
  num :: int
  len :: int

definition threads_merge ::
  "(record_ptr \<Rightarrow> int) \<Rightarrow> int \<Rightarrow> threads_t \<Rightarrow> record_ptr list \<Rightarrow> record_ptr list res" where
  "threads_merge key num_records thread records =
     (let left = curr thread * num thread;
          mid = left + num thread div 2 - 1;
          last_index = len thread div 2 - 1;
          is_last = \<not> (len thread mod 2 \<noteq> 0 \<or> curr thread \<noteq> last_index);
          right = (if is_last then num_records - 1 else left + num thread - 1)
      in merge key left mid right records)"

text \<open>
  The threads of one phase are created in a loop and then joined. They work on disjoint parts
  of the array; the model runs them one after the other, in an order that the argument
  \<open>sched\<close> chooses for each phase from its number of threads.
\<close>

fun run_threads ::
  "(nat \<Rightarrow> record_ptr list \<Rightarrow> record_ptr list res) \<Rightarrow> nat list \<Rightarrow> record_ptr list \<Rightarrow>
   record_ptr list res" where
  "run_threads f [] records = Inr records"
| "run_threads f (t # ts) records = bindE (f t records) (run_threads f ts)"

function merge_rounds ::
  "(nat \<Rightarrow> nat list) \<Rightarrow> (record_ptr \<Rightarrow> int) \<Rightarrow> int \<Rightarrow> nat \<Rightarrow> int \<Rightarrow> record_ptr list \<Rightarrow>
   record_ptr list res" where
  "merge_rounds sched key num_records l n records =
     (let merges = l div 2 in
      if 0 < merges then
        bindE (run_threads
                (\<lambda>i. threads_merge key num_records \<lparr>curr = int i, num = n, len = int l\<rparr>)
                (sched merges) records)
          (\<lambda>records. merge_rounds sched key num_records (l - merges) (n * 2) records)
      else Inr records)"
  by pat_completeness auto
termination
  by (relation "measure (\<lambda>(sched, key, num_records, l, n, records). l)") auto

declare merge_rounds.simps [simp del]

definition multithread_sort ::
  "(nat \<Rightarrow> nat list) \<Rightarrow> nat \<Rightarrow> (record_ptr \<Rightarrow> int) \<Rightarrow> record_ptr list \<Rightarrow> record_ptr list res" where
  "multithread_sort sched nprocs key records =
     (let num_records = length records;
          procs = (if num_records \<le> 100 \<or> nprocs \<ge> num_records then 1 else nprocs)
      in bindE (run_threads (threads_mergeSort key (int num_records) (int procs)) (sched procs)
                  records)
           (\<lambda>records. if procs > 1
              then merge_rounds sched key (int num_records) procs
                     (int num_records div int procs * 2) records
              else Inr records))"

text \<open>
  \<open>error\<close> prints its message and exits. \<open>inputMmap\<close> gets what the named file holds
  (\<open>None\<close> when it cannot be opened); mapping an empty file fails, so an empty input ends in
  \<open>error\<close> as a missing one does.
\<close>

definition psort_error :: "'a res" where
  "psort_error = Inl (Panic ''An error has occurred'')"

definition inputMmap :: "byte list option \<Rightarrow> byte list res" where
  "inputMmap input =
     (case input of
        None \<Rightarrow> psort_error
      | Some mapped \<Rightarrow> if length mapped = 0 then psort_error else Inr mapped)"

definition psort_main ::
  "(nat \<Rightarrow> nat list) \<Rightarrow> nat \<Rightarrow> nat \<Rightarrow> byte list option \<Rightarrow> byte list res" where
  "psort_main sched nprocs argc input =
     (if argc < 3 then psort_error
      else bindE (inputMmap input) (\<lambda>mapped.
           bindE (multithread_sort sched nprocs (record_key mapped) (initRecords mapped)) (\<lambda>records.
           Inr (output_file mapped records))))"

section \<open>The reference merge and the stable sort\<close>

fun mrg :: "(record_ptr \<Rightarrow> int) \<Rightarrow> record_ptr list \<Rightarrow> record_ptr list \<Rightarrow> record_ptr list" where
  "mrg key [] ys = ys"
| "mrg key xs [] = xs"
| "mrg key (x # xs) (y # ys) =
     (if key x \<le> key y then x # mrg key xs (y # ys) else y # mrg key (x # xs) ys)"

lemma mrg_Nil2 [simp]: "mrg key xs [] = xs"
  by (cases xs) auto

lemma mset_mrg [simp]: "mset (mrg key xs ys) = mset xs + mset ys"
  by (induction key xs ys rule: mrg.induct) auto

lemma set_mrg [simp]: "set (mrg key xs ys) = set xs \<union> set ys"
  by (induction key xs ys rule: mrg.induct) auto

lemma length_mrg [simp]: "length (mrg key xs ys) = length xs + length ys"
  by (induction key xs ys rule: mrg.induct) auto

lemma sorted_mrg:
  "sorted (map key xs) \<Longrightarrow> sorted (map key ys) \<Longrightarrow> sorted (map key (mrg key xs ys))"
  by (induction key xs ys rule: mrg.induct) (auto simp: not_le)

lemma filter_mrg:
  "sorted (map key xs) \<Longrightarrow>
   filter (\<lambda>x. c = key x) (mrg key xs ys) =
   filter (\<lambda>x. c = key x) xs @ filter (\<lambda>x. c = key x) ys"
proof (induction key xs ys rule: mrg.induct)
  case (3 key x xs y ys)
  have "key y < key x \<Longrightarrow> c = key y \<Longrightarrow> filter (\<lambda>z. c = key z) (x # xs) = []"
    using "3.prems" by (auto simp: filter_empty_conv)
  with 3 show ?case by (auto simp: not_le)
qed auto

lemma filter_sort_key:
  "filter (\<lambda>x. c = f x) (sort_key f xs) = filter (\<lambda>x. c = f x) xs"
  using sort_key_stable [of f c xs] by (simp add: eq_commute [of c])

lemma mrg_sort_key: "mrg key (sort_key key xs) (sort_key key ys) = sort_key key (xs @ ys)"
proof (rule properties_for_sort_key [symmetric])
  show "mset (mrg key (sort_key key xs) (sort_key key ys)) = mset (xs @ ys)"
    by simp
  show "filter (\<lambda>x. key k = key x) (mrg key (sort_key key xs) (sort_key key ys)) =
        filter (\<lambda>x. key k = key x) (xs @ ys)" for k
    by (simp add: filter_mrg filter_sort_key)
  show "sorted (map key (mrg key (sort_key key xs) (sort_key key ys)))"
    by (simp add: sorted_mrg)
qed

section \<open>The in-place merge sort computes the stable sort\<close>

lemma load_run_append:
  "load_run (pre @ xs @ post) (int (length pre)) (length xs) = Inr xs"
proof (induction xs arbitrary: post rule: rev_induct)
  case Nil
  then show ?case by simp
next
  case (snoc x xs)
  have "aget (pre @ xs @ x # post) (int (length pre) + int (length xs)) = Inr x"
    using aget_Inr [of "length pre + length xs" "pre @ xs @ x # post"]
    by (simp add: nth_append)
  with snoc [of "x # post"] show ?case by simp
qed

lemma aset_at: "aset (pre @ x # post) (int (length pre)) v = Inr ((pre @ [v]) @ post)"
  by (simp add: aset_def)

lemma merge_rest_append:
  assumes "length old = length L - i"
  shows "merge_rest L i (int (length pre)) (pre @ old @ post) =
         Inr (int (length pre + (length L - i)), pre @ drop i L @ post)"
  using assms
proof (induction "length L - i" arbitrary: i pre old)
  case 0
  then show ?case by (simp add: merge_rest.simps [of L i])
next
  case (Suc n)
  then obtain x old' where old: "old = x # old'" by (cases old) auto
  have i: "i < length L" using Suc.hyps by simp
  have "merge_rest L (Suc i) (int (length (pre @ [L ! i]))) ((pre @ [L ! i]) @ old' @ post) =
        Inr (int (length (pre @ [L ! i]) + (length L - Suc i)),
             (pre @ [L ! i]) @ drop (Suc i) L @ post)"
    using Suc.hyps(2) Suc.prems old by (intro Suc.hyps(1)) auto
  with i show ?case
    by (simp add: merge_rest.simps [of L i] old aset_at drop_nth_Cons add.commute)
qed

definition merge_loops ::
  "(record_ptr \<Rightarrow> int) \<Rightarrow> record_ptr list \<Rightarrow> record_ptr list \<Rightarrow> nat \<Rightarrow> nat \<Rightarrow> int \<Rightarrow>
   record_ptr list \<Rightarrow> record_ptr list res" where
  "merge_loops key L R i j k records =
     bindE (merge_both key L R i j k records) (\<lambda>(i, j, k, records).
     bindE (merge_rest L i k records) (\<lambda>(k, records).
     bindE (merge_rest R j k records) (\<lambda>(k, records). Inr records)))"

lemma merge_loops_append:
  assumes "length old = (length L - i) + (length R - j)"
  shows "merge_loops key L R i j (int (length pre)) (pre @ old @ post) =
         Inr (pre @ mrg key (drop i L) (drop j R) @ post)"
  using assms
proof (induction "length old" arbitrary: i j pre old)
  case 0
  then show ?case
    by (simp add: merge_loops_def merge_both.simps [of key L R i j]
        merge_rest.simps [of L i] merge_rest.simps [of R j])
next
  case (Suc n)
  then obtain x old' where old: "old = x # old'" "length old' = n" by (cases old) auto
  show ?case
  proof (cases "i < length L \<and> j < length R")
    case True
    define v where "v = (if key (L ! i) \<le> key (R ! j) then L ! i else R ! j)"
    have step: "merge_loops key L R i j (int (length pre)) (pre @ old @ post) =
        (if key (L ! i) \<le> key (R ! j)
         then merge_loops key L R (Suc i) j (int (length (pre @ [v]))) ((pre @ [v]) @ old' @ post)
         else merge_loops key L R i (Suc j) (int (length (pre @ [v]))) ((pre @ [v]) @ old' @ post))"
      using True
      by (simp add: merge_loops_def merge_both.simps [of key L R i j] old aset_at v_def
          add.commute)
    show ?thesis
    proof (cases "key (L ! i) \<le> key (R ! j)")
      case le: True
      then show ?thesis
        using Suc.hyps(1) [of old' "Suc i" j "pre @ [v]"] Suc.prems old True step
        by (simp add: v_def drop_nth_Cons)
    next
      case gt: False
      then show ?thesis
        using Suc.hyps(1) [of old' i "Suc j" "pre @ [v]"] Suc.prems old True step
        by (simp add: v_def drop_nth_Cons)
    qed
  next
    case False
    define a where "a = take (length L - i) old"
    define b where "b = drop (length L - i) old"
    have ab: "old = a @ b" "length a = length L - i" "length b = length R - j"
      using Suc.prems by (auto simp: a_def b_def)
    have "merge_rest L i (int (length pre)) (pre @ a @ b @ post) =
          Inr (int (length (pre @ drop i L)), (pre @ drop i L) @ b @ post)"
      using merge_rest_append [OF ab(2), of pre "b @ post"] by simp
    moreover have "merge_rest R j (int (length (pre @ drop i L))) ((pre @ drop i L) @ b @ post) =
          Inr (int (length (pre @ drop i L) + (length R - j)), (pre @ drop i L) @ drop j R @ post)"
      by (rule merge_rest_append [OF ab(3)])
    moreover have "merge_both key L R i j (int (length pre)) (pre @ old @ post) =
          Inr (i, j, int (length pre), pre @ old @ post)"
      using False by (auto simp: merge_both.simps [of key L R i j])
    moreover have "mrg key (drop i L) (drop j R) = drop i L @ drop j R"
      using False by (auto simp: not_less)
    ultimately show ?thesis
      by (simp add: merge_loops_def ab(1))
  qed
qed

lemma merge_append:
  "merge key (int (length pre)) (int (length pre) + int (length xs) - 1)
     (int (length pre) + int (length xs) + int (length ys) - 1) (pre @ xs @ ys @ post) =
   Inr (pre @ mrg key xs ys @ post)"
proof -
  have L: "load_run (pre @ xs @ ys @ post) (int (length pre)) (length xs) = Inr xs"
    by (rule load_run_append)
  have R: "load_run (pre @ xs @ ys @ post) (int (length pre) + int (length xs)) (length ys) = Inr ys"
    using load_run_append [of "pre @ xs" ys post] by simp
  have "merge_loops key xs ys 0 0 (int (length pre)) (pre @ (xs @ ys) @ post) =
        Inr (pre @ mrg key (drop 0 xs) (drop 0 ys) @ post)"
    by (rule merge_loops_append) simp
  then show ?thesis
    by (simp add: merge_def merge_loops_def L R)
qed

lemma mergeSort_append:
  "mergeSort key (int (length pre)) (int (length pre) + int (length xs) - 1) (pre @ xs @ post) =
   Inr (pre @ sort_key key xs @ post)"
proof (induction "length xs" arbitrary: pre xs post rule: less_induct)
  case less
  let ?l = "int (length pre)" and ?r = "int (length pre) + int (length xs) - 1"
  show ?case
  proof (cases "length xs \<le> 1")
    case True
    then have "sort_key key xs = xs"
      by (cases xs) auto
    with True show ?thesis
      by (simp add: mergeSort.simps [of key ?l ?r])
  next
    case False
    define h where "h = (length xs + 1) div 2"
    define a where "a = take h xs"
    define b where "b = drop h xs"
    have h: "0 < h" "h < length xs" using False by (auto simp: h_def)
    have ab: "xs = a @ b" "length a = h" "length b = length xs - h"
      using h by (auto simp: a_def b_def)
    define m where "m = ?l + (?r - ?l) div 2"
    have m: "m = ?l + int (length a) - 1"
      using False ab(2) by (simp add: m_def h_def)
    have unfold: "mergeSort key ?l ?r rs =
        bindE (mergeSort key ?l m rs) (\<lambda>rs. bindE (mergeSort key (m + 1) ?r rs)
          (\<lambda>rs. merge key ?l m ?r rs))" for rs
      using False by (subst mergeSort.simps) (simp add: m_def Let_def)
    have 1: "mergeSort key ?l m (pre @ xs @ post) = Inr (pre @ sort_key key a @ b @ post)"
      using h ab(2) less [of a pre "b @ post"] by (simp add: m ab(1))
    have 2: "mergeSort key (m + 1) ?r (pre @ sort_key key a @ b @ post) =
          Inr (pre @ sort_key key a @ sort_key key b @ post)"
      using h ab(2,3) less [of b "pre @ sort_key key a" post] by (simp add: m)
    have 3: "merge key ?l m ?r (pre @ sort_key key a @ sort_key key b @ post) =
          Inr (pre @ mrg key (sort_key key a) (sort_key key b) @ post)"
      using merge_append [of key pre "sort_key key a" "sort_key key b" post] ab(2,3) h by (simp add: m)
    have "mrg key (sort_key key a) (sort_key key b) = sort_key key xs"
      unfolding ab(1) by (rule mrg_sort_key)
    then show ?thesis
      by (simp only: unfold 1 2 3 bindE.simps)
  qed
qed

section \<open>Threads that own disjoint blocks of the array\<close>

text \<open>
  The contract between a phase and its threads: thread \<open>i\<close> of a configuration \<open>c\<close>
  rewrites its own block, whatever the other threads have already done to theirs.
\<close>

locale fork_join =
  fixes run :: "'c \<Rightarrow> nat \<Rightarrow> record_ptr list \<Rightarrow> record_ptr list res"
    and width :: "'c \<Rightarrow> nat"
    and before :: "'c \<Rightarrow> nat \<Rightarrow> record_ptr list"
    and after :: "'c \<Rightarrow> nat \<Rightarrow> record_ptr list"
    and rest :: "'c \<Rightarrow> record_ptr list"
    and ok :: "'c \<Rightarrow> bool"
  assumes length_after: "ok c \<Longrightarrow> i < width c \<Longrightarrow> length (after c i) = length (before c i)"
    and run_block: "ok c \<Longrightarrow> i < width c \<Longrightarrow> length bs = width c \<Longrightarrow>
      (\<And>j. j < width c \<Longrightarrow> length (bs ! j) = length (before c j)) \<Longrightarrow> bs ! i = before c i \<Longrightarrow>
      run c i (concat bs @ rest c) = Inr (concat (bs[i := after c i]) @ rest c)"
begin

lemma run_some:
  assumes "ok c" and "distinct ts" and "set ts \<subseteq> {..<width c}" and "length bs = width c"
    and "\<And>j. j < width c \<Longrightarrow> length (bs ! j) = length (before c j)"
    and "\<And>t. t \<in> set ts \<Longrightarrow> bs ! t = before c t"
  shows "run_threads (run c) ts (concat bs @ rest c) =
    Inr (concat (map (\<lambda>j. if j \<in> set ts then after c j else bs ! j) [0..<width c]) @ rest c)"
  using assms
proof (induction ts arbitrary: bs)
  case Nil
  then show ?case by (simp add: map_nth [of bs, simplified Nil.prems(4)])
next
  case (Cons t ts)
  have t: "t < width c" using Cons.prems by simp
  let ?bs = "bs[t := after c t]"
  have "run c t (concat bs @ rest c) = Inr (concat ?bs @ rest c)"
    using Cons.prems t by (intro run_block) auto
  moreover have "run_threads (run c) ts (concat ?bs @ rest c) =
    Inr (concat (map (\<lambda>j. if j \<in> set ts then after c j else ?bs ! j) [0..<width c]) @ rest c)"
  proof (rule Cons.IH)
    show "length (?bs ! j) = length (before c j)" if "j < width c" for j
      using Cons.prems that t by (cases "j = t") (auto simp: length_after)
    show "?bs ! u = before c u" if "u \<in> set ts" for u
      using Cons.prems that by (cases "u = t") auto
  qed (use Cons.prems in auto)
  moreover have "map (\<lambda>j. if j \<in> set ts then after c j else ?bs ! j) [0..<width c] =
      map (\<lambda>j. if j \<in> set (t # ts) then after c j else bs ! j) [0..<width c]"
    using Cons.prems by (auto simp: nth_list_update)
  ultimately show ?case by simp
qed

lemma any_order:
  assumes "ok c" and perm: "mset ts = mset [0..<width c]"
  shows "run_threads (run c) ts (concat (map (before c) [0..<width c]) @ rest c) =
    Inr (concat (map (after c) [0..<width c]) @ rest c)"
proof -
  have ts: "set ts = {..<width c}"
    using mset_eq_setD [OF perm] by (simp only: set_upt lessThan_atLeast0)
  have "distinct ts"
    using mset_eq_imp_distinct_iff [OF perm] by simp
  then have "run_threads (run c) ts (concat (map (before c) [0..<width c]) @ rest c) =
    Inr (concat (map (\<lambda>j. if j \<in> set ts then after c j
      else map (before c) [0..<width c] ! j) [0..<width c]) @ rest c)"
    using assms(1) ts by (intro run_some) auto
  moreover have "map (\<lambda>j. if j \<in> set ts then after c j
      else map (before c) [0..<width c] ! j) [0..<width c] = map (after c) [0..<width c]"
    using ts by (intro map_cong) auto
  ultimately show ?thesis by simp
qed

end

lemma concat_at: "i < length bs \<Longrightarrow> concat bs = concat (take i bs) @ bs ! i @ concat (drop (Suc i) bs)"
  by (metis append_assoc concat.simps(2) concat_append id_take_nth_drop append_Cons append_Nil)

lemma concat_update_at:
  "i < length bs \<Longrightarrow>
   concat (bs[i := v]) = concat (take i bs) @ v @ concat (drop (Suc i) bs)"
  by (simp add: upd_conv_take_nth_drop)

lemma length_concat_take:
  assumes "\<And>j. j < i \<Longrightarrow> length (bs ! j) = s" and "i \<le> length bs"
  shows "length (concat (take i bs)) = i * s"
  using assms
proof (induction i)
  case (Suc i)
  then show ?case by (simp add: take_Suc_conv_app_nth)
qed simp

lemma length_concat_cong:
  assumes "length bs = length cs" and "\<And>j. j < length cs \<Longrightarrow> length (bs ! j) = length (cs ! j)"
  shows "length (concat bs) = length (concat cs)"
proof -
  have "map length bs = map length cs"
    using assms by (auto intro: nth_equalityI)
  then show ?thesis by (simp add: length_concat)
qed

text \<open>An array cut into blocks that all have the length \<open>s\<close>, but for the last one.\<close>

definition blocks :: "nat \<Rightarrow> record_ptr list list \<Rightarrow> bool" where
  "blocks s segs \<longleftrightarrow> segs \<noteq> [] \<and> (\<forall>i < length segs - 1. length (segs ! i) = s)"

subsection \<open>The sorting phase\<close>

definition sort_phase_ok :: "(record_ptr \<Rightarrow> int) \<times> record_ptr list list \<Rightarrow> bool" where
  "sort_phase_ok c \<longleftrightarrow> blocks (length (concat (snd c)) div length (snd c)) (snd c)"

interpretation sort_phase: fork_join
  "\<lambda>c i. threads_mergeSort (fst c) (int (length (concat (snd c)))) (int (length (snd c))) i"
  "\<lambda>c. length (snd c)"
  "\<lambda>c i. snd c ! i"
  "\<lambda>c i. sort_key (fst c) (snd c ! i)"
  "\<lambda>c. []"
  sort_phase_ok
proof
  fix c :: "(record_ptr \<Rightarrow> int) \<times> record_ptr list list" and i :: nat and bs :: "record_ptr list list"
  assume ok: "sort_phase_ok c" and i: "i < length (snd c)" and l: "length bs = length (snd c)"
    and same: "\<And>j. j < length (snd c) \<Longrightarrow> length (bs ! j) = length (snd c ! j)"
    and bi: "bs ! i = snd c ! i"
  obtain key segs where c: "c = (key, segs)" by (cases c)
  let ?n = "length (concat segs)" and ?p = "length segs"
  let ?s = "?n div ?p"
  let ?pre = "concat (take i bs)" and ?post = "concat (drop (Suc i) bs)"
  have s: "length (segs ! j) = ?s" if "j < ?p - 1" for j
    using ok that by (simp add: sort_phase_ok_def blocks_def c)
  have pre: "length ?pre = i * ?s"
    using i l same s by (intro length_concat_take) (auto simp: c)
  have n: "length (concat bs) = ?n"
    using l same by (intro length_concat_cong) (auto simp: c)
  have split: "concat bs = ?pre @ bs ! i @ ?post"
    using i l by (intro concat_at) (simp add: c)
  have right: "(if int i = int ?p - 1 then int ?n - 1 else int i * (int ?n div int ?p) + int ?n div int ?p - 1)
      = int (length ?pre) + int (length (bs ! i)) - 1"
  proof (cases "i = ?p - 1")
    case True
    then have "?post = []" using l i by (simp add: c)
    then have "?n = length ?pre + length (bs ! i)"
      using n split by (metis append_Nil2 length_append)
    then show ?thesis using True i by (simp add: c)
  next
    case False
    then have "int i \<noteq> int ?p - 1" and "i < ?p - 1" using i by (auto simp: c)
    then show ?thesis using s [of i] bi pre by (simp add: c zdiv_int)
  qed
  have "threads_mergeSort key (int ?n) (int ?p) i (concat bs) =
        mergeSort key (int (length ?pre)) (int (length ?pre) + int (length (bs ! i)) - 1) (concat bs)"
    unfolding threads_mergeSort_def Let_def right by (simp add: pre zdiv_int)
  also have "\<dots> = Inr (?pre @ sort_key key (bs ! i) @ ?post)"
    by (subst split) (rule mergeSort_append)
  also have "\<dots> = Inr (concat (bs[i := sort_key key (segs ! i)]))"
    using i l bi by (simp add: concat_update_at c)
  finally show "threads_mergeSort (fst c) (int (length (concat (snd c)))) (int (length (snd c))) i
        (concat bs @ []) = Inr (concat (bs[i := sort_key (fst c) (snd c ! i)]) @ [])"
    by (simp add: c)
qed simp

subsection \<open>A round of merges\<close>

text \<open>
  A round pairs neighbouring blocks; with an odd number of them the last one stays as it is.
\<close>

fun pairs :: "'a list \<Rightarrow> ('a \<times> 'a) list" where
  "pairs (a # b # xs) = (a, b) # pairs xs"
| "pairs xs = []"

fun unpaired :: "'a list \<Rightarrow> 'a list" where
  "unpaired (a # b # xs) = unpaired xs"
| "unpaired xs = xs"

lemma length_pairs [simp]: "length (pairs xs) = length xs div 2"
  by (induction xs rule: pairs.induct) auto

lemma length_unpaired [simp]: "length (unpaired xs) = length xs mod 2"
  by (induction xs rule: pairs.induct) auto

lemma nth_pairs: "i < length xs div 2 \<Longrightarrow> pairs xs ! i = (xs ! (2 * i), xs ! (2 * i + 1))"
proof (induction xs arbitrary: i rule: pairs.induct)
  case (1 a b xs)
  then show ?case by (cases i) auto
qed auto

lemma concat_pairs:
  "concat (map (\<lambda>(a, b). a @ b) (pairs segs)) @ concat (unpaired segs) = concat segs"
  by (induction segs rule: pairs.induct) auto

record merge_cfg =
  mkey :: "record_ptr \<Rightarrow> int"
  bsize :: nat
  segs :: "record_ptr list list"

definition merge_phase_ok :: "merge_cfg \<Rightarrow> bool" where
  "merge_phase_ok c \<longleftrightarrow> blocks (bsize c) (segs c)"

abbreviation merge_before :: "merge_cfg \<Rightarrow> nat \<Rightarrow> record_ptr list" where
  "merge_before c i \<equiv> (case pairs (segs c) ! i of (a, b) \<Rightarrow> a @ b)"

abbreviation merge_after :: "merge_cfg \<Rightarrow> nat \<Rightarrow> record_ptr list" where
  "merge_after c i \<equiv> (case pairs (segs c) ! i of (a, b) \<Rightarrow> mrg (mkey c) a b)"

abbreviation merge_thread :: "merge_cfg \<Rightarrow> nat \<Rightarrow> record_ptr list \<Rightarrow> record_ptr list res" where
  "merge_thread c i \<equiv> threads_merge (mkey c) (int (length (concat (segs c))))
     \<lparr>curr = int i, num = int (2 * bsize c), len = int (length (segs c))\<rparr>"

lemma merge_blocks:
  assumes "merge_phase_ok c" and "i < length (segs c) div 2"
  obtains a b where "pairs (segs c) ! i = (a, b)" and "length a = bsize c"
    and "length (segs c) mod 2 \<noteq> 0 \<or> i < length (segs c) div 2 - 1 \<Longrightarrow> length b = bsize c"
proof
  show "pairs (segs c) ! i = (segs c ! (2 * i), segs c ! (2 * i + 1))"
    by (rule nth_pairs [OF assms(2)])
  have sz: "length (segs c ! j) = bsize c" if "j < length (segs c) - 1" for j
    using assms(1) that by (simp add: merge_phase_ok_def blocks_def)
  show "length (segs c ! (2 * i)) = bsize c"
    using assms(2) by (intro sz) auto
  show "length (segs c ! (2 * i + 1)) = bsize c"
    if "length (segs c) mod 2 \<noteq> 0 \<or> i < length (segs c) div 2 - 1"
    using assms(2) that by (intro sz) presburger
qed

interpretation merge_phase: fork_join
  merge_thread
  "\<lambda>c. length (segs c) div 2"
  merge_before
  merge_after
  "\<lambda>c. concat (unpaired (segs c))"
  merge_phase_ok
proof
  fix c :: merge_cfg and i :: nat
  show "length (merge_after c i) = length (merge_before c i)"
    by (simp split: prod.split)
next
  fix c :: merge_cfg and i :: nat and bs :: "record_ptr list list"
  assume ok: "merge_phase_ok c" and i: "i < length (segs c) div 2"
    and l: "length bs = length (segs c) div 2"
    and same: "\<And>j. j < length (segs c) div 2 \<Longrightarrow> length (bs ! j) = length (merge_before c j)"
    and bi: "bs ! i = merge_before c i"
  let ?s = "bsize c" and ?w = "length (segs c) div 2" and ?rest = "concat (unpaired (segs c))"
  let ?n = "length (concat (segs c))"
  let ?pre = "concat (take i bs)" and ?post = "concat (drop (Suc i) bs) @ ?rest"
  obtain a b where ab: "pairs (segs c) ! i = (a, b)" "length a = ?s"
    and b: "length (segs c) mod 2 \<noteq> 0 \<or> i < ?w - 1 \<Longrightarrow> length b = ?s"
    using merge_blocks [OF ok i] by metis
  have "length (bs ! j) = 2 * ?s" if "j < i" for j
  proof -
    have "j < ?w" "j < ?w - 1" using that i by auto
    with same show ?thesis
      by (auto elim!: merge_blocks [OF ok, of j])
  qed
  then have pre: "length ?pre = i * (2 * ?s)"
    using i l by (intro length_concat_take) auto
  have split: "concat bs @ ?rest = ?pre @ a @ b @ ?post"
    using concat_at [of i bs] i l bi ab by simp
  have "length (concat bs) = length (concat (map (\<lambda>(a, b). a @ b) (pairs (segs c))))"
    using l same by (intro length_concat_cong) auto
  then have n: "length (concat bs @ ?rest) = ?n"
    by (metis concat_pairs length_append)
  define t :: threads_t where
    "t = \<lparr>curr = int i, num = int (2 * ?s), len = int (length (segs c))\<rparr>"
  have right: "(if \<not> (len t mod 2 \<noteq> 0 \<or> curr t \<noteq> len t div 2 - 1) then int ?n - 1
      else curr t * num t + num t - 1) = int (length ?pre) + int (length a) + int (length b) - 1"
  proof (cases "length (segs c) mod 2 \<noteq> 0 \<or> i < ?w - 1")
    case True
    then have "len t mod 2 \<noteq> 0 \<or> curr t \<noteq> len t div 2 - 1"
      using i unfolding t_def by (simp, presburger)
    then show ?thesis using b [OF True] ab(2) pre by (simp add: t_def)
  next
    case False
    then have last: "\<not> (len t mod 2 \<noteq> 0 \<or> curr t \<noteq> len t div 2 - 1)"
      using i unfolding t_def by (simp, presburger)
    have "unpaired (segs c) = []"
      using False length_unpaired [of "segs c"] by (simp del: length_unpaired)
    moreover have "drop (Suc i) bs = []" using False i l by auto
    ultimately have "concat bs @ ?rest = ?pre @ a @ b"
      using split by simp
    then have "?n = length ?pre + length a + length b"
      using n by (metis add.assoc length_append)
    with last show ?thesis by simp
  qed
  have "threads_merge (mkey c) (int ?n) t (concat bs @ ?rest) =
      merge (mkey c) (int (length ?pre)) (int (length ?pre) + int (length a) - 1)
        (int (length ?pre) + int (length a) + int (length b) - 1) (concat bs @ ?rest)"
    unfolding threads_merge_def Let_def right by (simp add: t_def pre ab(2))
  also have "\<dots> = Inr (?pre @ mrg (mkey c) a b @ ?post)"
    by (subst split) (rule merge_append)
  also have "\<dots> = Inr (concat (bs[i := merge_after c i]) @ ?rest)"
    using i l ab by (simp add: concat_update_at)
  finally show "merge_thread c i (concat bs @ ?rest) =
      Inr (concat (bs[i := merge_after c i]) @ ?rest)"
    by (simp add: t_def)
qed

definition pairup :: "record_ptr list list \<Rightarrow> record_ptr list list" where
  "pairup os = map (\<lambda>(a, b). a @ b) (pairs os) @ unpaired os"

lemma length_pairup: "length (pairup os) = length os - length os div 2"
  by (simp add: pairup_def) presburger

lemma concat_pairup [simp]: "concat (pairup os) = concat os"
  by (simp add: pairup_def concat_pairs)

lemma blocks_pairup: "blocks s os \<Longrightarrow> blocks (2 * s) (pairup os)"
proof -
  assume b: "blocks s os"
  have "length (pairup os ! i) = 2 * s" if i: "i < length (pairup os) - 1" for i
  proof -
    have w: "i < length os div 2" and "2 * i + 1 < length os - 1"
      using i by (auto simp: length_pairup)
    then show ?thesis
      using b by (simp add: pairup_def nth_append nth_pairs blocks_def)
  qed
  moreover have "pairup os \<noteq> []"
    using b by (cases os rule: pairs.cases) (auto simp: pairup_def blocks_def)
  ultimately show ?thesis by (simp add: blocks_def)
qed

lemma pairs_map: "pairs (map f os) = map (\<lambda>(a, b). (f a, f b)) (pairs os)"
  by (induction os rule: pairs.induct) auto

lemma unpaired_map: "unpaired (map f os) = map f (unpaired os)"
  by (induction os rule: pairs.induct) auto

lemma blocks_sort_key: "blocks s os \<Longrightarrow> blocks s (map (sort_key key) os)"
  by (auto simp: blocks_def)

lemma merge_round:
  assumes "blocks s os" and "mset ts = mset [0..<length os div 2]"
  shows "run_threads (\<lambda>i. threads_merge key (int (length (concat os)))
           \<lparr>curr = int i, num = 2 * int s, len = int (length os)\<rparr>) ts
           (concat (map (sort_key key) os)) =
         Inr (concat (map (sort_key key) (pairup os)))"
proof -
  define c where "c = \<lparr>mkey = key, bsize = s, segs = map (sort_key key) os\<rparr>"
  have ok: "merge_phase_ok c"
    using assms(1) by (simp add: c_def merge_phase_ok_def blocks_sort_key)
  have n: "length (concat (segs c)) = length (concat os)"
    by (auto simp: c_def intro: length_concat_cong)
  have nth: "map f [0..<length ps] = map (\<lambda>p. g p) ps"
    if "\<And>i. i < length ps \<Longrightarrow> f i = g (ps ! i)" for f g and ps :: "(record_ptr list \<times> record_ptr list) list"
    using that by (auto intro: nth_equalityI)
  have "map (merge_before c) [0..<length (pairs (segs c))] = map (\<lambda>(a, b). a @ b) (pairs (segs c))"
    by (rule nth) simp
  then have "concat (map (merge_before c) [0..<length (segs c) div 2]) @ concat (unpaired (segs c)) =
      concat (map (sort_key key) os)"
    using concat_pairs [of "segs c"] by (simp add: c_def)
  moreover have "map (merge_after c) [0..<length (pairs (segs c))] =
      map (\<lambda>(a, b). mrg key a b) (pairs (segs c))"
    by (rule nth) (simp add: c_def)
  then have "concat (map (merge_after c) [0..<length (segs c) div 2]) @ concat (unpaired (segs c)) =
      concat (map (sort_key key) (pairup os))"
    by (simp add: c_def pairup_def pairs_map unpaired_map mrg_sort_key case_prod_beta' comp_def)
  ultimately show ?thesis
    using merge_phase.any_order [OF ok, of ts] assms(2) n by (simp add: c_def)
qed

lemma merge_rounds_sorts:
  assumes "blocks s os" and "\<And>k. mset (sched k) = mset [0..<k]"
  shows "merge_rounds sched key (int (length (concat os))) (length os) (2 * int s)
           (concat (map (sort_key key) os)) = Inr (sort_key key (concat os))"
  using assms(1)
proof (induction "length os" arbitrary: s os rule: less_induct)
  case less
  show ?case
  proof (cases "0 < length os div 2")
    case True
    have "merge_rounds sched key (int (length (concat (pairup os)))) (length (pairup os))
        (2 * int (2 * s)) (concat (map (sort_key key) (pairup os))) =
        Inr (sort_key key (concat (pairup os)))"
      using True less.prems by (intro less.hyps blocks_pairup) (auto simp: length_pairup)
    then show ?thesis
      using True merge_round [OF less.prems assms(2), of key]
      by (subst merge_rounds.simps) (simp add: length_pairup Let_def mult.commute)
  next
    case False
    then obtain x where "os = [x]"
      using less.prems by (cases os rule: pairs.cases) (auto simp: blocks_def)
    then show ?thesis by (simp add: merge_rounds.simps)
  qed
qed

section \<open>The whole program\<close>

text \<open>The array cut the way the sorting threads divide it.\<close>

definition cut :: "nat \<Rightarrow> record_ptr list \<Rightarrow> record_ptr list list" where
  "cut p xs = (let q = length xs div p in
     map (\<lambda>i. take q (drop (i * q) xs)) [0..<p - 1] @ [drop ((p - 1) * q) xs])"

lemma concat_chunks: "concat (map (\<lambda>i. take q (drop (i * q) xs)) [0..<m]) = take (m * q) xs"
proof (induction m)
  case (Suc m)
  have "take (Suc m * q) xs = take (m * q + q) xs" by (simp add: add.commute)
  also have "\<dots> = take (m * q) xs @ take q (drop (m * q) xs)" by (rule take_add)
  finally show ?case using Suc by simp
qed simp

lemma cut_props:
  assumes "0 < p" and "p \<le> length xs"
  shows "concat (cut p xs) = xs" and "length (cut p xs) = p"
    and "blocks (length xs div p) (cut p xs)"
proof -
  let ?q = "length xs div p"
  show c: "concat (cut p xs) = xs"
    by (simp add: cut_def Let_def concat_chunks)
  show l: "length (cut p xs) = p"
    using assms by (simp add: cut_def Let_def)
  have "length (take ?q (drop (i * ?q) xs)) = ?q" if "i < p - 1" for i
  proof -
    have "(i + 1) * ?q \<le> p * ?q" using that by (intro mult_le_mono1) simp
    also have "\<dots> \<le> length xs" by simp
    finally show ?thesis by simp
  qed
  then show "blocks (length xs div p) (cut p xs)"
    using assms l by (auto simp: blocks_def cut_def Let_def nth_append)
qed

lemma sort_phase_all:
  assumes "0 < p" and "p \<le> length xs" and "mset ts = mset [0..<p]"
  shows "run_threads (threads_mergeSort key (int (length xs)) (int p)) ts xs =
         Inr (concat (map (sort_key key) (cut p xs)))"
proof -
  note c = cut_props [OF assms(1,2)]
  have "sort_phase_ok (key, cut p xs)"
    by (simp add: sort_phase_ok_def c)
  moreover have "map ((!) (cut p xs)) [0..<p] = cut p xs"
    using map_nth [of "cut p xs"] c(2) by simp
  moreover have "map (\<lambda>i. sort_key key (cut p xs ! i)) [0..<p] = map (sort_key key) (cut p xs)"
    using c(2) by (auto intro: nth_equalityI)
  ultimately show ?thesis
    using sort_phase.any_order [of "(key, cut p xs)" ts] assms(3) c(1,2) by simp
qed

lemma multithread_sort_sorts:
  assumes "0 < nprocs" and "\<And>k. mset (sched k) = mset [0..<k]"
  shows "multithread_sort sched nprocs key records = Inr (sort_key key records)"
proof -
  define p where "p = (if length records \<le> 100 \<or> nprocs \<ge> length records then 1 else nprocs)"
  have unfold: "multithread_sort sched nprocs key records =
      bindE (run_threads (threads_mergeSort key (int (length records)) (int p)) (sched p) records)
        (\<lambda>rs. if p > 1 then merge_rounds sched key (int (length records)) p
                 (int (length records) div int p * 2) rs else Inr rs)"
    unfolding multithread_sort_def Let_def p_def [symmetric] ..
  show ?thesis
  proof (cases "p \<le> length records")
    case True
    have p: "0 < p" using assms(1) by (simp add: p_def)
    note c = cut_props [OF p True]
    have "merge_rounds sched key (int (length records)) p (int (length records) div int p * 2)
        (concat (map (sort_key key) (cut p records))) = Inr (sort_key key records)"
      using merge_rounds_sorts [OF c(3) assms(2), of key] c(1,2) by (simp add: zdiv_int mult.commute)
    moreover have "\<not> 1 < p \<Longrightarrow> cut p records = [records]"
      using p by (simp add: cut_def Let_def)
    ultimately show ?thesis
      by (auto simp: unfold sort_phase_all [OF p True assms(2)])
  next
    case False
    then have e: "records = []" "p = 1"
      using assms(1) by (cases records, auto simp: p_def split: if_splits)
    have "mset (sched 1) = {#0#}" using assms(2) [of 1] by simp
    then have "sched 1 = [0]" by simp
    with e show ?thesis
      unfolding unfold by (simp add: threads_mergeSort_def mergeSort.simps)
  qed
qed

section \<open>Properties\<close>



text \<open>
  \<open>mergeSort(left, right)\<close> on a range inside the array sorts exactly that range, stably,
  leaves every other element in place and stays in bounds.
\<close>

theorem mergeSort_range:
  assumes "0 \<le> left" and "left \<le> right" and "nat right < length records"
  shows "mergeSort key left right records =
    Inr (take (nat left) records @
         sort_key key (take (nat (right - left + 1)) (drop (nat left) records)) @
         drop (nat (right + 1)) records)"
proof -
  let ?pre = "take (nat left) records" and ?post = "drop (nat (right + 1)) records"
  let ?xs = "take (nat (right - left + 1)) (drop (nat left) records)"
  have l: "int (length ?pre) = left" using assms by simp
  have r: "right = int (length ?pre) + int (length ?xs) - 1" using assms by simp
  have n: "nat (right - left + 1) + nat left = nat (right + 1)"
    using assms by simp
  have "drop (nat (right - left + 1)) (drop (nat left) records) = ?post"
    by (simp only: drop_drop n)
  then have "records = ?pre @ ?xs @ ?post"
    by (metis append_take_drop_id)
  then show ?thesis
    using mergeSort_append [of key ?pre ?xs ?post] l r by metis
qed

theorem mergeSort_range_witness:
  "mergeSort int 1 3 [9, 7, 3, 5, 1] = Inr [9, 3, 5, 7, 1]"
  using mergeSort_range [of 1 3 "[9, 7, 3, 5, 1]" int] by (simp add: numeral_eq_Suc)

end
