(* ===== verification/Wish.thy ===== *)
theory Wish
  imports Prelude
begin

text \<open>
  The shell \<open>wish\<close> (\<open>p2a/wish.c\<close>): splitting of lines into tokens, the built-in commands, the
  \<open>if\<close> command and its nesting, the search path, redirection, and the batch and interactive
  loops.  What the operating system does (testing for an executable, running a program, changing
  the directory) is an argument.
\<close>

section \<open>State and environment\<close>

definition MaxCommandLen :: nat where "MaxCommandLen = 1000"
definition MaxTokenLen :: nat where "MaxTokenLen = 100"
definition MaxFileNameLen :: nat where "MaxFileNameLen = 50"
definition MaxPathLen :: nat where "MaxPathLen = 50"

text \<open>
  \<open>executable\<close> is \<open>access(path, X_OK) == 0\<close>; \<open>program path args out\<close> runs a program with
  its output redirected to \<open>out\<close> and gives its exit status, -1 when it did not exit normally,
  or nothing when \<open>execv\<close> failed; \<open>chdir\<close> says whether it succeeded; \<open>can_fork\<close> is whether
  \<open>fork\<close> gives a child.
\<close>

record 'w os =
  executable :: "string \<Rightarrow> 'w \<Rightarrow> bool"
  program :: "string \<Rightarrow> string list \<Rightarrow> string option \<Rightarrow> 'w \<Rightarrow> int option \<times> 'w"
  chdir :: "string \<Rightarrow> 'w \<Rightarrow> bool \<times> 'w"
  can_fork :: "'w \<Rightarrow> bool"

text \<open>
  \<open>messages\<close> counts the calls of \<open>Error\<close>, in the shell and in its children.  \<open>PATH\<close> is the
  search path, and \<open>PathUsed\<close> the number of entries of the array that have ever been filled:
  those past the path hold pointers that have been freed.
\<close>

record 'w shell =
  PATH :: "string list"
  PathUsed :: nat
  messages :: nat
  world :: 'w

text \<open>
  The shell stops by \<open>exit\<close>, or with a write past one of its arrays, which is named, or a use
  of freed memory; C leaves both undefined.
\<close>

datatype 'w stop = Exits int "'w shell" | Overrun string | UseAfterFree

definition Error :: "'w shell \<Rightarrow> int \<times> 'w shell" where
  "Error s = (0, s\<lparr>messages := messages s + 1\<rparr>)"

section \<open>Built-in commands\<close>

definition Cd :: "'w os \<Rightarrow> string list \<Rightarrow> 'w shell \<Rightarrow> int \<times> 'w shell" where
  "Cd os tokens s = (0, s\<lparr>world := snd (chdir os (tokens ! 1) (world s))\<rparr>)"

definition Path :: "string list \<Rightarrow> 'w shell \<Rightarrow> 'w stop + int \<times> 'w shell" where
  "Path tokens s =
     (if length tokens - 1 > MaxPathLen then Inl (Overrun ''PATH'')
      else Inr (0, s\<lparr>PATH := drop 1 tokens, PathUsed := max (PathUsed s) (length tokens - 1)\<rparr>))"

text \<open>The first directory of the path with the program; the name is built in 40 bytes.\<close>

fun AddtoPath :: "'w os \<Rightarrow> string list \<Rightarrow> string \<Rightarrow> 'w \<Rightarrow> 'w stop + string option" where
  "AddtoPath os [] Name w = Inr None"
| "AddtoPath os (d # ds) Name w =
     (let path = d @ ''/'' @ Name in
      if length path \<ge> 40 then Inl (Overrun ''path'')
      else if executable os path w then Inr (Some path)
      else AddtoPath os ds Name w)"

section \<open>Programs\<close>

text \<open>
  The child: it looks for the program, checks the redirection and becomes the program.  Every
  error of the child ends it with status 0.
\<close>

definition child :: "'w os \<Rightarrow> string list \<Rightarrow> 'w shell \<Rightarrow> 'w stop + int \<times> 'w shell" where
  "child os tokens s =
     bindE (AddtoPath os (PATH s) (tokens ! 0) (world s)) (\<lambda>r.
       case r of
         None \<Rightarrow> Inr (0, snd (Error s))
       | Some path \<Rightarrow>
           let cmd = takeWhile (\<lambda>t. t \<noteq> ''>'') tokens; i = length cmd; len = length tokens in
           if i \<noteq> len \<and> (i + 2 \<noteq> len \<or> tokens ! (i + 1) = ''>'') then Inr (0, snd (Error s))
           else let (status, w) = program os path cmd (if i \<noteq> len then Some (tokens ! (i + 1)) else None) (world s)
                in Inr (case status of None \<Rightarrow> 0 | Some n \<Rightarrow> n, s\<lparr>world := w\<rparr>))"

text \<open>The parent: \<open>fork\<close>, and \<open>wait\<close> for the child; only what the child did outside stays.\<close>

definition run_command :: "'w os \<Rightarrow> string list \<Rightarrow> 'w shell \<Rightarrow> 'w stop + int \<times> 'w shell" where
  "run_command os tokens s =
     (if \<not> can_fork os (world s) then Inl (Exits 1 (snd (Error s)))
      else bindE (child os tokens s) (\<lambda>(status, c).
             Inr (status, s\<lparr>messages := messages c, world := world c\<rparr>)))"

section \<open>The if command\<close>

definition CountIf :: "string list \<Rightarrow> int" where
  "CountIf tokens =
     (let IF = length (filter (\<lambda>t. t = ''if'') tokens);
          opr = length (filter (\<lambda>t. t = ''=='' \<or> t = ''!='') tokens);
          fi = length (filter (\<lambda>t. t = ''fi'') tokens);
          th = length (filter (\<lambda>t. t = ''then'') tokens)
      in if IF = opr \<and> opr = th \<and> th = fi \<and> fi = IF then 0 else 1)"

text \<open>
  The loop that looks for the operator: the last one when the nesting is to the left, the first
  one otherwise.  The result is \<open>isequal\<close> and the position.
\<close>

fun find_opr :: "bool \<Rightarrow> string list \<Rightarrow> nat \<Rightarrow> int \<Rightarrow> nat \<Rightarrow> int \<times> nat" where
  "find_opr isleft [] i isequal maxi = (isequal, if isleft then maxi else i)"
| "find_opr isleft (t # ts) i isequal maxi =
     (if t = ''!='' then
        if \<not> isleft then (0, i) else find_opr isleft ts (i + 1) 0 (max maxi i)
      else if t = ''=='' then
        if \<not> isleft then (1, i) else find_opr isleft ts (i + 1) 1 (max maxi i)
      else find_opr isleft ts (i + 1) isequal maxi)"

definition nested_left :: "string list \<Rightarrow> bool" where
  "nested_left tokens \<longleftrightarrow> tokens ! 1 = ''if'' \<or> tokens ! (length tokens - 2) \<noteq> ''fi''"

definition split_if :: "string list \<Rightarrow> int \<times> nat" where
  "split_if tokens = find_opr (nested_left tokens) (drop 1 tokens) 1 10086 0"

definition isdigit :: "char \<Rightarrow> bool" where
  "isdigit c \<longleftrightarrow> c \<in> set ''0123456789''"

fun show_nat :: "nat \<Rightarrow> string" where
  "show_nat n = (if n < 10 then [''0123456789'' ! n] else show_nat (n div 10) @ [''0123456789'' ! (n mod 10)])"

declare show_nat.simps [simp del]

definition show_int :: "int \<Rightarrow> string" where
  "show_int n = (if n < 0 then ''-'' @ show_nat (nat (- n)) else show_nat (nat n))"

text \<open>\<open>tokens[a..b-1]\<close>, as \<open>SubTokensCpy\<close> copies them\<close>

definition SubTokens :: "string list \<Rightarrow> nat \<Rightarrow> nat \<Rightarrow> string list" where
  "SubTokens tokens a b = take (b - a) (drop a tokens)"

function DoCmd :: "'w os \<Rightarrow> string list \<Rightarrow> 'w shell \<Rightarrow> 'w stop + int \<times> 'w shell" where
  "DoCmd os tokens s =
     (let len = length tokens in
      if len = 0 then Inr (0, s)
      else if tokens ! 0 = ''exit'' then
        if len > 1 then Inr (Error s) else Inl (Exits 0 s)
      else if tokens ! 0 = ''cd'' then
        if len = 1 \<or> len > 2 then Inr (Error s) else Inr (Cd os tokens s)
      else if tokens ! 0 = ''path'' then Path tokens s
      else if tokens ! 0 = ''if'' then
        if len < 6 \<or> tokens ! (len - 1) \<noteq> ''fi'' then Inr (Error s)
        else if CountIf tokens = 1 then Inr (Error s)
        else
          let (isequal, i) = split_if tokens; sublen = i - 1 in
          bindE (DoCmd os (SubTokens tokens 1 i) s) (\<lambda>(ret, s).
            let strvalue = show_int ret in
            if length strvalue \<ge> 5 then Inl (Overrun ''strvalue'')
            else if len < i + 4 then Inr (Error s)
            else if \<not> list_all isdigit (tokens ! (i + 1)) then Inr (Error s)
            else if tokens ! (i + 2) \<noteq> ''then'' then Inr (Error s)
            else if i + 3 = len - 1 \<and> tokens ! (i + 3) = ''fi'' then Inr (0, s)
            else if (isequal = 1 \<and> strvalue = tokens ! (sublen + 2)) \<or> (isequal = 0 \<and> strvalue \<noteq> tokens ! (sublen + 2))
            then DoCmd os (SubTokens tokens (i + 3) (len - 1)) s
            else Inr (0, s))
      else run_command os tokens s)"
  by pat_completeness auto
termination
  by (relation "measure (\<lambda>(os, tokens, s). length tokens)") (auto simp: SubTokens_def)

declare DoCmd.simps [simp del]

section \<open>Splitting a line into tokens\<close>

text \<open>
  \<open>strsep\<close> called until it returns the null pointer: the pieces between the delimiters, empty
  ones included.
\<close>

fun strsep_all :: "(char \<Rightarrow> bool) \<Rightarrow> string \<Rightarrow> string \<Rightarrow> string list" where
  "strsep_all delim acc [] = [acc]"
| "strsep_all delim acc (c # cs) =
     (if delim c then acc # strsep_all delim [] cs else strsep_all delim (acc @ [c]) cs)"

definition is_space :: "char \<Rightarrow> bool" where
  "is_space c \<longleftrightarrow> c \<in> {CHR '' '', CHR 0x09, CHR 0x0A}"

text \<open>\<open>Have\<close>: the position of the only occurrence, -1 for none, -2 for several.\<close>

definition Have :: "string \<Rightarrow> char \<Rightarrow> int" where
  "Have str c =
     (case filter (\<lambda>i. str ! i = c) [0..<length str] of
        [] \<Rightarrow> - 1 | [i] \<Rightarrow> int i | _ \<Rightarrow> - 2)"

text \<open>
  \<open>Tokens\<close> and \<open>TokenNum\<close>; \<open>dangling\<close> says that the counted tokens have been freed.
\<close>

record tokens =
  Tokens :: "string list"
  dangling :: bool

definition AddtoTokens :: "string \<Rightarrow> tokens \<Rightarrow> 'w stop + tokens" where
  "AddtoTokens str t =
     (if length (Tokens t) \<ge> MaxTokenLen then Inl (Overrun ''Tokens'') else Inr (t\<lparr>Tokens := Tokens t @ [str]\<rparr>))"

definition add_all :: "string list \<Rightarrow> tokens \<Rightarrow> 'w stop + tokens" where
  "add_all strs = forE AddtoTokens strs"

text \<open>A token with one \<open>>\<close> in it is up to three tokens.\<close>

definition cut_redirection :: "string \<Rightarrow> int \<Rightarrow> string list" where
  "cut_redirection token i =
     (let parts = strsep_all (\<lambda>c. c = CHR ''>'') [] token in
      if i = 0 then [''>'', parts ! 1]
      else if i = int (length token) - 1 then [parts ! 0, ''>'']
      else [parts ! 0, ''>'', parts ! 1])"

fun parse_line :: "'w os \<Rightarrow> string list \<Rightarrow> tokens \<Rightarrow> 'w shell \<Rightarrow> 'w stop + tokens \<times> 'w shell" where
  "parse_line os [] t s =
     (if Tokens t \<noteq> [] then
        if dangling t then Inl UseAfterFree
        else bindE (DoCmd os (Tokens t) s) (\<lambda>(r, s). Inr (t\<lparr>Tokens := []\<rparr>, s))
      else Inr (t, s))"
| "parse_line os (token # rest) t s =
     (if token = [] then parse_line os rest t s
      else if token \<noteq> ''>'' \<and> Have token (CHR ''>'') \<noteq> - 1 then
        if Have token (CHR ''>'') = - 2 then
          if dangling t then Inl UseAfterFree
          else Inr (t\<lparr>dangling := Tokens t \<noteq> []\<rparr>, snd (Error s))
        else bindE (add_all (cut_redirection token (Have token (CHR ''>''))) t) (\<lambda>t. parse_line os rest t s)
      else bindE (AddtoTokens token t) (\<lambda>t. parse_line os rest t s))"

fun Parsing :: "'w os \<Rightarrow> string list \<Rightarrow> tokens \<Rightarrow> 'w shell \<Rightarrow> 'w stop + tokens \<times> 'w shell" where
  "Parsing os [] t s = Inr (t, s)"
| "Parsing os (line # lines) t s =
     bindE (parse_line os (strsep_all is_space [] line) t s) (\<lambda>(t, s). Parsing os lines t s)"

section \<open>The shell\<close>

definition no_tokens :: tokens where
  "no_tokens = \<lparr> Tokens = [], dangling = False \<rparr>"

definition start_shell :: "'w \<Rightarrow> 'w shell" where
  "start_shell w = \<lparr> PATH = [''/bin''], PathUsed = 1, messages = 0, world = w \<rparr>"

text \<open>
  Batch mode: \<open>lines\<close> are the lines of the file, nothing when it cannot be opened.  At the end
  the program frees as many entries of the path as there were lines.
\<close>

definition GetBatchCommands :: "string \<Rightarrow> string list option \<Rightarrow> 'w shell \<Rightarrow> 'w stop + string list" where
  "GetBatchCommands Name lines s =
     (if length Name \<ge> MaxFileNameLen then Inl (Overrun ''FileName'')
      else case lines of
        None \<Rightarrow> Inl (Exits 1 (snd (Error s)))
      | Some ls \<Rightarrow> if length ls > MaxCommandLen then Inl (Overrun ''CommandLines'') else Inr ls)"

definition main_batch :: "'w os \<Rightarrow> string \<Rightarrow> string list option \<Rightarrow> 'w \<Rightarrow> 'w stop" where
  "main_batch os Name lines w =
     (case GetBatchCommands Name lines (start_shell w) of
        Inl r \<Rightarrow> r
      | Inr ls \<Rightarrow>
          (case Parsing os ls no_tokens (start_shell w) of
             Inl r \<Rightarrow> r
           | Inr (t, s) \<Rightarrow>
               if length ls > MaxPathLen then Overrun ''PATH''
               else if min (length ls) (PathUsed s) > length (PATH s) then UseAfterFree
               else Exits 0 s))"

text \<open>Interactive mode: one line at a time, until the end of the input.\<close>

fun main_interactive :: "'w os \<Rightarrow> string list \<Rightarrow> tokens \<Rightarrow> 'w shell \<Rightarrow> 'w stop" where
  "main_interactive os [] t s = Exits 0 s"
| "main_interactive os (line # lines) t s =
     (case Parsing os [line] t s of Inl r \<Rightarrow> r | Inr (t, s) \<Rightarrow> main_interactive os lines t s)"

definition wish_main :: "'w os \<Rightarrow> string list \<Rightarrow> (string \<Rightarrow> string list option) \<Rightarrow> string list \<Rightarrow> 'w \<Rightarrow> 'w stop" where
  "wish_main os argv fopen stdin w =
     (if length argv = 1 then main_interactive os stdin no_tokens (start_shell w)
      else if length argv = 2 then main_batch os (argv ! 1) (fopen (argv ! 1)) w
      else Exits 1 (snd (Error (start_shell w))))"

section \<open>The value of a command\<close>

text \<open>What \<open>wait\<close> gives of a program: \<open>WEXITSTATUS\<close> is a byte, and -1 stands for a signal.\<close>

definition status_ok :: "'w os \<Rightarrow> bool" where
  "status_ok os \<longleftrightarrow>
     (\<forall>p a r w. case fst (program os p a r w) of None \<Rightarrow> True | Some n \<Rightarrow> - 1 \<le> n \<and> n \<le> 255)"

definition value_ok :: "'w stop + int \<times> 'w shell \<Rightarrow> bool" where
  "value_ok r \<longleftrightarrow>
     (case r of Inl e \<Rightarrow> e \<noteq> Overrun ''strvalue'' | Inr (v, s) \<Rightarrow> - 1 \<le> v \<and> v \<le> 255)"

lemma show_nat_short: "n \<le> 255 \<Longrightarrow> length (show_nat n) \<le> 3"
proof -
  assume n: "n \<le> 255"
  have one: "length (show_nat k) = 1" if "k < 10" for k
    using that by (simp add: show_nat.simps [of k])
  have two: "length (show_nat k) \<le> 2" if "k < 100" for k
    using that one [of "k div 10"] by (simp add: show_nat.simps [of k])
  show ?thesis using n two [of "n div 10"] by (simp add: show_nat.simps [of n])
qed

lemma show_int_fits: "- 1 \<le> v \<Longrightarrow> v \<le> 255 \<Longrightarrow> length (show_int v) < 5"
proof -
  assume v: "- 1 \<le> v" "v \<le> 255"
  then have "nat (- v) \<le> 255" "nat v \<le> 255" by auto
  then show ?thesis
    using show_nat_short [of "nat (- v)"] show_nat_short [of "nat v"] by (auto simp: show_int_def)
qed

lemma value_ok_Inr [simp]: "value_ok (Inr (v, s)) \<longleftrightarrow> - 1 \<le> v \<and> v \<le> 255"
  by (simp add: value_ok_def)

lemma value_ok_Inl [simp]: "value_ok (Inl e) \<longleftrightarrow> e \<noteq> Overrun ''strvalue''"
  by (simp add: value_ok_def)

lemma value_ok_Error [simp]: "value_ok (Inr (Error s))"
  by (simp add: Error_def)

lemma value_ok_bind:
  assumes "value_ok m" "\<And>v s. m = Inr (v, s) \<Longrightarrow> - 1 \<le> v \<Longrightarrow> v \<le> 255 \<Longrightarrow> value_ok (f (v, s))"
  shows "value_ok (bindE m f)"
  using assms by (cases m) auto

lemma AddtoPath_overrun: "AddtoPath os ds n w = Inl e \<Longrightarrow> e = Overrun ''path''"
  by (induction ds) (auto simp: Let_def split: if_splits)

lemma status_range: "status_ok os \<Longrightarrow> program os p a r w = (Some n, w') \<Longrightarrow> - 1 \<le> n \<and> n \<le> 255"
  unfolding status_ok_def by (metis fst_conv option.simps(5))

lemma child_value: "status_ok os \<Longrightarrow> value_ok (child os tokens s)"
  by (cases "AddtoPath os (PATH s) (tokens ! 0) (world s)")
    (auto simp: child_def Let_def dest: AddtoPath_overrun status_range split: option.splits prod.splits)

lemma run_command_value: "status_ok os \<Longrightarrow> value_ok (run_command os tokens s)"
  by (auto simp: run_command_def intro: value_ok_bind child_value)

lemma builtin_value: "value_ok (Inr (Cd os tokens s))" "value_ok (Path tokens s)"
  by (simp_all add: Cd_def Path_def)

text \<open>An \<open>if\<close> that passes the first checks, and its second half.\<close>

definition if_shape :: "string list \<Rightarrow> bool" where
  "if_shape tokens \<longleftrightarrow> tokens ! 0 = ''if'' \<and> length tokens \<ge> 6 \<and> tokens ! (length tokens - 1) = ''fi'' \<and> CountIf tokens \<noteq> 1"

definition If_rest :: "'w os \<Rightarrow> string list \<Rightarrow> int \<Rightarrow> nat \<Rightarrow> int \<Rightarrow> 'w shell \<Rightarrow> 'w stop + int \<times> 'w shell" where
  "If_rest os tokens isequal i ret s =
     (if length (show_int ret) \<ge> 5 then Inl (Overrun ''strvalue'')
      else if length tokens < i + 4 then Inr (Error s)
      else if \<not> list_all isdigit (tokens ! (i + 1)) then Inr (Error s)
      else if tokens ! (i + 2) \<noteq> ''then'' then Inr (Error s)
      else if i + 3 = length tokens - 1 \<and> tokens ! (i + 3) = ''fi'' then Inr (0, s)
      else if (isequal = 1 \<and> show_int ret = tokens ! (i - 1 + 2)) \<or> (isequal = 0 \<and> show_int ret \<noteq> tokens ! (i - 1 + 2))
      then DoCmd os (SubTokens tokens (i + 3) (length tokens - 1)) s
      else Inr (0, s))"

lemma DoCmd_If:
  assumes "if_shape tokens" "split_if tokens = (isequal, i)"
  shows "DoCmd os tokens s =
    bindE (DoCmd os (SubTokens tokens 1 i) s) (\<lambda>(ret, s). If_rest os tokens isequal i ret s)"
  using assms unfolding if_shape_def
  by (subst DoCmd.simps) (auto simp: Let_def If_rest_def intro!: arg_cong [where f = "bindE _"])

lemma DoCmd_not_If:
  assumes "\<not> if_shape tokens" "status_ok os"
  shows "value_ok (DoCmd os tokens s)"
  using assms builtin_value run_command_value unfolding if_shape_def
  by (subst DoCmd.simps) (auto simp: Let_def)

lemma SubTokens_shorter:
  "length tokens > 0 \<Longrightarrow> length (SubTokens tokens 1 i) < length tokens"
  "length tokens > 0 \<Longrightarrow> length (SubTokens tokens i (length tokens - 1)) < length tokens"
  unfolding SubTokens_def length_take length_drop by linarith+

lemma DoCmd_value: "status_ok os \<Longrightarrow> value_ok (DoCmd os tokens s)"
proof (induction "length tokens" arbitrary: tokens s rule: less_induct)
  case less
  show ?case
  proof (cases "if_shape tokens")
    case True
    then have pos: "length tokens > 0" by (auto simp: if_shape_def)
    obtain isequal i where si: "split_if tokens = (isequal, i)" by fastforce
    have sub: "value_ok (DoCmd os (SubTokens tokens 1 i) s)" for s
      using less SubTokens_shorter [OF pos] by blast
    have sub2: "value_ok (DoCmd os (SubTokens tokens (i + 3) (length tokens - 1)) s)" for s
      using less SubTokens_shorter [OF pos] by blast
    have rest: "value_ok (If_rest os tokens isequal i v s)" if "- 1 \<le> v" "v \<le> 255" for v s
      using show_int_fits [OF that] sub2 by (simp add: If_rest_def)
    show ?thesis
      unfolding DoCmd_If [OF True si] by (rule value_ok_bind [OF sub]) (simp add: rest)
  qed (simp add: DoCmd_not_If less)
qed

section \<open>Nested if commands\<close>

text \<open>
  Commands as trees, nested in the second part of an \<open>if\<close>, the tokens that the user writes for
  them and what they mean.
\<close>

datatype cmd = Plain "string list" | Cond "string list" bool string cmd

fun cmd_tokens :: "cmd \<Rightarrow> string list" where
  "cmd_tokens (Plain ts) = ts"
| "cmd_tokens (Cond c eq k b) = ''if'' # c @ [if eq then ''=='' else ''!='', k, ''then''] @ cmd_tokens b @ [''fi'']"

fun cmd_eval :: "'w os \<Rightarrow> cmd \<Rightarrow> 'w shell \<Rightarrow> 'w stop + int \<times> 'w shell" where
  "cmd_eval os (Plain ts) s = DoCmd os ts s"
| "cmd_eval os (Cond c eq k b) s =
     bindE (DoCmd os c s) (\<lambda>(r, s). if (show_int r = k) = eq then cmd_eval os b s else Inr (0, s))"

definition keyword :: "string \<Rightarrow> bool" where
  "keyword t \<longleftrightarrow> t \<in> {''if'', ''=='', ''!='', ''fi'', ''then''}"

definition plain :: "string list \<Rightarrow> bool" where
  "plain ts \<longleftrightarrow> ts \<noteq> [] \<and> (\<forall>t\<in>set ts. \<not> keyword t)"

fun cmd_wf :: "cmd \<Rightarrow> bool" where
  "cmd_wf (Plain ts) \<longleftrightarrow> plain ts"
| "cmd_wf (Cond c eq k b) \<longleftrightarrow> plain c \<and> list_all isdigit k \<and> cmd_wf b"

definition occurs :: "(string \<Rightarrow> bool) \<Rightarrow> string list \<Rightarrow> nat" where
  "occurs P ts = length (filter P ts)"

lemma occurs_simps [simp]:
  "occurs P [] = 0" "occurs P (t # ts) = (if P t then 1 else 0) + occurs P ts" "occurs P (xs @ ys) = occurs P xs + occurs P ys"
  by (simp_all add: occurs_def)

lemma digits_not_keyword: "list_all isdigit k \<Longrightarrow> \<not> keyword k"
  by (auto simp: keyword_def isdigit_def)

lemma plain_counts:
  assumes "plain ts"
  shows "occurs (\<lambda>t. t = ''if'') ts = 0" "occurs (\<lambda>t. t = ''=='' \<or> t = ''!='') ts = 0"
    "occurs (\<lambda>t. t = ''fi'') ts = 0" "occurs (\<lambda>t. t = ''then'') ts = 0"
  using assms by (auto simp: occurs_def plain_def keyword_def filter_empty_conv)

fun depth :: "cmd \<Rightarrow> nat" where
  "depth (Plain ts) = 0"
| "depth (Cond c eq k b) = Suc (depth b)"

lemma cmd_counts:
  assumes "cmd_wf c"
  shows "occurs (\<lambda>t. t = ''if'') (cmd_tokens c) = depth c \<and> occurs (\<lambda>t. t = ''=='' \<or> t = ''!='') (cmd_tokens c) = depth c \<and>
    occurs (\<lambda>t. t = ''fi'') (cmd_tokens c) = depth c \<and> occurs (\<lambda>t. t = ''then'') (cmd_tokens c) = depth c"
  using assms
proof (induction c)
  case (Plain ts)
  then show ?case by (simp add: plain_counts)
next
  case (Cond c eq k b)
  then have "\<not> keyword k" using digits_not_keyword by simp
  with Cond show ?case by (auto simp: plain_counts keyword_def)
qed

lemma CountIf_cmd: "cmd_wf c \<Longrightarrow> CountIf (cmd_tokens c) = 0"
  using cmd_counts [of c] by (simp add: CountIf_def Let_def occurs_def)

lemma cmd_tokens_nonempty: "cmd_wf c \<Longrightarrow> cmd_tokens c \<noteq> []"
  by (cases c) (auto simp: plain_def)

lemma find_opr_skip:
  "\<forall>t\<in>set ts. t \<noteq> ''=='' \<and> t \<noteq> ''!='' \<Longrightarrow> find_opr l (ts @ us) i e m = find_opr l us (i + length ts) e m"
  by (induction ts arbitrary: i) auto

lemma plain_no_opr: "plain ts \<Longrightarrow> \<forall>t\<in>set ts. t \<noteq> ''=='' \<and> t \<noteq> ''!=''"
  by (auto simp: plain_def keyword_def)

lemma plain_no_keywords:
  "plain ts \<Longrightarrow> \<forall>t\<in>set ts. t \<noteq> ''=='' \<and> t \<noteq> ''!='' \<and> t \<noteq> ''fi'' \<and> t \<noteq> ''if''"
  by (auto simp: plain_def keyword_def)

lemma find_opr_none:
  "\<forall>t\<in>set ts. t \<noteq> ''=='' \<and> t \<noteq> ''!='' \<Longrightarrow> find_opr True ts i e m = (e, m)"
  using find_opr_skip [of ts True "[]" i e m] by auto

lemma nested_left_cmd:
  assumes "cmd_wf (Cond c eq k b)"
  shows "nested_left (cmd_tokens (Cond c eq k b)) \<longleftrightarrow> (case b of Plain ts \<Rightarrow> True | Cond _ _ _ _ \<Rightarrow> False)"
proof -
  have "c \<noteq> []" and c0: "c ! 0 \<noteq> ''if''" using assms plain_no_keywords [of c] by (auto simp: plain_def)
  then have t1: "cmd_tokens (Cond c eq k b) ! 1 \<noteq> ''if''" by (simp add: nth_append)
  have ne: "cmd_tokens b \<noteq> []" using assms cmd_tokens_nonempty by simp
  have "cmd_tokens (Cond c eq k b) ! (length (cmd_tokens (Cond c eq k b)) - 2) = List.last (cmd_tokens b)"
    using ne by (auto simp: nth_append last_conv_nth nth_Cons' numeral_eq_Suc)
  then show ?thesis
    unfolding nested_left_def using t1 assms plain_no_keywords by (cases b) (auto simp: plain_def)
qed

lemma cmd_tokens_nth:
  fixes b c k eq
  defines "tokens \<equiv> cmd_tokens (Cond c eq k b)"
  shows "tokens ! 0 = ''if''" "tokens ! (length tokens - 1) = ''fi''"
    "tokens ! (length c + 1) = (if eq then ''=='' else ''!='')"
    "tokens ! (length c + 2) = k" "tokens ! (length c + 3) = ''then''"
    "length tokens = length c + length (cmd_tokens b) + 5"
    "SubTokens tokens 1 (length c + 1) = c"
    "SubTokens tokens (length c + 4) (length tokens - 1) = cmd_tokens b"
  unfolding tokens_def by (auto simp: nth_append SubTokens_def nth_Cons' drop_Cons' numeral_eq_Suc)

lemma split_if_cmd:
  assumes "cmd_wf (Cond c eq k b)"
  shows "split_if (cmd_tokens (Cond c eq k b)) = (if eq then 1 else 0, length c + 1)"
proof -
  have c: "\<forall>t\<in>set c. t \<noteq> ''=='' \<and> t \<noteq> ''!=''" and k: "k \<noteq> ''==''" "k \<noteq> ''!=''"
    using assms plain_no_opr digits_not_keyword by (auto simp: keyword_def)
  show ?thesis
    unfolding split_if_def nested_left_cmd [OF assms]
  proof (cases b)
    case (Plain ts)
    then have "\<forall>t\<in>set (k # ''then'' # ts @ [''fi'']). t \<noteq> ''=='' \<and> t \<noteq> ''!=''"
      using assms plain_no_opr [of ts] k by auto
    then show "find_opr (case b of Plain ts \<Rightarrow> True | Cond _ _ _ _ \<Rightarrow> False) (drop 1 (cmd_tokens (Cond c eq k b))) 1 10086 0 =
        (if eq then 1 else 0, length c + 1)"
      using Plain by (simp add: find_opr_skip [OF c] find_opr_none)
  qed (simp add: find_opr_skip [OF c])
qed

lemma if_shape_cmd: "cmd_wf (Cond c eq k b) \<Longrightarrow> if_shape (cmd_tokens (Cond c eq k b))"
  using CountIf_cmd [of "Cond c eq k b"] cmd_tokens_nonempty [of b] cmd_tokens_nth [where c = c and eq = eq and k = k and b = b]
  by (cases c) (auto simp: if_shape_def plain_def Suc_le_eq simp del: cmd_tokens.simps)

text \<open>
  C39: an \<open>if\<close> command whose second command is an \<open>if\<close> command, to any depth, does what it
  says: the first command is run, its value is compared as text with the constant, and the body is
  run exactly when the comparison holds; the splitting by the first or the last operator finds the
  right one at each level.
\<close>

theorem wish_if_nested:
  assumes "status_ok os" "cmd_wf c"
  shows "DoCmd os (cmd_tokens c) s = cmd_eval os c s"
  using assms(2)
proof (induction c arbitrary: s)
  case (Plain ts)
  then show ?case by simp
next
  case (Cond c eq k b)
  note n = cmd_tokens_nth [where c = c and eq = eq and k = k and b = b]
  define i where "i = length c + 1"
  define e :: int where "e = (if eq then 1 else 0)"
  define tokens where "tokens = cmd_tokens (Cond c eq k b)"
  have at: "tokens ! (i + 1) = k" "tokens ! (i - 1 + 2) = k" "tokens ! (i + 2) = ''then''"
    "SubTokens tokens (i + 3) (length tokens - 1) = cmd_tokens b" "length tokens = i + length (cmd_tokens b) + 4"
    using n by (simp_all add: i_def tokens_def add.commute eval_nat_numeral del: cmd_tokens.simps)
  have "cmd_tokens b \<noteq> []" "list_all isdigit k" using Cond.prems cmd_tokens_nonempty by auto
  then have rest: "If_rest os tokens e i r t =
      (if (show_int r = k) = eq then cmd_eval os b t else Inr (0, t))" if "- 1 \<le> r" "r \<le> 255" for r t
    using at show_int_fits [OF that] Cond.IH Cond.prems by (simp add: If_rest_def e_def)
  have "DoCmd os tokens s =
      bindE (DoCmd os c s) (\<lambda>(r, t). If_rest os tokens e i r t)"
    unfolding tokens_def i_def e_def DoCmd_If [OF if_shape_cmd split_if_cmd, OF Cond.prems Cond.prems] n(7) ..
  moreover have "value_ok (DoCmd os c s)" by (rule DoCmd_value [OF assms(1)])
  ultimately show ?case
    unfolding tokens_def [symmetric] by (cases "DoCmd os c s") (auto simp: rest)
qed

text \<open>A world without programs but \<open>/bin/three\<close>, which exits with status 3.\<close>

definition os0 :: "unit os" where
  "os0 = \<lparr> executable = (\<lambda>p w. p = ''/bin/three''), program = (\<lambda>p a r w. (Some 3, ())),
     chdir = (\<lambda>d w. (True, ())), can_fork = (\<lambda>w. True) \<rparr>"

lemma status_ok_os0: "status_ok os0"
  by (simp add: status_ok_def os0_def)

lemma wish_if_nested_witness:
  "DoCmd os0 [''if'', ''three'', ''=='', ''3'', ''then'', ''if'', ''three'', ''!='', ''3'', ''then'', ''exit'', ''fi'', ''fi'']
     (start_shell ()) = Inr (0, start_shell ())"
proof -
  let ?c = "Cond [''three''] True ''3'' (Cond [''three''] False ''3'' (Plain [''exit'']))"
  have three: "DoCmd os0 [''three''] (start_shell ()) = Inr (3, start_shell ())"
    by (simp add: DoCmd.simps os0_def run_command_def child_def start_shell_def)
  have "cmd_wf ?c" by (simp add: plain_def keyword_def isdigit_def)
  from wish_if_nested [OF status_ok_os0 this] show ?thesis
    by (simp add: three show_int_def show_nat.simps)
qed



text \<open>
  A line that stops at a token with two redirections leaves the tokens before it counted but
  freed, and the next line uses them: \<open>TokenNum\<close> is not reset.
\<close>

theorem wish_keeps_freed_tokens:
  "main_interactive os0 [''three a>>b'', ''three''] no_tokens (start_shell ()) = UseAfterFree"
  by code_simp

text \<open>
  The name of a directory and a program of 40 bytes or more together runs past \<open>path\<close>.
\<close>

theorem wish_long_path:
  "length d + length n \<ge> 39 \<Longrightarrow> AddtoPath os (d # ds) n w = Inl (Overrun ''path'')"
  by simp

end
