(* ===== verification/Sh.thy ===== *)
theory Sh
  imports Prelude
begin

text \<open>
  The parser of the xv6 shell (\<open>sh.c\<close>).  A line is a buffer of characters and a position in it;
  past its end stands the NUL byte.  Commands refer to their words by the positions of their
  first character and of the character after their last one, as the structures of the code do;
  \<open>nulterminate\<close> makes C strings of them in the buffer.
\<close>

section \<open>Commands\<close>

definition MAXARGS :: nat where "MAXARGS = 10"
definition O_RDONLY :: int where "O_RDONLY = 0"
definition O_WRONLY_CREATE :: int where "O_WRONLY_CREATE = 0x201"

text \<open>\<open>struct execcmd\<close>, \<open>redircmd\<close>, \<open>pipecmd\<close>, \<open>listcmd\<close> and \<open>backcmd\<close>, over a type of words.\<close>

datatype (words: 'w) sh_cmd =
    EXEC "'w list"
  | REDIR "'w sh_cmd" 'w int nat
  | PIPE "'w sh_cmd" "'w sh_cmd"
  | LIST "'w sh_cmd" "'w sh_cmd"
  | BACK "'w sh_cmd"

type_synonym span = "nat \<times> nat"

text \<open>\<open>panic\<close> prints its argument and exits; \<open>NoFuel\<close> is excluded for \<open>parsecmd\<close> below.\<close>

datatype sh_error = ShPanic string | NoFuel

section \<open>Tokens\<close>

definition NUL :: char where "NUL = CHR 0x00"

definition char_at :: "string \<Rightarrow> nat \<Rightarrow> char" where
  "char_at b p = (if p < length b then b ! p else NUL)"

definition whitespace :: string where
  "whitespace = [CHR '' '', CHR 0x09, CHR 0x0D, CHR 0x0A, CHR 0x0B]"

definition symbols :: string where "symbols = ''<|>&;()''"

function skip_white :: "string \<Rightarrow> nat \<Rightarrow> nat" where
  "skip_white b s = (if s < length b \<and> char_at b s \<in> set whitespace then skip_white b (s + 1) else s)"
  by pat_completeness auto
termination by (relation "measure (\<lambda>(b, s). length b - s)") auto

declare skip_white.simps [simp del]

function skip_word :: "string \<Rightarrow> nat \<Rightarrow> nat" where
  "skip_word b s =
     (if s < length b \<and> char_at b s \<notin> set whitespace \<and> char_at b s \<notin> set symbols
      then skip_word b (s + 1) else s)"
  by pat_completeness auto
termination by (relation "measure (\<lambda>(b, s). length b - s)") auto

declare skip_word.simps [simp del]

text \<open>The result: the kind of the token, its span, and the position after it.\<close>

definition gettoken :: "string \<Rightarrow> nat \<Rightarrow> char \<times> span \<times> nat" where
  "gettoken b ps =
     (let q = skip_white b ps;
          c = char_at b q;
          (ret, s) =
            (if c = NUL then (c, q)
             else if c \<in> set ''|();&<'' then (c, q + 1)
             else if c = CHR ''>'' then
               if char_at b (q + 1) = CHR ''>'' then (CHR ''+'', q + 2) else (c, q + 1)
             else (CHR ''a'', skip_word b q))
      in (ret, (q, s), skip_white b s))"

definition peek :: "string \<Rightarrow> nat \<Rightarrow> string \<Rightarrow> bool \<times> nat" where
  "peek b ps toks =
     (let s = skip_white b ps in (char_at b s \<noteq> NUL \<and> char_at b s \<in> set toks, s))"

lemma skip_white_le: "s \<le> skip_white b s"
  by (induction b s rule: skip_white.induct) (subst skip_white.simps, auto)

lemma skip_white_bound: "s \<le> length b \<Longrightarrow> skip_white b s \<le> length b"
  by (induction b s rule: skip_white.induct) (subst skip_white.simps, auto)

lemma skip_word_le: "s \<le> skip_word b s"
  by (induction b s rule: skip_word.induct) (subst skip_word.simps, auto)

lemma skip_word_bound: "s \<le> length b \<Longrightarrow> skip_word b s \<le> length b"
  by (induction b s rule: skip_word.induct) (subst skip_word.simps, auto)

lemma skip_white_stops: "skip_white b s < length b \<Longrightarrow> char_at b (skip_white b s) \<notin> set whitespace"
  by (induction b s rule: skip_white.induct) (subst (asm) (2) skip_white.simps, subst skip_white.simps, auto split: if_splits)

lemma char_at_inside: "char_at b p \<noteq> NUL \<Longrightarrow> p < length b"
  by (auto simp: char_at_def split: if_splits)

lemma skip_word_progress:
  assumes "s < length b" "char_at b s \<notin> set whitespace" "char_at b s \<notin> set symbols"
  shows "s < skip_word b s"
  using assms skip_word_le [of "s + 1" b] by (subst skip_word.simps) auto

lemma skip_white_idem: "char_at b s \<notin> set whitespace \<Longrightarrow> skip_white b s = s"
  by (subst skip_white.simps) simp

text \<open>A token other than the end of the line takes at least one character.\<close>

lemma gettoken_progress:
  assumes "gettoken b ps = (ret, (q, eq), ps')"
  shows "ps \<le> q" "q \<le> eq" "eq \<le> ps'" "char_at b (skip_white b ps) \<noteq> NUL \<Longrightarrow> q < eq" "ret \<noteq> NUL \<Longrightarrow> char_at b (skip_white b ps) \<noteq> NUL"
proof -
  let ?c = "char_at b (skip_white b ps)"
  have q: "q = skip_white b ps" "ps' = skip_white b eq" using assms by (auto simp: gettoken_def Let_def split: if_splits)
  show "ps \<le> q" "eq \<le> ps'" using q skip_white_le by auto
  show "q \<le> eq" using assms skip_word_le [of q b] by (auto simp: gettoken_def Let_def split: if_splits)
  show "q < eq" if "?c \<noteq> NUL"
  proof (cases "?c \<in> set ''|();&<>''")
    case True
    then show ?thesis using assms that by (auto simp: gettoken_def Let_def split: if_splits)
  next
    case False
    have "q < length b" using char_at_inside that q by simp
    then have "q < skip_word b q"
      using skip_white_stops [of b ps] q False by (intro skip_word_progress) (auto simp: symbols_def)
    then show ?thesis using assms that False by (auto simp: gettoken_def Let_def split: if_splits)
  qed
  show "?c \<noteq> NUL" if "ret \<noteq> NUL" using assms that by (auto simp: gettoken_def Let_def split: if_splits)
qed

lemma peek_found:
  assumes "peek b ps toks = (True, ps')"
  shows "ps \<le> ps'" "char_at b (skip_white b ps') \<noteq> NUL"
proof -
  have p: "ps' = skip_white b ps" "char_at b ps' \<noteq> NUL" using assms by (auto simp: peek_def Let_def)
  then show "ps \<le> ps'" by (simp add: skip_white_le)
  have "skip_white b ps' = ps'"
    using p skip_white_stops [of b ps] char_at_inside by (intro skip_white_idem) auto
  then show "char_at b (skip_white b ps') \<noteq> NUL" using p by simp
qed

lemma gettoken_forward: "gettoken b ps = (tok, w, ps') \<Longrightarrow> ps \<le> ps'"
  using gettoken_progress(1-3) [of b ps tok "fst w" "snd w" ps'] by simp

lemma found_token_shorter:
  assumes "(True, ps1) = peek b ps toks" "(tok, w, ps2) = gettoken b ps1"
  shows "length b - ps2 < length b - ps"
proof -
  have "ps \<le> ps1" "char_at b (skip_white b ps1) \<noteq> NUL" using peek_found [of b ps toks ps1] assms(1) by auto
  then have "ps < ps2" "skip_white b ps1 < length b"
    using gettoken_progress [of b ps1 tok "fst w" "snd w" ps2] assms(2) char_at_inside by auto
  then show ?thesis using \<open>ps \<le> ps1\<close> skip_white_le [of ps1 b] by linarith
qed

lemma found_two_shorter:
  assumes "(True, ps1) = peek b ps toks" "(tok, w, ps2) = gettoken b ps1" "(tok2, w2, ps3) = gettoken b ps2"
  shows "length b - ps3 < length b - ps"
  using found_token_shorter [OF assms(1,2)] gettoken_forward [OF assms(3) [symmetric]] by linarith

section \<open>Redirections, arguments and background marks\<close>

function parseredirs :: "string \<Rightarrow> nat \<Rightarrow> sh_error + (span \<times> int \<times> nat) list \<times> nat" where
  "parseredirs b ps =
     (case peek b ps ''<>'' of (found, ps) \<Rightarrow>
        if \<not> found then Inr ([], ps)
        else case gettoken b ps of (tok, _, ps) \<Rightarrow>
             case gettoken b ps of (tok2, file, ps) \<Rightarrow>
               if tok2 \<noteq> CHR ''a'' then Inl (ShPanic ''missing file for redirection'')
               else let r = (if tok = CHR ''<'' then (file, O_RDONLY, 0) else (file, O_WRONLY_CREATE, 1))
                    in bindE (parseredirs b ps) (\<lambda>(rs, ps). Inr (r # rs, ps)))"
  by pat_completeness auto
termination
  by (relation "measure (\<lambda>(b, ps). length b - ps)") (auto dest: found_two_shorter)

declare parseredirs.simps [simp del]

text \<open>
  \<open>redircmd\<close> wraps each redirection around the command; the arguments go to the innermost
  \<open>execcmd\<close>, which is filled while the wrapping goes on.
\<close>

definition add_redirs :: "'w sh_cmd \<Rightarrow> ('w \<times> int \<times> nat) list \<Rightarrow> 'w sh_cmd" where
  "add_redirs c rs = foldl (\<lambda>c (file, mode, fd). REDIR c file mode fd) c rs"

function parse_args :: "string \<Rightarrow> nat \<Rightarrow> nat \<Rightarrow> sh_error + span list \<times> (span \<times> int \<times> nat) list \<times> nat" where
  "parse_args b argc ps =
     (case peek b ps ''|)&;'' of (found, ps) \<Rightarrow>
        if found then Inr ([], [], ps)
        else case gettoken b ps of (tok, w, ps) \<Rightarrow>
          if tok = NUL then Inr ([], [], ps)
          else if tok \<noteq> CHR ''a'' then Inl (ShPanic ''syntax'')
          else if argc + 1 \<ge> MAXARGS then Inl (ShPanic ''too many args'')
          else bindE (parseredirs b ps) (\<lambda>(rs, ps).
               bindE (parse_args b (argc + 1) ps) (\<lambda>(ws, rs2, ps). Inr (w # ws, rs @ rs2, ps))))"
  by pat_completeness auto
termination by (relation "measure (\<lambda>(b, argc, ps). MAXARGS - argc)") auto

declare parse_args.simps [simp del]

function back_loop :: "string \<Rightarrow> span sh_cmd \<Rightarrow> nat \<Rightarrow> span sh_cmd \<times> nat" where
  "back_loop b c ps =
     (case peek b ps ''&'' of (found, ps) \<Rightarrow>
        if \<not> found then (c, ps)
        else case gettoken b ps of (_, _, ps) \<Rightarrow> back_loop b (BACK c) ps)"
  by pat_completeness auto
termination
  by (relation "measure (\<lambda>(b, c, ps). length b - ps)") (auto dest: found_token_shorter)

declare back_loop.simps [simp del]

section \<open>The grammar\<close>

text \<open>
  The mutually recursive functions, with fuel: each call passes on one less.
\<close>

fun parseline :: "nat \<Rightarrow> string \<Rightarrow> nat \<Rightarrow> sh_error + span sh_cmd \<times> nat"
  and parsepipe :: "nat \<Rightarrow> string \<Rightarrow> nat \<Rightarrow> sh_error + span sh_cmd \<times> nat"
  and parseblock :: "nat \<Rightarrow> string \<Rightarrow> nat \<Rightarrow> sh_error + span sh_cmd \<times> nat"
  and parseexec :: "nat \<Rightarrow> string \<Rightarrow> nat \<Rightarrow> sh_error + span sh_cmd \<times> nat" where
  "parseline 0 b ps = Inl NoFuel"
| "parseline (Suc f) b ps =
     bindE (parsepipe f b ps) (\<lambda>(cmd, ps).
     case back_loop b cmd ps of (cmd, ps) \<Rightarrow>
     case peek b ps '';'' of (found, ps) \<Rightarrow>
       if found then case gettoken b ps of (_, _, ps) \<Rightarrow>
         bindE (parseline f b ps) (\<lambda>(right, ps). Inr (LIST cmd right, ps))
       else Inr (cmd, ps))"
| "parsepipe 0 b ps = Inl NoFuel"
| "parsepipe (Suc f) b ps =
     bindE (parseexec f b ps) (\<lambda>(cmd, ps).
     case peek b ps ''|'' of (found, ps) \<Rightarrow>
       if found then case gettoken b ps of (_, _, ps) \<Rightarrow>
         bindE (parsepipe f b ps) (\<lambda>(right, ps). Inr (PIPE cmd right, ps))
       else Inr (cmd, ps))"
| "parseblock 0 b ps = Inl NoFuel"
| "parseblock (Suc f) b ps =
     (case peek b ps ''('' of (found, ps) \<Rightarrow>
        if \<not> found then Inl (ShPanic ''parseblock'')
        else case gettoken b ps of (_, _, ps) \<Rightarrow>
          bindE (parseline f b ps) (\<lambda>(cmd, ps).
          case peek b ps '')'' of (found, ps) \<Rightarrow>
            if \<not> found then Inl (ShPanic ''syntax - missing )'')
            else case gettoken b ps of (_, _, ps) \<Rightarrow>
              bindE (parseredirs b ps) (\<lambda>(rs, ps). Inr (add_redirs cmd rs, ps))))"
| "parseexec 0 b ps = Inl NoFuel"
| "parseexec (Suc f) b ps =
     (case peek b ps ''('' of (found, ps) \<Rightarrow>
        if found then parseblock f b ps
        else bindE (parseredirs b ps) (\<lambda>(rs, ps).
             bindE (parse_args b 0 ps) (\<lambda>(ws, rs2, ps). Inr (add_redirs (EXEC ws) (rs @ rs2), ps))))"

text \<open>The fuel for a line: four calls for each character.\<close>

definition parsecmd :: "string \<Rightarrow> sh_error + span sh_cmd" where
  "parsecmd s =
     bindE (parseline (4 * length s + 4) s 0) (\<lambda>(cmd, ps).
     case peek s ps [] of (_, ps) \<Rightarrow>
       if ps \<noteq> length s then Inl (ShPanic ''syntax'') else Inr cmd)"

text \<open>
  \<open>nulterminate\<close> on the buffer with its terminating NUL, and the C string at a position of it.
\<close>

fun nulterminate :: "span sh_cmd \<Rightarrow> string \<Rightarrow> string" where
  "nulterminate (EXEC ws) b = foldl (\<lambda>b (q, eq). b[eq := NUL]) b ws"
| "nulterminate (REDIR c w mode fd) b = (nulterminate c b)[snd w := NUL]"
| "nulterminate (PIPE l r) b = nulterminate r (nulterminate l b)"
| "nulterminate (LIST l r) b = nulterminate r (nulterminate l b)"
| "nulterminate (BACK c) b = nulterminate c b"

definition cstring :: "string \<Rightarrow> nat \<Rightarrow> string" where
  "cstring b q = takeWhile (\<lambda>c. c \<noteq> NUL) (drop q b)"

end
