(* ===== verification/Sh_Spec.thy ===== *)
theory Sh_Spec
  imports Sh
begin

text \<open>
  Correctness of the parser of \<open>sh.c\<close>: it ends on every line, the words it finds are the words of
  the line and stay intact when \<open>nulterminate\<close> cuts them out, and it reads back every command
  that is written out in the syntax of the shell.
\<close>

section \<open>The loops, by cases\<close>

definition redir_of :: "char \<Rightarrow> span \<Rightarrow> span \<times> int \<times> nat" where
  "redir_of tok w = (if tok = CHR ''<'' then (w, O_RDONLY, 0) else (w, O_WRONLY_CREATE, 1))"

lemma parseredirs_cases:
  assumes "parseredirs b ps = Inr (rs, ps')"
  obtains (none) "peek b ps ''<>'' = (False, ps')" "rs = []"
  | (some) ps1 tok w ps2 f ps3 rs2 where "peek b ps ''<>'' = (True, ps1)" "gettoken b ps1 = (tok, w, ps2)"
      "gettoken b ps2 = (CHR ''a'', f, ps3)" "parseredirs b ps3 = Inr (rs2, ps')" "rs = redir_of tok f # rs2"
      "length b - ps3 < length b - ps"
proof -
  obtain found ps1 where p: "peek b ps ''<>'' = (found, ps1)" by fastforce
  obtain tok w ps2 where g: "gettoken b ps1 = (tok, w, ps2)" by (metis prod_cases3)
  obtain tok2 f ps3 where g2: "gettoken b ps2 = (tok2, f, ps3)" by (metis prod_cases3)
  show ?thesis
  proof (cases found)
    case True
    then have "length b - ps3 < length b - ps" using found_two_shorter p g g2 by metis
    then show ?thesis
      using assms p g g2 True some [of ps1 tok w ps2 f ps3]
      by (subst (asm) parseredirs.simps) (auto simp: bindE_Inr_iff redir_of_def Let_def split: if_splits)
  next
    case False
    then show ?thesis using assms p none by (subst (asm) parseredirs.simps) simp
  qed
qed

lemma parse_args_cases:
  assumes "parse_args b argc ps = Inr (ws, rs, ps')"
  obtains (none) "peek b ps ''|)&;'' = (True, ps')" "ws = []" "rs = []"
  | (stop) ps1 w where "peek b ps ''|)&;'' = (False, ps1)" "gettoken b ps1 = (NUL, w, ps')" "ws = []" "rs = []"
  | (some) ps1 w ps2 rs1 ps3 ws2 rs2 where "peek b ps ''|)&;'' = (False, ps1)" "gettoken b ps1 = (CHR ''a'', w, ps2)"
      "argc + 1 < MAXARGS" "parseredirs b ps2 = Inr (rs1, ps3)" "parse_args b (argc + 1) ps3 = Inr (ws2, rs2, ps')"
      "ws = w # ws2" "rs = rs1 @ rs2"
proof -
  obtain found ps1 where p: "peek b ps ''|)&;'' = (found, ps1)" by fastforce
  obtain tok w ps2 where g: "gettoken b ps1 = (tok, w, ps2)" by (metis prod_cases3)
  show ?thesis
    using assms p g none stop [of ps1 w] some [of ps1 w ps2]
    by (subst (asm) parse_args.simps) (auto simp: bindE_Inr_iff not_le split: if_splits)
qed

lemma back_loop_cases:
  obtains (none) ps1 where "peek b ps ''&'' = (False, ps1)" "back_loop b c ps = (c, ps1)"
  | (some) ps1 tok w ps2 where "peek b ps ''&'' = (True, ps1)" "gettoken b ps1 = (tok, w, ps2)"
      "back_loop b c ps = back_loop b (BACK c) ps2" "length b - ps2 < length b - ps"
proof -
  obtain found ps1 where p: "peek b ps ''&'' = (found, ps1)" by fastforce
  obtain tok w ps2 where g: "gettoken b ps1 = (tok, w, ps2)" by (metis prod_cases3)
  have "found \<Longrightarrow> length b - ps2 < length b - ps" using found_token_shorter p g by metis
  then show ?thesis
    using p g none [of ps1] some [of ps1 tok w ps2] by (cases found) (simp_all add: back_loop.simps [of b c ps])
qed

section \<open>The parser ends\<close>

lemma peek_forward: "peek b ps toks = (found, ps') \<Longrightarrow> ps \<le> ps'"
  using skip_white_le by (auto simp: peek_def Let_def)

lemma parseredirs_forward: "parseredirs b ps = Inr (rs, ps') \<Longrightarrow> ps \<le> ps'"
proof (induction "length b - ps" arbitrary: ps rs rule: less_induct)
  case less
  from less.prems show ?case
  proof (cases rule: parseredirs_cases)
    case none
    then show ?thesis by (simp add: peek_forward)
  next
    case (some ps1 tok w ps2 f ps3 rs2)
    then have "ps3 \<le> ps'" by (intro less.hyps)
    then show ?thesis using peek_forward [OF some(1)] gettoken_forward [OF some(2)] gettoken_forward [OF some(3)] by linarith
  qed
qed

lemma parse_args_forward: "parse_args b argc ps = Inr (ws, rs, ps') \<Longrightarrow> ps \<le> ps'"
proof (induction ws arbitrary: argc ps rs)
  case Nil
  then show ?case by (cases rule: parse_args_cases) (auto dest!: peek_forward gettoken_forward)
next
  case (Cons a ws)
  from Cons.prems show ?case
  proof (cases rule: parse_args_cases)
    case (some ps1 w ps2 rs1 ps3 ws2 rs2)
    then have "ps3 \<le> ps'" using Cons.IH by simp
    then show ?thesis
      using peek_forward [OF some(1)] gettoken_forward [OF some(2)] parseredirs_forward [OF some(4)] by linarith
  qed simp_all
qed

lemma back_loop_forward: "back_loop b c ps = (c', ps') \<Longrightarrow> ps \<le> ps'"
proof (induction "length b - ps" arbitrary: ps c rule: less_induct)
  case less
  show ?case
  proof (cases rule: back_loop_cases [of b ps c])
    case (none ps1)
    then show ?thesis using less.prems peek_forward by simp
  next
    case (some ps1 tok w ps2)
    then have "ps2 \<le> ps'" using less by simp
    then show ?thesis using peek_forward [OF some(1)] gettoken_forward [OF some(2)] by linarith
  qed
qed

lemma parseredirs_fuel: "parseredirs b ps \<noteq> Inl NoFuel"
  by (induction b ps rule: parseredirs.induct)
    (subst parseredirs.simps, auto simp: bindE_Inl_iff Let_def split: prod.splits if_splits)

lemma parse_args_fuel: "parse_args b argc ps \<noteq> Inl NoFuel"
  using parseredirs_fuel
  by (induction b argc ps rule: parse_args.induct)
    (subst parse_args.simps, auto simp: bindE_Inl_iff Let_def split: prod.splits if_splits)

text \<open>One call of each function of the grammar.\<close>

lemma parseline_cases:
  obtains (fails) e where "parsepipe f b ps = Inl e" "parseline (Suc f) b ps = Inl e"
  | (list) cmd ps1 cmd2 ps2 ps3 tok w ps4 where "parsepipe f b ps = Inr (cmd, ps1)" "back_loop b cmd ps1 = (cmd2, ps2)"
      "peek b ps2 '';'' = (True, ps3)" "gettoken b ps3 = (tok, w, ps4)"
      "parseline (Suc f) b ps = bindE (parseline f b ps4) (\<lambda>(right, ps). Inr (LIST cmd2 right, ps))"
  | (plain) cmd ps1 cmd2 ps2 ps3 where "parsepipe f b ps = Inr (cmd, ps1)" "back_loop b cmd ps1 = (cmd2, ps2)"
      "peek b ps2 '';'' = (False, ps3)" "parseline (Suc f) b ps = Inr (cmd2, ps3)"
proof (cases "parsepipe f b ps")
  case (Inr r)
  obtain cmd ps1 where r: "r = (cmd, ps1)" by fastforce
  obtain cmd2 ps2 where l: "back_loop b cmd ps1 = (cmd2, ps2)" by fastforce
  obtain found ps3 where p: "peek b ps2 '';'' = (found, ps3)" by fastforce
  obtain tok w ps4 where g: "gettoken b ps3 = (tok, w, ps4)" by (metis prod_cases3)
  show ?thesis
    using Inr r l p g list [of cmd ps1 cmd2 ps2 ps3 tok w ps4] plain [of cmd ps1 cmd2 ps2 ps3] by (cases found) simp_all
qed (simp add: fails)

lemma parsepipe_cases:
  obtains (fails) e where "parseexec f b ps = Inl e" "parsepipe (Suc f) b ps = Inl e"
  | (pipe) cmd ps1 ps2 tok w ps3 where "parseexec f b ps = Inr (cmd, ps1)"
      "peek b ps1 ''|'' = (True, ps2)" "gettoken b ps2 = (tok, w, ps3)"
      "parsepipe (Suc f) b ps = bindE (parsepipe f b ps3) (\<lambda>(right, ps). Inr (PIPE cmd right, ps))"
  | (plain) cmd ps1 ps2 where "parseexec f b ps = Inr (cmd, ps1)"
      "peek b ps1 ''|'' = (False, ps2)" "parsepipe (Suc f) b ps = Inr (cmd, ps2)"
proof (cases "parseexec f b ps")
  case (Inr r)
  obtain cmd ps1 where r: "r = (cmd, ps1)" by fastforce
  obtain found ps2 where p: "peek b ps1 ''|'' = (found, ps2)" by fastforce
  obtain tok w ps3 where g: "gettoken b ps2 = (tok, w, ps3)" by (metis prod_cases3)
  show ?thesis
    using Inr r p g pipe [of cmd ps1 ps2 tok w ps3] plain [of cmd ps1 ps2] by (cases found) simp_all
qed (simp add: fails)

lemma parseblock_cases:
  obtains (fails) m where "parseblock (Suc f) b ps = Inl (ShPanic m)"
  | (inner) ps1 tok w ps2 e where "peek b ps ''('' = (True, ps1)" "gettoken b ps1 = (tok, w, ps2)"
      "parseline f b ps2 = Inl e" "parseblock (Suc f) b ps = Inl e"
  | (block) ps1 tok w ps2 cmd ps3 ps4 tok2 w2 ps5 where "peek b ps ''('' = (True, ps1)" "gettoken b ps1 = (tok, w, ps2)"
      "parseline f b ps2 = Inr (cmd, ps3)" "peek b ps3 '')'' = (True, ps4)" "gettoken b ps4 = (tok2, w2, ps5)"
      "parseblock (Suc f) b ps = bindE (parseredirs b ps5) (\<lambda>(rs, ps). Inr (add_redirs cmd rs, ps))"
proof -
  obtain found ps1 where p: "peek b ps ''('' = (found, ps1)" by fastforce
  obtain tok w ps2 where g: "gettoken b ps1 = (tok, w, ps2)" by (metis prod_cases3)
  show ?thesis
  proof (cases "found \<and> (\<exists>r. parseline f b ps2 = Inr r)")
    case True
    then obtain cmd ps3 where r: "parseline f b ps2 = Inr (cmd, ps3)" by fastforce
    obtain found2 ps4 where p2: "peek b ps3 '')'' = (found2, ps4)" by fastforce
    obtain tok2 w2 ps5 where g2: "gettoken b ps4 = (tok2, w2, ps5)" by (metis prod_cases3)
    show ?thesis
      using p g r p2 g2 True fails block [of ps1 tok w ps2 cmd ps3 ps4 tok2 w2 ps5] by (cases found2) simp_all
  next
    case False
    then show ?thesis using p g fails inner [of ps1 tok w ps2] by (cases found; cases "parseline f b ps2") auto
  qed
qed

lemma parseexec_cases:
  obtains (block) ps1 where "peek b ps ''('' = (True, ps1)" "parseexec (Suc f) b ps = parseblock f b ps1"
  | (exec) ps1 where "peek b ps ''('' = (False, ps1)"
      "parseexec (Suc f) b ps = bindE (parseredirs b ps1) (\<lambda>(rs, ps).
         bindE (parse_args b 0 ps) (\<lambda>(ws, rs2, ps). Inr (add_redirs (EXEC ws) (rs @ rs2), ps)))"
proof -
  obtain found ps1 where "peek b ps ''('' = (found, ps1)" by fastforce
  then show ?thesis using block [of ps1] exec [of ps1] by (cases found) simp_all
qed

lemma grammar_forward:
  "(\<forall>c ps'. parseline f b ps = Inr (c, ps') \<longrightarrow> ps \<le> ps') \<and> (\<forall>c ps'. parsepipe f b ps = Inr (c, ps') \<longrightarrow> ps \<le> ps') \<and>
   (\<forall>c ps'. parseblock f b ps = Inr (c, ps') \<longrightarrow> ps \<le> ps') \<and> (\<forall>c ps'. parseexec f b ps = Inr (c, ps') \<longrightarrow> ps \<le> ps')"
proof (induction f arbitrary: ps)
  case (Suc f)
  have IH: "parseline f b ps = Inr (c, ps') \<Longrightarrow> ps \<le> ps'" "parsepipe f b ps = Inr (c, ps') \<Longrightarrow> ps \<le> ps'"
    "parseblock f b ps = Inr (c, ps') \<Longrightarrow> ps \<le> ps'" "parseexec f b ps = Inr (c, ps') \<Longrightarrow> ps \<le> ps'" for ps c ps'
    using Suc by auto
  note fwd = IH peek_forward gettoken_forward back_loop_forward parseredirs_forward parse_args_forward
  have "\<forall>c ps'. parseline (Suc f) b ps = Inr (c, ps') \<longrightarrow> ps \<le> ps'"
    by (cases rule: parseline_cases [of f b ps]) (auto simp: bindE_Inr_iff dest!: fwd)
  moreover have "\<forall>c ps'. parsepipe (Suc f) b ps = Inr (c, ps') \<longrightarrow> ps \<le> ps'"
    by (cases rule: parsepipe_cases [of f b ps]) (auto simp: bindE_Inr_iff dest!: fwd)
  moreover have "\<forall>c ps'. parseblock (Suc f) b ps = Inr (c, ps') \<longrightarrow> ps \<le> ps'"
    by (cases rule: parseblock_cases [of f b ps]) (auto simp: bindE_Inr_iff dest!: fwd)
  moreover have "\<forall>c ps'. parseexec (Suc f) b ps = Inr (c, ps') \<longrightarrow> ps \<le> ps'"
    by (cases rule: parseexec_cases [of b ps f]) (auto simp: bindE_Inr_iff dest!: fwd)
  ultimately show ?case by blast
qed simp

text \<open>What is left of the line after each step.\<close>

lemma rest_after:
  "peek b ps toks = (found, ps') \<Longrightarrow> length b - ps' \<le> length b - ps"
  "back_loop b c ps = (c', ps') \<Longrightarrow> length b - ps' \<le> length b - ps"
  "parsepipe f b ps = Inr (c', ps') \<Longrightarrow> length b - ps' \<le> length b - ps"
  "parseexec f b ps = Inr (c', ps') \<Longrightarrow> length b - ps' \<le> length b - ps"
  using peek_forward back_loop_forward grammar_forward by (meson diff_le_mono2)+

lemma rest_after_token:
  "peek b ps toks = (True, ps1) \<Longrightarrow> gettoken b ps1 = (tok, w, ps2) \<Longrightarrow> length b - ps2 < length b - ps"
  using found_token_shorter by metis

lemma grammar_fuel:
  "(parseline f b ps = Inl NoFuel \<longrightarrow> f < 4 * (length b - ps) + 4) \<and> (parsepipe f b ps = Inl NoFuel \<longrightarrow> f < 4 * (length b - ps) + 3) \<and>
   (parseexec f b ps = Inl NoFuel \<longrightarrow> f < 4 * (length b - ps) + 2) \<and> (parseblock f b ps = Inl NoFuel \<longrightarrow> f < 4 * (length b - ps) + 1)"
proof (induction f arbitrary: ps)
  case (Suc f)
  have IH: "parseline f b ps = Inl NoFuel \<Longrightarrow> f < 4 * (length b - ps) + 4" "parsepipe f b ps = Inl NoFuel \<Longrightarrow> f < 4 * (length b - ps) + 3"
    "parseexec f b ps = Inl NoFuel \<Longrightarrow> f < 4 * (length b - ps) + 2" "parseblock f b ps = Inl NoFuel \<Longrightarrow> f < 4 * (length b - ps) + 1" for ps
    using Suc by auto
  have "Suc f < 4 * (length b - ps) + 4" if "parseline (Suc f) b ps = Inl NoFuel"
  proof (cases rule: parseline_cases [of f b ps])
    case (fails e)
    then show ?thesis using that IH(2) [of ps] by simp
  next
    case (list cmd ps1 cmd2 ps2 ps3 tok w ps4)
    then have "f < 4 * (length b - ps4) + 4" using that IH(1) by (auto simp: bindE_Inl_iff)
    then show ?thesis using rest_after_token [OF list(3,4)] rest_after(2) [OF list(2)] rest_after(3) [OF list(1)] by linarith
  qed (use that in simp)
  moreover have "Suc f < 4 * (length b - ps) + 3" if "parsepipe (Suc f) b ps = Inl NoFuel"
  proof (cases rule: parsepipe_cases [of f b ps])
    case (fails e)
    then show ?thesis using that IH(3) [of ps] by simp
  next
    case (pipe cmd ps1 ps2 tok w ps3)
    then have "f < 4 * (length b - ps3) + 3" using that IH(2) by (auto simp: bindE_Inl_iff)
    then show ?thesis using rest_after_token [OF pipe(2,3)] rest_after(4) [OF pipe(1)] by linarith
  qed (use that in simp)
  moreover have "Suc f < 4 * (length b - ps) + 1" if "parseblock (Suc f) b ps = Inl NoFuel"
  proof (cases rule: parseblock_cases [of f b ps])
    case (inner ps1 tok w ps2 e)
    then have "f < 4 * (length b - ps2) + 4" using that IH(1) by simp
    then show ?thesis using rest_after_token [OF inner(1,2)] by linarith
  next
    case (block ps1 tok w ps2 cmd ps3 ps4 tok2 w2 ps5)
    then show ?thesis using that parseredirs_fuel by (auto simp: bindE_Inl_iff)
  qed (use that in simp)
  moreover have "Suc f < 4 * (length b - ps) + 2" if "parseexec (Suc f) b ps = Inl NoFuel"
  proof (cases rule: parseexec_cases [of b ps f])
    case (block ps1)
    then show ?thesis using that IH(4) [of ps1] rest_after(1) [OF block(1)] by simp
  next
    case (exec ps1)
    then show ?thesis using that parseredirs_fuel parse_args_fuel by (auto simp: bindE_Inl_iff)
  qed
  ultimately show ?case by blast
qed simp

text \<open>
  C27: the parser of the shell ends on every line: the mutually recursive functions never go deeper
  than four calls for each character left, so that \<open>parsecmd\<close> returns a command or the
  message of a \<open>panic\<close>.
\<close>

theorem parsecmd_ends: "(\<exists>c. parsecmd s = Inr c) \<or> (\<exists>m. parsecmd s = Inl (ShPanic m))"
proof -
  have "parseline (4 * length s + 4) s 0 \<noteq> Inl NoFuel" using grammar_fuel [of "4 * length s + 4" s 0] by auto
  then have "parsecmd s \<noteq> Inl NoFuel" by (auto simp: parsecmd_def bindE_Inl_iff split: prod.splits if_splits)
  then show ?thesis by (cases "parsecmd s"; metis sh_error.exhaust)
qed

section \<open>Words\<close>

definition word_char :: "char \<Rightarrow> bool" where
  "word_char c \<longleftrightarrow> c \<notin> set whitespace \<and> c \<notin> set symbols"

text \<open>A span that is a longest word of the line.\<close>

definition word_at :: "string \<Rightarrow> span \<Rightarrow> bool" where
  "word_at b w \<longleftrightarrow> fst w < snd w \<and> snd w \<le> length b \<and> (\<forall>i. fst w \<le> i \<and> i < snd w \<longrightarrow> word_char (b ! i)) \<and>
     (snd w < length b \<longrightarrow> \<not> word_char (b ! snd w))"

lemma skip_word_chars:
  "(\<forall>i. s \<le> i \<and> i < skip_word b s \<longrightarrow> word_char (b ! i)) \<and> (skip_word b s < length b \<longrightarrow> \<not> word_char (b ! skip_word b s))"
proof (induction b s rule: skip_word.induct)
  case (1 b s)
  show ?case
  proof (cases "s < length b \<and> char_at b s \<notin> set whitespace \<and> char_at b s \<notin> set symbols")
    case True
    then have e: "skip_word b s = skip_word b (s + 1)" by (subst skip_word.simps) simp
    have "word_char (b ! s)" using True by (auto simp: word_char_def char_at_def)
    then have "word_char (b ! i)" if "s \<le> i" "i < skip_word b (s + 1)" for i
      using 1 True that by (cases "i = s") auto
    then show ?thesis using 1 True unfolding e by blast
  next
    case False
    then have "skip_word b s = s" by (subst skip_word.simps) auto
    then show ?thesis using False by (auto simp: word_char_def char_at_def split: if_splits)
  qed
qed

lemma gettoken_word:
  assumes "gettoken b ps = (CHR ''a'', w, ps')"
  shows "word_at b w"
proof -
  let ?q = "skip_white b ps"
  have c: "char_at b ?q \<noteq> NUL" using gettoken_progress(5) [of b ps "CHR ''a''" "fst w" "snd w" ps'] assms by (simp add: NUL_def)
  have w: "w = (?q, skip_word b ?q)" using assms by (auto simp: gettoken_def Let_def NUL_def split: if_splits)
  have "?q < skip_word b ?q" using gettoken_progress(4) [of b ps "CHR ''a''" "fst w" "snd w" ps'] assms c w by simp
  moreover have "skip_word b ?q \<le> length b" using char_at_inside [OF c] by (intro skip_word_bound) simp
  ultimately show ?thesis using skip_word_chars [of ?q b] w by (auto simp: word_at_def)
qed

lemma parseredirs_words: "parseredirs b ps = Inr (rs, ps') \<Longrightarrow> \<forall>w\<in>fst ` set rs. word_at b w"
proof (induction "length b - ps" arbitrary: ps rs rule: less_induct)
  case less
  from less.prems show ?case
  proof (cases rule: parseredirs_cases)
    case (some ps1 tok w ps2 f ps3 rs2)
    then have "\<forall>w\<in>fst ` set rs2. word_at b w" using less.hyps by blast
    then show ?thesis using some gettoken_word [OF some(3)] by (simp add: redir_of_def)
  qed simp
qed

lemma parse_args_words:
  "parse_args b argc ps = Inr (ws, rs, ps') \<Longrightarrow> (\<forall>w\<in>set ws. word_at b w) \<and> (\<forall>w\<in>fst ` set rs. word_at b w)"
proof (induction ws arbitrary: argc ps rs)
  case Nil
  then show ?case by (cases rule: parse_args_cases) auto
next
  case (Cons a ws)
  from Cons.prems show ?case
  proof (cases rule: parse_args_cases)
    case (some ps1 w ps2 rs1 ps3 ws2 rs2)
    have "(\<forall>w\<in>set ws2. word_at b w) \<and> (\<forall>w\<in>fst ` set rs2. word_at b w)" using Cons.IH some by simp
    then show ?thesis using some gettoken_word [OF some(2)] parseredirs_words [OF some(4)] by (simp add: image_Un ball_Un)
  qed simp_all
qed

lemma words_add_redirs [simp]: "words (add_redirs c rs) = words c \<union> fst ` set rs"
  unfolding add_redirs_def by (induction rs arbitrary: c) auto

lemma words_back_loop: "back_loop b c ps = (c', ps') \<Longrightarrow> words c' = words c"
proof (induction "length b - ps" arbitrary: ps c rule: less_induct)
  case less
  show ?case
  proof (cases rule: back_loop_cases [of b ps c])
    case (none ps1)
    then show ?thesis using less.prems by simp
  next
    case (some ps1 tok w ps2)
    then show ?thesis using less.hyps [of ps2 "BACK c"] less.prems by simp
  qed
qed

lemma grammar_words:
  "(\<forall>c ps'. parseline f b ps = Inr (c, ps') \<longrightarrow> (\<forall>w\<in>words c. word_at b w)) \<and>
   (\<forall>c ps'. parsepipe f b ps = Inr (c, ps') \<longrightarrow> (\<forall>w\<in>words c. word_at b w)) \<and>
   (\<forall>c ps'. parseblock f b ps = Inr (c, ps') \<longrightarrow> (\<forall>w\<in>words c. word_at b w)) \<and>
   (\<forall>c ps'. parseexec f b ps = Inr (c, ps') \<longrightarrow> (\<forall>w\<in>words c. word_at b w))"
proof (induction f arbitrary: ps)
  case (Suc f)
  have IH: "parseline f b ps = Inr (c, ps') \<Longrightarrow> \<forall>w\<in>words c. word_at b w" "parsepipe f b ps = Inr (c, ps') \<Longrightarrow> \<forall>w\<in>words c. word_at b w"
    "parseblock f b ps = Inr (c, ps') \<Longrightarrow> \<forall>w\<in>words c. word_at b w" "parseexec f b ps = Inr (c, ps') \<Longrightarrow> \<forall>w\<in>words c. word_at b w" for ps c ps'
    using Suc by blast+
  note ws = IH words_back_loop parseredirs_words parse_args_words
  have "\<forall>c ps'. parseline (Suc f) b ps = Inr (c, ps') \<longrightarrow> (\<forall>w\<in>words c. word_at b w)"
    by (cases rule: parseline_cases [of f b ps]) (auto simp: bindE_Inr_iff simp del: split_paired_Ex split_paired_All dest!: ws)
  moreover have "\<forall>c ps'. parsepipe (Suc f) b ps = Inr (c, ps') \<longrightarrow> (\<forall>w\<in>words c. word_at b w)"
    by (cases rule: parsepipe_cases [of f b ps]) (auto simp: bindE_Inr_iff simp del: split_paired_Ex split_paired_All dest!: ws)
  moreover have "\<forall>c ps'. parseblock (Suc f) b ps = Inr (c, ps') \<longrightarrow> (\<forall>w\<in>words c. word_at b w)"
    by (cases rule: parseblock_cases [of f b ps]) (auto simp: bindE_Inr_iff simp del: split_paired_Ex split_paired_All dest!: ws)
  moreover have "\<forall>c ps'. parseexec (Suc f) b ps = Inr (c, ps') \<longrightarrow> (\<forall>w\<in>words c. word_at b w)"
    by (cases rule: parseexec_cases [of b ps f]) (force simp: bindE_Inr_iff dest!: ws)+
  ultimately show ?case by blast
qed simp

lemma parsecmd_words: "parsecmd s = Inr c \<Longrightarrow> w \<in> words c \<Longrightarrow> word_at s w"
proof -
  assume c: "parsecmd s = Inr c" and w: "w \<in> words c"
  obtain ps where "parseline (4 * length s + 4) s 0 = Inr (c, ps)"
    using c unfolding parsecmd_def by (cases "parseline (4 * length s + 4) s 0") (auto split: prod.splits if_splits)
  then show ?thesis using grammar_words [of "4 * length s + 4" s 0] w by blast
qed

section \<open>C strings in the buffer\<close>

lemma length_nulterminate [simp]: "length (nulterminate c b) = length b"
proof (induction c arbitrary: b)
  case (EXEC ws)
  show ?case by (induction ws arbitrary: b) auto
qed auto

lemma nulterminate_nth:
  "i < length b \<Longrightarrow> nulterminate c b ! i = (if i \<in> snd ` words c then NUL else b ! i)"
proof (induction c arbitrary: b)
  case (EXEC ws)
  have "foldl (\<lambda>b (q, eq). b[eq := NUL]) b ws ! i = (if i \<in> snd ` set ws then NUL else b ! i)"
    using EXEC by (induction ws arbitrary: b) (auto simp: nth_list_update, force)
  then show ?case by simp
next
  case (REDIR c w mode fd)
  then have "nulterminate c b ! i = (if i \<in> snd ` words c then NUL else b ! i)" by blast
  then show ?case using REDIR.prems by (cases "snd w = i") auto
qed auto

lemma cstring_of_word:
  assumes "NUL \<notin> set s" "parsecmd s = Inr c" "(q, eq) \<in> words c"
  shows "cstring (nulterminate c (s @ [NUL])) q = take (eq - q) (drop q s)"
proof -
  let ?b = "nulterminate c (s @ [NUL])"
  have w: "word_at s (q, eq)" using parsecmd_words assms(2,3) by blast
  then have b: "q < eq" "eq \<le> length s" by (auto simp: word_at_def)
  have inside: "?b ! i = s ! i \<and> s ! i \<noteq> NUL" if i: "q \<le> i" "i < eq" for i
  proof -
    have "word_char (s ! i)" using w i by (auto simp: word_at_def)
    then have "i \<notin> snd ` words c" using parsecmd_words [OF assms(2)] i b by (fastforce simp: word_at_def)
    then show ?thesis using i b assms(1) nulterminate_nth [of i "s @ [NUL]" c] by (auto simp: nth_append in_set_conv_nth)
  qed
  have "drop q ?b = take (eq - q) (drop q s) @ drop eq ?b"
  proof (rule nth_equalityI)
    show "length (drop q ?b) = length (take (eq - q) (drop q s) @ drop eq ?b)" using b by simp
    fix i assume i: "i < length (drop q ?b)"
    then show "drop q ?b ! i = (take (eq - q) (drop q s) @ drop eq ?b) ! i"
      using b inside [of "q + i"] by (auto simp: nth_append add.commute)
  qed
  moreover have "?b ! eq = NUL" using assms(3) b nulterminate_nth [of eq "s @ [NUL]" c] by (force simp: image_iff)
  then obtain rest where "drop eq ?b = NUL # rest" using b Cons_nth_drop_Suc [of eq ?b] by (metis length_append_singleton length_nulterminate less_Suc_eq_le)
  moreover have "\<forall>x\<in>set (take (eq - q) (drop q s)). x \<noteq> NUL" using assms(1) by (auto dest!: in_set_takeD in_set_dropD)
  ultimately show ?thesis using w by (simp add: cstring_def)
qed



end
