(* ===== verification/Sh_Print.thy ===== *)
theory Sh_Print
  imports Sh_Spec
begin

text \<open>
  Commands written out in the syntax of the shell are read back: the round trip of the parser of
  \<open>sh.c\<close>.
\<close>

section \<open>Writing commands\<close>

definition good_word :: "string \<Rightarrow> bool" where
  "good_word w \<longleftrightarrow> w \<noteq> [] \<and> (\<forall>c\<in>set w. word_char c \<and> c \<noteq> NUL)"

definition token_ok :: "string \<Rightarrow> bool" where
  "token_ok t \<longleftrightarrow> good_word t \<or> t \<in> {''|'', ''('', '')'', '';'', ''&'', ''<'', ''>''}"

text \<open>Every token is followed by a space.\<close>

definition spaced :: "string list \<Rightarrow> string" where
  "spaced ts = concat (map (\<lambda>t. t @ '' '') ts)"

definition redir_toks :: "(string \<times> int \<times> nat) list \<Rightarrow> string list" where
  "redir_toks rs = concat (map (\<lambda>(w, mode, fd). [if mode = O_RDONLY then ''<'' else ''>'', w]) rs)"

text \<open>
  The tokens of a command in a place that takes lines (0), parts of lists (1), pipelines (2) or
  single commands (3), with parentheses where they are needed.
\<close>

definition parens :: "bool \<Rightarrow> string list \<Rightarrow> string list" where
  "parens p ts = (if p then ''('' # ts @ ['')''] else ts)"

fun toks :: "nat \<Rightarrow> string sh_cmd \<Rightarrow> string list" where
  "toks n (EXEC ws) = ws"
| "toks n (REDIR c w mode fd) = toks 3 c @ redir_toks [(w, mode, fd)]"
| "toks n (PIPE l r) = parens (n > 2) (toks 3 l @ ''|'' # toks 2 r)"
| "toks n (BACK c) = parens (n > 1) (toks 1 c @ [''&''])"
| "toks n (LIST l r) = parens (n > 0) (toks 1 l @ '';'' # toks 0 r)"

definition redir_ok :: "string \<times> int \<times> nat \<Rightarrow> bool" where
  "redir_ok r \<longleftrightarrow> good_word (fst r) \<and> (snd r = (O_RDONLY, 0) \<or> snd r = (O_WRONLY_CREATE, 1))"

fun sh_ok :: "string sh_cmd \<Rightarrow> bool" where
  "sh_ok (EXEC ws) \<longleftrightarrow> length ws < MAXARGS \<and> (\<forall>w\<in>set ws. good_word w)"
| "sh_ok (REDIR c w mode fd) \<longleftrightarrow> sh_ok c \<and> redir_ok (w, mode, fd)"
| "sh_ok (PIPE l r) \<longleftrightarrow> sh_ok l \<and> sh_ok r"
| "sh_ok (LIST l r) \<longleftrightarrow> sh_ok l \<and> sh_ok r"
| "sh_ok (BACK c) \<longleftrightarrow> sh_ok c"

text \<open>The text of the words that a command refers to.\<close>

definition text_of :: "string \<Rightarrow> span \<Rightarrow> string" where
  "text_of b w = take (snd w - fst w) (drop (fst w) b)"

abbreviation resolve :: "string \<Rightarrow> span sh_cmd \<Rightarrow> string sh_cmd" where
  "resolve b \<equiv> map_sh_cmd (text_of b)"

section \<open>Tokens of written commands\<close>

definition reads :: "string \<Rightarrow> nat \<Rightarrow> string list \<Rightarrow> bool" where
  "reads b p ts \<longleftrightarrow> p \<le> length b \<and> drop p b = spaced ts \<and> (\<forall>t\<in>set ts. token_ok t)"

lemma reads_char:
  assumes "reads b p ts"
  shows "p + i < length b \<longleftrightarrow> i < length (spaced ts)" "i < length (spaced ts) \<Longrightarrow> char_at b (p + i) = spaced ts ! i"
    "i \<ge> length (spaced ts) \<Longrightarrow> char_at b (p + i) = NUL"
proof -
  have l: "length (spaced ts) = length b - p" using assms by (metis length_drop reads_def)
  show "p + i < length b \<longleftrightarrow> i < length (spaced ts)" "i \<ge> length (spaced ts) \<Longrightarrow> char_at b (p + i) = NUL"
    using l assms by (auto simp: reads_def char_at_def)
  show "char_at b (p + i) = spaced ts ! i" if "i < length (spaced ts)"
    using that l assms nth_drop [of p b i] by (auto simp: reads_def char_at_def)
qed

lemma spaced_Cons: "spaced (t # ts) = t @ CHR '' '' # spaced ts"
  by (simp add: spaced_def)

lemma token_head: "token_ok t \<Longrightarrow> t \<noteq> [] \<and> hd t \<notin> set whitespace \<and> hd t \<noteq> NUL"
  unfolding token_ok_def
proof (erule disjE)
  assume "good_word t"
  then have "t \<noteq> []" "word_char (hd t)" "hd t \<noteq> NUL" by (auto simp: good_word_def)
  then show ?thesis by (simp add: word_char_def)
qed (elim insertE emptyE; simp add: whitespace_def NUL_def)

lemma reads_start:
  assumes "reads b p (t # ts)"
  shows "skip_white b p = p" "char_at b p = hd t" "hd t \<noteq> NUL"
proof -
  have t: "t \<noteq> []" "hd t \<notin> set whitespace" "hd t \<noteq> NUL" using assms token_head by (auto simp: reads_def)
  then show c: "char_at b p = hd t" using reads_char(2) [OF assms, of 0] by (simp add: spaced_Cons hd_conv_nth nth_append)
  then show "skip_white b p = p" using t by (intro skip_white_idem) simp
  show "hd t \<noteq> NUL" by (rule t)
qed

lemma reads_end:
  assumes "reads b p []"
  shows "p = length b" "skip_white b p = p" "char_at b p = NUL"
  using assms by (auto simp: reads_def spaced_def char_at_def skip_white.simps)

lemma peek_reads: "reads b p ts \<Longrightarrow> peek b p cs = (ts \<noteq> [] \<and> hd (hd ts) \<in> set cs, p)"
  by (cases ts) (auto simp: peek_def Let_def reads_start reads_end)

lemma reads_next:
  assumes "reads b p (t # ts)"
  shows "reads b (p + length t + 1) ts" "skip_white b (p + length t) = p + length t + 1" "text_of b (p, p + length t) = t"
    "char_at b (p + length t) = CHR '' ''"
proof -
  have l: "length (spaced (t # ts)) = length b - p" using assms by (metis length_drop reads_def)
  have "drop (length t + 1) (drop p b) = spaced ts" using assms by (simp add: reads_def spaced_Cons)
  then have "drop (p + length t + 1) b = spaced ts" by (simp add: add.commute add.left_commute)
  then show r: "reads b (p + length t + 1) ts" using assms l by (auto simp: reads_def spaced_Cons)
  show c: "char_at b (p + length t) = CHR '' ''"
    using reads_char(2) [OF assms, of "length t"] by (simp add: spaced_Cons nth_append)
  have "skip_white b (p + length t + 1) = p + length t + 1"
    using r by (cases ts) (auto dest: reads_start reads_end)
  moreover have "p + length t < length b" using c by (auto simp: char_at_def NUL_def split: if_splits)
  ultimately show "skip_white b (p + length t) = p + length t + 1"
    using c by (subst skip_white.simps) (simp add: whitespace_def)
  show "text_of b (p, p + length t) = t" using assms by (simp add: text_of_def reads_def spaced_Cons)
qed

lemma skip_word_run:
  assumes "s \<le> e" "\<forall>i. s \<le> i \<and> i < e \<longrightarrow> i < length b \<and> word_char (char_at b i)" "\<not> word_char (char_at b e)"
  shows "skip_word b s = e"
  using assms
proof (induction "e - s" arbitrary: s)
  case 0
  then have "\<not> word_char (char_at b s)" "s = e" by auto
  then show ?case by (subst skip_word.simps) (auto simp: word_char_def)
next
  case (Suc k)
  then have "skip_word b (s + 1) = e" by (intro Suc.hyps(1)) auto
  moreover have "s < length b" "word_char (char_at b s)" using Suc by auto
  ultimately show ?case by (subst skip_word.simps) (simp add: word_char_def)
qed

lemma gettoken_word_reads:
  assumes "reads b p (w # ts)" "good_word w"
  shows "gettoken b p = (CHR ''a'', (p, p + length w), p + length w + 1)"
proof -
  note st = reads_start [OF assms(1)] and nx = reads_next [OF assms(1)]
  have "skip_word b p = p + length w"
  proof (rule skip_word_run)
    show "\<forall>i. p \<le> i \<and> i < p + length w \<longrightarrow> i < length b \<and> word_char (char_at b i)"
    proof (intro allI impI)
      fix i assume i: "p \<le> i \<and> i < p + length w"
      then have "i - p < length w" "p + (i - p) = i" by auto
      then show "i < length b \<and> word_char (char_at b i)"
        using reads_char(1,2) [OF assms(1), of "i - p"] assms(2) by (auto simp: spaced_Cons nth_append good_word_def)
    qed
    show "\<not> word_char (char_at b (p + length w))" unfolding nx(4) by (simp add: word_char_def whitespace_def)
  qed simp
  moreover have "hd w \<notin> set symbols" using assms(2) by (auto simp: good_word_def word_char_def)
  ultimately show ?thesis using st nx(2) by (auto simp: gettoken_def symbols_def)
qed

lemma gettoken_symbol_reads:
  assumes "reads b p (t # ts)" "t \<in> {''|'', ''('', '')'', '';'', ''&'', ''<'', ''>''}"
  shows "gettoken b p = (hd t, (p, p + 1), p + 2)"
proof -
  note st = reads_start [OF assms(1)] and nx = reads_next [OF assms(1)]
  have "length t = 1" using assms(2) by auto
  then show ?thesis using assms(2) st nx(2,4) by (auto simp: gettoken_def Let_def NUL_def)
qed

lemma gettoken_end_reads: "reads b p [] \<Longrightarrow> gettoken b p = (NUL, (p, p), p)"
  using reads_end by (simp add: gettoken_def)

section \<open>Reading back redirections and arguments\<close>

definition resolve_redir :: "string \<Rightarrow> span \<times> int \<times> nat \<Rightarrow> string \<times> int \<times> nat" where
  "resolve_redir b r = (text_of b (fst r), snd r)"

text \<open>The tokens that can follow a command.\<close>

definition follow :: "string list \<Rightarrow> string list \<Rightarrow> bool" where
  "follow S ts \<longleftrightarrow> ts = [] \<or> hd ts \<in> set S"

lemma redirs_read:
  assumes "reads b p (redir_toks rs @ ts)" "\<forall>r\<in>set rs. redir_ok r" "ts = [] \<or> hd (hd ts) \<notin> set ''<>''"
  shows "\<exists>rs' p'. parseredirs b p = Inr (rs', p') \<and> reads b p' ts \<and> map (resolve_redir b) rs' = rs"
  using assms(1,2)
proof (induction rs arbitrary: p)
  case Nil
  then have r: "reads b p ts" by (simp add: redir_toks_def)
  then have "parseredirs b p = Inr ([], p)"
    using peek_reads [OF r, of "''<>''"] assms(3) by (subst parseredirs.simps) auto
  then show ?case using r by simp
next
  case (Cons x rs)
  obtain w mode fd where x: "x = (w, mode, fd)" by (cases x) auto
  define t where "t = (if mode = O_RDONLY then ''<'' else ''>'')"
  have ts: "reads b p (t # w # redir_toks rs @ ts)" using Cons.prems(1) by (simp add: redir_toks_def x t_def)
  have w: "good_word w" and m: "mode = O_RDONLY \<and> fd = 0 \<or> mode = O_WRONLY_CREATE \<and> fd = 1"
    using Cons.prems(2) x by (auto simp: redir_ok_def)
  have t: "t \<in> {''|'', ''('', '')'', '';'', ''&'', ''<'', ''>''}" "length t = 1" "hd t \<in> set ''<>''" by (auto simp: t_def)
  note n1 = reads_next [OF ts] and g1 = gettoken_symbol_reads [OF ts t(1)]
  have r2: "reads b (p + 2) (w # redir_toks rs @ ts)" using n1(1) t(2) by simp
  note n2 = reads_next [OF r2] and g2 = gettoken_word_reads [OF r2 w]
  obtain rs' p' where IH: "parseredirs b (p + 2 + length w + 1) = Inr (rs', p')" "reads b p' ts" "map (resolve_redir b) rs' = rs"
    using Cons.IH [OF n2(1)] Cons.prems(2) by auto
  let ?r = "((p + 2, p + 2 + length w), mode, fd)"
  have "parseredirs b p = Inr (?r # rs', p')"
    using peek_reads [OF ts, of "''<>''"] t(3) g1 g2 IH(1) m by (subst parseredirs.simps) (auto simp: t_def O_RDONLY_def O_WRONLY_CREATE_def)
  moreover have "resolve_redir b ?r = x" using n2(3) x by (simp add: resolve_redir_def)
  ultimately show ?case using IH by auto
qed

lemma args_none_read:
  assumes r: "reads b p ts" and "follow [''|'', '')'', ''&'', '';''] ts"
  shows "parse_args b argc p = Inr ([], [], p)"
proof (cases ts)
  case Nil
  then show ?thesis using r peek_reads [OF r] gettoken_end_reads by (subst parse_args.simps) simp
next
  case (Cons t ts')
  then show ?thesis using peek_reads [OF r, of "''|)&;''"] assms(2) by (subst parse_args.simps) (auto simp: follow_def)
qed

lemma args_read:
  assumes "reads b p (ws @ redir_toks rs @ ts)" "\<forall>w\<in>set ws. good_word w" "\<forall>r\<in>set rs. redir_ok r"
    "length ws + argc < MAXARGS" "ws \<noteq> [] \<or> rs = []" "follow [''|'', '')'', ''&'', '';''] ts"
  shows "\<exists>ws' rs' p'. parse_args b argc p = Inr (ws', rs', p') \<and> reads b p' ts \<and> map (text_of b) ws' = ws \<and>
    map (resolve_redir b) rs' = rs"
  using assms(1,2,4,5)
proof (induction ws arbitrary: p argc)
  case Nil
  then show ?case using args_none_read [OF _ assms(6), of b p argc] by (simp add: redir_toks_def)
next
  case (Cons w ws)
  have r: "reads b p (w # ws @ redir_toks rs @ ts)" and w: "good_word w" using Cons.prems by auto
  note n = reads_next [OF r] and g = gettoken_word_reads [OF r w]
  have hw: "hd w \<notin> set symbols" using w by (auto simp: good_word_def word_char_def)
  have pk: "peek b p ''|)&;'' = (False, p)" using peek_reads [OF r, of "''|)&;''"] hw by (auto simp: symbols_def)
  let ?p = "p + length w + 1"
  have "\<exists>rs1 p1 ws' rs' p'. parseredirs b ?p = Inr (rs1, p1) \<and> parse_args b (argc + 1) p1 = Inr (ws', rs', p') \<and>
      reads b p' ts \<and> map (text_of b) ws' = ws \<and> map (resolve_redir b) (rs1 @ rs') = rs"
  proof (cases "ws = []")
    case True
    then obtain rs1 p1 where q: "parseredirs b ?p = Inr (rs1, p1)" "reads b p1 ts" "map (resolve_redir b) rs1 = rs"
      using redirs_read [of b ?p rs ts] n(1) assms(3,6) by (auto simp: follow_def)
    show ?thesis using q True args_none_read [OF q(2) assms(6), of "argc + 1"] by auto
  next
    case False
    then obtain v vs where v: "ws = v # vs" "good_word v" using Cons.prems(2) by (cases ws) auto
    then have "hd v \<notin> set symbols" by (auto simp: good_word_def word_char_def)
    then have "parseredirs b ?p = Inr ([], ?p)"
      using peek_reads [OF n(1), of "''<>''"] v by (subst parseredirs.simps) (auto simp: symbols_def)
    moreover obtain ws' rs' p' where "parse_args b (argc + 1) ?p = Inr (ws', rs', p')" "reads b p' ts"
      "map (text_of b) ws' = ws" "map (resolve_redir b) rs' = rs"
      using Cons.IH [of ?p "argc + 1"] n(1) Cons.prems False by auto
    ultimately show ?thesis by auto
  qed
  then show ?case
    using pk g Cons.prems(3) n(3) by (subst parse_args.simps) (auto simp: NUL_def)
qed

section \<open>Reading back commands\<close>

text \<open>
  What each function of the grammar reads back; \<open>f\<close> is the fuel.  After the pipeline of a part of
  a list the loop for background marks is still to be run.
\<close>

definition exec_reads :: "string sh_cmd \<Rightarrow> bool" where
  "exec_reads c \<longleftrightarrow> (\<forall>b p ts f. reads b p (toks 3 c @ ts) \<longrightarrow> follow [''|'', '')'', ''&'', '';''] ts \<longrightarrow> 4 * length (toks 3 c @ ts) + 2 \<le> f \<longrightarrow>
     (\<exists>c' p'. parseexec f b p = Inr (c', p') \<and> reads b p' ts \<and> resolve b c' = c))"

definition pipe_reads :: "string sh_cmd \<Rightarrow> bool" where
  "pipe_reads c \<longleftrightarrow> (\<forall>b p ts f. reads b p (toks 2 c @ ts) \<longrightarrow> follow ['')'', ''&'', '';''] ts \<longrightarrow> 4 * length (toks 2 c @ ts) + 3 \<le> f \<longrightarrow>
     (\<exists>c' p'. parsepipe f b p = Inr (c', p') \<and> reads b p' ts \<and> resolve b c' = c))"

definition part_reads :: "string sh_cmd \<Rightarrow> bool" where
  "part_reads c \<longleftrightarrow> (\<forall>b p ts f. reads b p (toks 1 c @ ts) \<longrightarrow> follow ['')'', ''&'', '';''] ts \<longrightarrow> 4 * length (toks 1 c @ ts) + 3 \<le> f \<longrightarrow>
     (\<exists>d q c' p'. parsepipe f b p = Inr (d, q) \<and> back_loop b d q = back_loop b c' p' \<and> reads b p' ts \<and> resolve b c' = c))"

definition line_reads :: "string sh_cmd \<Rightarrow> bool" where
  "line_reads c \<longleftrightarrow> (\<forall>b p ts f. reads b p (toks 0 c @ ts) \<longrightarrow> follow ['')''] ts \<longrightarrow> 4 * length (toks 0 c @ ts) + 4 \<le> f \<longrightarrow>
     (\<exists>c' p'. parseline f b p = Inr (c', p') \<and> reads b p' ts \<and> resolve b c' = c))"

lemma follow_mono: "follow S ts \<Longrightarrow> set S \<subseteq> set S' \<Longrightarrow> follow S' ts"
  by (auto simp: follow_def)

lemma exec_readsD:
  assumes "exec_reads c" "reads b p (toks 3 c @ ts)" "follow [''|'', '')'', ''&'', '';''] ts" "4 * length (toks 3 c @ ts) + 2 \<le> f"
  obtains c' p' where "parseexec f b p = Inr (c', p')" "reads b p' ts" "resolve b c' = c"
  using assms unfolding exec_reads_def by blast

lemma pipe_readsD:
  assumes "pipe_reads c" "reads b p (toks 2 c @ ts)" "follow ['')'', ''&'', '';''] ts" "4 * length (toks 2 c @ ts) + 3 \<le> f"
  obtains c' p' where "parsepipe f b p = Inr (c', p')" "reads b p' ts" "resolve b c' = c"
  using assms unfolding pipe_reads_def by blast

lemma part_readsD:
  assumes "part_reads c" "reads b p (toks 1 c @ ts)" "follow ['')'', ''&'', '';''] ts" "4 * length (toks 1 c @ ts) + 3 \<le> f"
  obtains d q c' p' where "parsepipe f b p = Inr (d, q)" "back_loop b d q = back_loop b c' p'" "reads b p' ts" "resolve b c' = c"
  using assms unfolding part_reads_def by blast

lemma line_readsD:
  assumes "line_reads c" "reads b p (toks 0 c @ ts)" "follow ['')''] ts" "4 * length (toks 0 c @ ts) + 4 \<le> f"
  obtains c' p' where "parseline f b p = Inr (c', p')" "reads b p' ts" "resolve b c' = c"
  using assms unfolding line_reads_def by blast

lemma pipe_from_exec:
  assumes "exec_reads c" "toks 2 c = toks 3 c"
  shows "pipe_reads c"
  unfolding pipe_reads_def
proof (intro allI impI)
  fix b p ts f
  assume r: "reads b p (toks 2 c @ ts)" and fo: "follow ['')'', ''&'', '';''] ts" and f: "4 * length (toks 2 c @ ts) + 3 \<le> f"
  obtain g where g: "f = Suc g" using f by (cases f) auto
  have "follow [''|'', '')'', ''&'', '';''] ts" using fo by (rule follow_mono) auto
  then obtain c' p' where e: "parseexec g b p = Inr (c', p')" "reads b p' ts" "resolve b c' = c"
    using exec_readsD [OF assms(1), of b p ts g] r f g assms(2) by auto
  have "peek b p' ''|'' = (False, p')" using peek_reads [OF e(2), of "''|''"] fo by (auto simp: follow_def)
  then show "\<exists>c' p'. parsepipe f b p = Inr (c', p') \<and> reads b p' ts \<and> resolve b c' = c" using e g by simp
qed

lemma part_from_pipe:
  assumes "pipe_reads c" "toks 1 c = toks 2 c"
  shows "part_reads c"
  using assms unfolding pipe_reads_def part_reads_def by metis

lemma line_from_part:
  assumes "part_reads c" "toks 0 c = toks 1 c"
  shows "line_reads c"
  unfolding line_reads_def
proof (intro allI impI)
  fix b p ts f
  assume r: "reads b p (toks 0 c @ ts)" and fo: "follow ['')''] ts" and f: "4 * length (toks 0 c @ ts) + 4 \<le> f"
  obtain g where g: "f = Suc g" using f by (cases f) auto
  have "follow ['')'', ''&'', '';''] ts" using fo by (rule follow_mono) auto
  moreover have "reads b p (toks 1 c @ ts)" "4 * length (toks 1 c @ ts) + 3 \<le> g" using r f g assms(2) by auto
  ultimately obtain d q c' p' where
    e: "parsepipe g b p = Inr (d, q)" "back_loop b d q = back_loop b c' p'" "reads b p' ts" "resolve b c' = c"
    using part_readsD [OF assms(1)] by blast
  have "peek b p' cs = (False, p')" if "CHR '')'' \<notin> set cs" for cs using peek_reads [OF e(3), of cs] fo that by (auto simp: follow_def)
  then have "back_loop b c' p' = (c', p')" "peek b p' '';'' = (False, p')" by (auto simp: back_loop.simps [of b c' p'])
  then show "\<exists>c' p'. parseline f b p = Inr (c', p') \<and> reads b p' ts \<and> resolve b c' = c" using e g by simp
qed

lemma pipe_reads_PIPE:
  assumes "exec_reads l" "pipe_reads r"
  shows "pipe_reads (PIPE l r)"
  unfolding pipe_reads_def
proof (intro allI impI)
  fix b p ts f
  assume rd: "reads b p (toks 2 (PIPE l r) @ ts)" and fo: "follow ['')'', ''&'', '';''] ts"
    and f: "4 * length (toks 2 (PIPE l r) @ ts) + 3 \<le> f"
  obtain g where g: "f = Suc g" using f by (cases f) auto
  have t: "toks 2 (PIPE l r) @ ts = toks 3 l @ ''|'' # toks 2 r @ ts" by (simp add: parens_def)
  obtain c1 p1 where e: "parseexec g b p = Inr (c1, p1)" "reads b p1 (''|'' # toks 2 r @ ts)" "resolve b c1 = l"
    using exec_readsD [OF assms(1), of b p "''|'' # toks 2 r @ ts" g] rd f g t by (auto simp: follow_def)
  have pk: "peek b p1 ''|'' = (True, p1)" "gettoken b p1 = (CHR ''|'', (p1, p1 + 1), p1 + 2)"
    using peek_reads [OF e(2), of "''|''"] gettoken_symbol_reads [OF e(2)] by auto
  have "reads b (p1 + 2) (toks 2 r @ ts)" using reads_next(1) [OF e(2)] by simp
  then obtain c2 p2 where "parsepipe g b (p1 + 2) = Inr (c2, p2)" "reads b p2 ts" "resolve b c2 = r"
    using pipe_readsD [OF assms(2), of b "p1 + 2" ts g] fo f g t by auto
  then show "\<exists>c' p'. parsepipe f b p = Inr (c', p') \<and> reads b p' ts \<and> resolve b c' = PIPE l r"
    using e pk g by simp
qed

lemma part_reads_BACK:
  assumes "part_reads c"
  shows "part_reads (BACK c)"
  unfolding part_reads_def
proof (intro allI impI)
  fix b p ts f
  assume rd: "reads b p (toks 1 (BACK c) @ ts)" and fo: "follow ['')'', ''&'', '';''] ts"
    and f: "4 * length (toks 1 (BACK c) @ ts) + 3 \<le> f"
  have t: "toks 1 (BACK c) @ ts = toks 1 c @ ''&'' # ts" by (simp add: parens_def)
  have "reads b p (toks 1 c @ ''&'' # ts)" "4 * length (toks 1 c @ ''&'' # ts) + 3 \<le> f" "follow ['')'', ''&'', '';''] (''&'' # ts)"
    using rd f t by (auto simp: follow_def)
  then obtain d q c' p' where
    e: "parsepipe f b p = Inr (d, q)" "back_loop b d q = back_loop b c' p'" "reads b p' (''&'' # ts)" "resolve b c' = c"
    using part_readsD [OF assms] by blast
  have "back_loop b c' p' = back_loop b (BACK c') (p' + 2)"
    using peek_reads [OF e(3), of "''&''"] gettoken_symbol_reads [OF e(3)] by (simp add: back_loop.simps [of b c' p'])
  moreover have "reads b (p' + 2) ts" using reads_next(1) [OF e(3)] by simp
  ultimately show "\<exists>d q c' p'. parsepipe f b p = Inr (d, q) \<and> back_loop b d q = back_loop b c' p' \<and> reads b p' ts \<and> resolve b c' = BACK c"
    using e by (intro exI [of _ d] exI [of _ q] exI [of _ "BACK c'"] exI [of _ "p' + 2"]) simp
qed

lemma line_reads_LIST:
  assumes "part_reads l" "line_reads r"
  shows "line_reads (LIST l r)"
  unfolding line_reads_def
proof (intro allI impI)
  fix b p ts f
  assume rd: "reads b p (toks 0 (LIST l r) @ ts)" and fo: "follow ['')''] ts" and f: "4 * length (toks 0 (LIST l r) @ ts) + 4 \<le> f"
  obtain g where g: "f = Suc g" using f by (cases f) auto
  have t: "toks 0 (LIST l r) @ ts = toks 1 l @ '';'' # toks 0 r @ ts" by (simp add: parens_def)
  have "reads b p (toks 1 l @ '';'' # toks 0 r @ ts)" "4 * length (toks 1 l @ '';'' # toks 0 r @ ts) + 3 \<le> g"
    "follow ['')'', ''&'', '';''] ('';'' # toks 0 r @ ts)" using rd f g t by (auto simp: follow_def)
  then obtain d q c1 p1 where e: "parsepipe g b p = Inr (d, q)" "back_loop b d q = back_loop b c1 p1"
    "reads b p1 ('';'' # toks 0 r @ ts)" "resolve b c1 = l"
    using part_readsD [OF assms(1)] by blast
  have pk: "back_loop b c1 p1 = (c1, p1)" "peek b p1 '';'' = (True, p1)" "gettoken b p1 = (CHR '';'', (p1, p1 + 1), p1 + 2)"
    using peek_reads [OF e(3)] gettoken_symbol_reads [OF e(3)] by (auto simp: back_loop.simps [of b c1 p1])
  have "reads b (p1 + 2) (toks 0 r @ ts)" using reads_next(1) [OF e(3)] by simp
  then obtain c2 p2 where "parseline g b (p1 + 2) = Inr (c2, p2)" "reads b p2 ts" "resolve b c2 = r"
    using line_readsD [OF assms(2), of b "p1 + 2" ts g] fo f g t by auto
  then show "\<exists>c' p'. parseline f b p = Inr (c', p') \<and> reads b p' ts \<and> resolve b c' = LIST l r"
    using e pk g by simp
qed

lemma resolve_add_redirs: "resolve b (add_redirs c rs) = add_redirs (resolve b c) (map (resolve_redir b) rs)"
  unfolding add_redirs_def by (induction rs arbitrary: c) (auto simp: resolve_redir_def)

lemma toks_add_redirs: "toks 3 (add_redirs c rs) = toks 3 c @ redir_toks rs"
proof (induction rs rule: rev_induct)
  case (snoc r rs)
  obtain w mode fd where "r = (w, mode, fd)" by (cases r) auto
  then show ?case using snoc by (simp add: add_redirs_def redir_toks_def)
qed (simp add: add_redirs_def redir_toks_def)

text \<open>A command in parentheses, with redirections.\<close>

lemma exec_reads_block:
  assumes "line_reads d" "toks 3 d = ''('' # toks 0 d @ ['')'']" "\<forall>r\<in>set rs. redir_ok r"
  shows "exec_reads (add_redirs d rs)"
  unfolding exec_reads_def
proof (intro allI impI)
  fix b p ts f
  assume rd: "reads b p (toks 3 (add_redirs d rs) @ ts)" and fo: "follow [''|'', '')'', ''&'', '';''] ts"
    and f: "4 * length (toks 3 (add_redirs d rs) @ ts) + 2 \<le> f"
  have t: "toks 3 (add_redirs d rs) @ ts = ''('' # toks 0 d @ '')'' # redir_toks rs @ ts" by (simp add: toks_add_redirs assms(2))
  obtain g where g: "f = Suc (Suc g)" using f by (cases f; cases "f - 1") auto
  note rd = rd [unfolded t]
  have pk: "peek b p ''('' = (True, p)" "gettoken b p = (CHR ''('', (p, p + 1), p + 2)"
    using peek_reads [OF rd] gettoken_symbol_reads [OF rd] by auto
  have "reads b (p + 2) (toks 0 d @ '')'' # redir_toks rs @ ts)" using reads_next(1) [OF rd] by simp
  then obtain c1 p1 where e: "parseline g b (p + 2) = Inr (c1, p1)" "reads b p1 ('')'' # redir_toks rs @ ts)" "resolve b c1 = d"
    using line_readsD [OF assms(1), of b "p + 2" "'')'' # redir_toks rs @ ts" g] f g t by (auto simp: follow_def)
  have pk2: "peek b p1 '')'' = (True, p1)" "gettoken b p1 = (CHR '')'', (p1, p1 + 1), p1 + 2)"
    using peek_reads [OF e(2)] gettoken_symbol_reads [OF e(2)] by auto
  have "reads b (p1 + 2) (redir_toks rs @ ts)" using reads_next(1) [OF e(2)] by simp
  then obtain rs' p2 where "parseredirs b (p1 + 2) = Inr (rs', p2)" "reads b p2 ts" "map (resolve_redir b) rs' = rs"
    using redirs_read [of b "p1 + 2" rs ts] assms(3) fo by (auto simp: follow_def)
  then show "\<exists>c' p'. parseexec f b p = Inr (c', p') \<and> reads b p' ts \<and> resolve b c' = add_redirs d rs"
    using e pk pk2 g by (simp add: resolve_add_redirs)
qed

text \<open>A simple command: its arguments, then its redirections.\<close>

lemma exec_reads_EXEC:
  assumes "length ws < MAXARGS" "\<forall>w\<in>set ws. good_word w" "\<forall>r\<in>set rs. redir_ok r"
  shows "exec_reads (add_redirs (EXEC ws) rs)"
  unfolding exec_reads_def
proof (intro allI impI)
  fix b p ts f
  assume rd: "reads b p (toks 3 (add_redirs (EXEC ws) rs) @ ts)" and fo: "follow [''|'', '')'', ''&'', '';''] ts"
    and f: "4 * length (toks 3 (add_redirs (EXEC ws) rs) @ ts) + 2 \<le> f"
  have t: "toks 3 (add_redirs (EXEC ws) rs) @ ts = ws @ redir_toks rs @ ts" by (simp add: toks_add_redirs)
  obtain g where g: "f = Suc g" using f by (cases f) auto
  note rd = rd [unfolded t]
  show "\<exists>c' p'. parseexec f b p = Inr (c', p') \<and> reads b p' ts \<and> resolve b c' = add_redirs (EXEC ws) rs"
  proof (cases ws)
    case Nil
    have "peek b p ''('' = (False, p)"
      using peek_reads [OF rd, of "''(''"] Nil fo by (cases rs) (auto simp: redir_toks_def follow_def split: if_splits)
    moreover obtain rs' p1 where q: "parseredirs b p = Inr (rs', p1)" "reads b p1 ts" "map (resolve_redir b) rs' = rs"
      using redirs_read [of b p rs ts] rd assms(3) fo Nil by (auto simp: follow_def)
    moreover have "parse_args b 0 p1 = Inr ([], [], p1)" by (rule args_none_read [OF q(2) fo])
    ultimately show ?thesis using g Nil by (simp add: resolve_add_redirs)
  next
    case (Cons w ws')
    then have w: "hd w \<notin> set symbols" using assms(2) by (auto simp: good_word_def word_char_def)
    have "peek b p ''('' = (False, p)" using peek_reads [OF rd, of "''(''"] Cons w by (auto simp: symbols_def)
    moreover have "peek b p ''<>'' = (False, p)" using peek_reads [OF rd, of "''<>''"] Cons w by (auto simp: symbols_def)
    then have "parseredirs b p = Inr ([], p)" by (subst parseredirs.simps) simp
    moreover obtain ws1 rs' p' where "parse_args b 0 p = Inr (ws1, rs', p')" "reads b p' ts"
      "map (text_of b) ws1 = ws" "map (resolve_redir b) rs' = rs"
      using args_read [of b p ws rs ts 0] rd assms fo Cons by auto
    ultimately show ?thesis using g by (simp add: resolve_add_redirs)
  qed
qed

section \<open>Round trip\<close>

text \<open>A command is a core without redirections on the outside, and redirections.\<close>

fun core :: "string sh_cmd \<Rightarrow> string sh_cmd" where
  "core (REDIR c w mode fd) = core c"
| "core c = c"

fun redirs :: "string sh_cmd \<Rightarrow> (string \<times> int \<times> nat) list" where
  "redirs (REDIR c w mode fd) = redirs c @ [(w, mode, fd)]"
| "redirs c = []"

lemma core_redirs: "add_redirs (core c) (redirs c) = c"
  by (induction c) (simp_all add: add_redirs_def)

lemma core_ok: "sh_ok c \<Longrightarrow> sh_ok (core c) \<and> (\<forall>r\<in>set (redirs c). redir_ok r)"
  by (induction c) auto

lemma core_size: "core c = c \<or> size (core c) < size c"
  by (induction c) auto

lemma exec_reads_core:
  assumes "sh_ok c" "\<forall>ws. core c \<noteq> EXEC ws \<Longrightarrow> line_reads (core c)"
  shows "exec_reads c"
proof (cases "\<exists>ws. core c = EXEC ws")
  case True
  then obtain ws where ws: "core c = EXEC ws" ..
  have "exec_reads (add_redirs (EXEC ws) (redirs c))"
    using core_ok [OF assms(1)] ws by (intro exec_reads_EXEC) auto
  then show ?thesis using core_redirs [of c] ws by simp
next
  case False
  have "toks 3 (core c) = ''('' # toks 0 (core c) @ ['')'']"
    using False by (induction c) (auto simp: parens_def)
  then have "exec_reads (add_redirs (core c) (redirs c))"
    using core_ok [OF assms(1)] assms(2) False by (intro exec_reads_block) auto
  then show ?thesis using core_redirs [of c] by simp
qed

lemma all_reads: "sh_ok c \<Longrightarrow> exec_reads c \<and> pipe_reads c \<and> part_reads c \<and> line_reads c"
proof (induction "size c" arbitrary: c rule: less_induct)
  case less
  show ?case
  proof (cases c)
    case (PIPE l r)
    have p: "pipe_reads c" unfolding PIPE using less PIPE by (intro pipe_reads_PIPE) auto
    then have q: "part_reads c" by (rule part_from_pipe) (simp add: PIPE parens_def)
    then have l: "line_reads c" by (rule line_from_part) (simp add: PIPE parens_def)
    then have "exec_reads c" using less.prems PIPE by (intro exec_reads_core) auto
    then show ?thesis using p q l by simp
  next
    case (BACK d)
    have q: "part_reads c" unfolding BACK using less BACK by (intro part_reads_BACK) auto
    then have l: "line_reads c" by (rule line_from_part) (simp add: BACK parens_def)
    then have e: "exec_reads c" using less.prems BACK by (intro exec_reads_core) auto
    then have "pipe_reads c" by (rule pipe_from_exec) (simp add: BACK parens_def)
    then show ?thesis using e q l by simp
  next
    case (LIST l r)
    have l: "line_reads c" unfolding LIST using less LIST by (intro line_reads_LIST) auto
    then have e: "exec_reads c" using less.prems LIST by (intro exec_reads_core) auto
    then have p: "pipe_reads c" by (rule pipe_from_exec) (simp add: LIST parens_def)
    then have "part_reads c" by (rule part_from_pipe) (simp add: LIST parens_def)
    then show ?thesis using e p l by simp
  next
    case (EXEC ws)
    then have e: "exec_reads c" using less.prems by (intro exec_reads_core) auto
    then have p: "pipe_reads c" by (rule pipe_from_exec) (simp add: EXEC)
    then have q: "part_reads c" by (rule part_from_pipe) (simp add: EXEC)
    then have "line_reads c" by (rule line_from_part) (simp add: EXEC)
    then show ?thesis using e p q by simp
  next
    case (REDIR d w mode fd)
    have "size (core c) < size c" using REDIR core_size [of d] by auto
    then have "line_reads (core c)" using less core_ok [OF less.prems] by blast
    then have e: "exec_reads c" using less.prems by (intro exec_reads_core) auto
    then have p: "pipe_reads c" by (rule pipe_from_exec) (simp add: REDIR)
    then have q: "part_reads c" by (rule part_from_pipe) (simp add: REDIR)
    then have "line_reads c" by (rule line_from_part) (simp add: REDIR)
    then show ?thesis using e p q by simp
  qed
qed

lemma token_word: "good_word w \<Longrightarrow> token_ok w"
  by (simp add: token_ok_def)

lemma token_symbols [simp]:
  "token_ok ''|''" "token_ok ''(''" "token_ok '')''" "token_ok '';''" "token_ok ''&''" "token_ok ''<''" "token_ok ''>''"
  by (simp_all add: token_ok_def)

lemma token_no_NUL: "token_ok t \<Longrightarrow> NUL \<notin> set t"
  unfolding token_ok_def
proof (erule disjE)
  assume "good_word t"
  then show ?thesis by (auto simp: good_word_def)
qed (elim insertE emptyE; simp add: NUL_def)

lemma toks_ok: "sh_ok c \<Longrightarrow> \<forall>t\<in>set (toks n c). token_ok t"
proof (induction c arbitrary: n)
  case (EXEC ws)
  then show ?case by (simp add: token_word)
next
  case (REDIR c w mode fd)
  then have "token_ok w" by (simp add: redir_ok_def token_word)
  moreover have "\<forall>t\<in>set (toks 3 c). token_ok t" using REDIR by simp
  ultimately show ?case by (simp add: redir_toks_def ball_Un)
qed (simp_all add: parens_def ball_Un)

lemma spaced_no_NUL: "\<forall>t\<in>set ts. token_ok t \<Longrightarrow> NUL \<notin> set (spaced ts)"
  using token_no_NUL by (induction ts) (auto simp: spaced_def NUL_def)

lemma length_spaced: "length ts \<le> length (spaced ts)"
  by (induction ts) (auto simp: spaced_def)

lemma parsecmd_reads_back:
  assumes "sh_ok t"
  shows "\<exists>c. parsecmd (spaced (toks 0 t)) = Inr c \<and> resolve (spaced (toks 0 t)) c = t"
proof -
  let ?s = "spaced (toks 0 t)"
  have r: "reads ?s 0 (toks 0 t @ [])" using toks_ok [OF assms] by (simp add: reads_def)
  have f: "4 * length (toks 0 t @ []) + 4 \<le> 4 * length ?s + 4" using length_spaced [of "toks 0 t"] by simp
  have l: "line_reads t" using all_reads [OF assms] by blast
  obtain c p where c: "parseline (4 * length ?s + 4) ?s 0 = Inr (c, p)" "reads ?s p []" "resolve ?s c = t"
    by (rule line_readsD [OF l r _ f]) (simp add: follow_def)
  have "peek ?s p [] = (False, p)" "p = length ?s" using peek_reads [OF c(2)] reads_end [OF c(2)] by auto
  then have "parsecmd ?s = Inr c" using c(1) by (simp add: parsecmd_def)
  then show ?thesis using c(3) by blast
qed

text \<open>
  C25: whatever command is written out in the syntax of the shell, with lists, background marks,
  pipelines, redirections and parentheses nested in any way, \<open>parsecmd\<close> reads back exactly this
  command: the tree has its shape, and after \<open>nulterminate\<close> the C strings of its words are the
  words that were written.
\<close>

theorem sh_roundtrip:
  assumes "sh_ok t"
  shows "\<exists>c. parsecmd (spaced (toks 0 t)) = Inr c \<and>
    map_sh_cmd (\<lambda>w. cstring (nulterminate c (spaced (toks 0 t) @ [NUL])) (fst w)) c = t"
proof -
  let ?s = "spaced (toks 0 t)"
  obtain c where c: "parsecmd ?s = Inr c" "resolve ?s c = t" using parsecmd_reads_back [OF assms] by blast
  have n: "NUL \<notin> set ?s" using spaced_no_NUL toks_ok [OF assms] by blast
  have "cstring (nulterminate c (?s @ [NUL])) (fst w) = text_of ?s w" if "w \<in> words c" for w
    using cstring_of_word [OF n c(1), of "fst w" "snd w"] that by (simp add: text_of_def)
  then have "map_sh_cmd (\<lambda>w. cstring (nulterminate c (?s @ [NUL])) (fst w)) c = resolve ?s c"
    by (intro sh_cmd.map_cong) auto
  then show ?thesis using c by simp
qed

lemma sh_roundtrip_witness:
  "\<exists>c. parsecmd ''( ls ; ps ) | wc > out '' = Inr c \<and>
     map_sh_cmd (\<lambda>w. cstring (nulterminate c (''( ls ; ps ) | wc > out '' @ [NUL])) (fst w)) c =
       PIPE (LIST (EXEC [''ls'']) (EXEC [''ps''])) (REDIR (EXEC [''wc'']) ''out'' O_WRONLY_CREATE 1)"
proof -
  let ?t = "PIPE (LIST (EXEC [''ls'']) (EXEC [''ps''])) (REDIR (EXEC [''wc'']) ''out'' O_WRONLY_CREATE 1)"
  have w: "good_word w" if "w \<in> {''ls'', ''ps'', ''wc'', ''out''}" for w
    using that by (elim insertE emptyE; simp add: good_word_def word_char_def whitespace_def symbols_def NUL_def)
  have s: "spaced (toks 0 ?t) = ''( ls ; ps ) | wc > out ''"
    by (simp add: spaced_def parens_def redir_toks_def O_RDONLY_def O_WRONLY_CREATE_def)
  have "sh_ok ?t" using w by (simp add: redir_ok_def MAXARGS_def)
  from sh_roundtrip [OF this] show ?thesis unfolding s .
qed

end
