(* ===== verification/Sh_Run.thy ===== *)
theory Sh_Run
  imports Sh_Print
begin

text \<open>
  Running commands in the xv6 shell (\<open>runcmd\<close> and the start of \<open>main\<close> in \<open>sh.c\<close>): the processes
  a command becomes and the file descriptors each of them has.  The calls \<open>open\<close>, \<open>close\<close>, \<open>dup\<close>
  and \<open>pipe\<close> work on the descriptor table as \<open>sysfile.c\<close> does, which gives out the lowest free
  descriptor.
\<close>

section \<open>Descriptor tables\<close>

text \<open>What a descriptor refers to; a pipe is named by the place of the command that made it.\<close>

datatype fd_ref = Console | Opened string int | PipeR "nat list" | PipeW "nat list"

type_synonym fds = "fd_ref option list"

fun free_fd :: "fds \<Rightarrow> nat \<Rightarrow> nat option" where
  "free_fd [] fd = None"
| "free_fd (x # xs) fd = (if x = None then Some fd else free_fd xs (fd + 1))"

definition sh_fdalloc :: "fd_ref \<Rightarrow> fds \<Rightarrow> (nat \<times> fds) option" where
  "sh_fdalloc f ofile = (case free_fd ofile 0 of None \<Rightarrow> None | Some fd \<Rightarrow> Some (fd, ofile[fd := Some f]))"

definition sh_close :: "nat \<Rightarrow> fds \<Rightarrow> fds" where
  "sh_close fd ofile = ofile[fd := None]"

definition sh_dup :: "nat \<Rightarrow> fds \<Rightarrow> fds" where
  "sh_dup fd ofile =
     (if fd < length ofile then
        (case ofile ! fd of
           None \<Rightarrow> ofile
         | Some f \<Rightarrow> (case sh_fdalloc f ofile of None \<Rightarrow> ofile | Some (_, ofile) \<Rightarrow> ofile))
      else ofile)"

definition sh_pipe :: "nat list \<Rightarrow> fds \<Rightarrow> (nat \<times> nat \<times> fds) option" where
  "sh_pipe name ofile =
     (case sh_fdalloc (PipeR name) ofile of
        None \<Rightarrow> None
      | Some (fd0, ofile) \<Rightarrow>
          (case sh_fdalloc (PipeW name) ofile of None \<Rightarrow> None | Some (fd1, ofile) \<Rightarrow> Some (fd0, fd1, ofile)))"

section \<open>Running a command\<close>

text \<open>
  The process that runs a command: it exits, panics, cannot open a file, executes a program, forks
  a child, waits for it and goes on, forks two children and waits for both, or forks a child and
  exits.
\<close>

datatype process =
    Exits
  | Panics string
  | OpenFails string
  | Executes "string list" fds
  | Then process process
  | Both process process
  | Background process

text \<open>\<open>can_open\<close> says which files can be opened, \<open>forks\<close> whether \<open>fork\<close> succeeds.\<close>

fun runcmd :: "(string \<Rightarrow> int \<Rightarrow> bool) \<Rightarrow> bool \<Rightarrow> string sh_cmd \<Rightarrow> nat list \<Rightarrow> fds \<Rightarrow> process" where
  "runcmd can_open forks (EXEC argv) at ofile = (if argv = [] then Exits else Executes argv ofile)"
| "runcmd can_open forks (REDIR cmd name mode fd) at ofile =
     (let ofile = sh_close fd ofile in
      if \<not> can_open name mode then OpenFails name
      else case sh_fdalloc (Opened name mode) ofile of
             None \<Rightarrow> OpenFails name
           | Some (_, ofile) \<Rightarrow> runcmd can_open forks cmd at ofile)"
| "runcmd can_open forks (LIST left right) at ofile =
     (if \<not> forks then Panics ''fork''
      else Then (runcmd can_open forks left (0 # at) ofile) (runcmd can_open forks right (1 # at) ofile))"
| "runcmd can_open forks (PIPE left right) at ofile =
     (case sh_pipe at ofile of
        None \<Rightarrow> Panics ''pipe''
      | Some (p0, p1, ofile) \<Rightarrow>
          if \<not> forks then Panics ''fork''
          else Both
            (runcmd can_open forks left (0 # at) (sh_close p1 (sh_close p0 (sh_dup p1 (sh_close 1 ofile)))))
            (runcmd can_open forks right (1 # at) (sh_close p1 (sh_close p0 (sh_dup p0 (sh_close 0 ofile))))))"
| "runcmd can_open forks (BACK cmd) at ofile =
     (if \<not> forks then Panics ''fork'' else Background (runcmd can_open forks cmd (0 # at) ofile))"

text \<open>The start of \<open>main\<close>: the console is opened until a descriptor above 2 is given out.\<close>

lemma free_fd_spec:
  "case free_fd xs n of
     None \<Rightarrow> None \<notin> set xs
   | Some fd \<Rightarrow> n \<le> fd \<and> fd - n < length xs \<and> xs ! (fd - n) = None \<and> (\<forall>i < fd - n. xs ! i \<noteq> None)"
proof (induction xs arbitrary: n)
  case (Cons x xs)
  show ?case
  proof (cases "x = None \<or> free_fd xs (n + 1) = None")
    case False
    then obtain fd where fd: "free_fd xs (n + 1) = Some fd" by auto
    then have I: "n + 1 \<le> fd" "fd - (n + 1) < length xs" "xs ! (fd - (n + 1)) = None" "\<forall>i < fd - (n + 1). xs ! i \<noteq> None"
      using Cons [of "n + 1"] by auto
    moreover have "(x # xs) ! i \<noteq> None" if "i < fd - n" for i
      using I False that by (cases i) auto
    ultimately show ?thesis using False fd by (auto simp: nth_Cons')
  qed (use Cons [of "n + 1"] in \<open>auto split: option.splits\<close>)
qed simp

lemma sh_fdalloc_Some:
  assumes "sh_fdalloc f ofile = Some (fd, ofile')"
  shows "fd < length ofile" "ofile ! fd = None" "\<forall>i < fd. ofile ! i \<noteq> None" "ofile' = ofile[fd := Some f]"
  using assms free_fd_spec [of ofile 0] by (auto simp: sh_fdalloc_def split: option.splits)

lemma sh_fdalloc_lowest:
  assumes "fd < length ofile" "ofile ! fd = None" "\<forall>i < fd. ofile ! i \<noteq> None"
  shows "sh_fdalloc f ofile = Some (fd, ofile[fd := Some f])"
proof (cases "free_fd ofile 0")
  case None
  then show ?thesis using free_fd_spec [of ofile 0] assms by (auto simp: in_set_conv_nth)
next
  case (Some fd')
  then have s: "ofile ! fd' = None" "\<forall>i < fd'. ofile ! i \<noteq> None" using free_fd_spec [of ofile 0] by auto
  then have "fd' = fd" using assms(2,3) by (metis linorder_neqE_nat)
  then show ?thesis using Some by (simp add: sh_fdalloc_def)
qed

lemma sh_fdalloc_fewer:
  assumes "sh_fdalloc f ofile = Some (fd, ofile')"
  shows "card {i. i < length ofile' \<and> ofile' ! i = None} < card {i. i < length ofile \<and> ofile ! i = None}"
proof (rule psubset_card_mono)
  show "{i. i < length ofile' \<and> ofile' ! i = None} \<subset> {i. i < length ofile \<and> ofile ! i = None}"
    using sh_fdalloc_Some [OF assms] by (auto simp: nth_list_update split: if_splits)
qed simp

function open_three :: "bool \<Rightarrow> fds \<Rightarrow> fds" where
  "open_three console ofile =
     (if \<not> console then ofile
      else case sh_fdalloc Console ofile of
             None \<Rightarrow> ofile
           | Some (fd, ofile) \<Rightarrow> if fd \<ge> 3 then sh_close fd ofile else open_three console ofile)"
  by pat_completeness auto
termination
  by (relation "measure (\<lambda>(console, ofile). card {i. i < length ofile \<and> ofile ! i = None})")
    (auto dest: sh_fdalloc_fewer)

declare open_three.simps [simp del]

text \<open>
  One line of input: \<open>cd\<close> is done by the shell itself, with the last character cut off; anything
  else is parsed and run in a child.
\<close>

datatype sh_action = ChDir string | RunChild "sh_error + span sh_cmd"

definition sh_line :: "string \<Rightarrow> sh_action" where
  "sh_line buf = (if take 3 buf = ''cd '' then ChDir (drop 3 (butlast buf)) else RunChild (parsecmd buf))"

section \<open>Pipelines\<close>

lemma open_three_ok:
  assumes "length ofile > 3" "ofile ! 3 = None"
  shows "length (open_three True ofile) = length ofile \<and> (\<forall>i < 3. open_three True ofile ! i \<noteq> None) \<and>
    (\<forall>i. 3 \<le> i \<longrightarrow> i < length ofile \<longrightarrow> open_three True ofile ! i = ofile ! i)"
  using assms
proof (induction "True" ofile rule: open_three.induct)
  case (1 ofile)
  have "\<exists>fd ofile'. sh_fdalloc Console ofile = Some (fd, ofile')"
    using 1(2,3) free_fd_spec [of ofile 0] nth_mem [of 3 ofile]
    by (auto simp: sh_fdalloc_def split: option.splits)
  then obtain fd ofile' where a: "sh_fdalloc Console ofile = Some (fd, ofile')" by blast
  note A = sh_fdalloc_Some [OF a]
  have fd: "fd \<le> 3" using A(3) 1(3) by (metis not_le)
  show ?case
  proof (cases "fd = 3")
    case True
    then have "open_three True ofile = ofile[3 := None]" using a A(4) by (subst open_three.simps) (simp add: sh_close_def)
    then show ?thesis using A(3) True 1(3) by (auto simp: nth_list_update)
  next
    case False
    then have o: "open_three True ofile = open_three True ofile'" using a fd by (subst open_three.simps) simp
    have "length ofile' > 3" "ofile' ! 3 = None" using A(4) 1(2,3) False by auto
    from 1(1) [OF _ a refl _ this] have
      "length (open_three True ofile') = length ofile' \<and> (\<forall>i < 3. open_three True ofile' ! i \<noteq> None) \<and>
       (\<forall>i. 3 \<le> i \<longrightarrow> i < length ofile' \<longrightarrow> open_three True ofile' ! i = ofile' ! i)" using False fd by simp
    then show ?thesis unfolding o using A(4) fd False by auto
  qed
qed

lemma sh_pipe_Some:
  assumes "sh_pipe at ofile = Some (p0, p1, ofile')"
  shows "p0 < length ofile" "p1 < length ofile" "p0 \<noteq> p1" "ofile ! p0 = None" "ofile ! p1 = None"
    "ofile' = ofile[p0 := Some (PipeR at), p1 := Some (PipeW at)]"
proof -
  obtain o1 where o1: "sh_fdalloc (PipeR at) ofile = Some (p0, o1)" "sh_fdalloc (PipeW at) o1 = Some (p1, ofile')"
    using assms by (auto simp: sh_pipe_def split: option.splits)
  note a = sh_fdalloc_Some [OF o1(1)] and b = sh_fdalloc_Some [OF o1(2)]
  show "p0 < length ofile" "p1 < length ofile" "p0 \<noteq> p1" "ofile ! p0 = None" "ofile ! p1 = None"
    "ofile' = ofile[p0 := Some (PipeR at), p1 := Some (PipeW at)]"
    using a b by (auto simp: nth_list_update split: if_splits)
qed

text \<open>A child puts one end of the pipe in the place of a standard descriptor and closes both ends.\<close>

lemma pipe_end_moved:
  assumes p: "p0 < length ofile" "p1 < length ofile" "p0 \<noteq> p1" "ofile ! p0 = None" "ofile ! p1 = None"
    and d: "d < length ofile" "\<forall>i \<le> d. ofile ! i \<noteq> None" and e: "e = p0 \<or> e = p1"
  shows "sh_close p1 (sh_close p0 (sh_dup e (sh_close d (ofile[p0 := Some x, p1 := Some y])))) =
    ofile[d := Some (if e = p0 then x else y)]"
proof -
  let ?f = "(ofile[p0 := Some x, p1 := Some y])[d := None]" and ?v = "if e = p0 then x else y"
  have n: "d < p0" "d < p1" using d(2) p(4,5) by (metis not_le)+
  have "sh_fdalloc ?v ?f = Some (d, ?f[d := Some ?v])"
    using d n p by (intro sh_fdalloc_lowest) (auto simp: nth_list_update)
  moreover have "?f ! e = Some ?v" "e < length ?f" using e p n by (auto simp: nth_list_update)
  ultimately have "sh_dup e ?f = ?f[d := Some ?v]" by (simp add: sh_dup_def)
  then have "sh_close p1 (sh_close p0 (sh_dup e (sh_close d (ofile[p0 := Some x, p1 := Some y])))) =
      (?f[d := Some ?v])[p0 := None, p1 := None]" by (simp add: sh_close_def)
  also have "\<dots> = ofile[d := Some ?v]"
    using p n by (intro nth_equalityI) (auto simp: nth_list_update)
  finally show ?thesis .
qed

text \<open>
  C28: a pipeline in a shell that was started with any descriptors open: after \<open>main\<close> has opened
  the console until descriptors 0, 1 and 2 are taken, the left command runs with its standard output
  replaced by the write end of the pipe, the right one with its standard input replaced by the
  read end, and both have every other descriptor as the shell has it: no end of the pipe stays
  open in them, so that the reader sees the end of the data when the writer exits.
\<close>

theorem shell_pipeline_wiring:
  assumes "length ofile > 3" "ofile ! 3 = None" "f = open_three True ofile" "sh_pipe at f \<noteq> None"
  shows "runcmd can_open True (PIPE l r) at f =
    Both (runcmd can_open True l (0 # at) (f[1 := Some (PipeW at)])) (runcmd can_open True r (1 # at) (f[0 := Some (PipeR at)]))"
proof -
  have f: "length f > 3" "\<forall>i < 3. f ! i \<noteq> None" using open_three_ok [OF assms(1,2)] assms(1,3) by auto
  obtain p0 p1 g where g: "sh_pipe at f = Some (p0, p1, g)" using assms(4) by auto
  note p = sh_pipe_Some [OF g]
  have "sh_close p1 (sh_close p0 (sh_dup p1 (sh_close 1 g))) = f[1 := Some (PipeW at)]"
    "sh_close p1 (sh_close p0 (sh_dup p0 (sh_close 0 g))) = f[0 := Some (PipeR at)]"
    using pipe_end_moved [OF p(1-5), of 1 p1 "PipeR at" "PipeW at"] pipe_end_moved [OF p(1-5), of 0 p0 "PipeR at" "PipeW at"]
      f p(3) unfolding p(6) by force+
  then show ?thesis using g by simp
qed

lemma shell_pipeline_wiring_witness:
  "runcmd (\<lambda>_ _. True) True (PIPE (EXEC [''ls'']) (EXEC [''wc''])) [] (open_three True (replicate 16 None)) =
     Both (Executes [''ls''] ((open_three True (replicate 16 None))[1 := Some (PipeW [])]))
       (Executes [''wc''] ((open_three True (replicate 16 None))[0 := Some (PipeR [])]))"
proof -
  have "sh_pipe [] (open_three True (replicate 16 None)) \<noteq> None" by code_simp
  from shell_pipeline_wiring [OF _ _ refl this] show ?thesis by simp
qed

end
