(* ===== verification/Bio.thy ===== *)
theory Bio
  imports Prelude
begin

text \<open>
  The block cache \<open>bio.c\<close> over the memory disk \<open>memide.c\<close>. A buffer is an entry of the
  array \<open>bufs\<close>; \<open>lru\<close> is the doubly linked list through \<open>prev\<close> and \<open>next\<close> as the
  list of buffer numbers from \<open>head.next\<close> on. The model is that of one process inside the
  file system: a buffer's sleep lock is a flag, and waiting for a buffer that is locked is
  \<open>Spins\<close>. \<open>writes\<close> is a ghost list of the disk writes done so far, in order.

  The contract \<open>block_cache\<close> says what a client sees: \<open>bread\<close> gives the current contents of
  a block, changes of locked buffers stay in memory until \<open>bwrite\<close>, and dirty buffers are
  never evicted.
\<close>

section \<open>State\<close>

type_synonym block = "byte list"

definition BSIZE :: nat where "BSIZE = 512"
definition NBUF :: nat where "NBUF = 30"

record buf =
  b_valid :: bool
  b_dirty :: bool
  b_dev :: nat
  blockno :: nat
  b_locked :: bool
  refcnt :: nat
  b_data :: block

record store =
  bufs :: "buf list"
  lru :: "nat list"
  disk :: "nat \<Rightarrow> block"
  disksize :: nat
  writes :: "(nat \<times> block) list"

definition upd_buf :: "nat \<Rightarrow> (buf \<Rightarrow> buf) \<Rightarrow> 'a store_scheme \<Rightarrow> 'a store_scheme" where
  "upd_buf i f s = s\<lparr>bufs := (bufs s)[i := f (bufs s ! i)]\<rparr>"

section \<open>Operations\<close>

definition binit :: "'a store_scheme \<Rightarrow> 'a store_scheme" where
  "binit s = s\<lparr>bufs := replicate NBUF \<lparr>b_valid = False, b_dirty = False, b_dev = 0, blockno = 0,
      b_locked = False, refcnt = 0, b_data = replicate BSIZE 0\<rparr>,
    lru := rev [0..<NBUF]\<rparr>"

definition iderw :: "nat \<Rightarrow> 'a store_scheme \<Rightarrow> 'a store_scheme res" where
  "iderw i s =
     (let b = bufs s ! i in
      if \<not> b_locked b then Inl (Panic ''iderw: buf not locked'')
      else if b_valid b \<and> \<not> b_dirty b then Inl (Panic ''iderw: nothing to do'')
      else if b_dev b \<noteq> 1 then Inl (Panic ''iderw: request not for disk 1'')
      else if blockno b \<ge> disksize s then Inl (Panic ''iderw: block out of range'')
      else if b_dirty b
      then Inr ((upd_buf i (\<lambda>b. b\<lparr>b_dirty := False, b_valid := True\<rparr>) s)
             \<lparr>disk := (disk s)(blockno b := b_data b), writes := writes s @ [(blockno b, b_data b)]\<rparr>)
      else Inr (upd_buf i (\<lambda>b. b\<lparr>b_data := disk s (blockno b), b_valid := True\<rparr>) s))"

definition acquire_buf :: "nat \<Rightarrow> 'a store_scheme \<Rightarrow> (nat \<times> 'a store_scheme) res" where
  "acquire_buf i s =
     (if b_locked (bufs s ! i) then Inl Spins
      else Inr (i, upd_buf i (\<lambda>b. b\<lparr>b_locked := True\<rparr>) s))"

definition bget :: "nat \<Rightarrow> nat \<Rightarrow> 'a store_scheme \<Rightarrow> (nat \<times> 'a store_scheme) res" where
  "bget dev bno s =
     (case find_index (\<lambda>i. b_dev (bufs s ! i) = dev \<and> blockno (bufs s ! i) = bno) (lru s) of
        Some k \<Rightarrow> acquire_buf (lru s ! k) (upd_buf (lru s ! k) (\<lambda>b. b\<lparr>refcnt := refcnt b + 1\<rparr>) s)
      | None \<Rightarrow>
          (case find_index (\<lambda>i. refcnt (bufs s ! i) = 0 \<and> \<not> b_dirty (bufs s ! i)) (rev (lru s)) of
             Some k \<Rightarrow> acquire_buf (rev (lru s) ! k) (upd_buf (rev (lru s) ! k)
               (\<lambda>b. b\<lparr>b_dev := dev, blockno := bno, b_valid := False, b_dirty := False, refcnt := 1\<rparr>) s)
           | None \<Rightarrow> Inl (Panic ''bget: no buffers'')))"

definition bread :: "nat \<Rightarrow> nat \<Rightarrow> 'a store_scheme \<Rightarrow> (nat \<times> 'a store_scheme) res" where
  "bread dev bno s =
     bindE (bget dev bno s) (\<lambda>(i, s).
     if \<not> b_valid (bufs s ! i) then bindE (iderw i s) (\<lambda>s. Inr (i, s)) else Inr (i, s))"

definition bwrite :: "nat \<Rightarrow> 'a store_scheme \<Rightarrow> 'a store_scheme res" where
  "bwrite i s =
     (if \<not> b_locked (bufs s ! i) then Inl (Panic ''bwrite'')
      else iderw i (upd_buf i (\<lambda>b. b\<lparr>b_dirty := True\<rparr>) s))"

definition brelse :: "nat \<Rightarrow> 'a store_scheme \<Rightarrow> 'a store_scheme res" where
  "brelse i s =
     (if \<not> b_locked (bufs s ! i) then Inl (Panic ''brelse'')
      else let s = upd_buf i (\<lambda>b. b\<lparr>b_locked := False, refcnt := refcnt b - 1\<rparr>) s in
        Inr (if refcnt (bufs s ! i) = 0 then s\<lparr>lru := i # remove1 i (lru s)\<rparr> else s))"

text \<open>What the clients do to a buffer they hold: read its data, change it, pin it.\<close>

definition bdata :: "nat \<Rightarrow> 'a store_scheme \<Rightarrow> block" where
  "bdata i s = b_data (bufs s ! i)"

definition bset :: "nat \<Rightarrow> block \<Rightarrow> 'a store_scheme \<Rightarrow> 'a store_scheme" where
  "bset i d s = upd_buf i (\<lambda>b. b\<lparr>b_data := d\<rparr>) s"

definition bpin :: "nat \<Rightarrow> 'a store_scheme \<Rightarrow> 'a store_scheme" where
  "bpin i s = upd_buf i (\<lambda>b. b\<lparr>b_dirty := True\<rparr>) s"

section \<open>Invariant and abstraction\<close>

text \<open>
  Every buffer of disk 1 caches a different
  block; a valid one that is neither dirty nor locked agrees with the disk; dirty ones and
  locked ones are valid.
\<close>

definition cached :: "'a store_scheme \<Rightarrow> nat \<Rightarrow> nat \<Rightarrow> bool" where
  "cached s i b \<longleftrightarrow> i < NBUF \<and> b_dev (bufs s ! i) = 1 \<and> blockno (bufs s ! i) = b"

definition cache_inv :: "'a store_scheme \<Rightarrow> bool" where
  "cache_inv s \<longleftrightarrow>
     length (bufs s) = NBUF \<and> distinct (lru s) \<and> set (lru s) = {0..<NBUF} \<and>
     (\<forall>i j b. cached s i b \<longrightarrow> cached s j b \<longrightarrow> i = j) \<and>
     (\<forall>i < NBUF. refcnt (bufs s ! i) = (if b_locked (bufs s ! i) then 1 else 0)) \<and>
     (\<forall>i < NBUF. b_dirty (bufs s ! i) \<or> b_locked (bufs s ! i) \<longrightarrow>
        b_valid (bufs s ! i) \<and> b_dev (bufs s ! i) = 1 \<and> blockno (bufs s ! i) < disksize s) \<and>
     (\<forall>i < NBUF. b_valid (bufs s ! i) \<and> b_dev (bufs s ! i) = 1 \<and> \<not> b_dirty (bufs s ! i) \<and> \<not> b_locked (bufs s ! i) \<longrightarrow>
        b_data (bufs s ! i) = disk s (blockno (bufs s ! i)))"

definition view :: "'a store_scheme \<Rightarrow> nat \<Rightarrow> block" where
  "view s b =
     (case find_index (\<lambda>p. b_dev p = 1 \<and> blockno p = b \<and> b_valid p) (bufs s) of
        Some i \<Rightarrow> b_data (bufs s ! i) | None \<Rightarrow> disk s b)"

definition holds :: "'a store_scheme \<Rightarrow> nat \<Rightarrow> nat \<Rightarrow> bool" where
  "holds s i b \<longleftrightarrow> cached s i b \<and> b_locked (bufs s ! i)"

definition held_blocks :: "'a store_scheme \<Rightarrow> nat set" where
  "held_blocks s = {b. \<exists>i. holds s i b}"

definition pinned :: "'a store_scheme \<Rightarrow> nat set" where
  "pinned s = {b. \<exists>i. cached s i b \<and> b_dirty (bufs s ! i)}"

lemma cache_invD:
  assumes "cache_inv s"
  shows "length (bufs s) = NBUF" and "distinct (lru s)" and "set (lru s) = {0..<NBUF}"
    and "cached s i b \<Longrightarrow> cached s j b \<Longrightarrow> i = j"
    and "i < NBUF \<Longrightarrow> refcnt (bufs s ! i) = (if b_locked (bufs s ! i) then 1 else 0)"
    and "i < NBUF \<Longrightarrow> b_dirty (bufs s ! i) \<or> b_locked (bufs s ! i) \<Longrightarrow>
      b_valid (bufs s ! i) \<and> b_dev (bufs s ! i) = 1 \<and> blockno (bufs s ! i) < disksize s"
    and "i < NBUF \<Longrightarrow> b_valid (bufs s ! i) \<Longrightarrow> b_dev (bufs s ! i) = 1 \<Longrightarrow> \<not> b_dirty (bufs s ! i) \<Longrightarrow>
      \<not> b_locked (bufs s ! i) \<Longrightarrow> b_data (bufs s ! i) = disk s (blockno (bufs s ! i))"
  using assms unfolding cache_inv_def by blast+

lemma view_cached:
  assumes inv: "cache_inv s" and c: "cached s i b" and v: "b_valid (bufs s ! i)"
  shows "view s b = b_data (bufs s ! i)"
proof -
  have "bufs s ! i \<in> set (bufs s)" using c cache_invD(1) [OF inv] by (simp add: cached_def)
  then obtain j where j: "find_index (\<lambda>p. b_dev p = 1 \<and> blockno p = b \<and> b_valid p) (bufs s) = Some j"
    using find_index_ex [of "bufs s" "\<lambda>p. b_dev p = 1 \<and> blockno p = b \<and> b_valid p"] c v by (auto simp: cached_def)
  then have "cached s j b" using find_index_SomeD [OF j] cache_invD(1) [OF inv] by (simp add: cached_def)
  then have "j = i" using cache_invD(4) [OF inv] c by blast
  with j show ?thesis by (simp add: view_def)
qed

lemma view_uncached:
  assumes inv: "cache_inv s" and "\<And>i. cached s i b \<Longrightarrow> \<not> b_valid (bufs s ! i)"
  shows "view s b = disk s b"
proof -
  have "\<forall>p \<in> set (bufs s). \<not> (b_dev p = 1 \<and> blockno p = b \<and> b_valid p)"
    using assms(2) cache_invD(1) [OF inv] by (auto simp: in_set_conv_nth cached_def)
  then have "find_index (\<lambda>p. b_dev p = 1 \<and> blockno p = b \<and> b_valid p) (bufs s) = None"
    by (simp only: find_index_None)
  then show ?thesis unfolding view_def by (simp only: option.case)
qed

text \<open>
  How replacing one buffer acts on the invariant and the view: the new buffer is locked, and no
  other one caches its block.
\<close>

lemma replace_buf:
  assumes inv: "cache_inv s" and j: "j < NBUF"
    and p: "b_locked p" "refcnt p = 1" "b_valid p" "b_dev p = 1" "blockno p < disksize s"
    and uniq: "\<And>i. i \<noteq> j \<Longrightarrow> \<not> cached s i (blockno p)"
    and s': "bufs s' = (bufs s)[j := p]" "lru s' = lru s" "disk s' = disk s" "disksize s' = disksize s"
  shows "cache_inv s'" and "holds s' j (blockno p)" and "view s' (blockno p) = b_data p"
    and "b \<noteq> blockno p \<Longrightarrow> view s' b =
      (if cached s j b \<and> b_valid (bufs s ! j) then disk s b else view s b)"
    and "b \<noteq> blockno p \<Longrightarrow> b \<in> pinned s' \<longleftrightarrow> b \<in> pinned s \<and> \<not> cached s j b"
    and "holds s' i b \<longleftrightarrow> (if i = j then b = blockno p else holds s i b)"
proof -
  note D = cache_invD [OF inv]
  have nth: "bufs s' ! i = (if i = j then p else bufs s ! i)" for i
    using s'(1) j D(1) by (cases "i < NBUF") (simp_all add: nth_list_update list_update_beyond)
  have cached': "cached s' i b \<longleftrightarrow> (if i = j then b = blockno p else cached s i b)" for i b
    using j p(4) by (auto simp: cached_def nth)
  show inv': "cache_inv s'"
    unfolding cache_inv_def
  proof (intro conjI allI impI)
    show "length (bufs s') = NBUF" "distinct (lru s')" "set (lru s') = {0..<NBUF}"
      using D(1-3) s' by simp_all
    fix i k b assume "cached s' i b" "cached s' k b"
    then show "i = k" using cached' uniq D(4) by (metis (full_types))
  next
    fix i assume i: "i < NBUF"
    show "refcnt (bufs s' ! i) = (if b_locked (bufs s' ! i) then 1 else 0)"
      using D(5) [OF i] p by (simp add: nth)
    assume "b_dirty (bufs s' ! i) \<or> b_locked (bufs s' ! i)"
    then show "b_valid (bufs s' ! i)" "b_dev (bufs s' ! i) = 1" "blockno (bufs s' ! i) < disksize s'"
      using D(6) [OF i] p s'(4) by (simp_all add: nth split: if_splits)
  next
    fix i assume i: "i < NBUF"
      and "b_valid (bufs s' ! i) \<and> b_dev (bufs s' ! i) = 1 \<and> \<not> b_dirty (bufs s' ! i) \<and> \<not> b_locked (bufs s' ! i)"
    then show "b_data (bufs s' ! i) = disk s' (blockno (bufs s' ! i))"
      using D(7) [OF i] p s'(3) by (simp add: nth split: if_splits)
  qed
  show "holds s' j (blockno p)" using cached' p by (simp add: holds_def nth)
  show "view s' (blockno p) = b_data p"
    using view_cached [OF inv', of j "blockno p"] cached' p by (simp add: nth)
  show "holds s' i b \<longleftrightarrow> (if i = j then b = blockno p else holds s i b)"
    using cached' p by (simp add: holds_def nth)
  assume b: "b \<noteq> blockno p"
  show "view s' b = (if cached s j b \<and> b_valid (bufs s ! j) then disk s b else view s b)"
  proof (cases "\<exists>i. cached s i b \<and> b_valid (bufs s ! i)")
    case True
    then obtain i where i: "cached s i b" "b_valid (bufs s ! i)" by blast
    show ?thesis
    proof (cases "i = j")
      case True
      have "view s' b = disk s' b"
        by (rule view_uncached [OF inv']) (use b i True D(4) cached' in \<open>metis (full_types)\<close>)
      then show ?thesis using i True s'(3) by simp
    next
      case False
      then have "\<not> cached s j b" using i(1) D(4) by blast
      moreover have "view s' b = b_data (bufs s' ! i)"
        using view_cached [OF inv', of i b] cached' i False by (simp add: nth)
      ultimately show ?thesis using view_cached [OF inv i] False by (simp add: nth)
    qed
  next
    case False
    have "view s' b = disk s' b"
      by (rule view_uncached [OF inv']) (use b False cached' in \<open>auto simp: nth split: if_splits\<close>)
    moreover have "view s b = disk s b" by (rule view_uncached [OF inv]) (use False in blast)
    ultimately show ?thesis using False s'(3) by auto
  qed
  show "b \<in> pinned s' \<longleftrightarrow> b \<in> pinned s \<and> \<not> cached s j b"
    unfolding pinned_def using b cached' D(4) by (auto simp: nth split: if_splits) metis+
qed

section \<open>Reading a block\<close>

text \<open>Everything but the buffers, their order and the disk.\<close>

definition same_rest :: "'a store_scheme \<Rightarrow> 'a store_scheme \<Rightarrow> bool" where
  "same_rest s s' \<longleftrightarrow> disksize s' = disksize s \<and> store.more s' = store.more s"

lemma free_buffer:
  assumes inv: "cache_inv s" and fin: "finite (pinned s \<union> held_blocks s)"
    and c: "card (pinned s \<union> held_blocks s) < NBUF"
  shows "\<exists>i < NBUF. refcnt (bufs s ! i) = 0 \<and> \<not> b_dirty (bufs s ! i)"
proof (rule ccontr)
  note D = cache_invD [OF inv]
  assume "\<not> ?thesis"
  then have busy: "b_locked (bufs s ! i) \<or> b_dirty (bufs s ! i)" if "i < NBUF" for i
    using D(5) [OF that] that by (metis neq0_conv less_numeral_extra(3))
  have "blockno (bufs s ! i) \<in> pinned s \<union> held_blocks s" if "i < NBUF" for i
    using busy [OF that] D(6) [OF that] that by (auto simp: pinned_def held_blocks_def holds_def cached_def)
  then have "(\<lambda>i. blockno (bufs s ! i)) ` {0..<NBUF} \<subseteq> pinned s \<union> held_blocks s"
    by (intro image_subsetI) simp
  moreover have "inj_on (\<lambda>i. blockno (bufs s ! i)) {0..<NBUF}"
    using busy D(6) D(4) by (intro inj_onI) (metis atLeastLessThan_iff cached_def)
  ultimately have "NBUF \<le> card (pinned s \<union> held_blocks s)"
    using card_mono [OF fin] by (metis card_atLeastLessThan card_image diff_zero)
  with c show False by simp
qed

lemma blocks_finite:
  assumes "cache_inv s"
  shows "finite (pinned s \<union> held_blocks s)"
proof -
  have "pinned s \<union> held_blocks s \<subseteq> (\<lambda>i. blockno (bufs s ! i)) ` {0..<NBUF}"
    by (auto simp: pinned_def held_blocks_def holds_def cached_def)
  then show ?thesis by (rule finite_subset) simp
qed

text \<open>The buffer that \<open>bget\<close> returns, as it is when \<open>bread\<close> returns.\<close>

lemma bread_spec:
  assumes inv: "cache_inv s" and b: "b < disksize s" "b \<notin> held_blocks s"
    and room: "card (pinned s \<union> held_blocks s \<union> {b}) \<le> NBUF"
  shows "\<exists>i s'. bread 1 b s = Inr (i, s') \<and> cache_inv s' \<and> (\<forall>b'. \<not> holds s i b') \<and>
    (\<forall>j b'. holds s' j b' \<longleftrightarrow> (if j = i then b' = b else holds s j b')) \<and>
    view s' = view s \<and> pinned s' = pinned s \<and> disk s' = disk s \<and> writes s' = writes s \<and> same_rest s s'"
proof -
  note D = cache_invD [OF inv]
  let ?P = "\<lambda>i. b_dev (bufs s ! i) = 1 \<and> blockno (bufs s ! i) = b"
  have go: ?thesis
    if j: "j < NBUF" "\<not> b_locked (bufs s ! j)" and p: "b_locked p" "refcnt p = 1" "b_valid p" "b_dev p = 1" "blockno p = b"
      and data: "b_data p = view s b"
      and uniq: "\<And>i. i \<noteq> j \<Longrightarrow> \<not> cached s i b"
      and dirty: "b_dirty p \<longleftrightarrow> cached s j b \<and> b_dirty (bufs s ! j)"
      and old: "\<not> cached s j b \<Longrightarrow> \<not> b_dirty (bufs s ! j)"
      and res: "bread 1 b s = Inr (j, s\<lparr>bufs := (bufs s)[j := p]\<rparr>)" for j p
  proof -
    let ?s = "s\<lparr>bufs := (bufs s)[j := p]\<rparr>"
    have bl: "blockno p < disksize s" using p(5) b(1) by simp
    note R = replace_buf [OF inv j(1) p(1-4) bl uniq [folded p(5)], where s' = ?s, simplified, unfolded p(5)]
    have v: "view ?s = view s"
    proof
      fix b' show "view ?s b' = view s b'"
      proof (cases "b' = b")
        case True then show ?thesis using R(3) data by simp
      next
        case False
        have "view s b' = disk s b'" if "cached s j b'" "b_valid (bufs s ! j)"
        proof -
          have "\<not> cached s j b" using that False by (auto simp: cached_def)
          then show ?thesis
            using view_cached [OF inv that] D(7) [OF j(1)] that j(2) old by (simp add: cached_def)
        qed
        then show ?thesis using R(4) [OF False] by auto
      qed
    qed
    have pin: "pinned ?s = pinned s"
    proof (rule set_eqI)
      fix b' show "b' \<in> pinned ?s \<longleftrightarrow> b' \<in> pinned s"
      proof (cases "b' = b")
        case True
        have "cached ?s i b \<longleftrightarrow> i = j" for i
          using uniq j(1) p(4,5) D(1) by (auto simp: cached_def nth_list_update)
        then have "b \<in> pinned ?s \<longleftrightarrow> b_dirty p" using j(1) D(1) by (auto simp: pinned_def)
        also have "\<dots> \<longleftrightarrow> b \<in> pinned s" unfolding pinned_def mem_Collect_eq using dirty uniq by metis
        finally show ?thesis using True by simp
      next
        case False
        have "\<not> (b' \<in> pinned s \<and> cached s j b')"
        proof
          assume a: "b' \<in> pinned s \<and> cached s j b'"
          then have "b_dirty (bufs s ! j)" using D(4) by (auto simp: pinned_def)
          moreover have "\<not> cached s j b" using a False by (auto simp: cached_def)
          ultimately show False using old by blast
        qed
        then show ?thesis using R(5) [OF False] by blast
      qed
    qed
    have nh: "\<not> holds s j b'" for b' using j(2) by (simp add: holds_def)
    show ?thesis
      using res R(1,6) v pin nh by (intro exI [of _ j] exI [of _ ?s]) (simp add: same_rest_def)
  qed
  show ?thesis
  proof (cases "find_index ?P (lru s)")
    case (Some k)
    define j where "j = lru s ! k"
    have j: "j < NBUF" "cached s j b"
      using find_index_SomeD [OF Some] nth_mem [of k "lru s"] D(3) by (auto simp: j_def cached_def)
    have nl: "\<not> b_locked (bufs s ! j)" using b(2) j(2) by (auto simp: held_blocks_def holds_def)
    have uniq: "\<not> cached s i b" if "i \<noteq> j" for i using j(2) D(4) that by blast
    have bj: "blockno (bufs s ! j) = b" "b_dev (bufs s ! j) = 1" using j by (simp_all add: cached_def)
    have get: "bget 1 b s = Inr (j, upd_buf j (\<lambda>b. b\<lparr>b_locked := True\<rparr>) (upd_buf j (\<lambda>b. b\<lparr>refcnt := refcnt b + 1\<rparr>) s))"
      using Some nl j(1) D(1) by (simp add: bget_def acquire_buf_def j_def upd_buf_def)
    show ?thesis
    proof (cases "b_valid (bufs s ! j)")
      case True
      show ?thesis
        by (rule go [OF j(1) nl, where p = "(bufs s ! j)\<lparr>refcnt := 1, b_locked := True\<rparr>"])
          (use True j bj D(1) D(5) [OF j(1)] nl uniq view_cached [OF inv j(2) True] get
            in \<open>simp_all add: bread_def upd_buf_def\<close>)
    next
      case False
      have nd: "\<not> b_dirty (bufs s ! j)" using D(6) [OF j(1)] False by auto
      have "view s b = disk s b" by (rule view_uncached [OF inv]) (use uniq False in metis)
      then show ?thesis
        by (intro go [OF j(1) nl, where p = "(bufs s ! j)\<lparr>refcnt := 1, b_locked := True, b_data := disk s b, b_valid := True\<rparr>"])
          (use False nd j bj b(1) D(1) D(5) [OF j(1)] nl uniq get
            in \<open>simp_all add: bread_def upd_buf_def iderw_def Let_def\<close>)
    qed
  next
    case None
    have nc: "\<not> cached s i b" for i using None D(3) by (auto simp: cached_def)
    then have nb: "b \<notin> pinned s \<union> held_blocks s" by (auto simp: pinned_def held_blocks_def holds_def)
    have "card (pinned s \<union> held_blocks s) < NBUF"
      using room nb blocks_finite [OF inv] by simp
    then have "\<exists>i \<in> set (rev (lru s)). refcnt (bufs s ! i) = 0 \<and> \<not> b_dirty (bufs s ! i)"
      using free_buffer [OF inv blocks_finite [OF inv]] unfolding set_rev D(3) Bex_def atLeastLessThan_iff
      by (metis le0)
    from find_index_ex [OF this]
    obtain k where k: "find_index (\<lambda>i. refcnt (bufs s ! i) = 0 \<and> \<not> b_dirty (bufs s ! i)) (rev (lru s)) = Some k"
      by (elim exE)
    define j where "j = rev (lru s) ! k"
    have j: "j < NBUF" "refcnt (bufs s ! j) = 0" "\<not> b_dirty (bufs s ! j)"
      using find_index_SomeD [OF k] nth_mem [of k "rev (lru s)"] D(3) by (auto simp: j_def)
    have nl: "\<not> b_locked (bufs s ! j)" using D(5) [OF j(1)] j(2) by auto
    have get: "bget 1 b s = Inr (j, upd_buf j (\<lambda>b. b\<lparr>b_locked := True\<rparr>) (upd_buf j
        (\<lambda>q. q\<lparr>b_dev := 1, blockno := b, b_valid := False, b_dirty := False, refcnt := 1\<rparr>) s))"
      using None k nl j(1) D(1) unfolding bget_def None k option.case
      by (simp add: acquire_buf_def flip: j_def) (simp add: upd_buf_def)
    have "view s b = disk s b" by (rule view_uncached [OF inv]) (use nc in blast)
    then show ?thesis
      by (intro go [OF j(1) nl, where p = "(bufs s ! j)\<lparr>b_dev := 1, blockno := b, b_dirty := False,
          refcnt := 1, b_locked := True, b_data := disk s b, b_valid := True\<rparr>"])
        (use j nc b(1) D(1) get in \<open>simp_all add: bread_def upd_buf_def iderw_def Let_def\<close>)
  qed
qed

section \<open>Changing, writing and releasing a block\<close>

lemma holdsD:
  assumes "cache_inv s" and "holds s i b"
  shows "i < NBUF" "i < length (bufs s)" "b_locked (bufs s ! i)" "b_valid (bufs s ! i)" "b_dev (bufs s ! i) = 1"
    "blockno (bufs s ! i) = b" "b < disksize s" "refcnt (bufs s ! i) = 1" "cached s i b"
    "\<And>j. j \<noteq> i \<Longrightarrow> \<not> cached s j b"
proof -
  note D = cache_invD [OF assms(1)]
  show c: "cached s i b" and l: "b_locked (bufs s ! i)" using assms(2) by (simp_all add: holds_def)
  show i: "i < NBUF" and "b_dev (bufs s ! i) = 1" and b: "blockno (bufs s ! i) = b"
    using c by (simp_all add: cached_def)
  then show "i < length (bufs s)" using D(1) by simp
  show "b_valid (bufs s ! i)" "b < disksize s" using D(6) [OF i] l b by simp_all
  show "refcnt (bufs s ! i) = 1" using D(5) [OF i] l by simp
  show "\<not> cached s j b" if "j \<noteq> i" for j using D(4) [OF c] that by blast
qed

lemma pinned_held:
  assumes "cache_inv s" and "holds s i b"
  shows "b \<in> pinned s \<longleftrightarrow> b_dirty (bufs s ! i)"
  using holdsD(9,10) [OF assms] unfolding pinned_def mem_Collect_eq by metis

lemma bdata_view:
  assumes "cache_inv s" and "holds s i b"
  shows "bdata i s = view s b"
  using view_cached [OF assms(1)] holdsD(4,9) [OF assms] by (simp add: bdata_def)

text \<open>An update of a held buffer that keeps it locked, valid and in place.\<close>

lemma update_held:
  assumes inv: "cache_inv s" and h: "holds s i b"
    and f: "b_locked (f (bufs s ! i))" "refcnt (f (bufs s ! i)) = 1" "b_valid (f (bufs s ! i))"
      "b_dev (f (bufs s ! i)) = 1" "blockno (f (bufs s ! i)) = b"
  shows "cache_inv (upd_buf i f s)" and "holds (upd_buf i f s) = holds s"
    and "view (upd_buf i f s) = (view s)(b := b_data (f (bufs s ! i)))"
    and "pinned (upd_buf i f s) = (if b_dirty (f (bufs s ! i)) then insert b (pinned s) else pinned s - {b})"
proof -
  note H = holdsD [OF inv h]
  let ?p = "f (bufs s ! i)"
  have bl: "blockno ?p < disksize s" using f(5) H(7) by simp
  have un: "\<And>j. j \<noteq> i \<Longrightarrow> \<not> cached s j (blockno ?p)" using H(10) f(5) by simp
  note R = replace_buf [OF inv H(1) f(1-4) bl un, where s' = "upd_buf i f s",
      unfolded upd_buf_def, simplified, folded upd_buf_def, unfolded f(5)]
  show "cache_inv (upd_buf i f s)" by (rule R(1))
  show "holds (upd_buf i f s) = holds s"
  proof (intro ext)
    fix j b' show "holds (upd_buf i f s) j b' = holds s j b'"
      using R(6) [of j b'] h by (cases "j = i") (auto simp: holds_def cached_def)
  qed
  have other: "\<not> cached s i b'" if "b' \<noteq> b" for b' using that H(6) by (auto simp: cached_def)
  show "view (upd_buf i f s) = (view s)(b := b_data ?p)"
  proof
    fix b' show "view (upd_buf i f s) b' = ((view s)(b := b_data ?p)) b'"
      using R(3) R(4) [of b'] other [of b'] by (cases "b' = b") auto
  qed
  have "cached (upd_buf i f s) j b \<longleftrightarrow> j = i" for j
    using H f(4,5) by (cases "j = i") (auto simp: cached_def upd_buf_def)
  then have "b \<in> pinned (upd_buf i f s) \<longleftrightarrow> b_dirty ?p"
    using H(2) by (auto simp: pinned_def upd_buf_def)
  moreover have "b' \<in> pinned (upd_buf i f s) \<longleftrightarrow> b' \<in> pinned s" if "b' \<noteq> b" for b'
    using R(5) [OF that] other [OF that] by blast
  ultimately have "x \<in> pinned (upd_buf i f s) \<longleftrightarrow>
      x \<in> (if b_dirty ?p then insert b (pinned s) else pinned s - {b})" for x
    by (cases "x = b") simp_all
  then show "pinned (upd_buf i f s) = (if b_dirty ?p then insert b (pinned s) else pinned s - {b})"
    by blast
qed

lemma upd_buf_rest [simp]:
  "disk (upd_buf i f s) = disk s" "writes (upd_buf i f s) = writes s" "same_rest s (upd_buf i f s)"
  "disksize (upd_buf i f s) = disksize s" "lru (upd_buf i f s) = lru s"
  by (simp_all add: upd_buf_def same_rest_def)

lemma bset_spec:
  assumes "cache_inv s" and "holds s i b"
  shows "cache_inv (bset i d s) \<and> holds (bset i d s) = holds s \<and> view (bset i d s) = (view s)(b := d) \<and>
    pinned (bset i d s) = pinned s \<and> disk (bset i d s) = disk s \<and> writes (bset i d s) = writes s \<and> same_rest s (bset i d s)"
proof -
  note H = holdsD [OF assms]
  have "pinned s = (if b_dirty (bufs s ! i) then insert b (pinned s) else pinned s - {b})"
    using pinned_held [OF assms] by auto
  then show ?thesis
    using update_held [OF assms, of "\<lambda>b. b\<lparr>b_data := d\<rparr>"] H by (simp add: bset_def)
qed

lemma bpin_spec:
  assumes "cache_inv s" and "holds s i b"
  shows "cache_inv (bpin i s) \<and> holds (bpin i s) = holds s \<and> view (bpin i s) = view s \<and>
    pinned (bpin i s) = insert b (pinned s) \<and> disk (bpin i s) = disk s \<and> writes (bpin i s) = writes s \<and> same_rest s (bpin i s)"
proof -
  note H = holdsD [OF assms]
  have "view s b = b_data (bufs s ! i)" using bdata_view [OF assms] by (simp add: bdata_def)
  then show ?thesis
    using update_held [OF assms, of "\<lambda>b. b\<lparr>b_dirty := True\<rparr>"] H by (simp add: bpin_def fun_upd_idem)
qed

lemma cache_inv_disk:
  assumes inv: "cache_inv s" and h: "holds s i b"
  shows "cache_inv (s\<lparr>disk := (disk s)(b := d), writes := w\<rparr>)"
proof -
  note D = cache_invD [OF inv] and H = holdsD [OF inv h]
  let ?s = "s\<lparr>disk := (disk s)(b := d), writes := w\<rparr>"
  have "b_data (bufs s ! j) = ((disk s)(b := d)) (blockno (bufs s ! j))"
    if j: "j < NBUF" "b_valid (bufs s ! j) \<and> b_dev (bufs s ! j) = 1 \<and> \<not> b_dirty (bufs s ! j) \<and> \<not> b_locked (bufs s ! j)" for j
  proof -
    have "j \<noteq> i" using j H(3) by auto
    then have "blockno (bufs s ! j) \<noteq> b" using H(10) [of j] j by (auto simp: cached_def)
    then show ?thesis using D(7) [OF j(1)] j(2) by simp
  qed
  moreover have "cached ?s = cached s" by (simp add: cached_def [abs_def])
  ultimately show ?thesis
    unfolding cache_inv_def using D(1-4) D(5) D(6) by (intro conjI allI impI) simp_all
qed

lemma view_disk:
  assumes "cache_inv s" and h: "holds s i b"
  shows "view (s\<lparr>disk := (disk s)(b := d), writes := w\<rparr>) = view s"
proof
  fix b' :: nat
  let ?s = "s\<lparr>disk := (disk s)(b := d), writes := w\<rparr>"
  have inv': "cache_inv ?s" by (rule cache_inv_disk [OF assms])
  show "view ?s b' = view s b'"
  proof (cases "b' = b")
    case True
    have "cached ?s i b" "b_valid (bufs ?s ! i)" using holdsD(4,9) [OF assms] by (simp_all add: cached_def)
    then show ?thesis
      using view_cached [OF inv'] view_cached [OF assms(1)] holdsD(4,9) [OF assms] True by simp
  next
    case False
    then have e: "disk ?s b' = disk s b'" "bufs ?s = bufs s" by simp_all
    show ?thesis unfolding view_def e ..
  qed
qed

lemma bwrite_spec:
  assumes inv: "cache_inv s" and h: "holds s i b"
  shows "\<exists>s'. bwrite i s = Inr s' \<and> cache_inv s' \<and> holds s' = holds s \<and> view s' = view s \<and>
    pinned s' = pinned s - {b} \<and> disk s' = (disk s)(b := view s b) \<and>
    writes s' = writes s @ [(b, view s b)] \<and> same_rest s s'"
proof -
  note H = holdsD [OF inv h]
  define s1 where "s1 = upd_buf i (\<lambda>b. b\<lparr>b_dirty := False, b_valid := True\<rparr>) s"
  define s2 where "s2 = s1\<lparr>disk := (disk s1)(b := view s b), writes := writes s @ [(b, view s b)]\<rparr>"
  have v: "b_data (bufs s ! i) = view s b" using bdata_view [OF inv h] by (simp add: bdata_def)
  have "bwrite i s = Inr s2"
    using H v by (simp add: bwrite_def iderw_def s2_def s1_def Let_def upd_buf_def)
  moreover have S1: "cache_inv s1" "holds s1 = holds s" "view s1 = view s" "pinned s1 = pinned s - {b}"
    using update_held [OF inv h, of "\<lambda>b. b\<lparr>b_dirty := False, b_valid := True\<rparr>"] H v
    by (simp_all add: s1_def fun_upd_idem)
  have h1: "holds s1 i b" using S1(2) h by simp
  have "cache_inv s2" "view s2 = view s"
    unfolding s2_def using cache_inv_disk [OF S1(1) h1] view_disk [OF S1(1) h1] S1(3) by simp_all
  moreover have "holds s2 = holds s"
    using S1(2) by (simp add: s2_def holds_def [abs_def] cached_def)
  moreover have "pinned s2 = pinned s - {b}"
    using S1(4) by (simp add: s2_def pinned_def cached_def)
  ultimately show ?thesis
    by (intro exI [of _ s2]) (simp add: s2_def s1_def same_rest_def upd_buf_def)
qed

lemma clean_block:
  assumes inv: "cache_inv s" and "b \<notin> pinned s" and "\<And>i. \<not> holds s i b"
  shows "view s b = disk s b"
proof (cases "\<exists>i. cached s i b \<and> b_valid (bufs s ! i)")
  case True
  then obtain i where i: "cached s i b" "b_valid (bufs s ! i)" by blast
  have "\<not> b_dirty (bufs s ! i)" "\<not> b_locked (bufs s ! i)"
    using i assms(2,3) by (auto simp: pinned_def holds_def)
  then show ?thesis
    using view_cached [OF inv i] cache_invD(7) [OF inv, of i] i by (simp add: cached_def)
next
  case False
  then show ?thesis by (intro view_uncached [OF inv]) blast
qed

lemma brelse_spec:
  assumes inv: "cache_inv s" and h: "holds s i b" and clean: "b \<in> pinned s \<or> view s b = disk s b"
  shows "\<exists>s'. brelse i s = Inr s' \<and> cache_inv s' \<and> (\<forall>j b'. holds s' j b' \<longleftrightarrow> j \<noteq> i \<and> holds s j b') \<and>
    view s' = view s \<and> pinned s' = pinned s \<and> disk s' = disk s \<and> writes s' = writes s \<and> same_rest s s'"
proof -
  note H = holdsD [OF inv h] and D = cache_invD [OF inv]
  define p where "p = (bufs s ! i)\<lparr>b_locked := False, refcnt := 0\<rparr>"
  define s1 where "s1 = s\<lparr>bufs := (bufs s)[i := p], lru := i # remove1 i (lru s)\<rparr>"
  have res: "brelse i s = Inr s1"
    using H by (simp add: brelse_def Let_def s1_def p_def upd_buf_def)
  have nth: "bufs s1 ! j = (if j = i then p else bufs s ! j)" for j
    using H(2) by (simp add: s1_def nth_list_update)
  have rest: "disksize s1 = disksize s" "disk s1 = disk s" by (simp_all add: s1_def)
  have cached': "cached s1 j b' = cached s j b'" for j b'
    by (simp add: cached_def nth p_def)
  have data: "b_data (bufs s ! i) = disk s b" if "\<not> b_dirty (bufs s ! i)"
  proof -
    have "b \<notin> pinned s" using that pinned_held [OF inv h] by simp
    then show ?thesis using clean bdata_view [OF inv h] by (simp add: bdata_def)
  qed
  have inv1: "cache_inv s1"
    unfolding cache_inv_def
  proof (intro conjI allI impI)
    show "length (bufs s1) = NBUF" using D(1) by (simp add: s1_def)
    show "distinct (lru s1)" using D(2) by (simp add: s1_def)
    show "set (lru s1) = {0..<NBUF}" using H(1) by (simp add: s1_def set_remove1_eq [OF D(2)] D(3) insert_absorb)
  next
    fix j k b' assume "cached s1 j b'" "cached s1 k b'"
    then show "j = k" using D(4) [of j b' k] by (simp only: cached')
  next
    fix j assume j: "j < NBUF"
    show "refcnt (bufs s1 ! j) = (if b_locked (bufs s1 ! j) then 1 else 0)"
      using D(5) [OF j] by (simp add: nth p_def)
    assume "b_dirty (bufs s1 ! j) \<or> b_locked (bufs s1 ! j)"
    then have "b_dirty (bufs s ! j) \<or> b_locked (bufs s ! j)" by (simp add: nth p_def split: if_splits)
    note V = D(6) [OF j this]
    show "b_valid (bufs s1 ! j)" "b_dev (bufs s1 ! j) = 1" "blockno (bufs s1 ! j) < disksize s1"
      using V by (cases "j = i"; simp add: nth p_def rest)+
  next
    fix j assume "j < NBUF"
      and "b_valid (bufs s1 ! j) \<and> b_dev (bufs s1 ! j) = 1 \<and> \<not> b_dirty (bufs s1 ! j) \<and> \<not> b_locked (bufs s1 ! j)"
    then show "b_data (bufs s1 ! j) = disk s1 (blockno (bufs s1 ! j))"
      using D(7) [of j] data H(6) by (cases "j = i") (simp_all add: nth p_def rest)
  qed
  have hold: "holds s1 j b' \<longleftrightarrow> j \<noteq> i \<and> holds s j b'" for j b'
    using cached' by (auto simp: holds_def nth p_def)
  have "view s1 b' = view s b'" for b'
  proof (cases "\<exists>j. cached s j b' \<and> b_valid (bufs s ! j)")
    case True
    then obtain j where j: "cached s j b'" "b_valid (bufs s ! j)" by blast
    then have "cached s1 j b'" "b_valid (bufs s1 ! j)" using cached' by (auto simp: nth p_def)
    then show ?thesis using view_cached [OF inv j] view_cached [OF inv1] by (simp add: nth p_def split: if_splits)
  next
    case False
    then have "view s b' = disk s b'" by (intro view_uncached [OF inv]) blast
    moreover have "view s1 b' = disk s1 b'"
      by (rule view_uncached [OF inv1]) (use False cached' in \<open>auto simp: nth p_def split: if_splits\<close>)
    ultimately show ?thesis by (simp add: s1_def)
  qed
  then have "view s1 = view s" by blast
  moreover have "pinned s1 = pinned s"
  proof -
    have "b_dirty (bufs s1 ! j) = b_dirty (bufs s ! j)" for j by (simp add: nth p_def)
    then show ?thesis by (simp add: pinned_def cached')
  qed
  ultimately show ?thesis
    using res inv1 hold by (intro exI [of _ s1]) (simp add: s1_def same_rest_def)
qed

section \<open>The contract of the cache\<close>

text \<open>
  \<open>blk_bread\<close> \dots are the operations of a client on disk 1; \<open>blk_idle\<close> says that the client
  holds no buffer. The laws are those that the log and the file system rely on.
\<close>

locale block_cache =
  fixes blk_read :: "nat \<Rightarrow> 's \<Rightarrow> (nat \<times> 's) res"
    and blk_write :: "nat \<Rightarrow> 's \<Rightarrow> 's res"
    and blk_release :: "nat \<Rightarrow> 's \<Rightarrow> 's res"
    and blk_data :: "nat \<Rightarrow> 's \<Rightarrow> block"
    and blk_set :: "nat \<Rightarrow> block \<Rightarrow> 's \<Rightarrow> 's"
    and blk_pin :: "nat \<Rightarrow> 's \<Rightarrow> 's"
    and inv :: "'s \<Rightarrow> bool"
    and hold :: "'s \<Rightarrow> nat \<Rightarrow> nat \<Rightarrow> bool"
    and view :: "'s \<Rightarrow> nat \<Rightarrow> block"
    and pins :: "'s \<Rightarrow> nat set"
    and media :: "'s \<Rightarrow> nat \<Rightarrow> block"
    and trace :: "'s \<Rightarrow> (nat \<times> block) list"
    and rest :: "'s \<Rightarrow> nat \<times> 'r"
    and cap :: nat
  assumes read_ok: "inv s \<Longrightarrow> b < fst (rest s) \<Longrightarrow> (\<And>i. \<not> hold s i b) \<Longrightarrow>
      card (pins s \<union> {c. \<exists>i. hold s i c} \<union> {b}) \<le> cap \<Longrightarrow>
      \<exists>i s'. blk_read b s = Inr (i, s') \<and> inv s' \<and> (\<forall>c. \<not> hold s i c) \<and>
        (\<forall>j c. hold s' j c \<longleftrightarrow> (if j = i then c = b else hold s j c)) \<and>
        view s' = view s \<and> pins s' = pins s \<and> media s' = media s \<and> trace s' = trace s \<and> rest s' = rest s"
    and write_ok: "inv s \<Longrightarrow> hold s i b \<Longrightarrow>
      \<exists>s'. blk_write i s = Inr s' \<and> inv s' \<and> hold s' = hold s \<and> view s' = view s \<and>
        pins s' = pins s - {b} \<and> media s' = (media s)(b := view s b) \<and>
        trace s' = trace s @ [(b, view s b)] \<and> rest s' = rest s"
    and release_ok: "inv s \<Longrightarrow> hold s i b \<Longrightarrow> b \<in> pins s \<or> view s b = media s b \<Longrightarrow>
      \<exists>s'. blk_release i s = Inr s' \<and> inv s' \<and> (\<forall>j c. hold s' j c \<longleftrightarrow> j \<noteq> i \<and> hold s j c) \<and>
        view s' = view s \<and> pins s' = pins s \<and> media s' = media s \<and> trace s' = trace s \<and> rest s' = rest s"
    and data_ok: "inv s \<Longrightarrow> hold s i b \<Longrightarrow> blk_data i s = view s b"
    and set_ok: "inv s \<Longrightarrow> hold s i b \<Longrightarrow>
      inv (blk_set i d s) \<and> hold (blk_set i d s) = hold s \<and> view (blk_set i d s) = (view s)(b := d) \<and>
        pins (blk_set i d s) = pins s \<and> media (blk_set i d s) = media s \<and>
        trace (blk_set i d s) = trace s \<and> rest (blk_set i d s) = rest s"
    and pin_ok: "inv s \<Longrightarrow> hold s i b \<Longrightarrow>
      inv (blk_pin i s) \<and> hold (blk_pin i s) = hold s \<and> view (blk_pin i s) = view s \<and>
        pins (blk_pin i s) = insert b (pins s) \<and> media (blk_pin i s) = media s \<and>
        trace (blk_pin i s) = trace s \<and> rest (blk_pin i s) = rest s"
    and clean: "inv s \<Longrightarrow> b \<notin> pins s \<Longrightarrow> (\<And>i. \<not> hold s i b) \<Longrightarrow> view s b = media s b"
    and pins_finite: "inv s \<Longrightarrow> finite (pins s)"
begin

text \<open>Reading a block and letting it go again: the cache is as it was.\<close>

lemma read_release:
  assumes s: "inv s" "\<And>i b. \<not> hold s i b" and b: "b < fst (rest s)" "card (insert b (pins s)) \<le> cap"
  obtains i s1 s2 where "blk_read b s = Inr (i, s1)" "inv s1" "hold s1 i b" "blk_data i s1 = view s b"
    "view s1 = view s" "pins s1 = pins s" "media s1 = media s" "trace s1 = trace s" "rest s1 = rest s"
    "\<forall>j c. hold s1 j c \<longleftrightarrow> j = i \<and> c = b"
    "blk_release i s1 = Inr s2" "inv s2" "\<forall>i b. \<not> hold s2 i b" "view s2 = view s" "pins s2 = pins s"
    "media s2 = media s" "trace s2 = trace s" "rest s2 = rest s"
proof -
  obtain i s1 where r: "blk_read b s = Inr (i, s1)" "inv s1" "\<forall>j c. hold s1 j c \<longleftrightarrow> (if j = i then c = b else hold s j c)"
      "view s1 = view s" "pins s1 = pins s" "media s1 = media s" "trace s1 = trace s" "rest s1 = rest s"
    using read_ok [of s b] s b by auto
  have h: "hold s1 i b" using r(3) by simp
  have "b \<in> pins s1 \<or> view s1 b = media s1 b" using clean [OF s(1), of b] s(2) r by auto
  from release_ok [OF r(2) h this] obtain s2 where "blk_release i s1 = Inr s2" "inv s2"
      "\<forall>j c. hold s2 j c \<longleftrightarrow> j \<noteq> i \<and> hold s1 j c" "view s2 = view s1" "pins s2 = pins s1" "media s2 = media s1"
      "trace s2 = trace s1" "rest s2 = rest s1"
    by blast
  with r h show thesis using s(2) data_ok [OF r(2) h] by (intro that [of i s1 s2]) (auto split: if_splits)
qed

text \<open>Two distinct blocks, read in either order.\<close>

lemma read_two:
  assumes s: "inv s" "\<And>i b. \<not> hold s i b" and a: "a < fst (rest s)" and b: "b < fst (rest s)" "a \<noteq> b"
    and room: "card (insert a (insert b (pins s))) \<le> cap"
  obtains i j s1 s2 where "blk_read a s = Inr (i, s1)" "blk_read b s1 = Inr (j, s2)" "i \<noteq> j" "inv s2"
    "\<forall>k c. hold s2 k c \<longleftrightarrow> k = i \<and> c = a \<or> k = j \<and> c = b"
    "view s2 = view s" "pins s2 = pins s" "media s2 = media s" "trace s2 = trace s" "rest s2 = rest s"
proof -
  have fin: "finite (insert a (insert b (pins s)))" using pins_finite [OF s(1)] by simp
  have "card (insert a (pins s)) \<le> card (insert a (insert b (pins s)))"
    by (rule card_mono [OF fin]) auto
  then obtain i s1 where r: "blk_read a s = Inr (i, s1)" "inv s1" "\<forall>j c. hold s1 j c \<longleftrightarrow> (if j = i then c = a else hold s j c)"
      "view s1 = view s" "pins s1 = pins s" "media s1 = media s" "trace s1 = trace s" "rest s1 = rest s"
    using read_ok [of s a] s a room by auto
  have held: "{c. \<exists>i. hold s1 i c} = {a}" using r(3) s(2) by auto
  have "card (pins s1 \<union> {c. \<exists>i. hold s1 i c} \<union> {b}) \<le> cap" using room r(5) held by (simp add: insert_commute)
  moreover have "\<not> hold s1 k b" for k using r(3) s(2) b(2) by auto
  ultimately obtain j s2 where q: "blk_read b s1 = Inr (j, s2)" "inv s2" "\<forall>c. \<not> hold s1 j c"
      "\<forall>k c. hold s2 k c \<longleftrightarrow> (if k = j then c = b else hold s1 k c)"
      "view s2 = view s1" "pins s2 = pins s1" "media s2 = media s1" "trace s2 = trace s1" "rest s2 = rest s1"
    using read_ok [OF r(2), of b] b r(8) by auto
  have "i \<noteq> j" using q(3) r(3) by auto
  then show thesis using r q s(2) by (intro that [of i s1 j s2]) (auto split: if_splits)
qed

text \<open>
  Copying block \<open>a\<close> to block \<open>b\<close> through two buffers that are held: \<open>b\<close> gets the contents on the
  disk at once, and is no longer dirty.
\<close>

lemma copy_held:
  assumes s: "inv s" "\<And>k c. hold s k c \<longleftrightarrow> k = i \<and> c = a \<or> k = j \<and> c = b" and ij: "i \<noteq> j" and ab: "a \<noteq> b"
    and a: "a \<in> pins s \<or> view s a = media s a"
  obtains s1 s2 s3 where "blk_write j (blk_set j (blk_data i s) s) = Inr s1" "blk_release i s1 = Inr s2"
    "blk_release j s2 = Inr s3" "inv s3" "\<forall>k c. \<not> hold s3 k c" "view s3 = (view s)(b := view s a)"
    "pins s3 = pins s - {b}" "media s3 = (media s)(b := view s a)" "trace s3 = trace s @ [(b, view s a)]" "rest s3 = rest s"
proof -
  have hi: "hold s i a" and hj: "hold s j b" using s(2) by simp_all
  note d = data_ok [OF s(1) hi]
  define t where "t = blk_set j (blk_data i s) s"
  have t: "inv t" "hold t = hold s" "view t = (view s)(b := view s a)" "pins t = pins s" "media t = media s"
    "trace t = trace s" "rest t = rest s"
    using set_ok [OF s(1) hj, of "blk_data i s"] d by (simp_all add: t_def)
  have htj: "hold t j b" using hj t(2) by simp
  obtain s1 where w: "blk_write j t = Inr s1" "inv s1" "hold s1 = hold t" "view s1 = view t" "pins s1 = pins t - {b}"
      "media s1 = (media t)(b := view t b)" "trace s1 = trace t @ [(b, view t b)]" "rest s1 = rest t"
    using write_ok [OF t(1) htj] by blast
  have h1: "hold s1 i a" using w(3) t(2) hi by simp
  have "a \<in> pins s1 \<or> view s1 a = media s1 a" using a ab w t by auto
  from release_ok [OF w(2) h1 this] obtain s2 where r: "blk_release i s1 = Inr s2" "inv s2"
      "\<forall>k c. hold s2 k c \<longleftrightarrow> k \<noteq> i \<and> hold s1 k c" "view s2 = view s1" "pins s2 = pins s1" "media s2 = media s1"
      "trace s2 = trace s1" "rest s2 = rest s1"
    by blast
  have h2: "hold s2 j b" using r(3) w(3) t(2) hj ij by simp
  have "b \<in> pins s2 \<or> view s2 b = media s2 b" using r w t by simp
  from release_ok [OF r(2) h2 this] obtain s3 where q: "blk_release j s2 = Inr s3" "inv s3"
      "\<forall>k c. hold s3 k c \<longleftrightarrow> k \<noteq> j \<and> hold s2 k c" "view s3 = view s2" "pins s3 = pins s2" "media s3 = media s2"
      "trace s3 = trace s2" "rest s3 = rest s2"
    by blast
  show thesis
    using w r q t s(2) unfolding t_def by (intro that [of s1 s2 s3]) auto
qed

text \<open>Reading a block, writing other contents to it and releasing it.\<close>

lemma overwrite:
  assumes s: "inv s" "\<And>i b. \<not> hold s i b" and b: "b < fst (rest s)" "card (insert b (pins s)) \<le> cap"
  obtains i s1 s2 s3 where "blk_read b s = Inr (i, s1)" "blk_data i s1 = view s b"
    "blk_write i (blk_set i (f (view s b)) s1) = Inr s2" "blk_release i s2 = Inr s3"
    "inv s3" "\<forall>i b. \<not> hold s3 i b" "view s3 = (view s)(b := f (view s b))"
    "pins s3 = pins s - {b}" "media s3 = (media s)(b := f (view s b))" "trace s3 = trace s @ [(b, f (view s b))]"
    "rest s3 = rest s"
proof -
  obtain i s1 where r: "blk_read b s = Inr (i, s1)" "inv s1" "hold s1 i b" "blk_data i s1 = view s b"
    "view s1 = view s" "pins s1 = pins s" "media s1 = media s" "trace s1 = trace s" "rest s1 = rest s"
    "\<forall>j c. hold s1 j c \<longleftrightarrow> j = i \<and> c = b"
    by (rule read_release [OF s b])
  define t where "t = blk_set i (f (view s b)) s1"
  have t: "inv t" "hold t = hold s1" "view t = (view s)(b := f (view s b))" "pins t = pins s" "media t = media s"
    "trace t = trace s" "rest t = rest s"
    using set_ok [OF r(2,3), of "f (view s b)"] r by (simp_all add: t_def)
  have ht: "hold t i b" using t(2) r(3) by simp
  obtain s2 where w: "blk_write i t = Inr s2" "inv s2" "hold s2 = hold t" "view s2 = view t" "pins s2 = pins t - {b}"
      "media s2 = (media t)(b := view t b)" "trace s2 = trace t @ [(b, view t b)]" "rest s2 = rest t"
    using write_ok [OF t(1) ht] by blast
  have h2: "hold s2 i b" using w(3) ht by simp
  have "b \<in> pins s2 \<or> view s2 b = media s2 b" using w by simp
  from release_ok [OF w(2) h2 this] obtain s3 where q: "blk_release i s2 = Inr s3" "inv s3"
      "\<forall>k c. hold s3 k c \<longleftrightarrow> k \<noteq> i \<and> hold s2 k c" "view s3 = view s2" "pins s3 = pins s2" "media s3 = media s2"
      "trace s3 = trace s2" "rest s3 = rest s2"
    by blast
  show thesis
    using r w q t unfolding t_def by (intro that [of i s1 s2 s3]) auto
qed

end

definition store_rest :: "'a store_scheme \<Rightarrow> nat \<times> 'a" where
  "store_rest s = (disksize s, store.more s)"

lemma same_rest_iff: "same_rest s s' \<longleftrightarrow> store_rest s' = store_rest s"
  by (simp add: same_rest_def store_rest_def)

lemma fst_store_rest: "fst (store_rest s) = disksize s"
  by (simp add: store_rest_def)

interpretation bc: block_cache "bread 1" bwrite brelse bdata bset bpin cache_inv holds view pinned disk writes
  store_rest NBUF
proof unfold_locales
  fix s :: "'a store_scheme" and b i d
  show "cache_inv s \<Longrightarrow> b < fst (store_rest s) \<Longrightarrow> (\<And>i. \<not> holds s i b) \<Longrightarrow>
      card (pinned s \<union> {c. \<exists>i. holds s i c} \<union> {b}) \<le> NBUF \<Longrightarrow>
      \<exists>i s'. bread 1 b s = Inr (i, s') \<and> cache_inv s' \<and> (\<forall>c. \<not> holds s i c) \<and>
        (\<forall>j c. holds s' j c \<longleftrightarrow> (if j = i then c = b else holds s j c)) \<and>
        view s' = view s \<and> pinned s' = pinned s \<and> disk s' = disk s \<and> writes s' = writes s \<and> store_rest s' = store_rest s"
    using bread_spec [of s b] unfolding same_rest_iff held_blocks_def mem_Collect_eq fst_store_rest by blast
  show "cache_inv s \<Longrightarrow> holds s i b \<Longrightarrow>
      \<exists>s'. bwrite i s = Inr s' \<and> cache_inv s' \<and> holds s' = holds s \<and> view s' = view s \<and>
        pinned s' = pinned s - {b} \<and> disk s' = (disk s)(b := view s b) \<and>
        writes s' = writes s @ [(b, view s b)] \<and> store_rest s' = store_rest s"
    using bwrite_spec [of s i b] by (simp only: same_rest_iff)
  show "cache_inv s \<Longrightarrow> holds s i b \<Longrightarrow> b \<in> pinned s \<or> view s b = disk s b \<Longrightarrow>
      \<exists>s'. brelse i s = Inr s' \<and> cache_inv s' \<and> (\<forall>j c. holds s' j c \<longleftrightarrow> j \<noteq> i \<and> holds s j c) \<and>
        view s' = view s \<and> pinned s' = pinned s \<and> disk s' = disk s \<and> writes s' = writes s \<and> store_rest s' = store_rest s"
    using brelse_spec [of s i b] by (simp only: same_rest_iff)
  show "cache_inv s \<Longrightarrow> holds s i b \<Longrightarrow> bdata i s = view s b" by (rule bdata_view)
  show "cache_inv s \<Longrightarrow> holds s i b \<Longrightarrow>
      cache_inv (bset i d s) \<and> holds (bset i d s) = holds s \<and> view (bset i d s) = (view s)(b := d) \<and>
        pinned (bset i d s) = pinned s \<and> disk (bset i d s) = disk s \<and>
        writes (bset i d s) = writes s \<and> store_rest (bset i d s) = store_rest s"
    using bset_spec [of s i b d] by (simp only: same_rest_iff)
  show "cache_inv s \<Longrightarrow> holds s i b \<Longrightarrow>
      cache_inv (bpin i s) \<and> holds (bpin i s) = holds s \<and> view (bpin i s) = view s \<and>
        pinned (bpin i s) = insert b (pinned s) \<and> disk (bpin i s) = disk s \<and>
        writes (bpin i s) = writes s \<and> store_rest (bpin i s) = store_rest s"
    using bpin_spec [of s i b] by (simp only: same_rest_iff)
  show "cache_inv s \<Longrightarrow> b \<notin> pinned s \<Longrightarrow> (\<And>i. \<not> holds s i b) \<Longrightarrow> view s b = disk s b" by (rule clean_block)
  show "cache_inv s \<Longrightarrow> finite (pinned s)" using blocks_finite [of s] by simp
qed

text \<open>After \<open>binit\<close> the cache is empty: nothing is held or dirty and the view is the disk.\<close>

lemma binit_spec:
  shows "cache_inv (binit s)" and "\<not> holds (binit s) i b" and "pinned (binit s) = {}" and "view (binit s) = disk s"
    and "disk (binit s) = disk s" and "writes (binit s) = writes s" and "store_rest (binit s) = store_rest s"
proof -
  have nth: "bufs (binit s) ! j = \<lparr>b_valid = False, b_dirty = False, b_dev = 0, blockno = 0,
      b_locked = False, refcnt = 0, b_data = replicate BSIZE 0\<rparr>" if "j < NBUF" for j
    using that by (simp add: binit_def)
  have nc: "\<not> cached (binit s) i b" for i b using nth by (auto simp: cached_def)
  have "length (bufs (binit s)) = NBUF" "distinct (lru (binit s))" "set (lru (binit s)) = {0..<NBUF}"
    by (simp_all add: binit_def)
  then show inv: "cache_inv (binit s)"
    unfolding cache_inv_def using nc nth by (intro conjI allI impI) simp_all
  show "\<not> holds (binit s) i b" "pinned (binit s) = {}"
    using nc by (simp_all add: holds_def pinned_def)
  show "view (binit s) = disk s"
    using view_uncached [OF inv] nc by (auto simp: binit_def)
  show "disk (binit s) = disk s" "writes (binit s) = writes s" "store_rest (binit s) = store_rest s"
    by (simp_all add: binit_def store_rest_def)
qed

section \<open>Properties\<close>

text \<open>
  C29: Reading a block through the cache. In a cache that satisfies the invariant, with a buffer left that is
  neither held nor dirty, \<open>bread\<close> of a block that nobody holds returns a locked buffer with the current
  contents of the block, and neither this nor the recycling of a buffer changes the contents of any block, which
  blocks are dirty, or the disk.
\<close>

theorem bread_current_contents:
  assumes "cache_inv s" and "b < disksize s" and "b \<notin> held_blocks s"
    and "card (pinned s \<union> held_blocks s \<union> {b}) \<le> NBUF"
  shows "\<exists>i s'. bread 1 b s = Inr (i, s') \<and> holds s' i b \<and> bdata i s' = view s b \<and> cache_inv s' \<and>
    view s' = view s \<and> pinned s' = pinned s \<and> disk s' = disk s"
proof -
  obtain i s' where r: "bread 1 b s = Inr (i, s')" "cache_inv s'" "view s' = view s" "pinned s' = pinned s" "disk s' = disk s"
      "\<forall>j b'. holds s' j b' \<longleftrightarrow> (if j = i then b' = b else holds s j b')"
    using bread_spec [OF assms] by blast
  then have h: "holds s' i b" by simp
  show ?thesis using r h bdata_view [OF r(2) h] by auto
qed

theorem bread_current_contents_witness:
  "\<exists>i s'. bread 1 3 (binit \<lparr>bufs = [], lru = [], disk = (\<lambda>b. [of_nat b]), disksize = 10, writes = []\<rparr>) = Inr (i, s') \<and>
     bdata i s' = [3]"
proof -
  let ?s = "binit \<lparr>bufs = [], lru = [], disk = (\<lambda>b. [of_nat b]), disksize = 10, writes = []\<rparr> :: store"
  have "held_blocks ?s = {}" "pinned ?s = {}" by (simp_all add: held_blocks_def binit_spec)
  moreover have "disksize ?s = 10" by (simp add: binit_def)
  moreover have "card {3 :: nat} \<le> NBUF" by (simp add: NBUF_def)
  ultimately obtain i s' where "bread 1 3 ?s = Inr (i, s')" "bdata i s' = view ?s 3"
    using bread_current_contents [of ?s 3] binit_spec(1) [of "\<lparr>bufs = [], lru = [], disk = (\<lambda>b. [of_nat b]), disksize = 10, writes = []\<rparr>"]
    by (auto simp: NBUF_def)
  moreover have "view ?s 3 = [3]" by (simp add: binit_spec)
  ultimately show ?thesis by metis
qed

end
