(* ===== verification/Log.thy ===== *)
theory Log
  imports Bio
begin

text \<open>
  The redo log \<open>log.c\<close> on top of the block cache, with \<open>readsb\<close> of \<open>fs.c\<close>. The
  in-memory log header is the list \<open>l_block\<close> of its \<open>n\<close> live entries. Waiting for log
  space is \<open>Spins\<close>, \<open>wakeup(&log)\<close> is counted in \<open>l_woken\<close>, and the spin lock, which only
  makes each section atomic, is left out.

  The main result is crash safety: whatever prefix of the disk writes of a commit has reached
  the disk, recovery restores on every block outside the log either the old or the new contents,
  and the same choice for all of them.
\<close>

section \<open>State\<close>

definition MAXOPBLOCKS :: nat where "MAXOPBLOCKS = 10"
definition LOGSIZE :: nat where "LOGSIZE = MAXOPBLOCKS * 3"

record superblock =
  sb_size :: nat
  sb_nblocks :: nat
  sb_ninodes :: nat
  sb_nlog :: nat
  sb_logstart :: nat
  sb_inodestart :: nat
  sb_bmapstart :: nat

record logst = store +
  l_dev :: nat
  l_start :: nat
  l_size :: nat
  l_outstanding :: int
  l_committing :: bool
  l_block :: "nat list"
  l_woken :: nat

section \<open>The on-disk header\<close>

definition header_n :: "block \<Rightarrow> int" where
  "header_n d = signed 32 (get_le 0 4 d)"

definition header_block :: "block \<Rightarrow> nat \<Rightarrow> nat" where
  "header_block d i = get_le (4 + 4 * i) 4 d"

fun put_blocks :: "nat \<Rightarrow> nat list \<Rightarrow> block \<Rightarrow> block" where
  "put_blocks i [] d = d"
| "put_blocks i (b # bs) d = put_blocks (Suc i) bs (put_le (4 + 4 * i) 4 b d)"

definition put_header :: "nat list \<Rightarrow> block \<Rightarrow> block" where
  "put_header bs d = put_blocks 0 bs (put_le 0 4 (length bs) d)"

section \<open>Operations\<close>

definition readsb :: "nat \<Rightarrow> 'a logst_scheme \<Rightarrow> (superblock \<times> 'a logst_scheme) res" where
  "readsb dev s =
     bindE (bread dev 1 s) (\<lambda>(i, s).
     let w = (\<lambda>k. get_le (4 * k) 4 (bdata i s));
         sb = \<lparr>sb_size = w 0, sb_nblocks = w 1, sb_ninodes = w 2, sb_nlog = w 3, sb_logstart = w 4,
               sb_inodestart = w 5, sb_bmapstart = w 6\<rparr> in
     bindE (brelse i s) (\<lambda>s. Inr (sb, s)))"

text \<open>One round of the loop of \<open>install_trans\<close>: a log block goes to its home location.\<close>

definition install_one :: "nat \<Rightarrow> 'a logst_scheme \<Rightarrow> 'a logst_scheme res" where
  "install_one tail s =
     bindE (bread (l_dev s) (l_start s + tail + 1) s) (\<lambda>(lbuf, s).
     bindE (bread (l_dev s) (l_block s ! tail) s) (\<lambda>(dbuf, s).
     bindE (bwrite dbuf (bset dbuf (bdata lbuf s) s)) (\<lambda>s.
     bindE (brelse lbuf s) (brelse dbuf))))"

definition install_trans :: "'a logst_scheme \<Rightarrow> 'a logst_scheme res" where
  "install_trans s = forE install_one [0..<length (l_block s)] s"

definition read_head :: "'a logst_scheme \<Rightarrow> 'a logst_scheme res" where
  "read_head s =
     bindE (bread (l_dev s) (l_start s) s) (\<lambda>(i, s).
     let n = header_n (bdata i s) in
     if n > int LOGSIZE then Inl OutOfBounds
     else brelse i (s\<lparr>l_block := map (header_block (bdata i s)) [0..<nat n]\<rparr>))"

definition write_head :: "'a logst_scheme \<Rightarrow> 'a logst_scheme res" where
  "write_head s =
     bindE (bread (l_dev s) (l_start s) s) (\<lambda>(i, s).
     bindE (bwrite i (bset i (put_header (l_block s) (bdata i s)) s)) (brelse i))"

definition recover_from_log :: "'a logst_scheme \<Rightarrow> 'a logst_scheme res" where
  "recover_from_log s =
     bindE (read_head s) (\<lambda>s.
     bindE (install_trans s) (\<lambda>s.
     write_head (s\<lparr>l_block := []\<rparr>)))"

definition initlog :: "nat \<Rightarrow> 'a logst_scheme \<Rightarrow> 'a logst_scheme res" where
  "initlog dev s =
     (if 4 + 4 * LOGSIZE \<ge> BSIZE then Inl (Panic ''initlog: too big logheader'')
      else bindE (readsb dev s) (\<lambda>(sb, s).
        recover_from_log (s\<lparr>l_start := sb_logstart sb, l_size := sb_nlog sb, l_dev := dev\<rparr>)))"

definition begin_op :: "'a logst_scheme \<Rightarrow> 'a logst_scheme res" where
  "begin_op s =
     (if l_committing s then Inl Spins
      else if int (length (l_block s)) + (l_outstanding s + 1) * int MAXOPBLOCKS > int LOGSIZE then Inl Spins
      else Inr (s\<lparr>l_outstanding := l_outstanding s + 1\<rparr>))"

text \<open>One round of the loop of \<open>write_log\<close>: a cached block goes to its log block.\<close>

definition write_log_one :: "nat \<Rightarrow> 'a logst_scheme \<Rightarrow> 'a logst_scheme res" where
  "write_log_one tail s =
     bindE (bread (l_dev s) (l_start s + tail + 1) s) (\<lambda>(to, s).
     bindE (bread (l_dev s) (l_block s ! tail) s) (\<lambda>(from, s).
     bindE (bwrite to (bset to (bdata from s) s)) (\<lambda>s.
     bindE (brelse from s) (brelse to))))"

definition write_log :: "'a logst_scheme \<Rightarrow> 'a logst_scheme res" where
  "write_log s = forE write_log_one [0..<length (l_block s)] s"

definition commit :: "'a logst_scheme \<Rightarrow> 'a logst_scheme res" where
  "commit s =
     (if length (l_block s) > 0
      then bindE (write_log s) (\<lambda>s.
        bindE (write_head s) (\<lambda>s.
        bindE (install_trans s) (\<lambda>s.
        write_head (s\<lparr>l_block := []\<rparr>))))
      else Inr s)"

definition end_op :: "'a logst_scheme \<Rightarrow> 'a logst_scheme res" where
  "end_op s =
     (let s = s\<lparr>l_outstanding := l_outstanding s - 1\<rparr> in
      if l_committing s then Inl (Panic ''log.committing'')
      else if l_outstanding s = 0
      then bindE (commit (s\<lparr>l_committing := True\<rparr>)) (\<lambda>s.
        Inr (s\<lparr>l_committing := False, l_woken := l_woken s + 1\<rparr>))
      else Inr (s\<lparr>l_woken := l_woken s + 1\<rparr>))"

definition log_write :: "nat \<Rightarrow> 'a logst_scheme \<Rightarrow> 'a logst_scheme res" where
  "log_write i s =
     (if length (l_block s) \<ge> LOGSIZE \<or> int (length (l_block s)) \<ge> int (l_size s) - 1
      then Inl (Panic ''too big a transaction'')
      else if l_outstanding s < 1 then Inl (Panic ''log_write outside of trans'')
      else
        let b = blockno (bufs s ! i);
            k = (case find_index (\<lambda>c. c = b) (l_block s) of Some k \<Rightarrow> k | None \<Rightarrow> length (l_block s)) in
        Inr (bpin i (s\<lparr>l_block := (if k = length (l_block s) then l_block s @ [b] else (l_block s)[k := b])\<rparr>)))"

section \<open>The header round trip\<close>

lemma length_put_blocks:
  "4 + 4 * (i + length bs) \<le> length d \<Longrightarrow> length (put_blocks i bs d) = length d"
proof (induction bs arbitrary: i d)
  case Nil
  then show ?case by simp
next
  case (Cons b bs)
  have "length (put_le (4 + 4 * i) 4 b d) = length d" by (rule length_put_at) (use Cons.prems in simp)
  then show ?case using Cons by simp
qed

lemma get_at_put_blocks:
  "4 + 4 * (i + length bs) \<le> length d \<Longrightarrow> off + n \<le> 4 + 4 * i \<Longrightarrow>
    get_at off n (put_blocks i bs d) = get_at off n d"
proof (induction bs arbitrary: i d)
  case Nil
  then show ?case by simp
next
  case (Cons b bs)
  have len: "length (put_le (4 + 4 * i) 4 b d) = length d" by (rule length_put_at) (use Cons.prems in simp)
  have "get_at off n (put_blocks i (b # bs) d) = get_at off n (put_le (4 + 4 * i) 4 b d)"
    using Cons.IH [of "Suc i" "put_le (4 + 4 * i) 4 b d"] Cons.prems len by simp
  also have "\<dots> = get_at off n d" by (rule get_put_at_other) (use Cons.prems in simp_all)
  finally show ?case .
qed

lemma header_block_put_blocks:
  "4 + 4 * (i + length bs) \<le> length d \<Longrightarrow> k < length bs \<Longrightarrow>
    header_block (put_blocks i bs d) (i + k) = bs ! k mod 2 ^ 32"
proof (induction bs arbitrary: i d k)
  case Nil
  then show ?case by simp
next
  case (Cons b bs)
  let ?d = "put_le (4 + 4 * i) 4 b d"
  have len: "length ?d = length d" by (rule length_put_at) (use Cons.prems in simp)
  show ?case
  proof (cases k)
    case 0
    have "get_at (4 + 4 * i) 4 (put_blocks (Suc i) bs ?d) = get_at (4 + 4 * i) 4 ?d"
      by (rule get_at_put_blocks) (use Cons.prems len in simp_all)
    moreover have "get_le (4 + 4 * i) 4 ?d = b mod 256 ^ 4"
      by (rule get_put_le_same) (use Cons.prems in simp)
    ultimately show ?thesis using 0 by (simp add: header_block_def)
  next
    case (Suc m)
    then show ?thesis using Cons.IH [of "Suc i" ?d m] Cons.prems len by simp
  qed
qed

lemma put_header_spec:
  assumes "length d = BSIZE" and "length bs \<le> 127"
  shows "length (put_header bs d) = BSIZE" and "header_n (put_header bs d) = int (length bs)"
    and "k < length bs \<Longrightarrow> header_block (put_header bs d) k = bs ! k mod 2 ^ 32"
proof -
  let ?d = "put_le 0 4 (length bs) d"
  have l: "4 + 4 * (0 + length bs) \<le> length ?d" using assms by (simp add: BSIZE_def)
  show "length (put_header bs d) = BSIZE"
    using length_put_blocks [OF l] assms by (simp add: put_header_def BSIZE_def)
  have "get_at 0 4 (put_header bs d) = get_at 0 4 ?d"
    using get_at_put_blocks [OF l, of 0 4] by (simp add: put_header_def)
  moreover have "get_le 0 4 ?d = length bs mod 256 ^ 4"
    by (rule get_put_le_same) (use assms in \<open>simp add: BSIZE_def\<close>)
  ultimately show "header_n (put_header bs d) = int (length bs)"
    using assms(2) by (simp add: header_n_def signed_def)
  show "k < length bs \<Longrightarrow> header_block (put_header bs d) k = bs ! k mod 2 ^ 32"
    using header_block_put_blocks [OF l, of k] by (simp add: put_header_def)
qed

section \<open>Copying blocks\<close>

text \<open>
  \<open>quiet_cache\<close> is the cache between operations: its invariant holds and no buffer is held.
  \<open>wrote bs s s'\<close> says that exactly the writes \<open>bs\<close> went through the cache to the disk.
\<close>

definition quiet_cache :: "'a store_scheme \<Rightarrow> bool" where
  "quiet_cache s \<longleftrightarrow> cache_inv s \<and> (\<forall>i b. \<not> holds s i b)"

definition apply_writes :: "(nat \<times> block) list \<Rightarrow> (nat \<Rightarrow> block) \<Rightarrow> nat \<Rightarrow> block" where
  "apply_writes ws D = fold (\<lambda>(b, d) D. D(b := d)) ws D"

definition wrote :: "(nat \<times> block) list \<Rightarrow> 'a store_scheme \<Rightarrow> 'a store_scheme \<Rightarrow> bool" where
  "wrote ws s s' \<longleftrightarrow> quiet_cache s' \<and> view s' = apply_writes ws (view s) \<and> pinned s' = pinned s - fst ` set ws \<and>
     disk s' = apply_writes ws (disk s) \<and> writes s' = writes s @ ws \<and> store_rest s' = store_rest s"

lemma apply_writes_simps [simp]:
  "apply_writes [] D = D" "apply_writes ((b, d) # ws) D = apply_writes ws (D(b := d))"
  "apply_writes (ws @ ws') D = apply_writes ws' (apply_writes ws D)"
  by (simp_all add: apply_writes_def)

lemma apply_writes_other: "b \<notin> fst ` set ws \<Longrightarrow> apply_writes ws D b = D b"
  by (induction ws arbitrary: D) auto

lemma apply_writes_distinct:
  assumes "distinct (map fst ws)" and "(b, d) \<in> set ws"
  shows "apply_writes ws D b = d"
  using assms
proof (induction ws arbitrary: D)
  case Nil
  then show ?case by simp
next
  case (Cons w ws)
  obtain c e where w: "w = (c, e)" by (cases w)
  show ?case
  proof (cases "(b, d) \<in> set ws")
    case True
    then show ?thesis using Cons w by simp
  next
    case False
    then have e: "b = c" "d = e" using Cons.prems(2) w by auto
    have "b \<notin> fst ` set ws" using Cons.prems(1) w e(1) by auto
    from apply_writes_other [OF this, of "D(c := e)"] show ?thesis using e w by simp
  qed
qed

lemma wrote_refl: "quiet_cache s \<Longrightarrow> wrote [] s s"
  by (simp add: wrote_def)

lemma wrote_trans:
  assumes "wrote ws s s1" and "wrote ws' s1 s2"
  shows "wrote (ws @ ws') s s2"
  using assms by (simp add: wrote_def image_Un Diff_Un Diff_Int2 set_diff_eq)

lemma wrote_quiet: "wrote ws s s' \<Longrightarrow> quiet_cache s'"
  by (simp add: wrote_def)

lemma wrote_rest:
  assumes "store_rest s' = store_rest s"
  shows "l_dev s' = l_dev s" "l_start s' = l_start s" "l_size s' = l_size s" "l_outstanding s' = l_outstanding s"
    "l_committing s' = l_committing s" "l_block s' = l_block s" "l_woken s' = l_woken s"
    "logst.more s' = logst.more s" "disksize s' = disksize s"
  using assms by (cases s; cases s'; simp add: store_rest_def)+

lemma bread_rest:
  assumes "bread d b s = Inr (i, s')"
  shows "store_rest s' = store_rest s"
  using assms unfolding store_rest_def
  by (auto simp: bread_def bget_def acquire_buf_def iderw_def upd_buf_def Let_def res_simps
      split: option.splits if_splits)

lemma bread_log:
  assumes "bread d b s = Inr (i, s')"
  shows "l_dev s' = l_dev s \<and> l_start s' = l_start s \<and> l_block s' = l_block s"
  using wrote_rest [OF bread_rest [OF assms]] by simp

lemma write_log_one_eq:
  assumes "l_dev s = 1"
  shows "write_log_one k s = bindE (bread 1 (l_start s + k + 1) s) (\<lambda>(j, t). bindE (bread 1 (l_block s ! k) t)
    (\<lambda>(i, t). bindE (bwrite j (bset j (bdata i t) t)) (\<lambda>t. bindE (brelse i t) (brelse j))))"
  unfolding write_log_one_def assms
  by (intro bindE_cong refl) (use assms in \<open>auto dest!: bread_log\<close>)

lemma install_one_eq:
  assumes "l_dev s = 1"
  shows "install_one k s = bindE (bread 1 (l_start s + k + 1) s) (\<lambda>(i, t). bindE (bread 1 (l_block s ! k) t)
    (\<lambda>(j, t). bindE (bwrite j (bset j (bdata i t) t)) (\<lambda>t. bindE (brelse i t) (brelse j))))"
  unfolding install_one_def assms
  by (intro bindE_cong refl) (use assms in \<open>auto dest!: bread_log\<close>)

lemma cache_fields:
  assumes "bufs s' = bufs s" "lru s' = lru s" "disk s' = disk s" "disksize s' = disksize s"
  shows "cache_inv s' = cache_inv s" "holds s' = holds s" "view s' = view s" "pinned s' = pinned s"
    "quiet_cache s' = quiet_cache s"
proof -
  have c: "cached s' = cached s" using assms by (simp add: cached_def [abs_def])
  show i: "cache_inv s' = cache_inv s" unfolding cache_inv_def c assms ..
  show h: "holds s' = holds s" unfolding holds_def [abs_def] c assms ..
  show "view s' = view s" unfolding view_def [abs_def] assms ..
  show "pinned s' = pinned s" unfolding pinned_def c assms ..
  show "quiet_cache s' = quiet_cache s" unfolding quiet_cache_def i h ..
qed

lemma pinned_room:
  assumes "cache_inv s" and "A \<subseteq> pinned s \<union> {b, c}" and "card (insert b (insert c (pinned s))) \<le> NBUF"
  shows "card A \<le> NBUF"
  using card_mono [of "insert b (insert c (pinned s))" A] bc.pins_finite [OF assms(1)] assms(2,3) by auto

lemma copy_steps:
  assumes q: "quiet_cache s" and ab: "a \<noteq> b" "a < disksize s" "b < disksize s"
    and room: "card (insert a (insert b (pinned s))) \<le> NBUF"
  shows "\<exists>s'. bindE (bread 1 a s) (\<lambda>(i, s). bindE (bread 1 b s) (\<lambda>(j, s).
      bindE (bwrite j (bset j (bdata i s) s)) (\<lambda>s. bindE (brelse i s) (brelse j)))) = Inr s' \<and>
      wrote [(b, view s a)] s s'"
    and "\<exists>s'. bindE (bread 1 b s) (\<lambda>(j, s). bindE (bread 1 a s) (\<lambda>(i, s).
      bindE (bwrite j (bset j (bdata i s) s)) (\<lambda>s. bindE (brelse i s) (brelse j)))) = Inr s' \<and>
      wrote [(b, view s a)] s s'"
proof -
  have inv: "cache_inv s" "\<And>i b. \<not> holds s i b" using q by (simp_all add: quiet_cache_def)
  have a': "a < fst (store_rest s)" and b': "b < fst (store_rest s)" using ab by (simp_all add: fst_store_rest)
  have cl: "a \<in> pinned s \<or> view s a = disk s a" using clean_block [OF inv(1)] inv(2) by blast
  have fin: "\<exists>s'. bindE (bwrite j (bset j (bdata i t) t)) (\<lambda>s. bindE (brelse i s) (brelse j)) = Inr s' \<and>
      wrote [(b, view s a)] s s'"
    if t: "cache_inv t" "\<forall>k c. holds t k c \<longleftrightarrow> k = i \<and> c = a \<or> k = j \<and> c = b" "i \<noteq> j"
      "view t = view s" "pinned t = pinned s" "disk t = disk s" "writes t = writes s" "store_rest t = store_rest s" for i j t
  proof -
    have cl': "a \<in> pinned t \<or> view t a = disk t a" using cl t by simp
    obtain s1 s2 s3 where "bwrite j (bset j (bdata i t) t) = Inr s1" "brelse i s1 = Inr s2"
        "brelse j s2 = Inr s3" "cache_inv s3" "\<forall>k c. \<not> holds s3 k c" "view s3 = (view t)(b := view t a)"
        "pinned s3 = pinned t - {b}" "disk s3 = (disk t)(b := view t a)" "writes s3 = writes t @ [(b, view t a)]"
        "store_rest s3 = store_rest t"
      by (rule bc.copy_held [OF t(1) t(2) [rule_format] t(3) ab(1) cl'])
    then show ?thesis using t(4-) by (simp add: wrote_def quiet_cache_def)
  qed
  obtain i j s1 s2 where r: "bread 1 a s = Inr (i, s1)" "bread 1 b s1 = Inr (j, s2)" "i \<noteq> j" "cache_inv s2"
      "\<forall>k c. holds s2 k c \<longleftrightarrow> k = i \<and> c = a \<or> k = j \<and> c = b"
      "view s2 = view s" "pinned s2 = pinned s" "disk s2 = disk s" "writes s2 = writes s" "store_rest s2 = store_rest s"
    by (rule bc.read_two [OF inv a' b' ab(1) room])
  show "\<exists>s'. bindE (bread 1 a s) (\<lambda>(i, s). bindE (bread 1 b s) (\<lambda>(j, s).
      bindE (bwrite j (bset j (bdata i s) s)) (\<lambda>s. bindE (brelse i s) (brelse j)))) = Inr s' \<and>
      wrote [(b, view s a)] s s'"
    using fin [OF r(4,5,3) r(6-10)] r(1,2) by simp
  obtain i j s1 s2 where r: "bread 1 b s = Inr (i, s1)" "bread 1 a s1 = Inr (j, s2)" "i \<noteq> j" "cache_inv s2"
      "\<forall>k c. holds s2 k c \<longleftrightarrow> k = i \<and> c = b \<or> k = j \<and> c = a"
      "view s2 = view s" "pinned s2 = pinned s" "disk s2 = disk s" "writes s2 = writes s" "store_rest s2 = store_rest s"
    by (rule bc.read_two [OF inv b' a' ab(1) [symmetric] room [unfolded insert_commute [of a b]]])
  have h: "\<forall>k c. holds s2 k c \<longleftrightarrow> k = j \<and> c = a \<or> k = i \<and> c = b"
  proof (intro allI)
    fix k c show "holds s2 k c \<longleftrightarrow> k = j \<and> c = a \<or> k = i \<and> c = b"
      using r(5) [rule_format, of k c] by (simp only: disj_commute)
  qed
  show "\<exists>s'. bindE (bread 1 b s) (\<lambda>(j, s). bindE (bread 1 a s) (\<lambda>(i, s).
      bindE (bwrite j (bset j (bdata i s) s)) (\<lambda>s. bindE (brelse i s) (brelse j)))) = Inr s' \<and>
      wrote [(b, view s a)] s s'"
    using fin [OF r(4) h r(3) [symmetric] r(6-10)] r(1,2) by simp
qed

text \<open>A loop of copies \<open>src k\<close> to \<open>dst k\<close> of which no destination is a later source.\<close>

lemma copy_loop:
  assumes one: "\<And>k t. k < m \<Longrightarrow> quiet_cache t \<Longrightarrow> store_rest t = store_rest s \<Longrightarrow> pinned t \<subseteq> pinned s \<Longrightarrow>
      \<exists>t'. f k t = Inr t' \<and> wrote [(dst k, view t (src k))] t t'"
    and q: "quiet_cache s" and apart: "\<And>k l. k < m \<Longrightarrow> l < m \<Longrightarrow> dst k \<noteq> src l"
  shows "\<exists>s'. forE f [0..<m] s = Inr s' \<and> wrote (map (\<lambda>k. (dst k, view s (src k))) [0..<m]) s s'"
proof -
  have "\<exists>s'. forE f [0..<n] s = Inr s' \<and> wrote (map (\<lambda>k. (dst k, view s (src k))) [0..<n]) s s'" if "n \<le> m" for n
    using that
  proof (induction n)
    case 0
    then show ?case using wrote_refl [OF q] by simp
  next
    case (Suc n)
    then obtain t where t: "forE f [0..<n] s = Inr t" "wrote (map (\<lambda>k. (dst k, view s (src k))) [0..<n]) s t"
      by auto
    have p: "quiet_cache t" "store_rest t = store_rest s" "pinned t \<subseteq> pinned s" using t(2) by (auto simp: wrote_def)
    have "src n \<notin> dst ` {0..<n}" using apart [of _ n] Suc.prems by (metis Suc_le_eq atLeastLessThan_iff imageE less_trans)
    then have v: "view t (src n) = view s (src n)"
      using t(2) apply_writes_other [of "src n"] by (simp add: wrote_def image_image)
    obtain t' where t': "f n t = Inr t'" "wrote [(dst n, view t (src n))] t t'"
      using one [OF _ p, of n] Suc.prems by auto
    then show ?case
      using t(1) wrote_trans [OF t(2) t'(2)] v by (simp add: forE_snoc)
  qed
  then show ?thesis by simp
qed

section \<open>The log invariant and commit\<close>

definition in_log :: "'a logst_scheme \<Rightarrow> nat \<Rightarrow> bool" where
  "in_log s b \<longleftrightarrow> l_start s \<le> b \<and> b < l_start s + l_size s"

text \<open>
  The dirty buffers are those of the logged blocks, which lie outside the log, and the header on
  the disk says that the log is empty. The bound on \<open>l_size\<close> is the value \<open>mkfs.c\<close> writes.
\<close>

definition log_inv :: "'a logst_scheme \<Rightarrow> bool" where
  "log_inv s \<longleftrightarrow> cache_inv s \<and> l_dev s = 1 \<and> l_start s + l_size s \<le> disksize s \<and> disksize s \<le> 2 ^ 31 \<and>
     length (l_block s) < l_size s \<and> l_size s \<le> LOGSIZE \<and> distinct (l_block s) \<and> set (l_block s) = pinned s \<and>
     (\<forall>b \<in> set (l_block s). b < disksize s \<and> \<not> in_log s b) \<and>
     header_n (disk s (l_start s)) = 0 \<and> length (disk s (l_start s)) = BSIZE"

lemma log_invD:
  assumes "log_inv s"
  shows "cache_inv s" "l_dev s = 1" "l_start s + l_size s \<le> disksize s" "disksize s \<le> 2 ^ 31"
    "length (l_block s) < l_size s" "l_size s \<le> LOGSIZE" "distinct (l_block s)" "set (l_block s) = pinned s"
    "b \<in> set (l_block s) \<Longrightarrow> b < disksize s" "b \<in> set (l_block s) \<Longrightarrow> \<not> in_log s b"
    "header_n (disk s (l_start s)) = 0" "length (disk s (l_start s)) = BSIZE"
    "length (l_block s) < LOGSIZE" "card (pinned s) < NBUF" "\<not> in_log s b \<Longrightarrow> b \<noteq> l_start s"
    "l_start s \<notin> pinned s"
proof -
  show I: "cache_inv s" "l_dev s = 1" "l_start s + l_size s \<le> disksize s" "disksize s \<le> 2 ^ 31"
    "length (l_block s) < l_size s" "l_size s \<le> LOGSIZE" "distinct (l_block s)" "set (l_block s) = pinned s"
    "b \<in> set (l_block s) \<Longrightarrow> b < disksize s" "b \<in> set (l_block s) \<Longrightarrow> \<not> in_log s b"
    "header_n (disk s (l_start s)) = 0" "length (disk s (l_start s)) = BSIZE"
    using assms by (simp_all add: log_inv_def)
  show n: "length (l_block s) < LOGSIZE" using I(5,6) by linarith
  show "card (pinned s) < NBUF"
    using n distinct_card [OF I(7)] I(8) by (simp add: NBUF_def LOGSIZE_def MAXOPBLOCKS_def)
  show "\<not> in_log s b \<Longrightarrow> b \<noteq> l_start s" using I(5) by (auto simp: in_log_def)
  show "l_start s \<notin> pinned s"
    using assms I(5,8) unfolding log_inv_def by (auto simp: in_log_def)
qed

lemma write_log_spec:
  assumes inv: "log_inv s" and q: "quiet_cache s"
  shows "\<exists>s'. write_log s = Inr s' \<and>
    wrote (map (\<lambda>k. (l_start s + k + 1, view s (l_block s ! k))) [0..<length (l_block s)]) s s'"
  unfolding write_log_def
proof (rule copy_loop [OF _ q])
  note D = log_invD [OF inv]
  fix k assume k: "k < length (l_block s)"
  let ?a = "l_block s ! k" and ?b = "l_start s + k + 1"
  have a: "?a \<in> set (l_block s)" using k by simp
  note na = D(10) [OF a]
  { fix l assume "l < length (l_block s)"
    then have "l_block s ! l \<in> set (l_block s)" by simp
    from D(10) [OF this] show "?b \<noteq> l_block s ! l" using k D(5) by (auto simp: in_log_def) }
  note ab = this [OF k]
  fix t assume t: "quiet_cache t" "store_rest t = store_rest s" "pinned t \<subseteq> pinned s"
  note R = wrote_rest [OF t(2)]
  have fin: "finite (insert ?b (pinned s))" using bc.pins_finite [OF D(1)] by simp
  have "insert ?a (insert ?b (pinned t)) \<subseteq> insert ?b (pinned s)" using t(3) a D(8) by auto
  then have "card (insert ?a (insert ?b (pinned t))) \<le> card (insert ?b (pinned s))"
    by (rule card_mono [OF fin])
  also have "\<dots> \<le> NBUF" using D(14) bc.pins_finite [OF D(1)] by (simp add: card_insert_if)
  finally have room: "card (insert ?a (insert ?b (pinned t))) \<le> NBUF" .
  have lt: "?a < disksize t" "?b < disksize t" using D(9) [OF a] D(3,5) k R(9) by simp_all
  show "\<exists>t'. write_log_one k t = Inr t' \<and> wrote [(?b, view t ?a)] t t'"
    using copy_steps(2) [OF t(1) ab [symmetric] lt room] R D(2) by (simp only: write_log_one_eq)
qed


text \<open>\<open>install_trans\<close>, both after a commit and during recovery.\<close>

lemma install_trans_spec:
  assumes q: "quiet_cache s" and dev: "l_dev s = 1"
    and rng: "l_start s + length (l_block s) < disksize s" "\<And>b. b \<in> set (l_block s) \<Longrightarrow> b < disksize s"
    and apart: "\<And>b. b \<in> set (l_block s) \<Longrightarrow> b \<le> l_start s \<or> l_start s + length (l_block s) < b"
    and room: "\<And>b. card (insert b (pinned s \<union> set (l_block s))) \<le> NBUF"
  shows "\<exists>s'. install_trans s = Inr s' \<and>
    wrote (map (\<lambda>k. (l_block s ! k, view s (l_start s + k + 1))) [0..<length (l_block s)]) s s'"
  unfolding install_trans_def
proof (rule copy_loop [OF _ q])
  fix k assume k: "k < length (l_block s)"
  let ?b = "l_block s ! k" and ?a = "l_start s + k + 1"
  have b: "?b \<in> set (l_block s)" using k by simp
  { fix l assume "l < length (l_block s)"
    then show "?b \<noteq> l_start s + l + 1" using apart [OF b] by auto }
  note ab = this [OF k]
  fix t assume t: "quiet_cache t" "store_rest t = store_rest s" "pinned t \<subseteq> pinned s"
  note R = wrote_rest [OF t(2)]
  have ci: "cache_inv s" using q by (simp add: quiet_cache_def)
  have fin: "finite (insert ?a (pinned s \<union> set (l_block s)))" using bc.pins_finite [OF ci] by simp
  have "insert ?a (insert ?b (pinned t)) \<subseteq> insert ?a (pinned s \<union> set (l_block s))" using t(3) b by auto
  then have "card (insert ?a (insert ?b (pinned t))) \<le> card (insert ?a (pinned s \<union> set (l_block s)))"
    by (rule card_mono [OF fin])
  also have "\<dots> \<le> NBUF" by (rule room)
  finally have room': "card (insert ?a (insert ?b (pinned t))) \<le> NBUF" .
  have lt: "?a < disksize t" "?b < disksize t" using rng(1) rng(2) [OF b] k R(9) by simp_all
  show "\<exists>t'. install_one k t = Inr t' \<and> wrote [(?b, view t ?a)] t t'"
    using copy_steps(1) [OF t(1) ab [symmetric] lt room'] R dev by (simp only: install_one_eq)
qed

lemma write_head_spec:
  assumes q: "quiet_cache s" and dev: "l_dev s = 1" "l_start s < disksize s"
    and room: "card (insert (l_start s) (pinned s)) \<le> NBUF"
  shows "\<exists>s'. write_head s = Inr s' \<and> wrote [(l_start s, put_header (l_block s) (view s (l_start s)))] s s'"
proof -
  have ci: "cache_inv s" "\<And>i b. \<not> holds s i b" using q by (simp_all add: quiet_cache_def)
  have lt: "l_start s < fst (store_rest s)" using dev(2) by (simp add: fst_store_rest)
  obtain i s1 s2 s3 where w: "bread 1 (l_start s) s = Inr (i, s1)" "bdata i s1 = view s (l_start s)"
    "bwrite i (bset i (put_header (l_block s) (view s (l_start s))) s1) = Inr s2" "brelse i s2 = Inr s3"
    "cache_inv s3" "\<forall>i b. \<not> holds s3 i b" "view s3 = (view s)(l_start s := put_header (l_block s) (view s (l_start s)))"
    "pinned s3 = pinned s - {l_start s}" "disk s3 = (disk s)(l_start s := put_header (l_block s) (view s (l_start s)))"
    "writes s3 = writes s @ [(l_start s, put_header (l_block s) (view s (l_start s)))]"
    "store_rest s3 = store_rest s"
    by (rule bc.overwrite [OF ci lt room])
  have "l_block s1 = l_block s" using bread_log [OF w(1)] by simp
  then have "write_head s = Inr s3" using w(1-4) dev(1) by (simp add: write_head_def)
  then show ?thesis using w(5-) by (simp add: wrote_def quiet_cache_def)
qed

lemma l_block_upd [simp]:
  "cache_inv (s\<lparr>l_block := x\<rparr>) = cache_inv s" "holds (s\<lparr>l_block := x\<rparr>) = holds s"
  "view (s\<lparr>l_block := x\<rparr>) = view s" "pinned (s\<lparr>l_block := x\<rparr>) = pinned s"
  "quiet_cache (s\<lparr>l_block := x\<rparr>) = quiet_cache s"
  by (rule cache_fields; simp)+

lemma wrote_l_block:
  assumes "wrote ws s t"
  shows "wrote ws (s\<lparr>l_block := x\<rparr>) (t\<lparr>l_block := x\<rparr>)"
proof -
  have "store_rest (t\<lparr>l_block := x\<rparr>) = store_rest (s\<lparr>l_block := x\<rparr>)"
    using assms by (cases s; cases t; simp add: wrote_def store_rest_def)
  then show ?thesis using assms by (simp add: wrote_def)
qed

definition log_writes :: "'a logst_scheme \<Rightarrow> (nat \<times> block) list" where
  "log_writes s = map (\<lambda>k. (l_start s + k + 1, view s (l_block s ! k))) [0..<length (l_block s)]"

definition home_writes :: "'a logst_scheme \<Rightarrow> (nat \<times> block) list" where
  "home_writes s = map (\<lambda>b. (b, view s b)) (l_block s)"

definition commit_writes :: "'a logst_scheme \<Rightarrow> (nat \<times> block) list" where
  "commit_writes s =
     (let h = put_header (l_block s) (disk s (l_start s)) in
      log_writes s @ [(l_start s, h)] @ home_writes s @ [(l_start s, put_header [] h)])"

lemma log_writes_props:
  assumes "log_inv s"
  shows "fst ` set (log_writes s) = (\<lambda>k. l_start s + k + 1) ` {0..<length (l_block s)}"
    and "k < length (l_block s) \<Longrightarrow> apply_writes (log_writes s) D (l_start s + k + 1) = view s (l_block s ! k)"
    and "l_start s \<notin> fst ` set (log_writes s)" and "\<not> in_log s b \<Longrightarrow> b \<notin> fst ` set (log_writes s)"
    and "fst ` set (home_writes s) = set (l_block s)"
    and "b \<in> set (l_block s) \<Longrightarrow> apply_writes (home_writes s) D b = view s b"
    and "length (log_writes s) = length (l_block s)" and "length (home_writes s) = length (l_block s)"
proof -
  note D = log_invD [OF assms]
  show f: "fst ` set (log_writes s) = (\<lambda>k. l_start s + k + 1) ` {0..<length (l_block s)}"
    by (simp add: log_writes_def image_image)
  have "distinct (map fst (log_writes s))"
    by (simp add: log_writes_def comp_def distinct_map inj_on_def)
  then show "k < length (l_block s) \<Longrightarrow> apply_writes (log_writes s) D (l_start s + k + 1) = view s (l_block s ! k)"
    by (rule apply_writes_distinct) (simp add: log_writes_def)
  show "l_start s \<notin> fst ` set (log_writes s)" unfolding f by auto
  show "\<not> in_log s b \<Longrightarrow> b \<notin> fst ` set (log_writes s)" unfolding f using D(5) by (auto simp: in_log_def)
  show "fst ` set (home_writes s) = set (l_block s)" by (simp add: home_writes_def image_image)
  have "distinct (map fst (home_writes s))" using D(7) by (simp add: home_writes_def comp_def)
  then show "b \<in> set (l_block s) \<Longrightarrow> apply_writes (home_writes s) D b = view s b"
    by (rule apply_writes_distinct) (simp add: home_writes_def)
  show "length (log_writes s) = length (l_block s)" "length (home_writes s) = length (l_block s)"
    by (simp_all add: log_writes_def home_writes_def)
qed

lemma commit_spec:
  assumes inv: "log_inv s" and q: "quiet_cache s" and ne: "l_block s \<noteq> []"
  shows "\<exists>s'. commit s = Inr s' \<and> wrote (commit_writes s) (s\<lparr>l_block := []\<rparr>) s'"
proof -
  note D = log_invD [OF inv] and L = log_writes_props [OF inv]
  let ?h = "put_header (l_block s) (disk s (l_start s))"
  have vs: "view s (l_start s) = disk s (l_start s)"
    using clean_block [OF D(1) D(16)] q by (simp add: quiet_cache_def)
  have fin: "finite (pinned s)" by (rule bc.pins_finite [OF D(1)])
  have room: "card (insert b (pinned s)) \<le> NBUF" for b using D(14) fin by (simp add: card_insert_if)
  obtain s1 where s1: "write_log s = Inr s1" "wrote (log_writes s) s s1"
    using write_log_spec [OF inv q] unfolding log_writes_def by blast
  have R1: "store_rest s1 = store_rest s" using s1(2) by (simp add: wrote_def)
  note r1 = wrote_rest [OF R1]
  have p1: "pinned s1 \<subseteq> pinned s" using s1(2) by (auto simp: wrote_def)
  have v1: "view s1 (l_start s1) = disk s (l_start s)"
    using s1(2) apply_writes_other [OF L(3)] vs r1(2) by (simp add: wrote_def)
  have "card (insert (l_start s1) (pinned s1)) \<le> NBUF"
    using p1 room [of "l_start s1"] fin by (meson card_mono finite_insert insert_mono order_trans)
  then obtain s2 where s2: "write_head s1 = Inr s2" "wrote [(l_start s, ?h)] s1 s2"
    using write_head_spec [of s1] wrote_quiet [OF s1(2)] r1 D(2,3,5) v1 by auto
  have w2: "wrote (log_writes s @ [(l_start s, ?h)]) s s2" by (rule wrote_trans [OF s1(2) s2(2)])
  have R2: "store_rest s2 = store_rest s" using w2 by (simp add: wrote_def)
  note r2 = wrote_rest [OF R2]
  have v2: "view s2 (l_start s2 + k + 1) = view s (l_block s ! k)" if "k < length (l_block s)" for k
    using w2 L(2) [OF that] r2(2) by (simp add: wrote_def)
  have p2: "pinned s2 \<union> set (l_block s2) \<subseteq> pinned s" using w2 D(8) r2(6) by (auto simp: wrote_def)
  have room2: "card (insert b (pinned s2 \<union> set (l_block s2))) \<le> NBUF" for b
    using p2 room [of b] fin by (meson card_mono finite_insert insert_mono order_trans)
  have apart: "b \<le> l_start s2 \<or> l_start s2 + length (l_block s2) < b" if "b \<in> set (l_block s2)" for b
    using D(10) [of b] D(5) that r2 by (auto simp: in_log_def)
  have "l_start s2 + length (l_block s2) < disksize s2" "\<And>b. b \<in> set (l_block s2) \<Longrightarrow> b < disksize s2" "l_dev s2 = 1"
    using D(2,3,5,9) r2 by simp_all
  from install_trans_spec [OF wrote_quiet [OF w2] this(3,1,2) apart room2]
  obtain s3 where s3: "install_trans s2 = Inr s3"
      "wrote (map (\<lambda>k. (l_block s2 ! k, view s2 (l_start s2 + k + 1))) [0..<length (l_block s2)]) s2 s3"
    by blast
  have "map (\<lambda>k. (l_block s2 ! k, view s2 (l_start s2 + k + 1))) [0..<length (l_block s2)] = home_writes s"
    using v2 r2(6) by (intro nth_equalityI) (simp_all add: home_writes_def)
  then have w3: "wrote ((log_writes s @ [(l_start s, ?h)]) @ home_writes s) s s3"
    using wrote_trans [OF w2] s3(2) by simp
  let ?s3 = "s3\<lparr>l_block := []\<rparr>"
  have R3: "store_rest s3 = store_rest s" using w3 by (simp add: wrote_def)
  note r3 = wrote_rest [OF R3]
  have "l_start s \<notin> set (l_block s)" using D(8,16) by simp
  then have v3: "view s3 (l_start s) = ?h"
    using w3 apply_writes_other [of "l_start s" "home_writes s"] L(5) by (simp add: wrote_def)
  have "pinned s3 = {}" using w3 L(5) D(8) by (auto simp: wrote_def)
  then obtain s4 where s4: "write_head ?s3 = Inr s4" "wrote [(l_start s, put_header [] ?h)] ?s3 s4"
    using write_head_spec [of ?s3] wrote_quiet [OF w3] r3 D(2,3,5) v3 by (auto simp: NBUF_def)
  have "wrote (commit_writes s) (s\<lparr>l_block := []\<rparr>) s4"
    using wrote_trans [OF wrote_l_block [OF w3] s4(2)] by (simp add: commit_writes_def Let_def)
  moreover have "commit s = Inr s4" using ne s1(1) s2(1) s3(1) s4(1) by (simp add: commit_def)
  ultimately show ?thesis by blast
qed

section \<open>Recovery\<close>

lemma read_head_spec:
  assumes q: "quiet_cache s" and dev: "l_dev s = 1" "l_start s < disksize s" "pinned s = {}"
    and n: "header_n (disk s (l_start s)) \<le> int LOGSIZE"
  shows "\<exists>s'. read_head s = Inr s' \<and> wrote [] (s\<lparr>l_block := map (header_block (disk s (l_start s)))
    [0..<nat (header_n (disk s (l_start s)))]\<rparr>) s'"
proof -
  have ci: "cache_inv s" "\<And>i b. \<not> holds s i b" using q by (simp_all add: quiet_cache_def)
  let ?bs = "map (header_block (disk s (l_start s))) [0..<nat (header_n (disk s (l_start s)))]"
  have v: "view s b = disk s b" for b using clean_block [OF ci(1)] ci(2) dev(3) by simp
  have lt: "l_start s < fst (store_rest s)" using dev(2) by (simp add: fst_store_rest)
  have room: "card (insert (l_start s) (pinned s)) \<le> NBUF" using dev(3) by (simp add: NBUF_def)
  obtain i s1 s2 where r: "bread 1 (l_start s) s = Inr (i, s1)" "cache_inv s1" "holds s1 i (l_start s)"
    "bdata i s1 = view s (l_start s)" "view s1 = view s" "pinned s1 = pinned s" "disk s1 = disk s"
    "writes s1 = writes s" "store_rest s1 = store_rest s" "\<forall>j c. holds s1 j c \<longleftrightarrow> j = i \<and> c = l_start s"
    "brelse i s1 = Inr s2" "cache_inv s2" "\<forall>i b. \<not> holds s2 i b" "view s2 = view s" "pinned s2 = pinned s"
    "disk s2 = disk s" "writes s2 = writes s" "store_rest s2 = store_rest s"
    by (rule bc.read_release [OF ci lt room])
  let ?t = "s1\<lparr>l_block := ?bs\<rparr>"
  have "cache_inv ?t" "holds ?t i (l_start s)" "l_start s \<in> pinned ?t \<or> view ?t (l_start s) = disk ?t (l_start s)"
    using r v by simp_all
  from bc.release_ok [OF this] obtain t' where t': "brelse i ?t = Inr t'" "cache_inv t'"
      "\<forall>j c. holds t' j c \<longleftrightarrow> j \<noteq> i \<and> holds ?t j c" "view t' = view ?t" "pinned t' = pinned ?t" "disk t' = disk ?t"
      "writes t' = writes ?t" "store_rest t' = store_rest ?t"
    by blast
  have "read_head s = Inr t'" using r(1,4) t'(1) n dev(1) v by (simp add: read_head_def Let_def)
  moreover have "store_rest ?t = store_rest (s\<lparr>l_block := ?bs\<rparr>)"
    using r(9) by (cases s; cases s1; simp add: store_rest_def)
  ultimately show ?thesis using t' r(5-10) by (simp add: wrote_def quiet_cache_def)
qed

definition header_blocks :: "block \<Rightarrow> nat list" where
  "header_blocks h = map (header_block h) [0..<nat (header_n h)]"

definition recovery_writes :: "nat \<Rightarrow> (nat \<Rightarrow> block) \<Rightarrow> (nat \<times> block) list" where
  "recovery_writes start D =
     map (\<lambda>k. (header_blocks (D start) ! k, D (start + k + 1))) [0..<length (header_blocks (D start))] @
     [(start, put_header [] (D start))]"

lemma recover_from_log_spec:
  assumes q: "quiet_cache s" "pinned s = {}" and dev: "l_dev s = 1" "l_start s + l_size s \<le> disksize s"
    and n: "header_n (disk s (l_start s)) < int (l_size s)" "0 < l_size s" "l_size s \<le> LOGSIZE"
    and blk: "\<And>b. b \<in> set (header_blocks (disk s (l_start s))) \<Longrightarrow> b < disksize s \<and> \<not> in_log s b"
  shows "\<exists>s'. recover_from_log s = Inr s' \<and> wrote (recovery_writes (l_start s) (disk s)) (s\<lparr>l_block := []\<rparr>) s'"
proof -
  let ?bs = "header_blocks (disk s (l_start s))" and ?m = "nat (header_n (disk s (l_start s)))"
  have v: "view s b = disk s b" for b
    using clean_block [of s b] q by (simp add: quiet_cache_def)
  have "header_n (disk s (l_start s)) \<le> int LOGSIZE" "l_start s < disksize s" using n dev by linarith+
  from read_head_spec [OF q(1) dev(1) this(2) q(2) this(1)]
  obtain s1 where s1: "read_head s = Inr s1" "wrote [] (s\<lparr>l_block := ?bs\<rparr>) s1"
    unfolding header_blocks_def by blast
  have "store_rest s1 = store_rest (s\<lparr>l_block := ?bs\<rparr>)" using s1(2) by (simp add: wrote_def)
  note r1 = wrote_rest [OF this, simplified]
  have p1: "pinned s1 = {}" using s1(2) q by (simp add: wrote_def)
  have m: "length ?bs < l_size s" using n by (simp add: header_blocks_def)
  have apart: "b \<le> l_start s1 \<or> l_start s1 + length (l_block s1) < b" if "b \<in> set (l_block s1)" for b
    using blk [of b] m that r1 by (auto simp: in_log_def)
  have room: "card (insert b (pinned s1 \<union> set (l_block s1))) \<le> NBUF" for b
  proof -
    have "card (insert b (set ?bs)) \<le> Suc (card (set ?bs))" by (simp add: card_insert_if)
    also have "card (set ?bs) \<le> length ?bs" by (rule card_length)
    finally show ?thesis using m n(3) p1 r1(6) by (simp add: NBUF_def LOGSIZE_def MAXOPBLOCKS_def)
  qed
  have "l_start s1 + length (l_block s1) < disksize s1" "\<And>b. b \<in> set (l_block s1) \<Longrightarrow> b < disksize s1" "l_dev s1 = 1"
    using m dev blk r1 by auto
  from install_trans_spec [OF wrote_quiet [OF s1(2)] this(3,1,2) apart room]
  obtain s2 where s2: "install_trans s1 = Inr s2"
      "wrote (map (\<lambda>k. (l_block s1 ! k, view s1 (l_start s1 + k + 1))) [0..<length (l_block s1)]) s1 s2"
    by blast
  define W where "W = map (\<lambda>k. (?bs ! k, disk s (l_start s + k + 1))) [0..<length ?bs]"
  have "map (\<lambda>k. (l_block s1 ! k, view s1 (l_start s1 + k + 1))) [0..<length (l_block s1)] = W"
    using s1(2) v r1 by (simp add: wrote_def W_def)
  with wrote_trans [OF s1(2)] s2(2) have w2: "wrote W (s\<lparr>l_block := ?bs\<rparr>) s2" by fastforce
  let ?s2 = "s2\<lparr>l_block := []\<rparr>"
  have w2': "wrote W (s\<lparr>l_block := []\<rparr>) ?s2" using wrote_l_block [OF w2, of "[]"] by simp
  have "store_rest ?s2 = store_rest (s\<lparr>l_block := []\<rparr>)" using w2' by (simp only: wrote_def)
  note r2 = wrote_rest [OF this, simplified]
  have "l_start s \<notin> set ?bs" using blk [of "l_start s"] n(2) by (auto simp: in_log_def)
  then have "l_start s \<notin> fst ` set W"
    by (auto simp: W_def in_set_conv_nth)
  from apply_writes_other [OF this] have v2: "view ?s2 (l_start s) = disk s (l_start s)"
    using w2' v by (simp add: wrote_def)
  have "pinned ?s2 = {}" using w2' q by (simp add: wrote_def)
  then obtain s3 where s3: "write_head ?s2 = Inr s3" "wrote [(l_start s, put_header [] (disk s (l_start s)))] ?s2 s3"
    using write_head_spec [of ?s2] wrote_quiet [OF w2'] r2 dev n(2) v2 by (auto simp: NBUF_def)
  have "wrote (recovery_writes (l_start s) (disk s)) (s\<lparr>l_block := []\<rparr>) s3"
    using wrote_trans [OF w2' s3(2)] by (simp add: recovery_writes_def W_def)
  moreover have "recover_from_log s = Inr s3" using s1(1) s2(1) s3(1) by (simp add: recover_from_log_def)
  ultimately show ?thesis by blast
qed

section \<open>Crash safety\<close>

text \<open>
  \<open>boot D n\<close> is the machine after a restart with disk \<open>D\<close> of \<open>n\<close> blocks: \<open>binit\<close> has run, and
  the globals of \<open>log.c\<close> are zero.
\<close>

definition boot :: "(nat \<Rightarrow> block) \<Rightarrow> nat \<Rightarrow> logst" where
  "boot D n = binit \<lparr>bufs = [], lru = [], disk = D, disksize = n, writes = [], l_dev = 0, l_start = 0, l_size = 0,
     l_outstanding = 0, l_committing = False, l_block = [], l_woken = 0\<rparr>"

lemma boot_spec:
  "quiet_cache (boot D n)" "pinned (boot D n) = {}" "disk (boot D n) = D" "view (boot D n) = D"
  "disksize (boot D n) = n" "l_outstanding (boot D n) = 0" "\<not> l_committing (boot D n)"
  unfolding boot_def quiet_cache_def by (simp_all add: binit_spec) (simp_all add: binit_def)

definition sb_on_disk :: "(nat \<Rightarrow> block) \<Rightarrow> nat \<Rightarrow> nat \<Rightarrow> bool" where
  "sb_on_disk D start sz \<longleftrightarrow> get_le 12 4 (D 1) = sz \<and> get_le 16 4 (D 1) = start"

lemma readsb_spec:
  assumes q: "quiet_cache s" "pinned s = {}" "1 < disksize s"
  shows "\<exists>sb s'. readsb 1 s = Inr (sb, s') \<and> wrote [] s s' \<and>
    sb_nlog sb = get_le 12 4 (disk s 1) \<and> sb_logstart sb = get_le 16 4 (disk s 1)"
proof -
  have ci: "cache_inv s" "\<And>i b. \<not> holds s i b" using q by (simp_all add: quiet_cache_def)
  have lt: "1 < fst (store_rest s)" and room: "card (insert 1 (pinned s)) \<le> NBUF"
    using q(2,3) by (simp_all add: fst_store_rest NBUF_def)
  have "view s 1 = disk s 1" using clean_block [OF ci(1)] ci(2) q(2) by simp
  then show ?thesis
    by (rule_tac bc.read_release [OF ci lt room]) (simp add: readsb_def Let_def wrote_def quiet_cache_def)
qed

lemma initlog_spec:
  assumes sb: "sb_on_disk D start sz" "1 < n" and lim: "start + sz \<le> n" "0 < sz" "sz \<le> LOGSIZE" "n \<le> 2 ^ 31"
    and h: "header_n (D start) < int sz" "length (D start) = BSIZE"
    and blk: "\<And>b. b \<in> set (header_blocks (D start)) \<Longrightarrow> b < n \<and> \<not> (start \<le> b \<and> b < start + sz)"
  shows "\<exists>r. initlog 1 (boot D n) = Inr r \<and> disk r = apply_writes (recovery_writes start D) D \<and> log_inv r \<and>
    quiet_cache r \<and> l_block r = [] \<and> l_start r = start \<and> l_size r = sz \<and> disksize r = n \<and>
    l_outstanding r = 0 \<and> \<not> l_committing r"
proof -
  note B = boot_spec [of D n]
  have "1 < disksize (boot D n)" using sb(2) B(5) by simp
  from readsb_spec [OF B(1,2) this] obtain b s1 where s1: "readsb 1 (boot D n) = Inr (b, s1)" "wrote [] (boot D n) s1"
      "sb_nlog b = sz" "sb_logstart b = start"
    using sb(1) B(3) by (auto simp: sb_on_disk_def)
  define s2 where "s2 = s1\<lparr>l_start := start, l_size := sz, l_dev := 1\<rparr>"
  have rest1: "store_rest s1 = store_rest (boot D n)" using s1(2) by (simp add: wrote_def)
  note r1 = wrote_rest [OF rest1]
  have c: "quiet_cache s2 = quiet_cache s1" "pinned s2 = pinned s1" "view s2 = view s1"
    by (rule cache_fields; simp add: s2_def)+
  have s2: "quiet_cache s2" "pinned s2 = {}" "disk s2 = D" "l_dev s2 = 1" "l_start s2 = start" "l_size s2 = sz" "disksize s2 = n"
    "l_outstanding s2 = 0" "\<not> l_committing s2"
    using c s1(2) B r1 by (simp_all add: wrote_def) (simp_all add: s2_def)
  obtain r where r: "recover_from_log s2 = Inr r" "wrote (recovery_writes start D) (s2\<lparr>l_block := []\<rparr>) r"
    using recover_from_log_spec [of s2] s2 lim h blk by (auto simp: in_log_def)
  have "store_rest r = store_rest (s2\<lparr>l_block := []\<rparr>)" using r(2) by (simp add: wrote_def)
  note rr = wrote_rest [OF this, simplified]
  have d: "disk r = apply_writes (recovery_writes start D) D" "quiet_cache r" "pinned r = {}"
    using r(2) s2 by (simp_all add: wrote_def)
  have "disk r start = put_header [] (D start)" using d(1) by (simp add: recovery_writes_def)
  then have "header_n (disk r start) = 0" "length (disk r start) = BSIZE"
    using put_header_spec(1,2) [of "D start" "[]"] h(2) by simp_all
  then have "log_inv r"
    using d rr s2 lim by (simp add: log_inv_def quiet_cache_def)
  moreover have "initlog 1 (boot D n) = Inr r"
    using s1 r(1) by (simp add: initlog_def s2_def BSIZE_def LOGSIZE_def MAXOPBLOCKS_def)
  moreover have "l_block r = []" "l_start r = start" "l_size r = sz" "disksize r = n" "l_outstanding r = 0" "\<not> l_committing r"
    using rr s2 by simp_all
  ultimately show ?thesis using d(1,2) by (intro exI [of _ r]) simp
qed

lemma header_blocks_put:
  assumes "length d = BSIZE" "length bs \<le> 127" "\<And>b. b \<in> set bs \<Longrightarrow> b < 2 ^ 32"
  shows "header_blocks (put_header bs d) = bs" and "header_n (put_header bs d) = int (length bs)"
    and "length (put_header bs d) = BSIZE"
proof -
  note P = put_header_spec [OF assms(1,2)]
  show "header_n (put_header bs d) = int (length bs)" "length (put_header bs d) = BSIZE" by (rule P)+
  show "header_blocks (put_header bs d) = bs"
  proof (rule nth_equalityI)
    show "length (header_blocks (put_header bs d)) = length bs" using P(2) by (simp add: header_blocks_def)
    fix k assume "k < length (header_blocks (put_header bs d))"
    then have k: "k < length bs" using P(2) by (simp add: header_blocks_def)
    have "bs ! k mod 2 ^ 32 = bs ! k" using assms(3) [OF nth_mem [OF k]] by simp
    then show "header_blocks (put_header bs d) ! k = bs ! k"
      using P(2) P(3) [OF k] k by (simp add: header_blocks_def)
  qed
qed

text \<open>
  Recovery from a disk whose log is empty leaves all the other blocks alone; recovery from one with a
  committed transaction installs it.
\<close>

lemma recover_empty:
  assumes inv: "log_inv s" and sb: "sb_on_disk D (l_start s) (l_size s)" "1 < l_start s"
    and h: "header_n (D (l_start s)) = 0" "length (D (l_start s)) = BSIZE"
  shows "\<exists>r. initlog 1 (boot D (disksize s)) = Inr r \<and> log_inv r \<and> quiet_cache r \<and> l_block r = [] \<and>
    (\<forall>b. \<not> in_log s b \<longrightarrow> disk r b = D b)"
proof -
  note I = log_invD [OF inv]
  have e: "header_blocks (D (l_start s)) = []" using h by (simp add: header_blocks_def)
  have "1 < disksize s" "header_n (D (l_start s)) < int (l_size s)" "0 < l_size s" using sb(2) I(3,5) h by linarith+
  from initlog_spec [OF sb(1) this(1) I(3) this(3) I(6,4) this(2) h(2)] e
  obtain r where r: "initlog 1 (boot D (disksize s)) = Inr r" "disk r = apply_writes (recovery_writes (l_start s) D) D"
      "log_inv r" "quiet_cache r" "l_block r = []"
    by auto
  have "disk r b = D b" if "\<not> in_log s b" for b
    using r(2) e I(15) [OF that] by (simp add: recovery_writes_def)
  then show ?thesis using r by blast
qed

lemma recover_committed:
  assumes inv: "log_inv s" and sb: "sb_on_disk D (l_start s) (l_size s)" "1 < l_start s"
    and h: "D (l_start s) = put_header (l_block s) (disk s (l_start s))"
    and log: "\<And>k. k < length (l_block s) \<Longrightarrow> D (l_start s + k + 1) = view s (l_block s ! k)"
  shows "\<exists>r. initlog 1 (boot D (disksize s)) = Inr r \<and> log_inv r \<and> quiet_cache r \<and> l_block r = [] \<and>
    (\<forall>b. \<not> in_log s b \<longrightarrow> disk r b = (if b \<in> set (l_block s) then view s b else D b))"
proof -
  note I = log_invD [OF inv] and L = log_writes_props [OF inv]
  have "length (l_block s) \<le> 127" using I(13) by (simp add: LOGSIZE_def MAXOPBLOCKS_def)
  moreover have "b < 2 ^ 32" if "b \<in> set (l_block s)" for b using I(4) I(9) [OF that] by simp
  ultimately have P: "header_blocks (D (l_start s)) = l_block s" "header_n (D (l_start s)) = int (length (l_block s))"
      "length (D (l_start s)) = BSIZE"
    using header_blocks_put [OF I(12), of "l_block s"] h by auto
  have W: "recovery_writes (l_start s) D = home_writes s @ [(l_start s, put_header [] (D (l_start s)))]"
    using log P(1) by (auto simp: recovery_writes_def home_writes_def intro!: nth_equalityI)
  have "1 < disksize s" "header_n (D (l_start s)) < int (l_size s)" "0 < l_size s" using sb(2) I(3,5) P(2) by linarith+
  from initlog_spec [OF sb(1) this(1) I(3) this(3) I(6,4) this(2) P(3)] I(9,10) P(1)
  obtain r where r: "initlog 1 (boot D (disksize s)) = Inr r" "disk r = apply_writes (recovery_writes (l_start s) D) D"
      "log_inv r" "quiet_cache r" "l_block r = []"
    unfolding in_log_def by auto
  have "disk r b = (if b \<in> set (l_block s) then view s b else D b)" if "\<not> in_log s b" for b
    using r(2) W I(15) [OF that] L(6) [of b] apply_writes_other [of b "home_writes s"] L(5) by simp
  then show ?thesis using r by blast
qed

text \<open>The disk after the first \<open>k\<close> writes of a commit.\<close>

lemma crash_states:
  assumes inv: "log_inv s" and sb: "sb_on_disk (disk s) (l_start s) (l_size s)" "1 < l_start s" "1 \<notin> set (l_block s)"
    and q: "quiet_cache s" and D_def: "D = apply_writes (take k (commit_writes s)) (disk s)"
  shows "\<exists>r. initlog 1 (boot D (disksize s)) = Inr r \<and> log_inv r \<and> quiet_cache r \<and> l_block r = [] \<and>
    (\<forall>b. \<not> in_log s b \<longrightarrow> disk r b = (if k \<le> length (l_block s) then disk s b else view s b))"
proof -
  note I = log_invD [OF inv] and L = log_writes_props [OF inv]
  let ?h = "put_header (l_block s) (disk s (l_start s))" and ?n = "length (l_block s)"
  have clean: "view s b = disk s b" if "b \<notin> set (l_block s)" for b
    using clean_block [OF I(1)] q that I(8) by (simp add: quiet_cache_def)
  have one: "\<not> in_log s 1" using sb(2) by (simp add: in_log_def)
  define j where "j = k - Suc ?n"
  consider "k \<le> ?n" | "?n < k" "j \<le> ?n" | "?n < k" "?n < j" by linarith
  then show ?thesis
  proof cases
    case 1
    then have T: "take k (commit_writes s) = take k (log_writes s)" using L(7) by (simp add: commit_writes_def Let_def)
    have sub: "fst ` set (take k (log_writes s)) \<subseteq> fst ` set (log_writes s)"
      by (intro image_mono set_take_subset)
    have same: "D b = disk s b" if "b = l_start s \<or> \<not> in_log s b" for b
    proof -
      have "b \<notin> fst ` set (log_writes s)" using that L(3) L(4) [of b] by (elim disjE) simp_all
      then show ?thesis unfolding D_def T using sub by (intro apply_writes_other) blast
    qed
    have "\<exists>r. initlog 1 (boot D (disksize s)) = Inr r \<and> log_inv r \<and> quiet_cache r \<and> l_block r = [] \<and>
        (\<forall>b. \<not> in_log s b \<longrightarrow> disk r b = D b)"
      by (rule recover_empty [OF inv _ sb(2)]) (use same one sb(1) I(11,12) in \<open>simp_all add: sb_on_disk_def\<close>)
    then show ?thesis using same 1 by auto
  next
    case 2
    then have T: "take k (commit_writes s) = log_writes s @ [(l_start s, ?h)] @ take j (home_writes s)"
      using L(7,8) by (simp add: commit_writes_def Let_def j_def take_Cons')
    have sub: "fst ` set (take j (home_writes s)) \<subseteq> set (l_block s)"
      using set_take_subset [of j "home_writes s"] L(5) by blast
    have keep: "D b = ((apply_writes (log_writes s) (disk s))(l_start s := ?h)) b" if "b \<notin> set (l_block s)" for b
    proof -
      have "b \<notin> fst ` set (take j (home_writes s))" by (rule contra_subsetD [OF sub that])
      from apply_writes_other [OF this] show ?thesis unfolding D_def T by simp
    qed
    have out: "b \<notin> set (l_block s)" if "in_log s b" for b using I(10) [of b] that by blast
    have "in_log s (l_start s)" using I(5) by (simp add: in_log_def)
    then have hd: "D (l_start s) = ?h" using keep [OF out] by simp
    have lg: "D (l_start s + i + 1) = view s (l_block s ! i)" if "i < ?n" for i
      using keep [OF out, of "l_start s + i + 1"] L(2) [OF that] that I(5) by (simp add: in_log_def)
    have other: "D b = disk s b" if "\<not> in_log s b" "b \<notin> set (l_block s)" for b
      using keep [OF that(2)] I(15) [OF that(1)] apply_writes_other [OF L(4) [OF that(1)]] by simp
    have "sb_on_disk D (l_start s) (l_size s)" using sb(1) other [OF one sb(3)] by (simp add: sb_on_disk_def)
    from recover_committed [OF inv this sb(2) hd lg]
    show ?thesis using 2(1) other clean by fastforce
  next
    case 3
    then have T: "take k (commit_writes s) = commit_writes s"
      using L(7,8) by (simp add: commit_writes_def Let_def j_def)
    have h0: "length ?h = BSIZE" using put_header_spec(1) [OF I(12)] I(13) by (simp add: LOGSIZE_def MAXOPBLOCKS_def)
    have hd: "D (l_start s) = put_header [] ?h" unfolding D_def T by (simp add: commit_writes_def Let_def)
    have all: "D b = view s b" if "\<not> in_log s b" for b
    proof (cases "b \<in> set (l_block s)")
      case True
      then show ?thesis unfolding D_def T using L(6) I(15) [OF that] by (simp add: commit_writes_def Let_def)
    next
      case False
      then show ?thesis unfolding D_def T using L(5) I(15) [OF that] apply_writes_other [OF L(4) [OF that]] clean
        by (simp add: commit_writes_def Let_def apply_writes_other)
    qed
    have "sb_on_disk D (l_start s) (l_size s)" using sb(1,3) all [OF one] clean by (simp add: sb_on_disk_def)
    from recover_empty [OF inv this sb(2)] show ?thesis
      using hd put_header_spec(1,2) [OF h0, of "[]"] all 3(1) by auto
  qed
qed

section \<open>Transactions\<close>

lemma log_inv_same:
  assumes "log_inv s" and "cache_inv s'" "store_rest s' = store_rest s" "pinned s' = pinned s" "disk s' = disk s"
  shows "log_inv s'"
  using assms wrote_rest [OF assms(3)] by (simp add: log_inv_def in_log_def)

lemma log_write_spec:
  assumes inv: "log_inv s" and h: "holds s i b" and b: "\<not> in_log s b" and o: "1 \<le> l_outstanding s"
    and room: "length (l_block s) < LOGSIZE" "length (l_block s) + 1 < l_size s"
  shows "\<exists>s'. log_write i s = Inr s' \<and> log_inv s' \<and> holds s' = holds s \<and> view s' = view s \<and> disk s' = disk s \<and>
    writes s' = writes s \<and> l_block s' = (if b \<in> set (l_block s) then l_block s else l_block s @ [b]) \<and>
    pinned s' = insert b (pinned s) \<and> store_rest s' = store_rest (s\<lparr>l_block := l_block s'\<rparr>)"
proof -
  note I = log_invD [OF inv] and H = holdsD [OF log_invD(1) [OF inv] h]
  define bl where "bl = (if b \<in> set (l_block s) then l_block s else l_block s @ [b])"
  let ?k = "case find_index (\<lambda>c. c = b) (l_block s) of Some k \<Rightarrow> k | None \<Rightarrow> length (l_block s)"
  have k: "(if ?k = length (l_block s) then l_block s @ [b] else (l_block s)[?k := b]) = bl"
  proof (cases "find_index (\<lambda>c. c = b) (l_block s)")
    case None
    have "b \<notin> set (l_block s)" using None unfolding find_index_None by blast
    then show ?thesis unfolding None bl_def by simp
  next
    case (Some k)
    from find_index_SomeD [OF Some] have "k < length (l_block s)" "l_block s ! k = b" by simp_all
    then show ?thesis using Some by (auto simp: bl_def)
  qed
  let ?s = "s\<lparr>l_block := bl\<rparr>"
  have P: "cache_inv (bpin i ?s)" "holds (bpin i ?s) = holds s" "view (bpin i ?s) = view s"
    "pinned (bpin i ?s) = insert b (pinned s)" "disk (bpin i ?s) = disk s" "writes (bpin i ?s) = writes s"
    "store_rest (bpin i ?s) = store_rest ?s"
    using bc.pin_ok [of ?s i b] I(1) h by simp_all
  note R = wrote_rest [OF P(7)]
  have "log_write i s = Inr (bpin i ?s)"
    using o room H(6) k by (simp add: log_write_def Let_def)
  moreover have "log_inv (bpin i ?s)"
    using P R I H(7) b room by (auto simp: log_inv_def in_log_def bl_def)
  ultimately show ?thesis using P R by (simp add: bl_def)
qed

lemma commit_durable:
  assumes inv: "log_inv s" and q: "quiet_cache s"
  shows "\<exists>s'. commit s = Inr s' \<and> log_inv s' \<and> quiet_cache s' \<and> l_block s' = [] \<and>
    (\<forall>b. \<not> in_log s b \<longrightarrow> disk s' b = view s b \<and> view s' b = view s b) \<and>
    store_rest s' = store_rest (s\<lparr>l_block := []\<rparr>)"
proof (cases "l_block s = []")
  case True
  have v: "view s b = disk s b" for b using clean_block [OF log_invD(1) [OF inv]] q log_invD(8) [OF inv] True
    by (simp add: quiet_cache_def)
  have "store_rest s = store_rest (s\<lparr>l_block := []\<rparr>)" using True by (cases s) (simp add: store_rest_def)
  then show ?thesis using v True inv q by (intro exI [of _ s]) (simp add: commit_def)
next
  case False
  note I = log_invD [OF inv] and L = log_writes_props [OF inv]
  obtain s' where s': "commit s = Inr s'" "wrote (commit_writes s) (s\<lparr>l_block := []\<rparr>) s'"
    using commit_spec [OF inv q False] by blast
  have R: "store_rest s' = store_rest (s\<lparr>l_block := []\<rparr>)" using s'(2) by (simp add: wrote_def)
  note r = wrote_rest [OF R, simplified]
  have clean: "view s b = disk s b" if "b \<notin> set (l_block s)" for b
    using clean_block [OF I(1)] q that I(8) by (simp add: quiet_cache_def)
  have D: "disk s' = apply_writes (commit_writes s) (disk s)" "view s' = apply_writes (commit_writes s) (view s)"
    "quiet_cache s'" "pinned s' = pinned s - fst ` set (commit_writes s)"
    using s'(2) by (simp_all add: wrote_def)
  have pin: "pinned s' = {}" using D(4) L(5) I(8) by (auto simp: commit_writes_def Let_def)
  have all: "apply_writes (commit_writes s) E b = view s b" if "\<not> in_log s b" "b \<in> set (l_block s) \<or> E b = view s b" for E b
    using that(2) L(6) L(5) I(15) [OF that(1)] apply_writes_other [OF L(4) [OF that(1)]]
    by (cases "b \<in> set (l_block s)") (simp_all add: commit_writes_def Let_def apply_writes_other)
  let ?h = "put_header (l_block s) (disk s (l_start s))"
  have "length ?h = BSIZE" using put_header_spec(1) [OF I(12)] I(13) by (simp add: LOGSIZE_def MAXOPBLOCKS_def)
  from put_header_spec(1,2) [OF this, of "[]"]
  have "header_n (disk s' (l_start s)) = 0" "length (disk s' (l_start s)) = BSIZE"
    using D(1) by (simp_all add: commit_writes_def Let_def)
  then have "log_inv s'" using D(3) pin r I(2-6) by (simp add: log_inv_def quiet_cache_def)
  moreover have "disk s' b = view s b \<and> view s' b = view s b" if "\<not> in_log s b" for b
    unfolding D(1,2) using all [OF that, of "disk s"] all [OF that, of "view s"] clean [of b]
    by (cases "b \<in> set (l_block s)") simp_all
  ultimately show ?thesis using s'(1) D(3) r R by blast
qed

text \<open>
  The use of the log that the comment on \<open>log_write\<close> describes: read a block, change its data,
  log it, release it.
\<close>

definition log_modify :: "(block \<Rightarrow> block) \<Rightarrow> nat \<Rightarrow> 'a logst_scheme \<Rightarrow> 'a logst_scheme res" where
  "log_modify f b s =
     bindE (bread 1 b s) (\<lambda>(i, s).
     bindE (log_write i (bset i (f (bdata i s)) s)) (brelse i))"

lemma log_modify_held:
  assumes inv: "log_inv s" and nh: "\<And>i. \<not> holds s i b" and b: "\<not> in_log s b" "b < disksize s" and o: "1 \<le> l_outstanding s"
    and bufs: "card (pinned s \<union> held_blocks s \<union> {b}) \<le> NBUF"
    and room: "length (l_block s) < LOGSIZE" "length (l_block s) + 1 < l_size s"
  shows "\<exists>s'. log_modify f b s = Inr s' \<and> log_inv s' \<and> holds s' = holds s \<and> view s' = (view s)(b := f (view s b)) \<and>
    disk s' = disk s \<and> writes s' = writes s \<and>
    l_block s' = (if b \<in> set (l_block s) then l_block s else l_block s @ [b]) \<and>
    store_rest s' = store_rest (s\<lparr>l_block := l_block s'\<rparr>)"
proof -
  note I = log_invD [OF inv]
  have lt: "b < fst (store_rest s)" using b(2) by (simp add: fst_store_rest)
  obtain i s1 where r: "bread 1 b s = Inr (i, s1)" "cache_inv s1" "\<forall>c. \<not> holds s i c"
    "\<forall>j c. holds s1 j c \<longleftrightarrow> (if j = i then c = b else holds s j c)"
    "view s1 = view s" "pinned s1 = pinned s" "disk s1 = disk s" "writes s1 = writes s" "store_rest s1 = store_rest s"
    using bc.read_ok [OF I(1) lt nh] bufs unfolding held_blocks_def by blast
  have h1: "holds s1 i b" using r(4) by simp
  have d1: "bdata i s1 = view s b" using bc.data_ok [OF r(2) h1] r(5) by simp
  define t where "t = bset i (f (view s b)) s1"
  have t: "cache_inv t" "holds t = holds s1" "view t = (view s)(b := f (view s b))" "pinned t = pinned s" "disk t = disk s"
    "writes t = writes s" "store_rest t = store_rest s"
    using bc.set_ok [OF r(2) h1, of "f (view s b)"] r by (simp_all add: t_def)
  note R = wrote_rest [OF t(7)]
  have "log_inv t" using log_inv_same [OF inv t(1,7,4,5)] .
  moreover have "\<not> in_log t b" using b(1) R by (simp add: in_log_def)
  ultimately obtain s3 where w: "log_write i t = Inr s3" "log_inv s3" "holds s3 = holds t" "view s3 = view t" "disk s3 = disk t"
    "writes s3 = writes t" "l_block s3 = (if b \<in> set (l_block t) then l_block t else l_block t @ [b])"
    "pinned s3 = insert b (pinned t)" "store_rest s3 = store_rest (t\<lparr>l_block := l_block s3\<rparr>)"
    using log_write_spec [of t i b] t(2) h1 o room R by auto
  have h3: "holds s3 i b" using w(3) t(2) h1 by simp
  have "b \<in> pinned s3 \<or> view s3 b = disk s3 b" using w(8) by simp
  from bc.release_ok [OF log_invD(1) [OF w(2)] h3 this] obtain s4 where q: "brelse i s3 = Inr s4" "cache_inv s4"
      "\<forall>j c. holds s4 j c \<longleftrightarrow> j \<noteq> i \<and> holds s3 j c" "view s4 = view s3" "pinned s4 = pinned s3" "disk s4 = disk s3"
      "writes s4 = writes s3" "store_rest s4 = store_rest s3"
    by blast
  have "store_rest (t\<lparr>l_block := l_block s3\<rparr>) = store_rest (s\<lparr>l_block := l_block s3\<rparr>)"
    using t(7) by (cases s; cases t; simp add: store_rest_def)
  moreover have e: "l_block s4 = l_block s3" by (rule wrote_rest [OF q(8)])
  ultimately have "store_rest s4 = store_rest (s\<lparr>l_block := l_block s4\<rparr>)" using q(8) w(9) by simp
  moreover have "log_inv s4" by (rule log_inv_same [OF w(2) q(2,8,5,6)])
  moreover have "log_modify f b s = Inr s4" using r(1) d1 w(1) q(1) by (simp add: log_modify_def t_def)
  moreover have "holds s4 j c = holds s j c" for j c
    using q(3) w(3) t(2) r(3,4) by (cases "j = i") simp_all
  then have "holds s4 = holds s" by blast
  ultimately show ?thesis
    using q(4,6,7) w(4,5,6,7) t(3,5,6) R(6) e by (intro exI [of _ s4]) simp
qed

lemma log_modify_spec:
  assumes inv: "log_inv s" "quiet_cache s" and b: "\<not> in_log s b" "b < disksize s" and o: "1 \<le> l_outstanding s"
    and room: "length (l_block s) < LOGSIZE" "length (l_block s) + 1 < l_size s"
  shows "\<exists>s'. log_modify f b s = Inr s' \<and> log_inv s' \<and> quiet_cache s' \<and> view s' = (view s)(b := f (view s b)) \<and>
    disk s' = disk s \<and> writes s' = writes s \<and>
    l_block s' = (if b \<in> set (l_block s) then l_block s else l_block s @ [b]) \<and>
    store_rest s' = store_rest (s\<lparr>l_block := l_block s'\<rparr>)"
proof -
  note I = log_invD [OF inv(1)]
  have nh: "\<not> holds s i c" for i c using inv(2) by (simp add: quiet_cache_def)
  have "card (pinned s \<union> held_blocks s \<union> {b}) \<le> NBUF"
    using nh I(14) bc.pins_finite [OF I(1)] by (simp add: held_blocks_def card_insert_if)
  from log_modify_held [OF inv(1) nh b o this room, of f] obtain s' where s': "log_modify f b s = Inr s'" "log_inv s'"
      "holds s' = holds s" "view s' = (view s)(b := f (view s b))" "disk s' = disk s" "writes s' = writes s"
      "l_block s' = (if b \<in> set (l_block s) then l_block s else l_block s @ [b])"
      "store_rest s' = store_rest (s\<lparr>l_block := l_block s'\<rparr>)"
    by blast
  moreover have "quiet_cache s'" using s'(2,3) nh log_invD(1) by (simp add: quiet_cache_def)
  ultimately show ?thesis by blast
qed

end
