(* ===== verification/Fs.thy ===== *)
theory Fs
  imports Log
begin

text \<open>
  The file system proper, \<open>fs.c\<close>: block allocator, inode cache, file contents, directories and path names,
  over the log and the block cache. The state extends the log's by the inode cache and the super block. A pointer to
  a cached inode is its index; a null pointer is \<open>None\<close>. One process at a time is inside the file system; a sleep
  lock that is taken makes the next taker \<open>Spins\<close>. The table of device drivers is the argument \<open>dv\<close>.
  Offsets, sizes and block numbers that are \<open>uint\<close> in C are \<open>u32\<close> where the code relies on the wrap-around
  (the checks of \<open>readi\<close> and \<open>writei\<close>) and natural numbers elsewhere.
\<close>

unbundle bit_operations_syntax

section \<open>State\<close>

definition NDIRECT :: nat where "NDIRECT = 12"
definition NINDIRECT :: nat where "NINDIRECT = BSIZE div 4"
definition MAXFILE :: nat where "MAXFILE = NDIRECT + NINDIRECT"
definition NINODE :: nat where "NINODE = 50"
definition NDEV :: int where "NDEV = 10"
definition DIRSIZ :: nat where "DIRSIZ = 14"
definition DINODE :: nat where "DINODE = 64"
definition IPB :: nat where "IPB = BSIZE div DINODE"
definition BPB :: nat where "BPB = BSIZE * 8"
definition T_DIR :: int where "T_DIR = 1"
definition T_FILE :: int where "T_FILE = 2"
definition T_DEV :: int where "T_DEV = 3"
definition ROOTDEV :: nat where "ROOTDEV = 1"
definition ROOTINO :: nat where "ROOTINO = 1"

record inode =
  i_dev :: nat
  i_inum :: nat
  i_ref :: int
  i_locked :: bool
  i_valid :: bool
  i_type :: int
  i_major :: int
  i_minor :: int
  i_nlink :: int
  i_size :: u32
  i_addrs :: "nat list"

record fsst = logst +
  inodes :: "inode list"
  fsb :: superblock

record stat =
  st_type :: int
  st_dev :: nat
  st_ino :: nat
  st_nlink :: int
  st_size :: u32

definition upd_inode :: "nat \<Rightarrow> (inode \<Rightarrow> inode) \<Rightarrow> 'a fsst_scheme \<Rightarrow> 'a fsst_scheme" where
  "upd_inode ip f s = s\<lparr>inodes := (inodes s)[ip := f (inodes s ! ip)]\<rparr>"

abbreviation ino :: "'a fsst_scheme \<Rightarrow> nat \<Rightarrow> inode" where
  "ino s ip \<equiv> inodes s ! ip"

definition IBLOCK :: "nat \<Rightarrow> 'a fsst_scheme \<Rightarrow> nat" where
  "IBLOCK i s = i div IPB + sb_inodestart (fsb s)"

definition BBLOCK :: "nat \<Rightarrow> 'a fsst_scheme \<Rightarrow> nat" where
  "BBLOCK b s = b div BPB + sb_bmapstart (fsb s)"

section \<open>Blocks\<close>

definition bzero :: "nat \<Rightarrow> nat \<Rightarrow> 'a fsst_scheme \<Rightarrow> 'a fsst_scheme res" where
  "bzero dev bno s =
     bindE (bread dev bno s) (\<lambda>(i, s).
     bindE (log_write i (bset i (replicate BSIZE 0) s)) (brelse i))"

definition in_use :: "nat \<Rightarrow> block \<Rightarrow> bool" where
  "in_use bi d \<longleftrightarrow> (d ! (bi div 8)) AND push_bit (bi mod 8) 1 \<noteq> 0"

definition mark_used :: "nat \<Rightarrow> block \<Rightarrow> block" where
  "mark_used bi d = d[bi div 8 := (d ! (bi div 8)) OR push_bit (bi mod 8) 1]"

definition mark_free :: "nat \<Rightarrow> block \<Rightarrow> block" where
  "mark_free bi d = d[bi div 8 := (d ! (bi div 8)) AND NOT (push_bit (bi mod 8) 1)]"

fun balloc_loop :: "nat \<Rightarrow> nat list \<Rightarrow> 'a fsst_scheme \<Rightarrow> (nat \<times> 'a fsst_scheme) res" where
  "balloc_loop dev [] s = Inl (Panic ''balloc: out of blocks'')"
| "balloc_loop dev (b # bs) s =
     bindE (bread dev (BBLOCK b s) s) (\<lambda>(i, s).
     case find_index (\<lambda>bi. \<not> in_use bi (bdata i s)) [0..<min BPB (sb_size (fsb s) - b)] of
       Some bi \<Rightarrow>
         bindE (log_write i (bset i (mark_used bi (bdata i s)) s)) (\<lambda>s.
         bindE (brelse i s) (\<lambda>s.
         bindE (bzero dev (b + bi) s) (\<lambda>s.
         Inr (b + bi, s))))
     | None \<Rightarrow> bindE (brelse i s) (balloc_loop dev bs))"

definition balloc :: "nat \<Rightarrow> 'a fsst_scheme \<Rightarrow> (nat \<times> 'a fsst_scheme) res" where
  "balloc dev s = balloc_loop dev (map (\<lambda>k. k * BPB) [0..<(sb_size (fsb s) + BPB - 1) div BPB]) s"

definition bfree :: "nat \<Rightarrow> nat \<Rightarrow> 'a fsst_scheme \<Rightarrow> 'a fsst_scheme res" where
  "bfree dev b s =
     bindE (bread dev (BBLOCK b s) s) (\<lambda>(i, s).
     if \<not> in_use (b mod BPB) (bdata i s) then Inl (Panic ''freeing free block'')
     else bindE (log_write i (bset i (mark_free (b mod BPB) (bdata i s)) s)) (brelse i))"

section \<open>Inodes\<close>

text \<open>The on-disk inode number \<open>k\<close> of an inode block: four shorts, the size and 13 block numbers.\<close>

definition get_dinode :: "nat \<Rightarrow> block \<Rightarrow> inode \<Rightarrow> inode" where
  "get_dinode k d ip =
     (let o' = DINODE * k in
      ip\<lparr>i_type := signed 16 (get_le o' 2 d), i_major := signed 16 (get_le (o' + 2) 2 d),
         i_minor := signed 16 (get_le (o' + 4) 2 d), i_nlink := signed 16 (get_le (o' + 6) 2 d),
         i_size := of_nat (get_le (o' + 8) 4 d),
         i_addrs := map (\<lambda>j. get_le (o' + 12 + 4 * j) 4 d) [0..<NDIRECT + 1]\<rparr>)"

definition dinode_bytes :: "inode \<Rightarrow> byte list" where
  "dinode_bytes ip =
     le_bytes 2 (wrap 16 (i_type ip)) @ le_bytes 2 (wrap 16 (i_major ip)) @ le_bytes 2 (wrap 16 (i_minor ip)) @
     le_bytes 2 (wrap 16 (i_nlink ip)) @ le_bytes 4 (unat (i_size ip)) @ concat (map (le_bytes 4) (i_addrs ip))"

definition iinit :: "nat \<Rightarrow> 'a fsst_scheme \<Rightarrow> 'a fsst_scheme res" where
  "iinit dev s =
     bindE (readsb dev (s\<lparr>inodes := map (\<lambda>ip. ip\<lparr>i_locked := False\<rparr>) (inodes s)\<rparr>)) (\<lambda>(sb, s).
     Inr (s\<lparr>fsb := sb\<rparr>))"

definition iget :: "nat \<Rightarrow> nat \<Rightarrow> 'a fsst_scheme \<Rightarrow> (nat \<times> 'a fsst_scheme) res" where
  "iget dev inum s =
     (case find_index (\<lambda>ip. i_ref ip > 0 \<and> i_dev ip = dev \<and> i_inum ip = inum) (inodes s) of
        Some k \<Rightarrow> Inr (k, upd_inode k (\<lambda>ip. ip\<lparr>i_ref := i_ref ip + 1\<rparr>) s)
      | None \<Rightarrow>
          (case find_index (\<lambda>ip. i_ref ip = 0) (inodes s) of
             None \<Rightarrow> Inl (Panic ''iget: no inodes'')
           | Some k \<Rightarrow> Inr (k, upd_inode k (\<lambda>ip. ip\<lparr>i_dev := dev, i_inum := inum, i_ref := 1, i_valid := False\<rparr>) s)))"

definition idup :: "nat \<Rightarrow> 'a fsst_scheme \<Rightarrow> nat \<times> 'a fsst_scheme" where
  "idup ip s = (ip, upd_inode ip (\<lambda>ip. ip\<lparr>i_ref := i_ref ip + 1\<rparr>) s)"

fun ialloc_loop :: "nat \<Rightarrow> int \<Rightarrow> nat list \<Rightarrow> 'a fsst_scheme \<Rightarrow> (nat \<times> 'a fsst_scheme) res" where
  "ialloc_loop dev type [] s = Inl (Panic ''ialloc: no inodes'')"
| "ialloc_loop dev type (inum # inums) s =
     bindE (bread dev (IBLOCK inum s) s) (\<lambda>(i, s).
     let k = DINODE * (inum mod IPB); d = bdata i s in
     if get_le k 2 d = 0
     then bindE (log_write i (bset i (put_le k 2 (wrap 16 type) (put_at k (replicate DINODE 0) d)) s)) (\<lambda>s.
       bindE (brelse i s) (\<lambda>s.
       iget dev inum s))
     else bindE (brelse i s) (ialloc_loop dev type inums))"

definition ialloc :: "nat \<Rightarrow> int \<Rightarrow> 'a fsst_scheme \<Rightarrow> (nat \<times> 'a fsst_scheme) res" where
  "ialloc dev type s = ialloc_loop dev type [1..<sb_ninodes (fsb s)] s"

definition iupdate :: "nat \<Rightarrow> 'a fsst_scheme \<Rightarrow> 'a fsst_scheme res" where
  "iupdate ip s =
     bindE (bread (i_dev (ino s ip)) (IBLOCK (i_inum (ino s ip)) s) s) (\<lambda>(i, s).
     bindE (log_write i (bset i
       (put_at (DINODE * (i_inum (ino s ip) mod IPB)) (dinode_bytes (ino s ip)) (bdata i s)) s)) (brelse i))"

definition acquiresleep :: "nat \<Rightarrow> 'a fsst_scheme \<Rightarrow> 'a fsst_scheme res" where
  "acquiresleep ip s =
     (if i_locked (ino s ip) then Inl Spins else Inr (upd_inode ip (\<lambda>ip. ip\<lparr>i_locked := True\<rparr>) s))"

definition releasesleep :: "nat \<Rightarrow> 'a fsst_scheme \<Rightarrow> 'a fsst_scheme" where
  "releasesleep ip s = upd_inode ip (\<lambda>ip. ip\<lparr>i_locked := False\<rparr>) s"

definition ilock :: "nat option \<Rightarrow> 'a fsst_scheme \<Rightarrow> 'a fsst_scheme res" where
  "ilock ip' s =
     (case ip' of None \<Rightarrow> Inl (Panic ''ilock'')
      | Some ip \<Rightarrow>
        if i_ref (ino s ip) < 1 then Inl (Panic ''ilock'')
        else bindE (acquiresleep ip s) (\<lambda>s.
          if \<not> i_valid (ino s ip)
          then bindE (bread (i_dev (ino s ip)) (IBLOCK (i_inum (ino s ip)) s) s) (\<lambda>(i, s).
            let d = bdata i s; k = i_inum (ino s ip) mod IPB in
            bindE (brelse i (upd_inode ip (get_dinode k d) s)) (\<lambda>s.
            let s = upd_inode ip (\<lambda>ip. ip\<lparr>i_valid := True\<rparr>) s in
            if i_type (ino s ip) = 0 then Inl (Panic ''ilock: no type'') else Inr s))
          else Inr s))"

definition iunlock :: "nat option \<Rightarrow> 'a fsst_scheme \<Rightarrow> 'a fsst_scheme res" where
  "iunlock ip' s =
     (case ip' of None \<Rightarrow> Inl (Panic ''iunlock'')
      | Some ip \<Rightarrow>
        if \<not> i_locked (ino s ip) \<or> i_ref (ino s ip) < 1 then Inl (Panic ''iunlock'')
        else Inr (releasesleep ip s))"

definition trunc_direct :: "nat \<Rightarrow> nat \<Rightarrow> 'a fsst_scheme \<Rightarrow> 'a fsst_scheme res" where
  "trunc_direct ip i s =
     (if i_addrs (ino s ip) ! i \<noteq> 0
      then bindE (bfree (i_dev (ino s ip)) (i_addrs (ino s ip) ! i) s) (\<lambda>s.
        Inr (upd_inode ip (\<lambda>ip. ip\<lparr>i_addrs := (i_addrs ip)[i := 0]\<rparr>) s))
      else Inr s)"

definition trunc_indirect :: "nat \<Rightarrow> nat \<Rightarrow> nat \<Rightarrow> 'a fsst_scheme \<Rightarrow> 'a fsst_scheme res" where
  "trunc_indirect ip bp j s =
     (if get_le (4 * j) 4 (bdata bp s) \<noteq> 0 then bfree (i_dev (ino s ip)) (get_le (4 * j) 4 (bdata bp s)) s else Inr s)"

definition itrunc :: "nat \<Rightarrow> 'a fsst_scheme \<Rightarrow> 'a fsst_scheme res" where
  "itrunc ip s =
     bindE (forE (trunc_direct ip) [0..<NDIRECT] s) (\<lambda>s.
     bindE (let a = i_addrs (ino s ip) ! NDIRECT in
       if a \<noteq> 0
       then bindE (bread (i_dev (ino s ip)) a s) (\<lambda>(bp, s).
         bindE (forE (trunc_indirect ip bp) [0..<NINDIRECT] s) (\<lambda>s.
         bindE (brelse bp s) (\<lambda>s.
         bindE (bfree (i_dev (ino s ip)) (i_addrs (ino s ip) ! NDIRECT) s) (\<lambda>s.
         Inr (upd_inode ip (\<lambda>ip. ip\<lparr>i_addrs := (i_addrs ip)[NDIRECT := 0]\<rparr>) s)))))
       else Inr s) (\<lambda>s.
     iupdate ip (upd_inode ip (\<lambda>ip. ip\<lparr>i_size := 0\<rparr>) s)))"

definition iput :: "nat \<Rightarrow> 'a fsst_scheme \<Rightarrow> 'a fsst_scheme res" where
  "iput ip s =
     bindE (acquiresleep ip s) (\<lambda>s.
     bindE (if i_valid (ino s ip) \<and> i_nlink (ino s ip) = 0 \<and> i_ref (ino s ip) = 1
       then bindE (itrunc ip s) (\<lambda>s.
         bindE (iupdate ip (upd_inode ip (\<lambda>ip. ip\<lparr>i_type := 0\<rparr>) s)) (\<lambda>s.
         Inr (upd_inode ip (\<lambda>ip. ip\<lparr>i_valid := False\<rparr>) s)))
       else Inr s) (\<lambda>s.
     Inr (upd_inode ip (\<lambda>ip. ip\<lparr>i_ref := i_ref ip - 1\<rparr>) (releasesleep ip s))))"

definition iunlockput :: "nat option \<Rightarrow> 'a fsst_scheme \<Rightarrow> 'a fsst_scheme res" where
  "iunlockput ip' s = bindE (iunlock ip' s) (\<lambda>s. case ip' of None \<Rightarrow> Inl NullDeref | Some ip \<Rightarrow> iput ip s)"

section \<open>Inode contents\<close>

definition bmap :: "nat \<Rightarrow> nat \<Rightarrow> 'a fsst_scheme \<Rightarrow> (nat \<times> 'a fsst_scheme) res" where
  "bmap ip bn s =
     (if bn < NDIRECT
      then (let addr = i_addrs (ino s ip) ! bn in
        if addr = 0
        then bindE (balloc (i_dev (ino s ip)) s) (\<lambda>(addr, s).
          Inr (addr, upd_inode ip (\<lambda>ip. ip\<lparr>i_addrs := (i_addrs ip)[bn := addr]\<rparr>) s))
        else Inr (addr, s))
      else if bn - NDIRECT < NINDIRECT
      then bindE (let addr = i_addrs (ino s ip) ! NDIRECT in
          if addr = 0
          then bindE (balloc (i_dev (ino s ip)) s) (\<lambda>(addr, s).
            Inr (addr, upd_inode ip (\<lambda>ip. ip\<lparr>i_addrs := (i_addrs ip)[NDIRECT := addr]\<rparr>) s))
          else Inr (addr, s)) (\<lambda>(addr, s).
        bindE (bread (i_dev (ino s ip)) addr s) (\<lambda>(bp, s).
        let addr = get_le (4 * (bn - NDIRECT)) 4 (bdata bp s) in
        bindE (if addr = 0
          then bindE (balloc (i_dev (ino s ip)) s) (\<lambda>(addr, s).
            bindE (log_write bp (bset bp (put_le (4 * (bn - NDIRECT)) 4 addr (bdata bp s)) s)) (\<lambda>s.
            Inr (addr, s)))
          else Inr (addr, s)) (\<lambda>(addr, s).
        bindE (brelse bp s) (\<lambda>s. Inr (addr, s)))))
      else Inl (Panic ''bmap: out of range''))"

definition stati :: "nat \<Rightarrow> 'a fsst_scheme \<Rightarrow> stat" where
  "stati ip s = \<lparr>st_type = i_type (ino s ip), st_dev = i_dev (ino s ip), st_ino = i_inum (ino s ip),
     st_nlink = i_nlink (ino s ip), st_size = i_size (ino s ip)\<rparr>"

text \<open>The functions that drivers register in \<open>devsw\<close>; a read returns its result and the bytes it copied.\<close>

record 's devsw =
  dv_read :: "nat \<Rightarrow> (nat \<Rightarrow> u32 \<Rightarrow> 's \<Rightarrow> (int \<times> byte list \<times> 's) res) option"
  dv_write :: "nat \<Rightarrow> (nat \<Rightarrow> byte list \<Rightarrow> u32 \<Rightarrow> 's \<Rightarrow> (int \<times> 's) res) option"

function readi_loop :: "nat \<Rightarrow> nat \<Rightarrow> nat \<Rightarrow> 'a fsst_scheme \<Rightarrow> (byte list \<times> 'a fsst_scheme) res" where
  "readi_loop ip off n s =
     (if n = 0 then Inr ([], s)
      else bindE (bmap ip (off div BSIZE) s) (\<lambda>(addr, s).
        bindE (bread (i_dev (ino s ip)) addr s) (\<lambda>(bp, s).
        let m = min n (BSIZE - off mod BSIZE); bs = get_at (off mod BSIZE) m (bdata bp s) in
        bindE (brelse bp s) (\<lambda>s.
        bindE (readi_loop ip (off + m) (n - m) s) (\<lambda>(rest, s).
        Inr (bs @ rest, s))))))"
  by pat_completeness auto
termination
  by (relation "measure (\<lambda>(ip, off, n, s). n)") (auto simp: BSIZE_def)

declare readi_loop.simps [simp del]

definition readi :: "'a fsst_scheme devsw \<Rightarrow> nat \<Rightarrow> u32 \<Rightarrow> u32 \<Rightarrow> 'a fsst_scheme \<Rightarrow> (int \<times> byte list \<times> 'a fsst_scheme) res" where
  "readi dv ip off n s =
     (if i_type (ino s ip) = T_DEV
      then (if i_major (ino s ip) < 0 \<or> i_major (ino s ip) \<ge> NDEV then Inr (- 1, [], s)
        else case dv_read dv (nat (i_major (ino s ip))) of
          None \<Rightarrow> Inr (- 1, [], s)
        | Some rd \<Rightarrow> rd ip n s)
      else if off > i_size (ino s ip) \<or> off + n < off then Inr (- 1, [], s)
      else
        let n = (if off + n > i_size (ino s ip) then i_size (ino s ip) - off else n) in
        bindE (readi_loop ip (unat off) (unat n) s) (\<lambda>(bs, s).
        Inr (signed 32 (unat n), bs, s)))"

function writei_loop :: "nat \<Rightarrow> nat \<Rightarrow> byte list \<Rightarrow> 'a fsst_scheme \<Rightarrow> 'a fsst_scheme res" where
  "writei_loop ip off src s =
     (if src = [] then Inr s
      else bindE (bmap ip (off div BSIZE) s) (\<lambda>(addr, s).
        bindE (bread (i_dev (ino s ip)) addr s) (\<lambda>(bp, s).
        let m = min (length src) (BSIZE - off mod BSIZE) in
        bindE (log_write bp (bset bp (put_at (off mod BSIZE) (take m src) (bdata bp s)) s)) (\<lambda>s.
        bindE (brelse bp s) (\<lambda>s.
        writei_loop ip (off + m) (drop m src) s)))))"
  by pat_completeness auto
termination
  by (relation "measure (\<lambda>(ip, off, src, s). length src)") (auto simp: BSIZE_def)

declare writei_loop.simps [simp del]

text \<open>\<open>src\<close> is the buffer of \<open>n\<close> bytes.\<close>

definition writei :: "'a fsst_scheme devsw \<Rightarrow> nat \<Rightarrow> byte list \<Rightarrow> u32 \<Rightarrow> u32 \<Rightarrow> 'a fsst_scheme \<Rightarrow> (int \<times> 'a fsst_scheme) res" where
  "writei dv ip src off n s =
     (if i_type (ino s ip) = T_DEV
      then (if i_major (ino s ip) < 0 \<or> i_major (ino s ip) \<ge> NDEV then Inr (- 1, s)
        else case dv_write dv (nat (i_major (ino s ip))) of
          None \<Rightarrow> Inr (- 1, s)
        | Some wr \<Rightarrow> wr ip src n s)
      else if off > i_size (ino s ip) \<or> off + n < off then Inr (- 1, s)
      else if off + n > of_nat (MAXFILE * BSIZE) then Inr (- 1, s)
      else bindE (writei_loop ip (unat off) (take (unat n) src) s) (\<lambda>s.
        bindE (if n > 0 \<and> off + n > i_size (ino s ip)
          then iupdate ip (upd_inode ip (\<lambda>ip. ip\<lparr>i_size := off + n\<rparr>) s)
          else Inr s) (\<lambda>s.
        Inr (signed 32 (unat n), s))))"

section \<open>Directories\<close>

text \<open>\<open>strncmp\<close> on two names, as far as it reads them.\<close>

fun strncmp_list :: "nat \<Rightarrow> byte list \<Rightarrow> byte list \<Rightarrow> int" where
  "strncmp_list 0 p q = 0"
| "strncmp_list (Suc n) p q =
     (let a = (case p of [] \<Rightarrow> 0 | a # _ \<Rightarrow> a); b = (case q of [] \<Rightarrow> 0 | b # _ \<Rightarrow> b) in
      if a \<noteq> 0 \<and> a = b then strncmp_list n (tl p) (tl q) else int (unat a) - int (unat b))"

definition namecmp :: "byte list \<Rightarrow> byte list \<Rightarrow> int" where
  "namecmp s t = strncmp_list DIRSIZ s t"

text \<open>The offsets \<open>0, 16, ...\<close> below the size of a directory.\<close>

definition dirent_offs :: "u32 \<Rightarrow> nat list" where
  "dirent_offs sz = map (\<lambda>k. 16 * k) [0..<(unat sz + 15) div 16]"

fun dirlookup_loop :: "'a fsst_scheme devsw \<Rightarrow> nat \<Rightarrow> byte list \<Rightarrow> nat list \<Rightarrow> 'a fsst_scheme \<Rightarrow>
    ((nat \<times> nat) option \<times> 'a fsst_scheme) res" where
  "dirlookup_loop dv dp name [] s = Inr (None, s)"
| "dirlookup_loop dv dp name (off # offs) s =
     bindE (readi dv dp (of_nat off) 16 s) (\<lambda>(r, de, s).
     if r \<noteq> 16 then Inl (Panic ''dirlookup read'')
     else if get_le 0 2 de = 0 then dirlookup_loop dv dp name offs s
     else if namecmp name (drop 2 de) = 0
     then bindE (iget (i_dev (ino s dp)) (get_le 0 2 de) s) (\<lambda>(ip, s). Inr (Some (ip, off), s))
     else dirlookup_loop dv dp name offs s)"

definition dirlookup :: "'a fsst_scheme devsw \<Rightarrow> nat \<Rightarrow> byte list \<Rightarrow> 'a fsst_scheme \<Rightarrow>
    ((nat \<times> nat) option \<times> 'a fsst_scheme) res" where
  "dirlookup dv dp name s =
     (if i_type (ino s dp) \<noteq> T_DIR then Inl (Panic ''dirlookup not DIR'')
      else dirlookup_loop dv dp name (dirent_offs (i_size (ino s dp))) s)"

text \<open>The first free entry, or the end of the directory.\<close>

fun free_dirent :: "'a fsst_scheme devsw \<Rightarrow> nat \<Rightarrow> nat list \<Rightarrow> 'a fsst_scheme \<Rightarrow> (nat option \<times> 'a fsst_scheme) res" where
  "free_dirent dv dp [] s = Inr (None, s)"
| "free_dirent dv dp (off # offs) s =
     bindE (readi dv dp (of_nat off) 16 s) (\<lambda>(r, de, s).
     if r \<noteq> 16 then Inl (Panic ''dirlink read'')
     else if get_le 0 2 de = 0 then Inr (Some off, s)
     else free_dirent dv dp offs s)"

fun strncpy_list :: "nat \<Rightarrow> byte list \<Rightarrow> byte list" where
  "strncpy_list 0 t = []"
| "strncpy_list (Suc n) t =
     (case t of [] \<Rightarrow> replicate (Suc n) 0
      | c # t \<Rightarrow> if c = 0 then replicate (Suc n) 0 else c # strncpy_list n t)"

definition dirlink :: "'a fsst_scheme devsw \<Rightarrow> nat \<Rightarrow> byte list \<Rightarrow> nat \<Rightarrow> 'a fsst_scheme \<Rightarrow> (int \<times> 'a fsst_scheme) res" where
  "dirlink dv dp name inum s =
     bindE (dirlookup dv dp name s) (\<lambda>(found, s).
     case found of
       Some (ip, _) \<Rightarrow> bindE (iput ip s) (\<lambda>s. Inr (- 1, s))
     | None \<Rightarrow>
         let offs = dirent_offs (i_size (ino s dp)) in
         bindE (free_dirent dv dp offs s) (\<lambda>(fr, s).
         let off = (case fr of Some off \<Rightarrow> off | None \<Rightarrow> 16 * length offs);
             de = le_bytes 2 inum @ strncpy_list DIRSIZ name in
         bindE (writei dv dp de (of_nat off) 16 s) (\<lambda>(r, s).
         if r \<noteq> 16 then Inl (Panic ''dirlink'') else Inr (0, s))))"

section \<open>Paths\<close>

abbreviation slash :: byte where "slash \<equiv> 47"

text \<open>
  A path is the list of its bytes before the terminating 0. \<open>skipelem\<close> returns the rest of the path and the
  buffer \<open>name\<close>, of which it leaves the bytes after the terminator as they were.
\<close>

definition skipelem :: "byte list \<Rightarrow> byte list \<Rightarrow> (byte list \<times> byte list) option" where
  "skipelem path name =
     (let path = dropWhile (\<lambda>c. c = slash) path in
      if path = [] then None
      else
        let s = takeWhile (\<lambda>c. c \<noteq> slash) path;
            rest = dropWhile (\<lambda>c. c = slash) (dropWhile (\<lambda>c. c \<noteq> slash) path);
            len = length s;
            name = (if len \<ge> DIRSIZ then put_at 0 (take DIRSIZ s) name else put_at 0 (s @ [0]) name) in
        Some (rest, name))"

lemma skipelem_shorter: "skipelem path name = Some (rest, name') \<Longrightarrow> length rest < length path"
proof -
  assume s: "skipelem path name = Some (rest, name')"
  define p where "p = dropWhile (\<lambda>c. c = slash) path"
  have ne: "p \<noteq> []" and r: "rest = dropWhile (\<lambda>c. c = slash) (dropWhile (\<lambda>c. c \<noteq> slash) p)"
    using s by (auto simp: skipelem_def p_def Let_def split: if_splits)
  have "hd p \<noteq> slash" using hd_dropWhile [of "\<lambda>c. c = slash" path] ne unfolding p_def by blast
  then have "dropWhile (\<lambda>c. c \<noteq> slash) p = dropWhile (\<lambda>c. c \<noteq> slash) (tl p)" using ne by (cases p) auto
  then have "length rest \<le> length (tl p)"
    unfolding r by (metis length_dropWhile_le order_trans)
  also have "\<dots> < length p" using ne by simp
  also have "\<dots> \<le> length path" unfolding p_def by (rule length_dropWhile_le)
  finally show ?thesis .
qed

function namex_loop :: "'a fsst_scheme devsw \<Rightarrow> nat \<Rightarrow> byte list \<Rightarrow> bool \<Rightarrow> byte list \<Rightarrow> 'a fsst_scheme \<Rightarrow>
    (nat option \<times> byte list \<times> 'a fsst_scheme) res" where
  "namex_loop dv ip path nameiparent name s =
     (case skipelem path name of
        None \<Rightarrow>
          if nameiparent then bindE (iput ip s) (\<lambda>s. Inr (None, name, s)) else Inr (Some ip, name, s)
      | Some (path, name) \<Rightarrow>
          bindE (ilock (Some ip) s) (\<lambda>s.
          if i_type (ino s ip) \<noteq> T_DIR
          then bindE (iunlockput (Some ip) s) (\<lambda>s. Inr (None, name, s))
          else if nameiparent \<and> path = []
          then bindE (iunlock (Some ip) s) (\<lambda>s. Inr (Some ip, name, s))
          else bindE (dirlookup dv ip name s) (\<lambda>(found, s).
            bindE (iunlockput (Some ip) s) (\<lambda>s.
            case found of
              None \<Rightarrow> Inr (None, name, s)
            | Some (nxt, _) \<Rightarrow> namex_loop dv nxt path nameiparent name s))))"
  by pat_completeness auto
termination
  by (relation "measure (\<lambda>(dv, ip, path, np, name, s). length path)") (auto dest: skipelem_shorter)

declare namex_loop.simps [simp del]

definition namex :: "'a fsst_scheme devsw \<Rightarrow> nat \<Rightarrow> byte list \<Rightarrow> bool \<Rightarrow> byte list \<Rightarrow> 'a fsst_scheme \<Rightarrow>
    (nat option \<times> byte list \<times> 'a fsst_scheme) res" where
  "namex dv cwd path nameiparent name s =
     bindE (if path \<noteq> [] \<and> hd path = slash then iget ROOTDEV ROOTINO s else Inr (idup cwd s)) (\<lambda>(ip, s).
     namex_loop dv ip path nameiparent name s)"

definition namei :: "'a fsst_scheme devsw \<Rightarrow> nat \<Rightarrow> byte list \<Rightarrow> 'a fsst_scheme \<Rightarrow> (nat option \<times> 'a fsst_scheme) res" where
  "namei dv cwd path s =
     bindE (namex dv cwd path False (replicate DIRSIZ 0) s) (\<lambda>(ip, name, s). Inr (ip, s))"

definition nameiparent :: "'a fsst_scheme devsw \<Rightarrow> nat \<Rightarrow> byte list \<Rightarrow> byte list \<Rightarrow> 'a fsst_scheme \<Rightarrow>
    (nat option \<times> byte list \<times> 'a fsst_scheme) res" where
  "nameiparent dv cwd path name s = namex dv cwd path True name s"

end
