(* ===== verification/Journal.thy ===== *)
theory Journal
  imports Log
begin

text \<open>
  What the log promises to the file system: a sequence of \<open>begin_op\<close>, logged block changes and
  \<open>end_op\<close> refines an abstract disk of two versions, and a crash during the commit leaves the old or the
  new version.
\<close>

section \<open>The abstract journal\<close>

text \<open>
  \<open>durable\<close> is what a restart would find and \<open>current\<close> what the running system sees, both outside the
  log; \<open>ongoing\<close> counts the operations that have begun and not ended.
\<close>

record journal =
  durable :: "nat \<Rightarrow> block"
  current :: "nat \<Rightarrow> block"
  ongoing :: int

datatype tx = Begin | Modify "block \<Rightarrow> block" nat | End

fun journal_step :: "tx \<Rightarrow> journal \<Rightarrow> journal" where
  "journal_step Begin j = j\<lparr>ongoing := ongoing j + 1\<rparr>"
| "journal_step (Modify f b) j = j\<lparr>current := (current j)(b := f (current j b))\<rparr>"
| "journal_step End j =
     (if ongoing j = 1 then j\<lparr>durable := current j, ongoing := 0\<rparr> else j\<lparr>ongoing := ongoing j - 1\<rparr>)"

definition outside :: "'a logst_scheme \<Rightarrow> (nat \<Rightarrow> block) \<Rightarrow> nat \<Rightarrow> block" where
  "outside s D b = (if in_log s b then [] else D b)"

definition journal_of :: "'a logst_scheme \<Rightarrow> journal" where
  "journal_of s = \<lparr>durable = outside s (disk s), current = outside s (view s), ongoing = l_outstanding s\<rparr>"

text \<open>The steps of the code, with the obligations that its callers meet.\<close>

inductive tx_step :: "tx \<Rightarrow> 'a logst_scheme \<Rightarrow> 'a logst_scheme \<Rightarrow> bool" where
  tx_begin: "begin_op s = Inr s' \<Longrightarrow> tx_step Begin s s'"
| tx_modify: "log_modify f b s = Inr s' \<Longrightarrow> \<not> in_log s b \<Longrightarrow> b < disksize s \<Longrightarrow> tx_step (Modify f b) s s'"
| tx_end: "end_op s = Inr s' \<Longrightarrow> 1 \<le> l_outstanding s \<Longrightarrow> tx_step End s s'"

inductive_cases tx_beginE: "tx_step Begin s s'"
inductive_cases tx_modifyE: "tx_step (Modify f b) s s'"
inductive_cases tx_endE: "tx_step End s s'"

inductive tx_steps :: "tx list \<Rightarrow> 'a logst_scheme \<Rightarrow> 'a logst_scheme \<Rightarrow> bool" where
  tx_refl: "tx_steps [] s s"
| tx_cons: "tx_step l s t \<Longrightarrow> tx_steps ls t u \<Longrightarrow> tx_steps (l # ls) s u"

definition journal_inv :: "'a logst_scheme \<Rightarrow> bool" where
  "journal_inv s \<longleftrightarrow> log_inv s \<and> quiet_cache s \<and> \<not> l_committing s \<and> 0 \<le> l_outstanding s \<and>
     (l_outstanding s = 0 \<longrightarrow> l_block s = [])"

section \<open>Every step refines the journal\<close>

lemma log_fields:
  assumes "bufs s' = bufs s" "lru s' = lru s" "disk s' = disk s" "disksize s' = disksize s" "l_dev s' = l_dev s"
    "l_start s' = l_start s" "l_size s' = l_size s" "l_block s' = l_block s"
  shows "log_inv s' = log_inv s" "quiet_cache s' = quiet_cache s" "view s' = view s"
  using cache_fields [OF assms(1-4)] assms by (simp_all add: log_inv_def in_log_def)

lemma begin_op_refines:
  assumes "journal_inv s" and "begin_op s = Inr s'"
  shows "journal_inv s'" and "journal_of s' = journal_step Begin (journal_of s)"
proof -
  have s': "s' = s\<lparr>l_outstanding := l_outstanding s + 1\<rparr>"
    using assms(2) by (simp add: begin_op_def split: if_splits)
  have "log_inv s' = log_inv s" "quiet_cache s' = quiet_cache s" "view s' = view s"
    by (rule log_fields; simp add: s')+
  then show "journal_inv s'" "journal_of s' = journal_step Begin (journal_of s)"
    using assms(1) s' by (auto simp: journal_inv_def journal_of_def outside_def [abs_def] in_log_def)
qed

lemma log_write_room:
  assumes "log_write i s = Inr s'"
  shows "length (l_block s) < LOGSIZE \<and> length (l_block s) + 1 < l_size s \<and> 1 \<le> l_outstanding s"
  using assms by (auto simp: log_write_def split: if_splits)

lemma log_modify_room:
  assumes "log_modify f b s = Inr s'"
  shows "length (l_block s) < LOGSIZE \<and> length (l_block s) + 1 < l_size s \<and> 1 \<le> l_outstanding s"
proof -
  obtain i s1 t where r: "bread 1 b s = Inr (i, s1)" and w: "log_write i (bset i (f (bdata i s1)) s1) = Inr t"
    using assms by (auto simp: log_modify_def res_simps)
  have "store_rest (bset i (f (bdata i s1)) s1) = store_rest s"
    using bread_rest [OF r] by (simp add: store_rest_def bset_def upd_buf_def)
  from wrote_rest [OF this] log_write_room [OF w] show ?thesis by simp
qed

lemma log_modify_refines:
  assumes inv: "journal_inv s" and m: "log_modify f b s = Inr s'" and b: "\<not> in_log s b" "b < disksize s"
  shows "journal_inv s'" and "journal_of s' = journal_step (Modify f b) (journal_of s)"
proof -
  have I: "log_inv s" "quiet_cache s" using inv by (simp_all add: journal_inv_def)
  note m' = log_modify_room [OF m]
  obtain t where t: "log_modify f b s = Inr t" "log_inv t" "quiet_cache t" "view t = (view s)(b := f (view s b))"
    "disk t = disk s" "store_rest t = store_rest (s\<lparr>l_block := l_block t\<rparr>)"
    using log_modify_spec [OF I b, of f] m' by blast
  have [simp]: "t = s'" using t(1) m by simp
  note R = wrote_rest [OF t(6), simplified]
  show "journal_inv s'" using t R inv m' by (simp add: journal_inv_def)
  show "journal_of s' = journal_step (Modify f b) (journal_of s)"
    using t R b by (auto simp: journal_of_def outside_def [abs_def] in_log_def)
qed

lemma end_op_refines:
  assumes inv: "journal_inv s" and o: "1 \<le> l_outstanding s"
  shows "\<exists>s'. end_op s = Inr s' \<and> journal_inv s' \<and> journal_of s' = journal_step End (journal_of s)"
proof (cases "l_outstanding s = 1")
  case False
  let ?s = "(s\<lparr>l_outstanding := l_outstanding s - 1\<rparr>)\<lparr>l_woken := l_woken s + 1\<rparr>"
  have "end_op s = Inr ?s" using inv o False by (simp add: end_op_def Let_def journal_inv_def)
  moreover have "log_inv ?s = log_inv s" "quiet_cache ?s = quiet_cache s" "view ?s = view s"
    by (rule log_fields; simp)+
  ultimately show ?thesis
    using inv o False by (auto simp: journal_inv_def journal_of_def outside_def [abs_def] in_log_def)
next
  case True
  let ?t = "s\<lparr>l_outstanding := 0, l_committing := True\<rparr>"
  have T: "log_inv ?t = log_inv s" "quiet_cache ?t = quiet_cache s" "view ?t = view s"
    by (rule log_fields; simp)+
  have it: "in_log ?t = in_log s" by (simp add: in_log_def [abs_def])
  obtain u where u: "commit ?t = Inr u" "log_inv u" "quiet_cache u" "l_block u = []"
      "\<forall>b. \<not> in_log s b \<longrightarrow> disk u b = view s b \<and> view u b = view s b" "store_rest u = store_rest (?t\<lparr>l_block := []\<rparr>)"
    using commit_durable [of ?t] inv T it by (auto simp: journal_inv_def)
  note R = wrote_rest [OF u(6), simplified]
  let ?u = "u\<lparr>l_committing := False, l_woken := l_woken u + 1\<rparr>"
  have U: "log_inv ?u = log_inv u" "quiet_cache ?u = quiet_cache u" "view ?u = view u"
    by (rule log_fields; simp)+
  have iu: "in_log ?u = in_log s" using R by (simp add: in_log_def [abs_def])
  have "end_op s = Inr ?u" using inv True u(1) by (simp add: end_op_def Let_def journal_inv_def)
  moreover have "journal_inv ?u" using U u R by (simp add: journal_inv_def)
  moreover have "journal_of ?u = journal_step End (journal_of s)"
    using u(5) R True U(3) iu by (auto simp: journal_of_def outside_def [abs_def])
  ultimately show ?thesis by blast
qed

lemma tx_step_refines:
  assumes "journal_inv s" and "tx_step l s s'"
  shows "journal_inv s' \<and> journal_of s' = journal_step l (journal_of s)"
  using assms(2)
proof cases
  case tx_begin
  then show ?thesis using begin_op_refines [OF assms(1)] by simp
next
  case (tx_modify f b)
  then show ?thesis using log_modify_refines [OF assms(1)] by simp
next
  case tx_end
  then show ?thesis using end_op_refines [OF assms(1)] by auto
qed

section \<open>Properties\<close>

text \<open>
  C2: Refinement of the journal by the log. From a state that satisfies the journal invariant, every sequence of
  \<open>begin_op\<close>, logged changes of blocks outside the log and \<open>end_op\<close> that the code completes keeps the
  invariant and acts on the abstract journal as the sequence of abstract steps: changes are visible at once and
  reach the disk together, when the last outstanding operation ends.
\<close>

theorem log_refines_journal:
  assumes "tx_steps ls s s'" and "journal_inv s"
  shows "journal_inv s' \<and> journal_of s' = fold journal_step ls (journal_of s)"
  using assms
proof (induction rule: tx_steps.induct)
  case (tx_refl s)
  then show ?case by simp
next
  case (tx_cons l s t ls u)
  then show ?case using tx_step_refines [of s l t] by simp
qed

text \<open>
  C1: Crash safety. A commit of a log that satisfies the invariant does not fault, and if the machine stops
  after any number \<open>k\<close> of its disk writes, then the boot code \<open>initlog\<close> succeeds on the disk left
  behind, empties the log, and every block outside the log has its old contents if the header had not been written
  (\<open>k \<le> n\<close>) and its new contents otherwise: never a mixture.
\<close>

theorem commit_crash_safe:
  assumes "log_inv s" and "quiet_cache s" and "sb_on_disk (disk s) (l_start s) (l_size s)" and "1 < l_start s"
    and "1 \<notin> set (l_block s)"
  shows "\<exists>s'. commit s = Inr s' \<and>
    (\<forall>k. \<exists>r. initlog 1 (boot (apply_writes (take k (drop (length (writes s)) (writes s'))) (disk s)) (disksize s)) = Inr r \<and>
       log_inv r \<and> l_block r = [] \<and>
       (\<forall>b. \<not> in_log s b \<longrightarrow> disk r b = (if k \<le> length (l_block s) then disk s b else view s b)))"
proof (cases "l_block s = []")
  case True
  have v: "view s b = disk s b" for b
    using clean_block [OF log_invD(1) [OF assms(1)]] assms(2) log_invD(8) [OF assms(1)] True
    by (simp add: quiet_cache_def)
  have "commit s = Inr s" using True by (simp add: commit_def)
  with crash_states [OF assms(1,3,4,5,2), of _ 0] v show ?thesis
    by (intro exI [of _ s]) auto
next
  case False
  then obtain s' where s': "commit s = Inr s'" "wrote (commit_writes s) (s\<lparr>l_block := []\<rparr>) s'"
    using commit_spec [OF assms(1,2)] by blast
  then have "drop (length (writes s)) (writes s') = commit_writes s" by (simp add: wrote_def)
  then show ?thesis using s'(1) crash_states [OF assms(1,3,4,5,2) refl] by (intro exI [of _ s']) metis
qed

text \<open>
  A disk of 100 blocks with a log of 30 blocks from block 2 on, and the state after \<open>initlog\<close>,
  \<open>begin_op\<close> and a change of block 35.
\<close>

definition demo_disk :: "nat \<Rightarrow> block" where
  "demo_disk b = (if b = 1 then put_le 12 4 30 (put_le 16 4 2 (replicate 512 0)) else replicate 512 0)"

definition demo_change :: "block \<Rightarrow> block" where
  "demo_change d = replicate 512 7"

lemma le_nat_zeros: "le_nat (replicate n 0) = 0"
  by (induction n) simp_all

lemma demo_state:
  "\<exists>r s t. initlog 1 (boot demo_disk 100) = Inr r \<and> begin_op r = Inr s \<and> log_modify demo_change 35 s = Inr t \<and>
     journal_inv r \<and> \<not> in_log s 35 \<and> 35 < disksize s \<and> journal_inv t \<and> l_outstanding t = 1 \<and> l_block t = [35] \<and>
     sb_on_disk (disk t) (l_start t) (l_size t) \<and> l_start t = 2 \<and> l_size t = 30 \<and>
     disk t 35 = replicate 512 0 \<and> view t 35 = replicate 512 7 \<and> view t 40 = replicate 512 0 \<and>
     disksize t = 100"
proof -
  have "get_le 12 4 (demo_disk 1) = 30 mod 256 ^ 4" unfolding demo_disk_def
    by (simp only: refl if_True) (rule get_put_le_same, simp)
  moreover have "get_at 16 4 (demo_disk 1) = get_at 16 4 (put_le 16 4 2 (replicate 512 0))"
    unfolding demo_disk_def by (simp only: refl if_True) (rule get_put_at_other; simp)
  then have "get_le 16 4 (demo_disk 1) = 2 mod 256 ^ 4"
    by (simp only:) (rule get_put_le_same, simp)
  ultimately have sb: "sb_on_disk demo_disk 2 30" by (simp add: sb_on_disk_def)
  have h: "header_n (demo_disk 2) = 0" "length (demo_disk 2) = BSIZE"
    by (simp_all add: demo_disk_def header_n_def get_at_def signed_def BSIZE_def le_nat_zeros)
  then have hb: "header_blocks (demo_disk 2) = []" by (simp add: header_blocks_def)
  obtain r where r: "initlog 1 (boot demo_disk 100) = Inr r"
      "disk r = apply_writes (recovery_writes 2 demo_disk) demo_disk" "log_inv r" "quiet_cache r" "l_block r = []"
      "l_start r = 2" "l_size r = 30" "disksize r = 100" "\<not> l_committing r" "l_outstanding r = 0"
    using initlog_spec [OF sb, of 100] h hb by (auto simp: LOGSIZE_def MAXOPBLOCKS_def)
  have r2: "disk r b = demo_disk b" if "b \<noteq> 2" for b using r(2) hb that by (simp add: recovery_writes_def)
  have jr: "journal_inv r" using r by (simp add: journal_inv_def)
  obtain s where s: "begin_op r = Inr s" "s = r\<lparr>l_outstanding := 1\<rparr>"
    using r by (auto simp: begin_op_def LOGSIZE_def MAXOPBLOCKS_def)
  have js: "journal_inv s" by (rule begin_op_refines(1) [OF jr s(1)])
  have out: "\<not> in_log s 35" "35 < disksize s" using s(2) r by (simp_all add: in_log_def)
  have vs: "view s 40 = disk s 40" "disk s = disk r"
    using clean_block [of s 40] js s(2) r(5) log_invD(8) [of s] by (auto simp: journal_inv_def quiet_cache_def)
  obtain t where t: "log_modify demo_change 35 s = Inr t" "view t = (view s)(35 := demo_change (view s 35))"
      "disk t = disk s" "l_block t = (if 35 \<in> set (l_block s) then l_block s else l_block s @ [35])"
      "store_rest t = store_rest (s\<lparr>l_block := l_block t\<rparr>)"
    using log_modify_spec [OF _ _ out, of demo_change] js s(2) r
    by (auto simp: journal_inv_def LOGSIZE_def MAXOPBLOCKS_def)
  note R = wrote_rest [OF t(5), simplified]
  have jt: "journal_inv t" by (rule log_modify_refines(1) [OF js t(1) out])
  have "disk t 1 = demo_disk 1" "disk t 35 = replicate 512 0" "view t 35 = replicate 512 7" "view t 40 = replicate 512 0"
    using t(2,3) vs r2 by (simp_all add: demo_change_def) (simp_all add: demo_disk_def)
  moreover have "l_block t = [35]" "l_outstanding t = 1" "l_start t = 2" "l_size t = 30" "disksize t = 100"
    using t(4) R s(2) r by simp_all
  ultimately show ?thesis
    using r(1) s(1) t(1) jr jt out sb unfolding sb_on_disk_def by metis
qed

theorem commit_crash_safe_witness:
  "\<exists>s s' :: logst. log_inv s \<and> l_block s = [35] \<and> commit s = Inr s' \<and>
     (\<forall>k. \<exists>r. initlog 1 (boot (apply_writes (take k (drop (length (writes s)) (writes s'))) (disk s)) (disksize s)) = Inr r \<and>
        disk r 35 = replicate 512 (if k \<le> 1 then 0 else 7))"
proof -
  obtain t :: logst where t: "journal_inv t" "l_block t = [35]" "sb_on_disk (disk t) (l_start t) (l_size t)" "l_start t = 2"
      "l_size t = 30" "disk t 35 = replicate 512 0" "view t 35 = replicate 512 7"
    using demo_state by blast
  have inv: "log_inv t" "quiet_cache t" using t(1) by (simp_all add: journal_inv_def)
  have "1 < l_start t" "1 \<notin> set (l_block t)" using t by simp_all
  from commit_crash_safe [OF inv t(3) this] obtain s' where s': "commit t = Inr s'"
    and C: "\<And>k. \<exists>r. initlog 1 (boot (apply_writes (take k (drop (length (writes t)) (writes s'))) (disk t)) (disksize t)) = Inr r \<and>
       log_inv r \<and> l_block r = [] \<and>
       (\<forall>b. \<not> in_log t b \<longrightarrow> disk r b = (if k \<le> length (l_block t) then disk t b else view t b))"
    by blast
  have o: "\<not> in_log t 35" using t by (simp add: in_log_def)
  have "\<exists>r. initlog 1 (boot (apply_writes (take k (drop (length (writes t)) (writes s'))) (disk t)) (disksize t)) = Inr r \<and>
      disk r 35 = replicate 512 (if k \<le> 1 then 0 else 7)" for k
    using C [of k] o t by auto
  then show ?thesis using inv(1) t(2) s' by blast
qed

theorem log_refines_journal_witness:
  "\<exists>r s :: logst. initlog 1 (boot demo_disk 100) = Inr r \<and> tx_steps [Begin, Modify demo_change 35, End] r s \<and>
     journal_inv s \<and> durable (journal_of s) 35 = replicate 512 7 \<and> durable (journal_of r) 35 \<noteq> replicate 512 7"
proof -
  obtain r s t where d: "initlog 1 (boot demo_disk 100) = Inr r" "begin_op r = Inr s" "log_modify demo_change 35 s = Inr t"
      "journal_inv r" "\<not> in_log s 35" "35 < disksize s" "journal_inv t" "l_outstanding t = 1"
      "disk t 35 = replicate 512 0" "view t 35 = replicate 512 7" "l_start t = 2" "l_size t = 30"
    using demo_state by blast
  obtain u where u: "end_op t = Inr u" using end_op_refines [OF d(7)] d(8) by auto
  have "1 \<le> l_outstanding t" using d(8) by simp
  note tl = tx_cons [OF tx_modify [OF d(3,5,6)]] and hd = tx_cons [OF tx_begin [OF d(2)]]
  have steps: "tx_steps [Begin, Modify demo_change 35, End] r u"
    by (rule hd [OF tl [OF tx_cons [OF tx_end [OF u \<open>1 \<le> l_outstanding t\<close>] tx_refl]]])
  note L = log_refines_journal [OF steps d(4)]
  have "tx_steps [Begin, Modify demo_change 35] r t"
    by (rule hd [OF tl [OF tx_refl]])
  note M = log_refines_journal [OF this d(4)]
  have t: "durable (journal_of t) 35 = replicate 512 0" "current (journal_of t) 35 = replicate 512 7" "ongoing (journal_of t) = 1"
    using d by (simp_all add: journal_of_def outside_def in_log_def)
  have "durable (journal_of u) 35 = replicate 512 7" using L M t by simp
  moreover have "durable (journal_of r) 35 = replicate 512 0" using M t by simp
  moreover have "replicate 512 (0 :: byte) \<noteq> replicate 512 7" by (simp add: replicate_eq_replicate)
  ultimately show ?thesis using d(1) steps L by metis
qed

end
