(* ===== verification/Fs_Spec.thy ===== *)
theory Fs_Spec
  imports Fs Journal
begin

text \<open>
  What the parts of \<open>fs.c\<close> do: path names against a reference splitter, the on-disk inode format, the bit map and the
  block allocator, and the reference counts of the inode cache.
\<close>

section \<open>Path elements\<close>

text \<open>The reference: split at every slash and drop the empty pieces.\<close>

fun split_slash :: "byte list \<Rightarrow> byte list list" where
  "split_slash [] = [[]]"
| "split_slash (c # cs) = (if c = slash then [] # split_slash cs
     else (case split_slash cs of [] \<Rightarrow> [[c]] | w # ws \<Rightarrow> (c # w) # ws))"

definition path_elems :: "byte list \<Rightarrow> byte list list" where
  "path_elems p = filter (\<lambda>w. w \<noteq> []) (split_slash p)"

text \<open>The name that a buffer of \<open>DIRSIZ\<close> bytes stands for.\<close>

definition cname :: "byte list \<Rightarrow> byte list" where
  "cname name = takeWhile (\<lambda>c. c \<noteq> 0) (take DIRSIZ name)"

lemma split_slash_ne: "split_slash p \<noteq> []"
  by (cases p) (auto split: list.split)

lemma path_elems_slashes: "path_elems (dropWhile (\<lambda>c. c = slash) p) = path_elems p"
  by (induction p) (auto simp: path_elems_def)

lemma split_slash_word:
  assumes "\<forall>c \<in> set w. c \<noteq> slash"
  shows "split_slash (w @ p) = (w @ hd (split_slash p)) # tl (split_slash p)"
  using assms split_slash_ne [of p]
  by (induction w) (auto split: list.split)

lemma path_elems_word:
  assumes "w \<noteq> []" and "\<forall>c \<in> set w. c \<noteq> slash" and "r = [] \<or> hd r = slash"
  shows "path_elems (w @ r) = w # path_elems r"
proof -
  have "hd (split_slash r) = []" "path_elems r = filter (\<lambda>w. w \<noteq> []) (tl (split_slash r))"
    using assms(3) by (cases r; auto simp: path_elems_def)+
  then show ?thesis using split_slash_word [OF assms(2)] assms(1) by (simp add: path_elems_def)
qed

lemma cname_short:
  assumes "length w < DIRSIZ" and "0 \<notin> set w" and "length name = DIRSIZ"
  shows "cname (put_at 0 (w @ [0]) name) = w"
proof -
  have "take DIRSIZ (put_at 0 (w @ [0]) name) = w @ 0 # drop (length w + 1) name"
    using assms by (simp add: put_at_def)
  moreover have "takeWhile (\<lambda>c. c \<noteq> 0) (w @ 0 # r) = w" for r
    using assms(2) by (induction w) auto
  ultimately show ?thesis by (simp add: cname_def)
qed

lemma cname_long:
  assumes "DIRSIZ \<le> length w" and "0 \<notin> set w" and "length name = DIRSIZ"
  shows "cname (put_at 0 (take DIRSIZ w) name) = take DIRSIZ w"
  using assms by (auto simp: cname_def put_at_def takeWhile_eq_all_conv dest: in_set_takeD)

text \<open>
  C18: \<open>skipelem\<close> walks through the elements of a path: it fails exactly when there is no element left; otherwise the name it
  stores is the first element, cut to 14 bytes, and the elements of the path it returns are the remaining ones, whatever
  the number of slashes between them.
\<close>

theorem skipelem_walks_elements:
  assumes "0 \<notin> set path" and "length name = DIRSIZ"
  shows "case path_elems path of
      [] \<Rightarrow> skipelem path name = None
    | e # es \<Rightarrow> \<exists>rest name'. skipelem path name = Some (rest, name') \<and> path_elems rest = es \<and>
        cname name' = take DIRSIZ e \<and> length name' = DIRSIZ \<and> 0 \<notin> set rest \<and> (rest = [] \<longleftrightarrow> es = [])"
proof -
  define p where "p = dropWhile (\<lambda>c. c = slash) path"
  define w where "w = takeWhile (\<lambda>c. c \<noteq> slash) p"
  define r where "r = dropWhile (\<lambda>c. c \<noteq> slash) p"
  define rest where "rest = dropWhile (\<lambda>c. c = slash) r"
  have p: "path_elems path = path_elems p" by (simp add: p_def path_elems_slashes)
  show ?thesis
  proof (cases "p = []")
    case True
    then have "path_elems path = []" "skipelem path name = None"
      using p by (simp_all only: skipelem_def p_def Let_def) (simp_all add: path_elems_def)
    then show ?thesis by simp
  next
    case False
    have hp: "hd p \<noteq> slash" using False hd_dropWhile [of "\<lambda>c. c = slash" path] unfolding p_def by blast
    have w: "w \<noteq> []" "\<forall>c \<in> set w. c \<noteq> slash"
      using False hp by (cases p; auto simp: w_def dest: set_takeWhileD)+
    have "r = [] \<or> hd r = slash" using hd_dropWhile [of "\<lambda>c. c \<noteq> slash" p] by (auto simp: r_def)
    moreover have "p = w @ r" by (simp add: w_def r_def)
    ultimately have e: "path_elems path = w # path_elems rest"
      using path_elems_word [OF w] p by (simp add: rest_def path_elems_slashes)
    have sub: "set w \<subseteq> set path" "set rest \<subseteq> set path"
      using set_takeWhileD [of _ "\<lambda>c. c \<noteq> slash" p] set_dropWhileD [of _ "\<lambda>c. c = slash" path]
        set_dropWhileD [of _ "\<lambda>c. c \<noteq> slash" p] set_dropWhileD [of _ "\<lambda>c. c = slash" r]
      unfolding w_def [symmetric] p_def [symmetric] r_def [symmetric] rest_def [symmetric] by fast+
    define name' where "name' = (if DIRSIZ \<le> length w then put_at 0 (take DIRSIZ w) name else put_at 0 (w @ [0]) name)"
    have "skipelem path name = Some (rest, name')"
      using False by (simp add: skipelem_def Let_def p_def [symmetric] name'_def w_def rest_def r_def)
    moreover have "0 \<notin> set w" using sub(1) assms(1) by blast
    then have "cname name' = take DIRSIZ w" "length name' = DIRSIZ"
      using cname_short [of w name] cname_long [of w name] assms(2) by (simp_all add: name'_def)
    moreover have "0 \<notin> set rest" using assms(1) sub(2) by blast
    moreover have "rest = [] \<longleftrightarrow> path_elems rest = []"
    proof (cases rest)
      case (Cons c cs)
      then have "c \<noteq> slash" using hd_dropWhile [of "\<lambda>c. c = slash" r] unfolding rest_def by (metis list.sel(1) list.simps(3))
      then show ?thesis using Cons by (auto simp: path_elems_def split: list.split)
    qed (simp add: path_elems_def)
    ultimately show ?thesis using e by auto
  qed
qed

theorem skipelem_walks_elements_witness:
  "\<exists>rest name'. skipelem [47, 47, 97, 47, 47, 98, 98] (replicate 14 0) = Some (rest, name') \<and>
     path_elems rest = [[98, 98]] \<and> cname name' = [97]"
  using skipelem_walks_elements [of "[47, 47, 97, 47, 47, 98, 98]" "replicate 14 0"]
  by (auto simp: path_elems_def DIRSIZ_def)

section \<open>The on-disk inode\<close>

text \<open>The ranges of the fields in C.\<close>

definition inode_ok :: "inode \<Rightarrow> bool" where
  "inode_ok ip \<longleftrightarrow> (\<forall>v \<in> {i_type ip, i_major ip, i_minor ip, i_nlink ip}. - (2 ^ 15) \<le> v \<and> v < 2 ^ 15) \<and>
     length (i_addrs ip) = NDIRECT + 1 \<and> (\<forall>a \<in> set (i_addrs ip). a < 2 ^ 32)"

lemma wrap_bound: "wrap 16 v < 256 ^ 2"
  by (simp add: wrap_def nat_less_iff)

lemma length_dinode_bytes: "inode_ok ip \<Longrightarrow> length (dinode_bytes ip) = DINODE"
  by (simp add: dinode_bytes_def inode_ok_def length_concat comp_def DINODE_def NDIRECT_def sum_list_const_mult
      flip: sum_list_triv) (simp add: sum_list_triv)

text \<open>A field at offset \<open>off\<close> of something stored at \<open>k\<close>.\<close>

lemma get_at_put_at_inner:
  assumes "k + length bs \<le> length d" and "off + n \<le> length bs"
  shows "get_at (k + off) n (put_at k bs d) = get_at off n bs"
proof -
  have "drop (k + off) (put_at k bs d) = drop off bs @ drop (k + length bs) d"
    using assms by (simp add: put_at_def)
  then show ?thesis using assms by (simp add: get_at_def)
qed

lemma get_at_concat:
  "j < length as \<Longrightarrow> get_at (4 * j) 4 (concat (map (le_bytes 4) as)) = le_bytes 4 (as ! j)"
proof (induction as arbitrary: j)
  case Nil
  then show ?case by simp
next
  case (Cons a as)
  then show ?case
    by (cases j) (simp_all add: get_at_def)
qed

lemma get_at_append: "length xs \<le> off \<Longrightarrow> get_at off n (xs @ ys) = get_at (off - length xs) n ys"
  by (simp add: get_at_def)

lemma get_at_append_hd: "get_at 0 (length xs) (xs @ ys) = xs"
  by (simp add: get_at_def)

lemma dinode_fields:
  assumes "inode_ok ip"
  shows "get_at 0 2 (dinode_bytes ip) = le_bytes 2 (wrap 16 (i_type ip))"
    and "get_at 2 2 (dinode_bytes ip) = le_bytes 2 (wrap 16 (i_major ip))"
    and "get_at 4 2 (dinode_bytes ip) = le_bytes 2 (wrap 16 (i_minor ip))"
    and "get_at 6 2 (dinode_bytes ip) = le_bytes 2 (wrap 16 (i_nlink ip))"
    and "get_at 8 4 (dinode_bytes ip) = le_bytes 4 (unat (i_size ip))"
    and "j < NDIRECT + 1 \<Longrightarrow> get_at (12 + 4 * j) 4 (dinode_bytes ip) = le_bytes 4 (i_addrs ip ! j)"
proof -
  show "j < NDIRECT + 1 \<Longrightarrow> get_at (12 + 4 * j) 4 (dinode_bytes ip) = le_bytes 4 (i_addrs ip ! j)"
    using assms get_at_concat [of j "i_addrs ip"] by (simp add: dinode_bytes_def get_at_append inode_ok_def)
qed (simp_all add: dinode_bytes_def get_at_def)



section \<open>The bit map\<close>

lemma in_use_bit: "in_use k d \<longleftrightarrow> bit (d ! (k div 8)) (k mod 8)"
proof -
  have "(d ! (k div 8)) AND push_bit (k mod 8) 1 = (if bit (d ! (k div 8)) (k mod 8) then push_bit (k mod 8) 1 else 0)"
    by (rule bit_word_eqI) (auto simp: bit_simps)
  moreover have "push_bit (k mod 8) (1 :: byte) \<noteq> 0"
  proof
    assume "push_bit (k mod 8) (1 :: byte) = 0"
    then have "\<not> bit (push_bit (k mod 8) (1 :: byte)) (k mod 8)" by simp
    then show False by (simp add: bit_simps)
  qed
  ultimately show ?thesis by (simp add: in_use_def)
qed

lemma slot_eq: "k div 8 = j div 8 \<Longrightarrow> k mod 8 = j mod 8 \<Longrightarrow> k = (j :: nat)"
  by (metis div_mult_mod_eq)

lemma in_use_mark_used:
  assumes "length d = BSIZE" "j < BPB" "k < BPB"
  shows "in_use k (mark_used j d) \<longleftrightarrow> k = j \<or> in_use k d"
  using assms slot_eq [of k j] unfolding in_use_bit mark_used_def
  by (auto simp: nth_list_update bit_simps BPB_def BSIZE_def)

lemma in_use_mark_free:
  assumes "length d = BSIZE" "j < BPB" "k < BPB"
  shows "in_use k (mark_free j d) \<longleftrightarrow> k \<noteq> j \<and> in_use k d"
  using assms slot_eq [of k j] unfolding in_use_bit mark_free_def
  by (auto simp: nth_list_update bit_simps BPB_def BSIZE_def)

text \<open>Freeing what has been allocated gives the old bit map back.\<close>

lemma mark_free_used:
  assumes "length d = BSIZE" "j < BPB" "\<not> in_use j d"
  shows "mark_free j (mark_used j d) = d"
proof -
  have "((d ! (j div 8)) OR push_bit (j mod 8) 1) AND NOT (push_bit (j mod 8) 1) = d ! (j div 8)"
  proof (rule bit_word_eqI)
    fix n assume "n < LENGTH(8)"
    show "bit (((d ! (j div 8)) OR push_bit (j mod 8) 1) AND NOT (push_bit (j mod 8) 1)) n = bit (d ! (j div 8)) n"
      using assms(3) \<open>n < LENGTH(8)\<close> by (auto simp: bit_simps in_use_bit)
  qed
  then show ?thesis using assms by (simp add: mark_free_def mark_used_def BPB_def BSIZE_def)
qed

section \<open>Allocating a block\<close>

lemma fs_rest:
  assumes "store_rest s' = store_rest (s\<lparr>l_block := bl\<rparr>)"
  shows "inodes s' = inodes s" "fsb s' = fsb s" "l_start s' = l_start s" "l_size s' = l_size s" "disksize s' = disksize s"
    "l_outstanding s' = l_outstanding s"
  using assms by (cases s; cases s'; simp add: store_rest_def)+

lemma held_blocks_same: "holds s' = holds s \<Longrightarrow> held_blocks s' = held_blocks s"
  by (simp add: held_blocks_def)

lemma peek_spec:
  assumes inv: "log_inv s" and b: "b < disksize s" "b \<notin> held_blocks s" "card (pinned s \<union> held_blocks s \<union> {b}) \<le> NBUF"
  shows "\<exists>i s1 s2. bread 1 b s = Inr (i, s1) \<and> bdata i s1 = view s b \<and> store_rest s1 = store_rest s \<and> brelse i s1 = Inr s2 \<and>
    log_inv s2 \<and> holds s2 = holds s \<and> view s2 = view s \<and> pinned s2 = pinned s \<and> disk s2 = disk s \<and> store_rest s2 = store_rest s"
proof -
  note I = log_invD [OF inv]
  have lt: "b < fst (store_rest s)" and nh: "\<And>i. \<not> holds s i b"
    using b by (auto simp: fst_store_rest held_blocks_def)
  obtain i s1 where r: "bread 1 b s = Inr (i, s1)" "cache_inv s1" "\<forall>c. \<not> holds s i c"
    "\<forall>j c. holds s1 j c \<longleftrightarrow> (if j = i then c = b else holds s j c)"
    "view s1 = view s" "pinned s1 = pinned s" "disk s1 = disk s" "store_rest s1 = store_rest s"
    using bc.read_ok [OF I(1) lt nh] b(3) unfolding held_blocks_def by blast
  have h1: "holds s1 i b" using r(4) by simp
  have "b \<in> pinned s1 \<or> view s1 b = disk s1 b" using clean_block [OF I(1), of b] nh r(5-7) by auto
  from bc.release_ok [OF r(2) h1 this] obtain s2 where q: "brelse i s1 = Inr s2" "cache_inv s2"
      "\<forall>j c. holds s2 j c \<longleftrightarrow> j \<noteq> i \<and> holds s1 j c" "view s2 = view s1" "pinned s2 = pinned s1" "disk s2 = disk s1"
      "store_rest s2 = store_rest s1"
    by blast
  have "holds s2 j c = holds s j c" for j c using q(3) r(3,4) by (cases "j = i") simp_all
  then have "holds s2 = holds s" by blast
  moreover have "log_inv s2" by (rule log_inv_same [OF inv q(2)]) (use q r in simp_all)
  ultimately show ?thesis using r q bc.data_ok [OF r(2) h1] by (intro exI [of _ i] exI [of _ s1] exI [of _ s2]) simp
qed

text \<open>
  \<open>used s b\<close>: block \<open>b\<close> is marked in the bit map. \<open>bitmap_ok\<close>: the bit map lies outside the log, and the blocks of the log, of the
  bit map and those held by the caller are never free.
\<close>

definition used :: "'a fsst_scheme \<Rightarrow> nat \<Rightarrow> bool" where
  "used s b \<longleftrightarrow> in_use (b mod BPB) (view s (BBLOCK b s))"

definition bitmap_ok :: "'a fsst_scheme \<Rightarrow> bool" where
  "bitmap_ok s \<longleftrightarrow> sb_size (fsb s) \<le> disksize s \<and>
     (\<forall>b < sb_size (fsb s). BBLOCK b s < disksize s \<and> \<not> in_log s (BBLOCK b s) \<and> BBLOCK b s \<notin> held_blocks s) \<and>
     (\<forall>b < sb_size (fsb s). \<not> used s b \<longrightarrow> \<not> in_log s b \<and> b \<notin> held_blocks s \<and> (\<forall>c < sb_size (fsb s). BBLOCK c s \<noteq> b))"

definition log_room :: "nat \<Rightarrow> 'a fsst_scheme \<Rightarrow> bool" where
  "log_room n s \<longleftrightarrow> 1 \<le> l_outstanding s \<and> length (l_block s) + n < l_size s \<and> card (held_blocks s) \<le> 1"

lemma log_room_bufs:
  assumes inv: "log_inv s" and r: "log_room 2 s" and A: "card A \<le> 2" "finite A"
  shows "card (pinned s \<union> held_blocks s \<union> A) \<le> NBUF"
proof -
  note I = log_invD [OF inv]
  have "card (pinned s) = length (l_block s)" using distinct_card [OF I(7)] I(8) by simp
  then have "card (pinned s) + card (held_blocks s) + card A \<le> NBUF"
    using r I(6) A(1) by (simp add: log_room_def NBUF_def LOGSIZE_def MAXOPBLOCKS_def)
  moreover have "card (pinned s \<union> held_blocks s \<union> A) \<le> card (pinned s \<union> held_blocks s) + card A"
    by (rule card_Un_le)
  moreover have "card (pinned s \<union> held_blocks s) \<le> card (pinned s) + card (held_blocks s)" by (rule card_Un_le)
  ultimately show ?thesis by linarith
qed

lemma bitmap_ok_same:
  assumes "holds s' = holds s" "view s' = view s" "store_rest s' = store_rest s"
  shows "bitmap_ok s' = bitmap_ok s" "used s' = used s" "BBLOCK b s' = BBLOCK b s" "log_room n s' = log_room n s"
proof -
  have R: "inodes s' = inodes s" "fsb s' = fsb s" "l_start s' = l_start s" "l_size s' = l_size s" "disksize s' = disksize s"
      "l_outstanding s' = l_outstanding s" "l_block s' = l_block s"
    using assms(3) by (cases s; cases s'; simp add: store_rest_def)+
  then have B: "BBLOCK b s' = BBLOCK b s" for b by (simp add: BBLOCK_def)
  then show "BBLOCK b s' = BBLOCK b s" .
  show u: "used s' = used s" by (simp add: used_def [abs_def] B assms(2))
  note H = held_blocks_same [OF assms(1)]
  show "bitmap_ok s' = bitmap_ok s" by (simp add: bitmap_ok_def R B u H in_log_def)
  show "log_room n s' = log_room n s" by (simp add: log_room_def R H)
qed

text \<open>The effect of allocating block \<open>b\<close>.\<close>

definition allocated :: "nat \<Rightarrow> 'a fsst_scheme \<Rightarrow> 'a fsst_scheme \<Rightarrow> bool" where
  "allocated b s s' \<longleftrightarrow> log_inv s' \<and> holds s' = holds s \<and> disk s' = disk s \<and> inodes s' = inodes s \<and> fsb s' = fsb s \<and>
     view s' = (view s)(BBLOCK b s := mark_used (b mod BPB) (view s (BBLOCK b s)), b := replicate BSIZE 0) \<and>
     set (l_block s') = insert b (insert (BBLOCK b s) (set (l_block s)))"

lemma log_modify_read:
  assumes "bread 1 b s = Inr (i, s1)"
  shows "log_modify f b s = bindE (log_write i (bset i (f (bdata i s1)) s1)) (brelse i)"
  unfolding log_modify_def assms by simp

lemma bzero_modify: "bzero 1 b s = log_modify (\<lambda>d. replicate BSIZE 0) b s"
  by (simp add: bzero_def log_modify_def)

lemma alloc_steps:
  assumes inv: "log_inv s" and ok: "bitmap_ok s" and room: "log_room 2 s" and b: "b < sb_size (fsb s)" "\<not> used s b"
  shows "\<exists>s1 s2. log_modify (mark_used (b mod BPB)) (BBLOCK b s) s = Inr s1 \<and> bzero 1 b s1 = Inr s2 \<and> allocated b s s2"
proof -
  let ?m = "BBLOCK b s"
  have B: "?m < disksize s" "\<not> in_log s ?m" "?m \<notin> held_blocks s" "b < disksize s" "\<not> in_log s b" "b \<notin> held_blocks s" "?m \<noteq> b"
    using ok b by (auto simp: bitmap_ok_def)
  have nm: "\<And>i. \<not> holds s i ?m" and nb: "\<And>i. \<not> holds s i b" using B(3,6) by (auto simp: held_blocks_def)
  have rm: "length (l_block s) < LOGSIZE" "length (l_block s) + 1 < l_size s" "1 \<le> l_outstanding s"
    using room log_invD(13) [OF inv] by (simp_all add: log_room_def)
  have c1: "card (pinned s \<union> held_blocks s \<union> {?m}) \<le> NBUF" by (rule log_room_bufs [OF inv room]) simp_all
  obtain s1 where s1: "log_modify (mark_used (b mod BPB)) ?m s = Inr s1" "log_inv s1" "holds s1 = holds s"
      "view s1 = (view s)(?m := mark_used (b mod BPB) (view s ?m))" "disk s1 = disk s"
      "l_block s1 = (if ?m \<in> set (l_block s) then l_block s else l_block s @ [?m])"
      "store_rest s1 = store_rest (s\<lparr>l_block := l_block s1\<rparr>)"
    using log_modify_held [OF inv nm B(2,1) rm(3) c1 rm(1,2), of "mark_used (b mod BPB)"] by blast
  note R = fs_rest [OF s1(7)]
  have ps: "pinned s1 = insert ?m (pinned s)"
    using s1(6) log_invD(8) [OF inv] log_invD(8) [OF s1(2)] by (auto split: if_splits)
  have e: "pinned s1 \<union> held_blocks s1 \<union> {b} = pinned s \<union> held_blocks s \<union> {?m, b}"
    using ps held_blocks_same [OF s1(3)] by auto
  have "card (pinned s \<union> held_blocks s \<union> {?m, b}) \<le> NBUF"
    by (rule log_room_bufs [OF inv room]) (auto simp: card_insert_if)
  then have c2: "card (pinned s1 \<union> held_blocks s1 \<union> {b}) \<le> NBUF" unfolding e .
  have nb1: "\<And>i. \<not> holds s1 i b" using nb s1(3) by simp
  have rm1: "length (l_block s1) < LOGSIZE" "length (l_block s1) + 1 < l_size s1" "1 \<le> l_outstanding s1"
    using room s1(6) R log_invD(13) [OF s1(2)] by (auto simp: log_room_def split: if_splits)
  have o1: "\<not> in_log s1 b" "b < disksize s1" using B(4,5) R by (simp_all add: in_log_def)
  obtain s2 where s2: "log_modify (\<lambda>d. replicate BSIZE 0) b s1 = Inr s2" "log_inv s2" "holds s2 = holds s1"
      "view s2 = (view s1)(b := replicate BSIZE 0)" "disk s2 = disk s1"
      "l_block s2 = (if b \<in> set (l_block s1) then l_block s1 else l_block s1 @ [b])"
      "store_rest s2 = store_rest (s1\<lparr>l_block := l_block s2\<rparr>)"
    using log_modify_held [OF s1(2) nb1 o1 rm1(3) c2 rm1(1,2), of "\<lambda>d. replicate BSIZE 0"] by blast
  have "allocated b s s2"
    using s1 s2 R fs_rest [OF s2(7)] by (auto simp: allocated_def)
  then show ?thesis using s1(1) s2(1) unfolding bzero_modify by blast
qed

lemma balloc_loop_spec:
  assumes "log_inv s" and "bitmap_ok s" and "log_room 2 s"
    and "\<And>b. b \<in> set bs \<Longrightarrow> b mod BPB = 0 \<and> b < sb_size (fsb s)"
    and "b0 \<in> set bs" and "b0 \<le> c" and "c < b0 + BPB" and "c < sb_size (fsb s)" and "\<not> used s c"
  shows "\<exists>b s'. balloc_loop 1 bs s = Inr (b, s') \<and> b < sb_size (fsb s) \<and> \<not> used s b \<and> allocated b s s'"
  using assms
proof (induction bs arbitrary: s)
  case Nil
  then show ?case by simp
next
  case (Cons b bs)
  have b: "b mod BPB = 0" "b < sb_size (fsb s)" using Cons.prems(4) [of b] by simp_all
  let ?m = "BBLOCK b s"
  have m: "?m < disksize s" "?m \<notin> held_blocks s" using Cons.prems(2) b(2) by (auto simp: bitmap_ok_def)
  have "card (pinned s \<union> held_blocks s \<union> {?m}) \<le> NBUF" by (rule log_room_bufs [OF Cons.prems(1,3)]) simp_all
  from peek_spec [OF Cons.prems(1) m this] obtain i s1 s2 where r: "bread 1 ?m s = Inr (i, s1)" "bdata i s1 = view s ?m"
      "store_rest s1 = store_rest s" "brelse i s1 = Inr s2" "log_inv s2" "holds s2 = holds s" "view s2 = view s"
      "store_rest s2 = store_rest s" "disk s2 = disk s"
    by blast
  have f1: "fsb s1 = fsb s" using r(3) by (cases s; cases s1; simp add: store_rest_def)
  let ?f = "find_index (\<lambda>bi. \<not> in_use bi (view s ?m)) [0..<min BPB (sb_size (fsb s) - b)]"
  have slot: "(b + k) mod BPB = k" "BBLOCK (b + k) s = ?m" if "k < BPB" for k
  proof -
    have bp: "BPB > 0" by (simp add: BPB_def BSIZE_def)
    obtain q where q: "b = BPB * q" using b(1) by auto
    show "(b + k) mod BPB = k" "BBLOCK (b + k) s = ?m" using that bp by (simp_all add: q BBLOCK_def)
  qed
  show ?case
  proof (cases ?f)
    case (Some k)
    from find_index_SomeD [OF Some] have k0: "k < BPB" "k < sb_size (fsb s) - b" "\<not> in_use k (view s ?m)" by simp_all
    then have k: "k < BPB" "b + k < sb_size (fsb s)" "\<not> in_use k (view s ?m)" by linarith+
    then have nu: "\<not> used s (b + k)" by (simp add: used_def slot)
    obtain t1 t2 where t: "log_modify (mark_used ((b + k) mod BPB)) (BBLOCK (b + k) s) s = Inr t1" "bzero 1 (b + k) t1 = Inr t2"
        "allocated (b + k) s t2"
      using alloc_steps [OF Cons.prems(1-3) k(2) nu] by blast
    have "bindE (log_write i (bset i (mark_used k (bdata i s1)) s1)) (brelse i) = Inr t1"
      using t(1) log_modify_read [OF r(1), of "mark_used k"] slot [OF k(1)] by simp
    then obtain t0 where "log_write i (bset i (mark_used k (bdata i s1)) s1) = Inr t0" "brelse i t0 = Inr t1"
      by (auto simp: res_simps)
    then have "balloc_loop 1 (b # bs) s = Inr (b + k, t2)"
      using r(1,2) f1 Some t(2) by simp
    then show ?thesis using k(2) nu t(3) by blast
  next
    case None
    have same: "bitmap_ok s2" "used s2 = used s" "log_room 2 s2" "fsb s2 = fsb s"
      using bitmap_ok_same [OF r(6,7,8)] Cons.prems(2,3) r(8) by (simp_all) (cases s; cases s2; simp add: store_rest_def)
    have all: "in_use k (view s ?m)" if "k < BPB" "b + k < sb_size (fsb s)" for k
      using None that unfolding find_index_None by auto
    have "\<not> (b \<le> c \<and> c < b + BPB)"
    proof
      assume a: "b \<le> c \<and> c < b + BPB"
      then have "used s c" using all [of "c - b"] slot [of "c - b"] Cons.prems(8) by (auto simp: used_def)
      then show False using Cons.prems(9) by simp
    qed
    then have "b0 \<in> set bs" using Cons.prems(5-7) by auto
    then obtain b' s' where "balloc_loop 1 bs s2 = Inr (b', s')" "b' < sb_size (fsb s)" "\<not> used s b'" "allocated b' s2 s'"
      using Cons.IH [OF r(5) same(1,3)] Cons.prems(4,6-9) same(2,4) by auto
    moreover have "allocated b' s2 s' = allocated b' s s'"
    proof -
      have "inodes s2 = inodes s" "l_block s2 = l_block s"
        using r(8) by (cases s; cases s2; simp add: store_rest_def)+
      then show ?thesis using r(6,7,9) same(4) bitmap_ok_same(3) [OF r(6,7,8)] by (simp add: allocated_def)
    qed
    moreover have "balloc_loop 1 (b # bs) s = balloc_loop 1 bs s2"
      using r(1,2,4) f1 unfolding balloc_loop.simps by (simp only: bindE.simps prod.case None option.case)
    ultimately show ?thesis by auto
  qed
qed

text \<open>
  C15: The block allocator. In a transaction with room for two more blocks, if some block is free then \<open>balloc\<close> returns a block that was
  free, marks exactly this block as used, fills it with zeros through the log, and changes no other block and nothing
  on the disk. A block that is in use is never handed out.
\<close>

theorem balloc_allocates_free_block:
  assumes inv: "log_inv s" and ok: "bitmap_ok s" and room: "log_room 2 s"
    and free: "c < sb_size (fsb s)" "\<not> used s c"
  shows "\<exists>b s'. balloc 1 s = Inr (b, s') \<and> b < sb_size (fsb s) \<and> \<not> used s b \<and> log_inv s' \<and> disk s' = disk s \<and>
    view s' b = replicate BSIZE 0 \<and> (\<forall>x. x \<noteq> b \<longrightarrow> x \<noteq> BBLOCK b s \<longrightarrow> view s' x = view s x) \<and>
    (length (view s (BBLOCK b s)) = BSIZE \<longrightarrow> (\<forall>x < sb_size (fsb s). used s' x \<longleftrightarrow> x = b \<or> used s x))"
proof -
  have bp: "BPB > 0" by (simp add: BPB_def BSIZE_def)
  let ?bs = "map (\<lambda>k. k * BPB) [0..<(sb_size (fsb s) + BPB - 1) div BPB]"
  have lt: "k < (sb_size (fsb s) + BPB - 1) div BPB \<longleftrightarrow> k * BPB < sb_size (fsb s)" for k
  proof -
    have "k < (sb_size (fsb s) + BPB - 1) div BPB \<longleftrightarrow> Suc k * BPB \<le> sb_size (fsb s) + BPB - 1"
      using bp by (simp add: less_eq_div_iff_mult_less_eq flip: Suc_le_eq)
    then show ?thesis using bp by auto
  qed
  have c: "c div BPB * BPB \<le> c" "c < c div BPB * BPB + BPB"
    using div_mult_mod_eq [of c BPB] mod_less_divisor [OF bp, of c] by linarith+
  have "c div BPB * BPB < sb_size (fsb s)" using c(1) free(1) by linarith
  then have "c div BPB \<in> set [0..<(sb_size (fsb s) + BPB - 1) div BPB]" unfolding lt [symmetric] by simp
  then have m: "c div BPB * BPB \<in> set ?bs" unfolding set_map by (rule imageI)
  have "b mod BPB = 0 \<and> b < sb_size (fsb s)" if "b \<in> set ?bs" for b
  proof -
    obtain k where k: "k < (sb_size (fsb s) + BPB - 1) div BPB" "b = k * BPB" using \<open>b \<in> set ?bs\<close> by auto
    then show ?thesis using lt [of k] by simp
  qed
  from balloc_loop_spec [OF inv ok room this m c free]
  obtain b s' where b: "balloc 1 s = Inr (b, s')" "b < sb_size (fsb s)" "\<not> used s b" "allocated b s s'"
    unfolding balloc_def by blast
  have mb: "BBLOCK x s \<noteq> b" if "x < sb_size (fsb s)" for x using ok b(2,3) that by (auto simp: bitmap_ok_def)
  have "used s' x \<longleftrightarrow> x = b \<or> used s x" if l: "length (view s (BBLOCK b s)) = BSIZE" and x: "x < sb_size (fsb s)" for x
  proof -
    have B: "BBLOCK x s' = BBLOCK x s" using b(4) by (simp add: allocated_def BBLOCK_def)
    have mod: "x mod BPB < BPB" "b mod BPB < BPB" using bp by simp_all
    show ?thesis
    proof (cases "BBLOCK x s = BBLOCK b s")
      case True
      then have "x div BPB = b div BPB" by (simp add: BBLOCK_def)
      then have "x mod BPB = b mod BPB \<longleftrightarrow> x = b" by (metis div_mult_mod_eq)
      then show ?thesis
        using in_use_mark_used [OF l mod(2,1)] b(4) True B mb [OF x] mb [OF b(2)] by (simp add: used_def allocated_def)
    next
      case False
      then show ?thesis using b(4) B mb [OF x] by (auto simp: used_def allocated_def)
    qed
  qed
  then show ?thesis using b by (auto simp: allocated_def)
qed

theorem balloc_allocates_free_block_witness:
  "\<exists>(s :: fsst) b s'. log_inv s \<and> bitmap_ok s \<and> sb_size (fsb s) = 2 \<and> balloc 1 s = Inr (b, s') \<and> \<not> used s b \<and>
     view s' b = replicate 512 0"
proof -
  obtain t :: logst where t: "journal_inv t" "l_outstanding t = 1" "l_block t = [35]" "l_start t = 2" "l_size t = 30"
      "view t 40 = replicate 512 0" "disksize t = 100"
    using demo_state by blast
  define s :: fsst where "s = logst.extend t (fsst.fields [] \<lparr>sb_size = 2, sb_nblocks = 1, sb_ninodes = 0, sb_nlog = 30,
      sb_logstart = 2, sb_inodestart = 32, sb_bmapstart = 40\<rparr>)"
  have f: "bufs s = bufs t" "lru s = lru t" "disk s = disk t" "disksize s = disksize t" "l_dev s = l_dev t"
    "l_start s = l_start t" "l_size s = l_size t" "l_block s = l_block t" "l_outstanding s = l_outstanding t"
    "sb_size (fsb s) = 2" "sb_bmapstart (fsb s) = 40"
    by (simp_all add: s_def logst.defs fsst.defs)
  note L = log_fields [OF f(1-8)]
  have inv: "log_inv s" "quiet_cache s" "view s 40 = replicate 512 0" using L t by (simp_all add: journal_inv_def)
  have h: "held_blocks s = {}" using inv(2) by (simp add: quiet_cache_def held_blocks_def)
  have B: "BBLOCK b s = 40" if "b < 2" for b using that f by (simp add: BBLOCK_def BPB_def BSIZE_def)
  have u: "\<not> used s b" if "b < 2" for b
    using that inv(3) B [OF that] by (simp add: used_def in_use_bit BPB_def BSIZE_def)
  have ok: "bitmap_ok s" using B f t h by (simp add: bitmap_ok_def in_log_def)
  have room: "log_room 2 s" using f t h by (simp add: log_room_def)
  show ?thesis
    using balloc_allocates_free_block [OF inv(1) ok room, of 0] u [of 0] f(10) inv(1) ok by (auto simp: BSIZE_def)
qed

end
