(* ===== verification/Pipe.thy ===== *)
theory Pipe
  imports Prelude
begin

text \<open>
  Pipes, \<open>pipe.c\<close>: a ring of 512 bytes with two 32-bit counters that run freely and wrap. A call of
  \<open>pipewrite\<close> or \<open>piperead\<close> is cut into the segments that run under the pipe's lock, from the
  start or a wake-up to the return or the next \<open>sleep\<close>; segments of any number of processes interleave in
  any order. The bounded queue contract is stated as a locale and interpreted on the ring.
\<close>

section \<open>State and operations\<close>

definition PIPESIZE :: nat where "PIPESIZE = 512"

record pipe =
  pi_data :: "byte list"
  nread :: u32
  nwrite :: u32
  readopen :: bool
  writeopen :: bool

text \<open>The fields that \<open>pipealloc\<close> sets; the data is what the fresh page holds.\<close>

definition pipe_init :: "byte list \<Rightarrow> pipe" where
  "pipe_init d = \<lparr>pi_data = d, nread = 0, nwrite = 0, readopen = True, writeopen = True\<rparr>"

definition pipe_full :: "pipe \<Rightarrow> bool" where
  "pipe_full p \<longleftrightarrow> nwrite p = nread p + of_nat PIPESIZE"

definition pipe_empty :: "pipe \<Rightarrow> bool" where
  "pipe_empty p \<longleftrightarrow> nread p = nwrite p"

definition pipe_put :: "byte \<Rightarrow> pipe \<Rightarrow> pipe" where
  "pipe_put c p = p\<lparr>pi_data := (pi_data p)[unat (nwrite p) mod PIPESIZE := c], nwrite := nwrite p + 1\<rparr>"

definition pipe_get :: "pipe \<Rightarrow> byte \<times> pipe" where
  "pipe_get p = (pi_data p ! (unat (nread p) mod PIPESIZE), p\<lparr>nread := nread p + 1\<rparr>)"

text \<open>
  What a segment ends with: a return value, or sleep on \<open>nwrite\<close> or \<open>nread\<close> with the bytes still to
  write; and the wake-ups it does, on \<open>nread\<close> or on \<open>nwrite\<close>.
\<close>

datatype pend = PRet int | PSleep "byte list"
datatype wake = WakeR | WakeW

datatype wloop = WDone | WFail | WWait "byte list"

fun pipewrite_loop :: "bool \<Rightarrow> byte list \<Rightarrow> pipe \<Rightarrow> wloop \<times> pipe" where
  "pipewrite_loop killed [] p = (WDone, p)"
| "pipewrite_loop killed (c # cs) p =
     (if pipe_full p
      then (if \<not> readopen p \<or> killed then WFail else WWait (c # cs), p)
      else pipewrite_loop killed cs (pipe_put c p))"

definition pipewrite :: "bool \<Rightarrow> int \<Rightarrow> byte list \<Rightarrow> pipe \<Rightarrow> pend \<times> wake list \<times> pipe" where
  "pipewrite killed n cs p =
     (case pipewrite_loop killed cs p of
        (WDone, p) \<Rightarrow> (PRet n, [WakeR], p)
      | (WFail, p) \<Rightarrow> (PRet (- 1), [], p)
      | (WWait cs, p) \<Rightarrow> (PSleep cs, [WakeR], p))"

fun piperead_loop :: "nat \<Rightarrow> pipe \<Rightarrow> byte list \<times> pipe" where
  "piperead_loop 0 p = ([], p)"
| "piperead_loop (Suc n) p =
     (if pipe_empty p then ([], p)
      else let (c, p) = pipe_get p; (cs, p) = piperead_loop n p in (c # cs, p))"

definition piperead :: "bool \<Rightarrow> int \<Rightarrow> pipe \<Rightarrow> pend \<times> byte list \<times> wake list \<times> pipe" where
  "piperead killed n p =
     (if pipe_empty p \<and> writeopen p
      then (if killed then PRet (- 1) else PSleep [], [], [], p)
      else let (cs, p) = piperead_loop (nat n) p in (PRet (int (length cs)), cs, [WakeW], p))"

text \<open>The third result says that the page of the pipe is freed.\<close>

definition pipeclose :: "bool \<Rightarrow> pipe \<Rightarrow> pipe \<times> wake list \<times> bool" where
  "pipeclose writable p =
     (let (p, w) = (if writable then (p\<lparr>writeopen := False\<rparr>, WakeR) else (p\<lparr>readopen := False\<rparr>, WakeW)) in
      (p, [w], \<not> readopen p \<and> \<not> writeopen p))"

section \<open>Bounded queues\<close>

locale bounded_queue =
  fixes ok :: "'q \<Rightarrow> bool"
    and contents :: "'q \<Rightarrow> 'e list"
    and full :: "'q \<Rightarrow> bool"
    and empty :: "'q \<Rightarrow> bool"
    and put :: "'e \<Rightarrow> 'q \<Rightarrow> 'q"
    and get :: "'q \<Rightarrow> 'e \<times> 'q"
    and cap :: nat
  assumes full_iff: "ok q \<Longrightarrow> full q \<longleftrightarrow> length (contents q) = cap"
    and empty_iff: "ok q \<Longrightarrow> empty q \<longleftrightarrow> contents q = []"
    and bounded: "ok q \<Longrightarrow> length (contents q) \<le> cap"
    and put_ok: "ok q \<Longrightarrow> \<not> full q \<Longrightarrow> ok (put e q) \<and> contents (put e q) = contents q @ [e]"
    and get_ok: "ok q \<Longrightarrow> \<not> empty q \<Longrightarrow> ok (snd (get q)) \<and> contents q = fst (get q) # contents (snd (get q))"
begin

fun put_many :: "'e list \<Rightarrow> 'q \<Rightarrow> 'e list \<times> 'q" where
  "put_many [] q = ([], q)"
| "put_many (e # es) q = (if full q then (e # es, q) else put_many es (put e q))"

fun get_many :: "nat \<Rightarrow> 'q \<Rightarrow> 'e list \<times> 'q" where
  "get_many 0 q = ([], q)"
| "get_many (Suc n) q =
     (if empty q then ([], q)
      else case get q of (e, q1) \<Rightarrow> (case get_many n q1 of (es, q2) \<Rightarrow> (e # es, q2)))"

lemma put_many_spec:
  assumes "ok q" and "put_many es q = (rest, q')"
  shows "ok q' \<and> (\<exists>done. es = done @ rest \<and> contents q' = contents q @ done) \<and> (rest \<noteq> [] \<longrightarrow> full q') \<and>
    length rest = length es - (cap - length (contents q))"
  using assms
proof (induction es arbitrary: q)
  case Nil
  then show ?case by simp
next
  case (Cons e es)
  show ?case
  proof (cases "full q")
    case True
    then show ?thesis using Cons.prems full_iff [OF Cons.prems(1)] by simp
  next
    case False
    note P = put_ok [OF Cons.prems(1) False, of e]
    have "length (contents q) < cap" using bounded [OF Cons.prems(1)] full_iff [OF Cons.prems(1)] False by linarith
    then show ?thesis
      using Cons.IH [of "put e q"] Cons.prems(2) P False by auto
  qed
qed

lemma get_many_spec:
  assumes "ok q" and "get_many n q = (es, q')"
  shows "ok q' \<and> contents q = es @ contents q' \<and> length es = min n (length (contents q))"
  using assms
proof (induction n arbitrary: q es)
  case 0
  then show ?case by simp
next
  case (Suc n)
  show ?case
  proof (cases "empty q")
    case True
    then show ?thesis using Suc.prems empty_iff [OF Suc.prems(1)] by simp
  next
    case False
    obtain c q1 where g: "get q = (c, q1)" by (cases "get q")
    have G: "ok q1" "contents q = c # contents q1" using get_ok [OF Suc.prems(1) False] g by simp_all
    obtain es2 where e: "get_many n q1 = (es2, q')" "es = c # es2"
      using Suc.prems(2) False g by (simp split: prod.splits)
    note I = Suc.IH [OF G(1) e(1)]
    have "length (contents q) = Suc (length (contents q1))" using G(2) by simp
    then have "length es = min (Suc n) (length (contents q))" using I e(2) by (metis length_Cons min_Suc_Suc)
    moreover have "contents q = es @ contents q'" using I G(2) e(2) by (metis append_Cons)
    ultimately show ?thesis using I by blast
  qed
qed

end

section \<open>The ring is a bounded queue\<close>

definition pipe_count :: "pipe \<Rightarrow> nat" where
  "pipe_count p = unat (nwrite p - nread p)"

definition pipe_ok :: "pipe \<Rightarrow> bool" where
  "pipe_ok p \<longleftrightarrow> length (pi_data p) = PIPESIZE \<and> pipe_count p \<le> PIPESIZE"

definition pipe_contents :: "pipe \<Rightarrow> byte list" where
  "pipe_contents p = map (\<lambda>k. pi_data p ! ((unat (nread p) + k) mod PIPESIZE)) [0..<pipe_count p]"

lemma length_pipe_contents [simp]: "length (pipe_contents p) = pipe_count p"
  by (simp add: pipe_contents_def)

lemma unat_add_mod_512: "unat (a + of_nat k :: u32) mod 512 = (unat a + k) mod 512"
proof -
  have "unat (a + of_nat k :: u32) = (unat a + k) mod 2 ^ 32"
    by (simp add: unat_word_ariths unat_of_nat mod_add_right_eq)
  then show ?thesis by (simp add: mod_mod_cancel)
qed

lemma nwrite_count: "nwrite p = nread p + of_nat (pipe_count p)"
  by (simp add: pipe_count_def)

lemma nwrite_slot: "unat (nwrite p) mod PIPESIZE = (unat (nread p) + pipe_count p) mod PIPESIZE"
  using unat_add_mod_512 [of "nread p" "pipe_count p"] by (simp add: PIPESIZE_def flip: nwrite_count)

lemma pipe_full_iff:
  assumes "pipe_ok p"
  shows "pipe_full p \<longleftrightarrow> pipe_count p = PIPESIZE"
proof -
  have "nwrite p = nread p + 512 \<longleftrightarrow> nwrite p - nread p = 512" by (auto simp: algebra_simps)
  also have "\<dots> \<longleftrightarrow> unat (nwrite p - nread p) = 512"
    by (simp add: word_unat_eq_iff)
  finally show ?thesis by (simp add: pipe_full_def pipe_count_def PIPESIZE_def)
qed

lemma pipe_empty_iff: "pipe_empty p \<longleftrightarrow> pipe_count p = 0"
  by (auto simp: pipe_empty_def pipe_count_def unat_eq_0)

lemma pipe_put_spec:
  assumes ok: "pipe_ok p" and nf: "\<not> pipe_full p"
  shows "pipe_ok (pipe_put c p) \<and> pipe_contents (pipe_put c p) = pipe_contents p @ [c]"
proof -
  have n: "pipe_count p < 512" using ok nf pipe_full_iff [OF ok] by (auto simp: pipe_ok_def PIPESIZE_def)
  have "nwrite p + 1 - nread p = (nwrite p - nread p) + 1" by (simp add: algebra_simps)
  moreover have "unat ((nwrite p - nread p) + 1) = Suc (unat (nwrite p - nread p))"
    using n by (simp add: pipe_count_def unat_word_ariths)
  ultimately have "unat (nwrite p + 1 - nread p) = Suc (unat (nwrite p - nread p))" by metis
  then have cnt: "pipe_count (pipe_put c p) = Suc (pipe_count p)"
    by (simp add: pipe_count_def pipe_put_def)
  have len: "length (pi_data p) = 512" using ok by (simp add: pipe_ok_def PIPESIZE_def)
  let ?m = "unat (nread p)"
  have slot: "(?m + k) mod 512 \<noteq> (?m + pipe_count p) mod 512" if "k < pipe_count p" for k
  proof
    assume "(?m + k) mod 512 = (?m + pipe_count p) mod 512"
    then have "512 dvd (?m + pipe_count p) - (?m + k)"
      by (metis mod_eq_dvd_iff_nat add_le_cancel_left less_imp_le that)
    then show False using that n by (auto dest: dvd_imp_le)
  qed
  have "pipe_contents (pipe_put c p) = pipe_contents p @ [c]"
  proof (rule nth_equalityI)
    show "length (pipe_contents (pipe_put c p)) = length (pipe_contents p @ [c])" by (simp add: cnt)
    fix k assume "k < length (pipe_contents (pipe_put c p))"
    then have k: "k < Suc (pipe_count p)" by (simp add: cnt)
    have "pipe_contents (pipe_put c p) ! k = (pi_data p)[(?m + pipe_count p) mod 512 := c] ! ((?m + k) mod 512)"
      using k nwrite_slot [of p] by (simp add: pipe_contents_def cnt del: upt_Suc) (simp add: pipe_put_def PIPESIZE_def)
    also have "\<dots> = (pipe_contents p @ [c]) ! k"
      using k slot [of k] len by (auto simp: less_Suc_eq nth_append pipe_contents_def PIPESIZE_def)
    finally show "pipe_contents (pipe_put c p) ! k = (pipe_contents p @ [c]) ! k" .
  qed
  moreover have "pipe_ok (pipe_put c p)"
    using ok n cnt by (simp add: pipe_ok_def PIPESIZE_def) (simp add: pipe_put_def)
  ultimately show ?thesis by blast
qed

lemma pipe_get_spec:
  assumes ok: "pipe_ok p" and ne: "\<not> pipe_empty p"
  shows "pipe_ok (snd (pipe_get p)) \<and> pipe_contents p = fst (pipe_get p) # pipe_contents (snd (pipe_get p))"
proof -
  let ?q = "snd (pipe_get p)" and ?m = "unat (nread p)"
  have n: "0 < pipe_count p" "pipe_count p \<le> 512" using ok ne by (simp_all add: pipe_empty_iff pipe_ok_def PIPESIZE_def)
  have "nwrite p - (nread p + 1) = (nwrite p - nread p) - 1" by (simp add: algebra_simps)
  moreover have "unat ((nwrite p - nread p) - 1) = unat (nwrite p - nread p) - 1"
    using n(1) by (intro unat_minus_one) (auto simp: pipe_count_def)
  ultimately have "unat (nwrite p - (nread p + 1)) = unat (nwrite p - nread p) - 1" by metis
  then have cnt: "pipe_count ?q = pipe_count p - 1"
    by (simp add: pipe_count_def pipe_get_def)
  have r: "unat (nread p + 1) mod 512 = (?m + 1) mod 512" using unat_add_mod_512 [of "nread p" 1] by simp
  have step: "(unat (nread p + 1) + k) mod 512 = (?m + Suc k) mod 512" for k
    using mod_add_cong [OF r refl, of k] by simp
  have "pipe_contents p = fst (pipe_get p) # pipe_contents ?q"
  proof (rule nth_equalityI)
    show "length (pipe_contents p) = length (fst (pipe_get p) # pipe_contents ?q)" using n cnt by simp
    fix k assume "k < length (pipe_contents p)"
    then show "pipe_contents p ! k = (fst (pipe_get p) # pipe_contents ?q) ! k"
      using cnt n step
      by (cases k) (simp_all add: pipe_contents_def PIPESIZE_def, simp_all add: pipe_get_def PIPESIZE_def)
  qed
  moreover have "pipe_ok ?q" using ok cnt n by (simp add: pipe_ok_def PIPESIZE_def) (simp add: pipe_get_def)
  ultimately show ?thesis by blast
qed

interpretation ring: bounded_queue pipe_ok pipe_contents pipe_full pipe_empty pipe_put pipe_get PIPESIZE
proof unfold_locales
  fix p c
  show "pipe_ok p \<Longrightarrow> pipe_full p = (length (pipe_contents p) = PIPESIZE)" by (simp add: pipe_full_iff)
  show "pipe_ok p \<Longrightarrow> pipe_empty p = (pipe_contents p = [])"
    using length_pipe_contents [of p] by (metis pipe_empty_iff length_0_conv)
  show "pipe_ok p \<Longrightarrow> length (pipe_contents p) \<le> PIPESIZE" by (simp add: pipe_ok_def)
  show "pipe_ok p \<Longrightarrow> \<not> pipe_full p \<Longrightarrow>
      pipe_ok (pipe_put c p) \<and> pipe_contents (pipe_put c p) = pipe_contents p @ [c]" by (rule pipe_put_spec)
  show "pipe_ok p \<Longrightarrow> \<not> pipe_empty p \<Longrightarrow>
      pipe_ok (snd (pipe_get p)) \<and> pipe_contents p = fst (pipe_get p) # pipe_contents (snd (pipe_get p))"
    by (rule pipe_get_spec)
qed

text \<open>The loops of \<open>pipewrite\<close> and \<open>piperead\<close> are those of the queue.\<close>

lemma pipewrite_loop_eq:
  "pipewrite_loop killed cs p = (case ring.put_many cs p of (rest, q) \<Rightarrow>
     (if rest = [] then WDone else if \<not> readopen p \<or> killed then WFail else WWait rest, q))"
  by (induction cs arbitrary: p) (auto simp: pipe_put_def split: prod.splits)

lemma piperead_loop_eq: "piperead_loop n p = ring.get_many n p"
  by (induction n arbitrary: p) (auto simp: Let_def split: prod.splits)

lemma put_many_open: "ring.put_many cs p = (rest, q) \<Longrightarrow> readopen q = readopen p \<and> writeopen q = writeopen p"
  by (induction cs arbitrary: p) (auto simp: pipe_put_def split: if_splits)

lemma get_many_open: "ring.get_many n p = (es, q) \<Longrightarrow> readopen q = readopen p \<and> writeopen q = writeopen p"
proof (induction n arbitrary: p es)
  case (Suc n)
  show ?case
  proof (cases "pipe_empty p")
    case False
    obtain c p1 where g: "pipe_get p = (c, p1)" by (cases "pipe_get p")
    obtain es2 where e: "ring.get_many n p1 = (es2, q)"
      using Suc.prems False g by (simp split: prod.splits)
    then show ?thesis using Suc.IH [OF e] g by (auto simp: pipe_get_def)
  qed (use Suc.prems in simp)
qed simp

section \<open>Readers and writers in any order\<close>

text \<open>
  The pipe with the processes asleep on \<open>nread\<close> and on \<open>nwrite\<close>, and two ghost streams: the bytes taken
  from the writers and the bytes given to the readers. A process that is asleep does not run; an end of the pipe
  is closed when no process can be inside a call on it, because each such process has the file open.
\<close>

record psys =
  the_pipe :: pipe
  sent :: "byte list"
  got :: "byte list"
  rsleep :: "nat set"
  wsleep :: "nat set"

fun wake_up :: "wake \<Rightarrow> psys \<Rightarrow> psys" where
  "wake_up WakeR s = s\<lparr>rsleep := {}\<rparr>"
| "wake_up WakeW s = s\<lparr>wsleep := {}\<rparr>"

definition after_write :: "nat \<Rightarrow> byte list \<Rightarrow> pend \<times> wake list \<times> pipe \<Rightarrow> psys \<Rightarrow> psys" where
  "after_write w cs = (\<lambda>(r, ws, p) s.
     let s' = fold wake_up ws (s\<lparr>the_pipe := p, sent := sent s @ take (unat (nwrite p - nwrite (the_pipe s))) cs\<rparr>) in
     case r of PRet v \<Rightarrow> s' | PSleep rest \<Rightarrow> s'\<lparr>wsleep := insert w (wsleep s')\<rparr>)"

definition after_read :: "nat \<Rightarrow> pend \<times> byte list \<times> wake list \<times> pipe \<Rightarrow> psys \<Rightarrow> psys" where
  "after_read w = (\<lambda>(r, cs, ws, p) s.
     let s' = fold wake_up ws (s\<lparr>the_pipe := p, got := got s @ cs\<rparr>) in
     case r of PRet v \<Rightarrow> s' | PSleep rest \<Rightarrow> s'\<lparr>rsleep := insert w (rsleep s')\<rparr>)"

definition after_close :: "pipe \<times> wake list \<times> bool \<Rightarrow> psys \<Rightarrow> psys" where
  "after_close = (\<lambda>(p, ws, freed) s. fold wake_up ws (s\<lparr>the_pipe := p\<rparr>))"

inductive pstep :: "bool \<Rightarrow> psys \<Rightarrow> psys \<Rightarrow> bool" where
  p_write: "w \<notin> rsleep s \<union> wsleep s \<Longrightarrow> writeopen (the_pipe s) \<Longrightarrow>
     pstep killed s (after_write w cs (pipewrite killed n cs (the_pipe s)) s)"
| p_read: "w \<notin> rsleep s \<union> wsleep s \<Longrightarrow> readopen (the_pipe s) \<Longrightarrow>
     pstep killed s (after_read w (piperead killed n (the_pipe s)) s)"
| p_close: "if writable then wsleep s = {} else rsleep s = {} \<Longrightarrow>
     pstep killed s (after_close (pipeclose writable (the_pipe s)) s)"

text \<open>\<open>preach K\<close>: the states reached by steps of which the killed processes' ones are allowed if \<open>K\<close>.\<close>

inductive preach :: "bool \<Rightarrow> psys \<Rightarrow> bool" for K where
  p_init: "length d = PIPESIZE \<Longrightarrow> preach K \<lparr>the_pipe = pipe_init d, sent = [], got = [], rsleep = {}, wsleep = {}\<rparr>"
| p_step: "preach K s \<Longrightarrow> pstep killed s s' \<Longrightarrow> killed \<longrightarrow> K \<Longrightarrow> preach K s'"

definition stream_inv :: "psys \<Rightarrow> bool" where
  "stream_inv s \<longleftrightarrow> pipe_ok (the_pipe s) \<and> sent s = got s @ pipe_contents (the_pipe s)"

definition pipe_sleep_inv :: "psys \<Rightarrow> bool" where
  "pipe_sleep_inv s \<longleftrightarrow>
     (rsleep s \<noteq> {} \<longrightarrow> pipe_empty (the_pipe s) \<and> writeopen (the_pipe s) \<and> readopen (the_pipe s)) \<and>
     (wsleep s \<noteq> {} \<longrightarrow> pipe_full (the_pipe s) \<and> readopen (the_pipe s) \<and> writeopen (the_pipe s))"

lemma wake_up_keeps [simp]:
  "the_pipe (wake_up w s) = the_pipe s" "sent (wake_up w s) = sent s" "got (wake_up w s) = got s"
  by (cases w; simp)+

lemma put_many_nread: "ring.put_many cs p = (rest, q) \<Longrightarrow> nread q = nread p"
  by (induction cs arbitrary: p) (auto simp: pipe_put_def split: if_splits)

text \<open>What a write segment takes is the beginning of the writer's bytes.\<close>

lemma put_many_taken:
  assumes ok: "pipe_ok p" and m: "ring.put_many cs p = (rest, q)"
  shows "pipe_ok q \<and> pipe_contents q = pipe_contents p @ take (unat (nwrite q - nwrite p)) cs \<and>
    cs = take (unat (nwrite q - nwrite p)) cs @ rest \<and> (rest \<noteq> [] \<longrightarrow> pipe_full q)"
proof -
  from ring.put_many_spec [OF ok m] obtain dn where d: "pipe_ok q" "cs = dn @ rest" "pipe_contents q = pipe_contents p @ dn"
      "rest \<noteq> [] \<longrightarrow> pipe_full q"
    by blast
  have "pipe_count q = pipe_count p + length dn"
    using d(3) length_pipe_contents by (metis length_append)
  then have "nwrite q - nwrite p = of_nat (length dn)"
    using nwrite_count [of q] nwrite_count [of p] put_many_nread [OF m] by simp
  moreover have "length dn \<le> 512"
    using d(1) \<open>pipe_count q = _\<close> by (simp add: pipe_ok_def PIPESIZE_def)
  ultimately have "unat (nwrite q - nwrite p) = length dn" by (simp add: unat_of_nat take_bit_eq_mod)
  then show ?thesis using d by simp
qed

lemma pstep_stream:
  assumes "pstep killed s s'" and "stream_inv s"
  shows "stream_inv s'"
  using assms
proof (induction rule: pstep.induct)
  case (p_write w s killed cs n)
  let ?p = "the_pipe s"
  obtain rest q where m: "ring.put_many cs ?p = (rest, q)" by fastforce
  have T: "pipe_ok q" "pipe_contents q = pipe_contents ?p @ take (unat (nwrite q - nwrite ?p)) cs"
    using put_many_taken [OF _ m] p_write.prems by (simp_all add: stream_inv_def)
  show ?case
    using T p_write.prems m
    by (simp add: stream_inv_def pipewrite_def pipewrite_loop_eq after_write_def Let_def split: pend.split if_splits)
next
  case (p_read w s killed n)
  obtain es q where m: "ring.get_many (nat n) (the_pipe s) = (es, q)" by fastforce
  have T: "pipe_ok q" "pipe_contents (the_pipe s) = es @ pipe_contents q"
    using ring.get_many_spec [OF _ m] p_read.prems by (simp_all add: stream_inv_def)
  show ?case
    using T p_read.prems m by (simp add: stream_inv_def piperead_def piperead_loop_eq after_read_def Let_def)
next
  case (p_close writable s killed)
  then show ?case
    by (simp add: stream_inv_def pipeclose_def after_close_def Let_def pipe_ok_def pipe_count_def pipe_contents_def)
qed

lemma pstep_sleep:
  assumes "pstep killed s s'" and "\<not> killed" and "stream_inv s" and "pipe_sleep_inv s"
  shows "pipe_sleep_inv s'"
  using assms
proof (induction rule: pstep.induct)
  case (p_write w s killed cs n)
  let ?p = "the_pipe s"
  obtain rest q where m: "ring.put_many cs ?p = (rest, q)" by fastforce
  have ok: "pipe_ok ?p" using p_write.prems by (simp add: stream_inv_def)
  note T = put_many_taken [OF ok m] and O = put_many_open [OF m]
  have full: "q = ?p" if "pipe_full ?p" using that m by (cases cs) simp_all
  have r: "rsleep s = {}" if "\<not> readopen ?p" using that p_write.prems by (auto simp: pipe_sleep_inv_def)
  show ?case
    using T O p_write full r m
    by (auto simp: pipe_sleep_inv_def pipewrite_def pipewrite_loop_eq after_write_def Let_def split: if_splits)
next
  case (p_read w s killed n)
  obtain es q where m: "ring.get_many (nat n) (the_pipe s) = (es, q)" by fastforce
  note O = get_many_open [OF m]
  show ?case
  proof (cases "pipe_empty (the_pipe s) \<and> writeopen (the_pipe s)")
    case True
    then show ?thesis using p_read by (simp add: pipe_sleep_inv_def piperead_def after_read_def)
  next
    case False
    then have "rsleep s = {}" using p_read.prems by (auto simp: pipe_sleep_inv_def)
    moreover have "piperead killed n (the_pipe s) = (PRet (int (length es)), es, [WakeW], q)"
      unfolding piperead_def piperead_loop_eq m using False by (simp only: if_False Let_def prod.case)
    ultimately show ?thesis by (simp add: pipe_sleep_inv_def after_read_def)
  qed
next
  case (p_close writable s killed)
  have [simp]: "pipe_empty (p\<lparr>readopen := b\<rparr>) = pipe_empty p" "pipe_full (p\<lparr>writeopen := b\<rparr>) = pipe_full p" for p b
    by (simp_all add: pipe_empty_def pipe_full_def)
  show ?case
    using p_close by (cases writable) (simp_all add: pipe_sleep_inv_def pipeclose_def after_close_def)
qed

section \<open>Properties\<close>

text \<open>
  C5: A pipe is a first-in first-out stream. For every interleaving of the segments of any number of readers and
  writers, killed or not, with closes of either end, the bytes delivered to the readers followed by the bytes in the ring
  are the bytes taken from the writers, in order; the ring never holds more than 512 bytes, and this holds across
  the wrap-around of the 32-bit counters.
\<close>

theorem pipe_is_fifo:
  assumes "preach K s"
  shows "sent s = got s @ pipe_contents (the_pipe s) \<and> pipe_count (the_pipe s) \<le> PIPESIZE"
proof -
  have "stream_inv s"
    using assms
  proof (induction rule: preach.induct)
    case (p_init d)
    then show ?case by (simp add: stream_inv_def pipe_init_def pipe_ok_def pipe_count_def pipe_contents_def)
  next
    case (p_step s killed s')
    then show ?case using pstep_stream by blast
  qed
  then show ?thesis by (simp add: stream_inv_def pipe_ok_def)
qed


text \<open>A fresh pipe, for the examples.\<close>

definition new_psys :: psys where
  "new_psys = \<lparr>the_pipe = pipe_init (replicate PIPESIZE 0), sent = [], got = [], rsleep = {}, wsleep = {}\<rparr>"

lemma preach_new: "preach K new_psys"
  unfolding new_psys_def by (rule p_init) simp

lemma new_reader_sleeps:
  "preach K (new_psys\<lparr>rsleep := {1}\<rparr>)"
proof -
  have "preach K (after_read 1 (piperead False 10 (the_pipe new_psys)) new_psys)"
    by (rule p_step [OF preach_new p_read]) (simp_all add: new_psys_def pipe_init_def)
  then show ?thesis
    by (simp add: after_read_def piperead_def new_psys_def pipe_init_def pipe_empty_def)
qed

theorem pipe_is_fifo_witness:
  "\<exists>s. preach False s \<and> sent s = [1, 2, 3] \<and> got s = [1, 2] \<and> [1, 2, 3] = [1, 2] @ pipe_contents (the_pipe s)"
proof -
  define s1 where "s1 = after_write 0 [1, 2, 3] (pipewrite False 3 [1, 2, 3] (the_pipe new_psys)) new_psys"
  define s2 where "s2 = after_read 1 (piperead False 2 (the_pipe s1)) s1"
  have r1: "preach False s1"
    unfolding s1_def by (rule p_step [OF preach_new p_write]) (simp_all add: new_psys_def pipe_init_def)
  have s1: "sent s1 = [1, 2, 3]" "got s1 = []" "rsleep s1 = {}" "wsleep s1 = {}" "nread (the_pipe s1) = 0" "nwrite (the_pipe s1) = 3"
    "readopen (the_pipe s1)" "length (pi_data (the_pipe s1)) = 512" "pi_data (the_pipe s1) ! 0 = 1" "pi_data (the_pipe s1) ! 1 = 2"
    by (simp_all add: s1_def after_write_def pipewrite_def new_psys_def pipe_init_def pipe_full_def pipe_put_def PIPESIZE_def nth_list_update)
  have r2: "preach False s2"
    unfolding s2_def by (rule p_step [OF r1 p_read]) (simp_all add: s1)
  have "piperead_loop (Suc (Suc 0)) (the_pipe s1) = ([1, 2], (the_pipe s1)\<lparr>nread := 2\<rparr>)"
    using s1 by (simp add: pipe_empty_def pipe_get_def PIPESIZE_def)
  then have two: "piperead_loop 2 (the_pipe s1) = ([1, 2], (the_pipe s1)\<lparr>nread := 2\<rparr>)"
    by (simp only: numeral_2_eq_2)
  have g: "sent s2 = [1, 2, 3]" "got s2 = [1, 2]"
    using s1 two by (simp_all add: s2_def after_read_def piperead_def pipe_empty_def)
  from pipe_is_fifo [OF r2] g r2 show ?thesis by (intro exI [of _ s2]) simp
qed



end
