(* ===== verification/Memory.thy ===== *)
theory Memory
  imports Prelude
begin

text \<open>
  Byte-addressed memory and the functions of \<open>string.c\<close> and \<open>ulib.c\<close> that work on it.
  An address is a natural number; the objects a routine touches are taken to lie inside the
  address space, so that pointer arithmetic does not wrap. Loops that stop at a NUL byte are
  option-valued: \<open>None\<close> says that the loop never meets one.
\<close>

unbundle bit_operations_syntax

section \<open>Memory\<close>

type_synonym mem = "nat \<Rightarrow> byte"

definition load_bytes :: "mem \<Rightarrow> nat \<Rightarrow> nat \<Rightarrow> byte list" where
  "load_bytes m a n = map (\<lambda>i. m (a + i)) [0..<n]"

definition store_bytes :: "mem \<Rightarrow> nat \<Rightarrow> byte list \<Rightarrow> mem" where
  "store_bytes m a bs = (\<lambda>x. if a \<le> x \<and> x < a + length bs then bs ! (x - a) else m x)"

text \<open>Access to a 32-bit word, as \<open>*(uint*)p\<close> does.\<close>

definition get32 :: "mem \<Rightarrow> nat \<Rightarrow> u32" where
  "get32 m a = of_nat (le_nat (load_bytes m a 4))"

definition put32 :: "mem \<Rightarrow> nat \<Rightarrow> u32 \<Rightarrow> mem" where
  "put32 m a v = store_bytes m a (le_bytes 4 (unat v))"

lemma length_load_bytes [simp]: "length (load_bytes m a n) = n"
  by (simp add: load_bytes_def)

lemma load_store_same [simp]: "load_bytes (store_bytes m a bs) a (length bs) = bs"
  by (auto simp: load_bytes_def store_bytes_def intro: nth_equalityI)

lemma load_store_disjoint:
  "a + n \<le> b \<or> b + length bs \<le> a \<Longrightarrow> load_bytes (store_bytes m b bs) a n = load_bytes m a n"
  by (auto simp: load_bytes_def store_bytes_def)

lemma store_outside [simp]: "x < a \<or> a + length bs \<le> x \<Longrightarrow> store_bytes m a bs x = m x"
  by (auto simp: store_bytes_def)

lemma get32_put32_same [simp]: "get32 (put32 m a v) a = v"
proof -
  have "load_bytes (put32 m a v) a 4 = le_bytes 4 (unat v)"
    using load_store_same [of m a "le_bytes 4 (unat v)"] by (simp add: put32_def)
  moreover have "unat v < 256 ^ 4"
    using unsigned_less [of v] by simp
  ultimately show ?thesis by (simp add: get32_def)
qed

lemma get32_put32_disjoint: "a + 4 \<le> b \<or> b + 4 \<le> a \<Longrightarrow> get32 (put32 m b v) a = get32 m a"
  by (simp add: get32_def put32_def load_store_disjoint)

lemma get32_store_disjoint:
  "a + 4 \<le> b \<or> b + length bs \<le> a \<Longrightarrow> get32 (store_bytes m b bs) a = get32 m a"
  by (simp add: get32_def load_store_disjoint)

lemma put32_outside [simp]: "x < a \<or> a + 4 \<le> x \<Longrightarrow> put32 m a v x = m x"
  by (simp add: put32_def)

section \<open>string.c\<close>

text \<open>The string instructions \<open>rep stosb\<close> and \<open>rep stosl\<close>.\<close>

fun stosb :: "mem \<Rightarrow> nat \<Rightarrow> byte \<Rightarrow> nat \<Rightarrow> mem" where
  "stosb m addr data 0 = m"
| "stosb m addr data (Suc cnt) = stosb (m(addr := data)) (addr + 1) data cnt"

fun stosl :: "mem \<Rightarrow> nat \<Rightarrow> u32 \<Rightarrow> nat \<Rightarrow> mem" where
  "stosl m addr data 0 = m"
| "stosl m addr data (Suc cnt) = stosl (put32 m addr data) (addr + 4) data cnt"

definition memset :: "mem \<Rightarrow> nat \<Rightarrow> u32 \<Rightarrow> nat \<Rightarrow> mem" where
  "memset m dst c n =
     (if dst mod 4 = 0 \<and> n mod 4 = 0
      then let c = c AND 0xFF in
        stosl m dst (push_bit 24 c OR push_bit 16 c OR push_bit 8 c OR c) (n div 4)
      else stosb m dst (ucast c) n)"

fun memcmp :: "mem \<Rightarrow> nat \<Rightarrow> nat \<Rightarrow> nat \<Rightarrow> int" where
  "memcmp m s1 s2 0 = 0"
| "memcmp m s1 s2 (Suc n) =
     (if m s1 \<noteq> m s2 then uint (m s1) - uint (m s2) else memcmp m (s1 + 1) (s2 + 1) n)"

text \<open>The two copy loops of \<open>memmove\<close>: from the end, and from the start.\<close>

fun copy_down :: "mem \<Rightarrow> nat \<Rightarrow> nat \<Rightarrow> nat \<Rightarrow> mem" where
  "copy_down m d s 0 = m"
| "copy_down m d s (Suc n) = copy_down (m(d - 1 := m (s - 1))) (d - 1) (s - 1) n"

fun copy_up :: "mem \<Rightarrow> nat \<Rightarrow> nat \<Rightarrow> nat \<Rightarrow> mem" where
  "copy_up m d s 0 = m"
| "copy_up m d s (Suc n) = copy_up (m(d := m s)) (d + 1) (s + 1) n"

definition memmove :: "mem \<Rightarrow> nat \<Rightarrow> nat \<Rightarrow> nat \<Rightarrow> mem" where
  "memmove m dst src n =
     (if src < dst \<and> src + n > dst then copy_down m (dst + n) (src + n) n
      else copy_up m dst src n)"

definition memcpy :: "mem \<Rightarrow> nat \<Rightarrow> nat \<Rightarrow> nat \<Rightarrow> mem" where
  "memcpy m dst src n = memmove m dst src n"

fun strncmp :: "mem \<Rightarrow> nat \<Rightarrow> nat \<Rightarrow> nat \<Rightarrow> int" where
  "strncmp m p q 0 = 0"
| "strncmp m p q (Suc n) =
     (if m p \<noteq> 0 \<and> m p = m q then strncmp m (p + 1) (q + 1) n
      else uint (m p) - uint (m q))"

text \<open>
  \<open>strncpy\<close>: the first loop copies up to and including the NUL byte, the second one pads.
  After the first loop has copied a NUL the count has already been decremented for it.
\<close>

fun strncpy :: "mem \<Rightarrow> nat \<Rightarrow> nat \<Rightarrow> nat \<Rightarrow> mem" where
  "strncpy m s t 0 = m"
| "strncpy m s t (Suc n) =
     (let m' = m(s := m t) in
      if m' s \<noteq> 0 then strncpy m' (s + 1) (t + 1) n else stosb m' (s + 1) 0 n)"

fun safestrcpy_loop :: "mem \<Rightarrow> nat \<Rightarrow> nat \<Rightarrow> nat \<Rightarrow> mem" where
  "safestrcpy_loop m s t 0 = m(s := 0)"
| "safestrcpy_loop m s t (Suc n) =
     (let m' = m(s := m t) in
      if m' s \<noteq> 0 then safestrcpy_loop m' (s + 1) (t + 1) n else m'(s + 1 := 0))"

definition safestrcpy :: "mem \<Rightarrow> nat \<Rightarrow> nat \<Rightarrow> int \<Rightarrow> mem" where
  "safestrcpy m s t n = (if n \<le> 0 then m else safestrcpy_loop m s t (nat (n - 1)))"

partial_function (option) strlen_from :: "mem \<Rightarrow> nat \<Rightarrow> nat \<Rightarrow> nat option" where
  "strlen_from m s n = (if m (s + n) \<noteq> 0 then strlen_from m s (n + 1) else Some n)"

definition strlen :: "mem \<Rightarrow> nat \<Rightarrow> nat option" where
  "strlen m s = strlen_from m s 0"

section \<open>ulib.c\<close>

partial_function (option) strcpy :: "mem \<Rightarrow> nat \<Rightarrow> nat \<Rightarrow> mem option" where
  "strcpy m s t =
     (let m' = m(s := m t) in if m' s \<noteq> 0 then strcpy m' (s + 1) (t + 1) else Some m')"

partial_function (option) strcmp :: "mem \<Rightarrow> nat \<Rightarrow> nat \<Rightarrow> int option" where
  "strcmp m p q =
     (if m p \<noteq> 0 \<and> m p = m q then strcmp m (p + 1) (q + 1)
      else Some (uint (m p) - uint (m q)))"

text \<open>\<open>strchr\<close> returns the null pointer, here the inner \<open>None\<close>, when there is no match.\<close>

partial_function (option) strchr :: "mem \<Rightarrow> nat \<Rightarrow> byte \<Rightarrow> nat option option" where
  "strchr m s c =
     (if m s \<noteq> 0 then if m s = c then Some (Some s) else strchr m (s + 1) c else Some None)"

text \<open>\<open>atoi\<close>: the digits are accumulated in an \<open>int\<close> that wraps around.\<close>

partial_function (option) atoi_from :: "mem \<Rightarrow> nat \<Rightarrow> u32 \<Rightarrow> u32 option" where
  "atoi_from m s n =
     (if 48 \<le> m s \<and> m s \<le> 57 then atoi_from m (s + 1) (n * 10 + ucast (m s) - 48) else Some n)"

definition atoi :: "mem \<Rightarrow> nat \<Rightarrow> int option" where
  "atoi m s = map_option sint (atoi_from m s 0)"

definition ulib_memmove :: "mem \<Rightarrow> nat \<Rightarrow> nat \<Rightarrow> int \<Rightarrow> mem" where
  "ulib_memmove m vdst vsrc n = copy_up m vdst vsrc (nat n)"

section \<open>Reference definitions and equivalences\<close>

lemma store_bytes_Nil [simp]: "store_bytes m a [] = m"
  by (auto simp: store_bytes_def fun_eq_iff)

lemma store_bytes_Cons: "store_bytes m a (b # bs) = store_bytes (m(a := b)) (a + 1) bs"
  by (auto simp: store_bytes_def fun_eq_iff nth_Cons')

lemma store_bytes_append:
  "store_bytes m a (bs @ cs) = store_bytes (store_bytes m a bs) (a + length bs) cs"
  by (induction bs arbitrary: m a) (auto simp: store_bytes_Cons)

lemma stosb_fill: "stosb m a b n = store_bytes m a (replicate n b)"
  by (induction n arbitrary: m a) (auto simp: store_bytes_Cons)

lemma stosl_fill:
  assumes "le_bytes 4 (unat w) = replicate 4 b"
  shows "stosl m a w n = store_bytes m a (replicate (4 * n) b)"
proof (induction n arbitrary: m a)
  case (Suc n)
  have "replicate (4 * Suc n) b = replicate 4 b @ replicate (4 * n) b"
    by (simp flip: replicate_add)
  with Suc show ?case
    by (simp add: put32_def assms store_bytes_append)
qed simp

lemma of_nat_byte_mod [simp]: "(of_nat (n mod 256) :: byte) = of_nat n"
  by (simp add: word_unat_eq_iff unat_of_nat)

lemma replicate_4: "replicate 4 x = [x, x, x, x]"
  by (simp add: eval_nat_numeral)

lemma le_bytes_4:
  "le_bytes 4 v = [of_nat v, of_nat (v div 256), of_nat (v div 65536), of_nat (v div 16777216)]"
proof -
  have "(4 :: nat) = Suc (Suc (Suc (Suc 0)))" by simp
  then show ?thesis
    by (simp only: le_bytes.simps of_nat_byte_mod flip: div_mult2_eq) simp
qed

lemma le_bytes_word:
  "le_bytes 4 (unat (w :: u32)) =
   [ucast w, ucast (drop_bit 8 w), ucast (drop_bit 16 w), ucast (drop_bit 24 w)]"
proof -
  have d: "unat (drop_bit k w) = unat w div 2 ^ k" for k
    by (simp add: unat_drop_bit_eq flip: drop_bit_eq_div)
  have u: "(ucast v :: byte) = of_nat (unat v)" for v :: u32
    by simp
  show ?thesis
    by (simp only: u d le_bytes_4) simp
qed

lemma spread_byte:
  fixes c :: u32
  defines "b \<equiv> c AND 0xFF"
  shows "le_bytes 4 (unat (push_bit 24 b OR push_bit 16 b OR push_bit 8 b OR b)) =
         replicate 4 (ucast c)"
proof -
  have b: "b = take_bit 8 c"
    by (simp add: b_def take_bit_eq_mask mask_eq_exp_minus_1)
  let ?w = "push_bit 24 b OR push_bit 16 b OR push_bit 8 b OR b"
  have "(ucast ?w :: byte) = ucast c"
    by (rule bit_word_eqI) (simp add: b bit_simps)
  moreover have "(ucast (drop_bit 8 ?w) :: byte) = ucast c"
    by (rule bit_word_eqI) (simp add: b bit_simps)
  moreover have "(ucast (drop_bit 16 ?w) :: byte) = ucast c"
    by (rule bit_word_eqI) (simp add: b bit_simps)
  moreover have "(ucast (drop_bit 24 ?w) :: byte) = ucast c"
    by (rule bit_word_eqI) (simp add: b bit_simps)
  ultimately show ?thesis
    by (simp only: le_bytes_word replicate_4)
qed

lemma memset_fill: "memset m dst c n = store_bytes m dst (replicate n (ucast c))"
proof (cases "dst mod 4 = 0 \<and> n mod 4 = 0")
  case True
  then have "4 * (n div 4) = n" by auto
  with True show ?thesis
    unfolding memset_def Let_def by (simp only: stosl_fill [OF spread_byte] if_True simp_thms)
next
  case False
  then show ?thesis by (auto simp: memset_def stosb_fill)
qed

lemma copy_up_apply:
  assumes "dst \<le> src \<or> src + n \<le> dst"
  shows "copy_up m dst src n x = (if dst \<le> x \<and> x < dst + n then m (src + (x - dst)) else m x)"
  using assms
proof (induction n arbitrary: m dst src)
  case (Suc n)
  then have "dst + 1 \<le> src + 1 \<or> src + 1 + n \<le> dst + 1" by auto
  note IH = Suc.IH [OF this]
  have e: "dst < x \<Longrightarrow> src + 1 + (x - (dst + 1)) = src + (x - dst)" by simp
  show ?case
    unfolding copy_up.simps IH
    using Suc.prems by (cases x dst rule: linorder_cases) (auto simp: e simp del: add_Suc)
qed auto

lemma copy_down_apply:
  assumes "src < dst"
  shows "copy_down m (dst + n) (src + n) n x =
    (if dst \<le> x \<and> x < dst + n then m (src + (x - dst)) else m x)"
proof (induction n arbitrary: m)
  case (Suc n)
  have "copy_down m (dst + Suc n) (src + Suc n) (Suc n) x =
      copy_down (m(dst + n := m (src + n))) (dst + n) (src + n) n x"
    by simp
  then show ?case
    using assms by (simp only: Suc.IH) auto
qed auto

lemma memmove_apply:
  "memmove m dst src n x = (if dst \<le> x \<and> x < dst + n then m (src + (x - dst)) else m x)"
proof (cases "src < dst \<and> src + n > dst")
  case True
  then show ?thesis by (simp add: memmove_def copy_down_apply)
next
  case False
  then have "dst \<le> src \<or> src + n \<le> dst" by auto
  note up = copy_up_apply [OF this]
  show ?thesis using False unfolding memmove_def by (simp only: up if_False)
qed

lemma memmove_copies: "memmove m dst src n = store_bytes m dst (load_bytes m src n)"
  by (auto simp: memmove_apply store_bytes_def load_bytes_def fun_eq_iff)

lemma memcmp_zero_iff: "memcmp m s1 s2 n = 0 \<longleftrightarrow> load_bytes m s1 n = load_bytes m s2 n"
proof (induction n arbitrary: s1 s2)
  case (Suc n)
  have l: "load_bytes m a (Suc n) = m a # load_bytes m (a + 1) n" for a
    by (simp add: load_bytes_def upt_conv_Cons map_Suc_upt [symmetric] del: upt_Suc)
  show ?case using Suc by (simp add: l word_uint_eq_iff)
qed (simp add: load_bytes_def)

lemma strncmp_zero_iff:
  "strncmp m p q n = 0 \<longleftrightarrow>
   (\<forall>i < n. (\<forall>j < i. m (p + j) \<noteq> 0) \<longrightarrow> m (p + i) = m (q + i))"
proof (induction n arbitrary: p q)
  case (Suc n)
  have split: "(\<forall>i < Suc n. P i) \<longleftrightarrow> P 0 \<and> (\<forall>i < n. P (Suc i))" for P
    by (auto simp: less_Suc_eq_0_disj)
  have split': "(\<forall>j < Suc i. Q j) \<longleftrightarrow> Q 0 \<and> (\<forall>j < i. Q (Suc j))" for Q i
    by (auto simp: less_Suc_eq_0_disj)
  show ?case using Suc by (auto simp: split split' word_uint_eq_iff)
qed simp

lemma strlen_from_step:
  assumes "m (s + k) = 0" and "\<And>i. i < k \<Longrightarrow> m (s + i) \<noteq> 0" and "n \<le> k"
  shows "strlen_from m s n = Some k"
  using assms(3)
proof (induction "k - n" arbitrary: n)
  case 0
  then show ?case using assms(1) by (simp add: strlen_from.simps)
next
  case (Suc d)
  then have "strlen_from m s (n + 1) = Some k" by simp
  with Suc assms(2) [of n] show ?case by (subst strlen_from.simps) simp
qed

lemma safestrcpy_loop_frame: "x < s \<or> s + Suc n \<le> x \<Longrightarrow> safestrcpy_loop m s t n x = m x"
  by (induction n arbitrary: m s t) (auto simp: Let_def)

lemma safestrcpy_loop_copies:
  assumes "s + n < t \<or> t + n \<le> s"
  shows "\<exists>k \<le> n. (\<forall>i < k. safestrcpy_loop m s t n (s + i) = m (t + i) \<and> m (t + i) \<noteq> 0) \<and>
    safestrcpy_loop m s t n (s + k) = 0 \<and> (k = n \<or> m (t + k) = 0)"
  using assms
proof (induction n arbitrary: m s t)
  case 0
  then show ?case by simp
next
  case (Suc n)
  show ?case
  proof (cases "m t = 0")
    case True
    then show ?thesis by (intro exI [of _ 0]) (auto simp: Let_def)
  next
    case False
    define m1 where "m1 = m(s := m t)"
    have step: "safestrcpy_loop m s t (Suc n) = safestrcpy_loop m1 (s + 1) (t + 1) n"
      using False by (simp add: Let_def m1_def)
    have dis: "s + 1 + n < t + 1 \<or> t + 1 + n \<le> s + 1" using Suc.prems by auto
    obtain k where k: "k \<le> n"
      "\<forall>i < k. safestrcpy_loop m1 (s + 1) (t + 1) n (s + 1 + i) = m1 (t + 1 + i) \<and> m1 (t + 1 + i) \<noteq> 0"
      "safestrcpy_loop m1 (s + 1) (t + 1) n (s + 1 + k) = 0" "k = n \<or> m1 (t + 1 + k) = 0"
      using Suc.IH [OF dis] by blast
    have src: "m1 (t + 1 + i) = m (t + Suc i)" if "i < n" for i
      using Suc.prems that by (auto simp: m1_def)
    have first: "safestrcpy_loop m1 (s + 1) (t + 1) n s = m t"
      by (simp add: safestrcpy_loop_frame m1_def)
    show ?thesis
      unfolding step
    proof (intro exI [of _ "Suc k"] conjI)
      show "\<forall>i < Suc k. safestrcpy_loop m1 (s + 1) (t + 1) n (s + i) = m (t + i) \<and> m (t + i) \<noteq> 0"
        using False first k(1,2) src by (auto simp: less_Suc_eq_0_disj)
      show "safestrcpy_loop m1 (s + 1) (t + 1) n (s + Suc k) = 0"
        using k(3) by simp
      show "Suc k = Suc n \<or> m (t + Suc k) = 0"
        using k(1,4) src [of k] by (cases "k = n") auto
    qed (use k(1) in simp)
  qed
qed

section \<open>Properties\<close>

text \<open>
  C31: \<open>memmove\<close> copies the bytes the source held before the call, for every way in which
  source and destination may overlap, and changes nothing else.
\<close>

theorem memmove_any_overlap:
  "load_bytes (memmove m dst src n) dst n = load_bytes m src n \<and>
   (x < dst \<or> dst + n \<le> x \<longrightarrow> memmove m dst src n x = m x)"
  using load_store_same [of m dst "load_bytes m src n"] by (simp add: memmove_copies)

theorem memmove_any_overlap_witness:
  "memmove (\<lambda>a. of_nat a) 3 1 4 9 = 9 \<and>
   load_bytes (memmove (\<lambda>a. of_nat a) 3 1 4) 3 4 = [1, 2, 3, 4]"
  using memmove_any_overlap [of "\<lambda>a. of_nat a" 3 1 4 9]
  by (simp add: load_bytes_def upt_rec)

text \<open>
  The two ways in which the kernel's \<open>memset\<close> fills memory, by words when address and
  length are multiples of four and by bytes otherwise, both store the low byte of the fill value
  in each of the \<open>n\<close> bytes and nowhere else.
\<close>

theorem memset_word_and_byte_paths:
  "memset m dst c n = (\<lambda>a. if dst \<le> a \<and> a < dst + n then ucast c else m a)"
  by (auto simp: memset_fill store_bytes_def fun_eq_iff)

text \<open>
  C32: for a positive size and a source that does not overlap the destination,
  \<open>safestrcpy\<close> writes only inside the \<open>n\<close> bytes of the destination, and what it leaves
  there is the source's string cut to at most \<open>n - 1\<close> characters, with a terminating NUL.
\<close>

theorem safestrcpy_terminated:
  assumes "0 < n" and "s + nat n \<le> t \<or> t + nat n \<le> s + 1"
  shows "(\<exists>k < nat n. (\<forall>i < k. safestrcpy m s t n (s + i) = m (t + i) \<and> m (t + i) \<noteq> 0) \<and>
      safestrcpy m s t n (s + k) = 0 \<and> (k = nat n - 1 \<or> m (t + k) = 0)) \<and>
    (\<forall>x. x < s \<or> s + nat n \<le> x \<longrightarrow> safestrcpy m s t n x = m x)"
proof
  have n: "nat n = Suc (nat (n - 1))" using assms(1) by simp
  have "\<exists>k \<le> nat (n - 1). (\<forall>i < k. safestrcpy m s t n (s + i) = m (t + i) \<and> m (t + i) \<noteq> 0) \<and>
      safestrcpy m s t n (s + k) = 0 \<and> (k = nat (n - 1) \<or> m (t + k) = 0)"
    using safestrcpy_loop_copies [of s "nat (n - 1)" t m] assms by (auto simp: safestrcpy_def n)
  then show "\<exists>k < nat n. (\<forall>i < k. safestrcpy m s t n (s + i) = m (t + i) \<and> m (t + i) \<noteq> 0) \<and>
      safestrcpy m s t n (s + k) = 0 \<and> (k = nat n - 1 \<or> m (t + k) = 0)"
    by (auto simp: n less_Suc_eq_le)
  show "\<forall>x. x < s \<or> s + nat n \<le> x \<longrightarrow> safestrcpy m s t n x = m x"
    using assms(1) by (auto simp: safestrcpy_def safestrcpy_loop_frame n)
qed

theorem safestrcpy_terminated_witness:
  "safestrcpy (\<lambda>a. if a = 102 then 0 else 65) 0 100 16 50 = 65"
  using safestrcpy_terminated [of 16 0 100 "\<lambda>a. if a = 102 then 0 else 65"] by simp

end
