(* ===== verification/Kalloc.thy ===== *)
theory Kalloc
  imports Memory
begin

text \<open>
  The physical page allocator \<open>kalloc.c\<close>: a free list threaded through the free pages
  themselves. Its contract is the locale \<open>page_allocator\<close>: allocation takes a page out of
  the set of free pages, freeing puts one back. \<open>kend\<close> stands for the linker symbol
  \<open>end\<close>, the first address after the kernel.
\<close>

section \<open>Memory layout\<close>

definition PGSIZE :: nat where "PGSIZE = 4096"
definition KERNBASE :: u32 where "KERNBASE = 0x80000000"
definition EXTMEM :: u32 where "EXTMEM = 0x100000"
definition PHYSTOP :: u32 where "PHYSTOP = 0xE000000"
definition DEVSPACE :: u32 where "DEVSPACE = 0xFE000000"

definition V2P :: "u32 \<Rightarrow> u32" where "V2P a = a - KERNBASE"
definition P2V :: "u32 \<Rightarrow> u32" where "P2V a = a + KERNBASE"

definition PGROUNDUP :: "u32 \<Rightarrow> u32" where
  "PGROUNDUP sz = (sz + 4096 - 1) AND NOT (4096 - 1)"

definition PGROUNDDOWN :: "u32 \<Rightarrow> u32" where
  "PGROUNDDOWN a = a AND NOT (4096 - 1)"

section \<open>Allocator\<close>

record machine =
  memory :: mem
  freelist :: u32
  use_lock :: bool

definition kfree :: "u32 \<Rightarrow> u32 \<Rightarrow> machine \<Rightarrow> machine res" where
  "kfree kend v s =
     (if unat v mod PGSIZE \<noteq> 0 \<or> v < kend \<or> V2P v \<ge> PHYSTOP then Inl (Panic ''kfree'')
      else let m = memset (memory s) (unat v) 1 PGSIZE in
        Inr (s\<lparr>memory := put32 m (unat v) (freelist s), freelist := v\<rparr>))"

definition kalloc :: "machine \<Rightarrow> u32 \<times> machine" where
  "kalloc s =
     (let r = freelist s in
      if r \<noteq> 0 then (r, s\<lparr>freelist := get32 (memory s) (unat r)\<rparr>) else (r, s))"

text \<open>
  The loop of \<open>freerange\<close>; its bound is compared without wrap-around, since the range lies
  inside the address space.
\<close>

function freerange_loop :: "u32 \<Rightarrow> nat \<Rightarrow> nat \<Rightarrow> machine \<Rightarrow> machine res" where
  "freerange_loop kend p vend s =
     (if p + PGSIZE \<le> vend
      then bindE (kfree kend (of_nat p) s) (\<lambda>s. freerange_loop kend (p + PGSIZE) vend s)
      else Inr s)"
  by pat_completeness auto
termination
  by (relation "measure (\<lambda>(kend, p, vend, s). vend - p)") (auto simp: PGSIZE_def)

declare freerange_loop.simps [simp del]

definition freerange :: "u32 \<Rightarrow> u32 \<Rightarrow> u32 \<Rightarrow> machine \<Rightarrow> machine res" where
  "freerange kend vstart vend s =
     freerange_loop kend (unat (PGROUNDUP vstart)) (unat vend) s"

definition kinit1 :: "u32 \<Rightarrow> u32 \<Rightarrow> u32 \<Rightarrow> machine \<Rightarrow> machine res" where
  "kinit1 kend vstart vend s = freerange kend vstart vend (s\<lparr>use_lock := False\<rparr>)"

definition kinit2 :: "u32 \<Rightarrow> u32 \<Rightarrow> u32 \<Rightarrow> machine \<Rightarrow> machine res" where
  "kinit2 kend vstart vend s =
     bindE (freerange kend vstart vend s) (\<lambda>s. Inr (s\<lparr>use_lock := True\<rparr>))"

section \<open>The free list\<close>

text \<open>A page that \<open>kfree\<close> accepts, other than the null page.\<close>

definition good_page :: "u32 \<Rightarrow> u32 \<Rightarrow> bool" where
  "good_page kend v \<longleftrightarrow> v \<noteq> 0 \<and> unat v mod PGSIZE = 0 \<and> kend \<le> v \<and> V2P v < PHYSTOP"

fun flist :: "u32 \<Rightarrow> mem \<Rightarrow> u32 \<Rightarrow> u32 list \<Rightarrow> bool" where
  "flist kend m r [] \<longleftrightarrow> r = 0"
| "flist kend m r (p # ps) \<longleftrightarrow> r = p \<and> good_page kend p \<and> flist kend m (get32 m (unat p)) ps"

text \<open>\<open>kalloc_inv kend s F\<close>: the free list is well formed and \<open>F\<close> is the set of its pages.\<close>

definition kalloc_inv :: "u32 \<Rightarrow> machine \<Rightarrow> u32 set \<Rightarrow> bool" where
  "kalloc_inv kend s F \<longleftrightarrow>
     (\<exists>ps. flist kend (memory s) (freelist s) ps \<and> distinct ps \<and> set ps = F)"

lemma flist_good: "flist kend m r ps \<Longrightarrow> p \<in> set ps \<Longrightarrow> good_page kend p"
  by (induction ps arbitrary: r) auto

lemma flist_cong:
  "(\<And>p. p \<in> set ps \<Longrightarrow> get32 m' (unat p) = get32 m (unat p)) \<Longrightarrow>
   flist kend m' r ps = flist kend m r ps"
  by (induction ps arbitrary: r) auto

lemma flist_Nil_iff: "flist kend m r ps \<Longrightarrow> ps = [] \<longleftrightarrow> r = 0"
  by (cases ps) (auto simp: good_page_def)

lemma multiples_apart:
  assumes "a mod n = 0" and "b mod n = 0" and "a < (b :: nat)"
  shows "a + n \<le> b"
proof -
  obtain i j where ij: "a = n * i" "b = n * j"
    using assms(1,2) by (auto simp: mod_eq_0_iff_dvd elim!: dvdE)
  then have "Suc i \<le> j" using assms(3) by simp
  then have "n * Suc i \<le> n * j" by (rule mult_le_mono2)
  then show ?thesis by (simp add: ij)
qed

lemma pages_apart:
  assumes "unat p mod PGSIZE = 0" and "unat q mod PGSIZE = 0" and "p \<noteq> q"
  shows "unat p + PGSIZE \<le> unat q \<or> unat q + PGSIZE \<le> unat p"
proof -
  have "unat p < unat q \<or> unat q < unat p"
    using assms(3) by (simp add: word_unat_eq_iff) arith
  then show ?thesis using multiples_apart [OF assms(1,2)] multiples_apart [OF assms(2,1)] by blast
qed

lemma kalloc_inv_good: "kalloc_inv kend s F \<Longrightarrow> p \<in> F \<Longrightarrow> good_page kend p"
  by (auto simp: kalloc_inv_def flist_good)

lemma kalloc_inv_finite: "kalloc_inv kend s F \<Longrightarrow> finite F"
  by (auto simp: kalloc_inv_def)

lemma kalloc_inv_null: "kalloc_inv kend s F \<Longrightarrow> freelist s = 0 \<longleftrightarrow> F = {}"
  by (auto simp: kalloc_inv_def dest: flist_Nil_iff)

text \<open>Writing to a page that is not free does not disturb the allocator.\<close>

lemma kalloc_inv_write:
  assumes "kalloc_inv kend s F" and "unat v mod PGSIZE = 0" and "v \<notin> F"
    and "\<And>a. a < unat v \<or> unat v + PGSIZE \<le> a \<Longrightarrow> m a = memory s a"
  shows "kalloc_inv kend (s\<lparr>memory := m\<rparr>) F"
proof -
  obtain ps where ps: "flist kend (memory s) (freelist s) ps" "distinct ps" "set ps = F"
    using assms(1) by (auto simp: kalloc_inv_def)
  have "get32 m (unat p) = get32 (memory s) (unat p)" if "p \<in> set ps" for p
  proof -
    have "unat p mod PGSIZE = 0" and "p \<noteq> v"
      using flist_good [OF ps(1) that] assms(3) ps(3) that by (auto simp: good_page_def)
    then have "unat p + PGSIZE \<le> unat v \<or> unat v + PGSIZE \<le> unat p"
      using assms(2) by (intro pages_apart) auto
    then have "m (unat p + i) = memory s (unat p + i)" if "i < 4" for i
      using that by (intro assms(4)) (auto simp: PGSIZE_def)
    then have "load_bytes m (unat p) 4 = load_bytes (memory s) (unat p) 4"
      by (simp add: load_bytes_def)
    then show ?thesis by (simp add: get32_def)
  qed
  then have "flist kend m (freelist s) ps"
    using ps(1) by (subst flist_cong [of ps m "memory s"])
  with ps(2,3) show ?thesis
    unfolding kalloc_inv_def by (intro exI [of _ ps]) simp
qed

lemma kalloc_takes:
  assumes "kalloc_inv kend s F" and "kalloc s = (p, s')" and "p \<noteq> 0"
  shows "p \<in> F" and "kalloc_inv kend s' (F - {p})" and "memory s' = memory s"
proof -
  obtain ps where ps: "flist kend (memory s) (freelist s) ps" "distinct ps" "set ps = F"
    using assms(1) by (auto simp: kalloc_inv_def)
  have p: "p = freelist s" "s' = s\<lparr>freelist := get32 (memory s) (unat p)\<rparr>"
    using assms(2,3) by (auto simp: kalloc_def Let_def split: if_splits)
  with ps assms(3) obtain qs where qs: "ps = p # qs"
    by (cases ps) auto
  show "p \<in> F" using qs ps(3) by auto
  show "kalloc_inv kend s' (F - {p})"
    unfolding kalloc_inv_def using ps qs p by (intro exI [of _ qs]) auto
  show "memory s' = memory s" using p by simp
qed

lemma kalloc_exhausted:
  "kalloc_inv kend s F \<Longrightarrow> kalloc s = (0, s') \<Longrightarrow> F = {} \<and> s' = s"
  using kalloc_inv_null [of kend s F] by (auto simp: kalloc_def Let_def split: if_splits)

lemma kfree_gives:
  assumes "kalloc_inv kend s F" and "good_page kend v" and "v \<notin> F"
  shows "\<exists>s'. kfree kend v s = Inr s' \<and> kalloc_inv kend s' (insert v F) \<and>
    (\<forall>a. a < unat v \<or> unat v + PGSIZE \<le> a \<longrightarrow> memory s' a = memory s a)"
proof -
  let ?m = "put32 (memset (memory s) (unat v) 1 PGSIZE) (unat v) (freelist s)"
  have out: "?m a = memory s a" if "a < unat v \<or> unat v + PGSIZE \<le> a" for a
    using that by (subst put32_outside) (auto simp: memset_fill PGSIZE_def)
  have "kalloc_inv kend (s\<lparr>memory := ?m\<rparr>) F"
    using assms out by (intro kalloc_inv_write) (auto simp: good_page_def)
  then obtain ps where ps: "flist kend ?m (freelist s) ps" "distinct ps" "set ps = F"
    by (auto simp: kalloc_inv_def)
  have "kalloc_inv kend (s\<lparr>memory := ?m, freelist := v\<rparr>) (insert v F)"
    unfolding kalloc_inv_def using ps assms(2,3) by (intro exI [of _ "v # ps"]) auto
  moreover have "kfree kend v s = Inr (s\<lparr>memory := ?m, freelist := v\<rparr>)"
    using assms(2) by (auto simp: kfree_def Let_def good_page_def)
  ultimately show ?thesis
    using out by (intro exI [of _ "s\<lparr>memory := ?m, freelist := v\<rparr>"]) auto
qed

section \<open>The allocator's interface\<close>

locale page_allocator =
  fixes inv :: "'s \<Rightarrow> 'p set \<Rightarrow> bool"
    and alloc :: "'s \<Rightarrow> 'p \<times> 's"
    and free :: "'p \<Rightarrow> 's \<Rightarrow> 's res"
    and null :: 'p
    and good :: "'p \<Rightarrow> bool"
  assumes inv_finite: "inv s F \<Longrightarrow> finite F"
    and inv_good: "inv s F \<Longrightarrow> p \<in> F \<Longrightarrow> good p"
    and null_bad: "\<not> good null"
    and alloc_some: "inv s F \<Longrightarrow> alloc s = (p, s') \<Longrightarrow> p \<noteq> null \<Longrightarrow> p \<in> F \<and> inv s' (F - {p})"
    and alloc_none: "inv s F \<Longrightarrow> alloc s = (null, s') \<Longrightarrow> F = {} \<and> s' = s"
    and free_some: "inv s F \<Longrightarrow> good p \<Longrightarrow> p \<notin> F \<Longrightarrow> \<exists>s'. free p s = Inr s' \<and> inv s' (insert p F)"
begin

fun alloc_many :: "nat \<Rightarrow> 's \<Rightarrow> 'p list \<times> 's" where
  "alloc_many 0 s = ([], s)"
| "alloc_many (Suc n) s =
     (case alloc s of (p, s1) \<Rightarrow> case alloc_many n s1 of (ps, s2) \<Rightarrow> (p # ps, s2))"

lemma alloc_never_null_while_free: "inv s F \<Longrightarrow> F \<noteq> {} \<Longrightarrow> fst (alloc s) \<noteq> null"
  using alloc_none by (cases "alloc s") auto

lemma alloc_many_distinct:
  assumes "inv s F" and "n \<le> card F" and "alloc_many n s = (ps, s')"
  shows "length ps = n \<and> distinct ps \<and> set ps \<subseteq> F \<and> inv s' (F - set ps)"
  using assms
proof (induction n arbitrary: s F ps)
  case 0
  then show ?case by simp
next
  case (Suc n)
  obtain p s1 qs where a: "alloc s = (p, s1)" and r: "alloc_many n s1 = (qs, s')" "ps = p # qs"
    using Suc.prems(3) by (auto split: prod.splits)
  have "F \<noteq> {}" using Suc.prems(2) by auto
  then have "p \<noteq> null" using alloc_never_null_while_free [OF Suc.prems(1)] a by simp
  then have p: "p \<in> F" "inv s1 (F - {p})" using alloc_some [OF Suc.prems(1) a] by auto
  moreover have "n \<le> card (F - {p})"
    using Suc.prems(2) p inv_finite [OF Suc.prems(1)] by simp
  ultimately have "length qs = n \<and> distinct qs \<and> set qs \<subseteq> F - {p} \<and> inv s' (F - {p} - set qs)"
    using Suc.IH r(1) by blast
  moreover have "F - {p} - set qs = F - set ps" using r(2) by auto
  ultimately show ?case using p(1) r(2) by auto
qed

lemma free_after_alloc:
  assumes "inv s F" and "alloc s = (p, s1)" and "p \<noteq> null"
  shows "\<exists>s2. free p s1 = Inr s2 \<and> inv s2 F"
proof -
  have p: "p \<in> F" "inv s1 (F - {p})" using alloc_some [OF assms] by auto
  with free_some [of s1 "F - {p}" p] inv_good [OF assms(1)] show ?thesis
    by (simp add: insert_absorb)
qed

end

interpretation kpages: page_allocator "kalloc_inv kend" kalloc "kfree kend" 0 "good_page kend"
  for kend :: u32
proof
  fix s s' :: machine and F and p
  show "kalloc_inv kend s F \<Longrightarrow> finite F" by (rule kalloc_inv_finite)
  show "kalloc_inv kend s F \<Longrightarrow> p \<in> F \<Longrightarrow> good_page kend p" by (rule kalloc_inv_good)
  show "\<not> good_page kend 0" by (simp add: good_page_def)
  show "kalloc_inv kend s F \<Longrightarrow> kalloc s = (p, s') \<Longrightarrow> p \<noteq> 0 \<Longrightarrow> p \<in> F \<and> kalloc_inv kend s' (F - {p})"
    using kalloc_takes by blast
  show "kalloc_inv kend s F \<Longrightarrow> kalloc s = (0, s') \<Longrightarrow> F = {} \<and> s' = s" by (rule kalloc_exhausted)
  show "kalloc_inv kend s F \<Longrightarrow> good_page kend p \<Longrightarrow> p \<notin> F \<Longrightarrow>
      \<exists>s'. kfree kend p s = Inr s' \<and> kalloc_inv kend s' (insert p F)"
    using kfree_gives by blast
qed

section \<open>Page rounding\<close>

lemma and_not_4095: "(x :: u32) AND NOT (4096 - 1) = push_bit 12 (drop_bit 12 x)"
proof -
  have "(4096 - 1 :: u32) = mask 12" by (simp add: mask_eq_exp_minus_1)
  show ?thesis
    unfolding \<open>4096 - 1 = mask 12\<close> by (intro bit_word_eqI) (auto simp: bit_simps)
qed

lemma unat_PGROUNDDOWN: "unat (PGROUNDDOWN a) = unat a div PGSIZE * PGSIZE"
proof -
  have "unat (PGROUNDDOWN a) = take_bit 32 (unat a div 4096 * 4096)"
    unfolding PGROUNDDOWN_def and_not_4095
    by (simp add: push_bit_eq_mult drop_bit_eq_div unat_word_ariths unat_div take_bit_eq_mod
        mod_mult_left_eq)
  also have "\<dots> = unat a div 4096 * 4096"
    using unat_u32_bound [of a] div_times_less_eq_dividend [of "unat a" 4096]
    by (intro take_bit_nat_eq_self) (auto intro: le_less_trans)
  finally show ?thesis by (simp add: PGSIZE_def)
qed

lemma PGROUNDUP_down: "PGROUNDUP sz = PGROUNDDOWN (sz + 4095)"
proof -
  have "sz + 4096 - 1 = sz + 4095" by simp
  then show ?thesis unfolding PGROUNDUP_def PGROUNDDOWN_def by (rule arg_cong)
qed

lemma unat_PGROUNDUP:
  assumes "unat sz + 4095 < 2 ^ 32"
  shows "unat (PGROUNDUP sz) = (unat sz + 4095) div PGSIZE * PGSIZE"
proof -
  have "unat (sz + 4095) = unat sz + 4095"
    using assms by (simp add: unat_word_ariths)
  then show ?thesis by (simp add: PGROUNDUP_down unat_PGROUNDDOWN)
qed

section \<open>Initialization\<close>

lemma freerange_loop_gives:
  assumes "kalloc_inv kend s F" and "p mod PGSIZE = 0" and "vend < 2 ^ 32"
    and "\<And>q. q mod PGSIZE = 0 \<Longrightarrow> p \<le> q \<Longrightarrow> q + PGSIZE \<le> vend \<Longrightarrow>
      good_page kend (of_nat q) \<and> of_nat q \<notin> F"
  shows "\<exists>s'. freerange_loop kend p vend s = Inr s' \<and>
    kalloc_inv kend s' (F \<union> {v. unat v mod PGSIZE = 0 \<and> p \<le> unat v \<and> unat v + PGSIZE \<le> vend})"
  using assms
proof (induction "vend - p" arbitrary: p s F rule: less_induct)
  case less
  show ?case
  proof (cases "p + PGSIZE \<le> vend")
    case False
    then have none: "{v :: u32. unat v mod PGSIZE = 0 \<and> p \<le> unat v \<and> unat v + PGSIZE \<le> vend} = {}"
      by auto
    show ?thesis
      unfolding none using False less.prems(1) by (subst freerange_loop.simps) simp
  next
    case True
    let ?v = "of_nat p :: u32"
    have v: "unat ?v = p"
      using True less.prems(3) by (intro unat_of_nat32) (simp add: PGSIZE_def)
    obtain s1 where s1: "kfree kend ?v s = Inr s1" "kalloc_inv kend s1 (insert ?v F)"
      using kfree_gives [OF less.prems(1), of ?v] less.prems(4) [of p] less.prems(2) True by auto
    let ?R = "\<lambda>p. {v :: u32. unat v mod PGSIZE = 0 \<and> p \<le> unat v \<and> unat v + PGSIZE \<le> vend}"
    have fresh: "good_page kend (of_nat q) \<and> of_nat q \<notin> insert ?v F"
      if q: "q mod PGSIZE = 0" "p + PGSIZE \<le> q" "q + PGSIZE \<le> vend" for q
    proof -
      have "unat (of_nat q :: u32) = q"
        using q less.prems(3) by (intro unat_of_nat32) (simp add: PGSIZE_def)
      then have "of_nat q \<noteq> ?v" using v q(2) by (auto simp: PGSIZE_def)
      then show ?thesis using less.prems(4) [of q] q by auto
    qed
    have "\<exists>s2. freerange_loop kend (p + PGSIZE) vend s1 = Inr s2 \<and>
        kalloc_inv kend s2 (insert ?v F \<union> ?R (p + PGSIZE))"
    proof (rule less.hyps [OF _ s1(2) _ less.prems(3)])
      show "vend - (p + PGSIZE) < vend - p" using True by (simp add: PGSIZE_def)
      show "(p + PGSIZE) mod PGSIZE = 0" using less.prems(2) by simp
    qed (rule fresh)
    then obtain s2 where s2: "freerange_loop kend (p + PGSIZE) vend s1 = Inr s2"
      "kalloc_inv kend s2 (insert ?v F \<union> ?R (p + PGSIZE))"
      by blast
    have "?R p = insert ?v (?R (p + PGSIZE))"
    proof (intro set_eqI iffI)
      fix x assume x: "x \<in> ?R p"
      then have "unat x = p \<or> p + PGSIZE \<le> unat x"
        using less.prems(2) multiples_apart [of p PGSIZE "unat x"] by fastforce
      then show "x \<in> insert ?v (?R (p + PGSIZE))"
        using x v by (auto simp: word_unat_eq_iff)
    next
      fix x assume "x \<in> insert ?v (?R (p + PGSIZE))"
      then show "x \<in> ?R p" using v True less.prems(2) by auto
    qed
    then have "insert ?v F \<union> ?R (p + PGSIZE) = F \<union> ?R p" by auto
    then show ?thesis
      using True s1(1) s2 by (subst freerange_loop.simps) simp
  qed
qed

section \<open>Properties\<close>

text \<open>
  C11: on a well-formed free list with at least \<open>n\<close> pages, \<open>n\<close> calls of \<open>kalloc\<close>
  return \<open>n\<close> different pages, all of them taken from the free list and none of them left on
  it: no page has two owners. A page given back by \<open>kfree\<close> is free again.
\<close>

theorem kalloc_hands_out_distinct_pages:
  assumes "kalloc_inv kend s F" and "n \<le> card F" and "kpages.alloc_many n s = (ps, s')"
    and "0 < n"
  shows "length ps = n \<and> distinct ps \<and> set ps \<subseteq> F \<and> kalloc_inv kend s' (F - set ps) \<and>
    (\<forall>p \<in> set ps. \<exists>s''. kfree kend p s' = Inr s'' \<and> kalloc_inv kend s'' (insert p (F - set ps)))"
proof -
  have a: "length ps = n \<and> distinct ps \<and> set ps \<subseteq> F \<and> kalloc_inv kend s' (F - set ps)"
    by (rule kpages.alloc_many_distinct [OF assms(1-3)])
  moreover have "\<exists>s''. kfree kend p s' = Inr s'' \<and> kalloc_inv kend s'' (insert p (F - set ps))"
    if "p \<in> set ps" for p
    using kpages.free_some [of kend s' "F - set ps" p] kpages.inv_good [OF assms(1), of p] a that
    by auto
  ultimately show ?thesis by blast
qed

text \<open>Two free pages, threaded through their first words.\<close>

definition two_pages :: machine where
  "two_pages = \<lparr>memory = put32 (put32 (\<lambda>_. 0) 0x80400000 0x80401000) 0x80401000 0,
     freelist = 0x80400000, use_lock = True\<rparr>"

lemma two_pages_inv: "kalloc_inv 0x80200000 two_pages {0x80400000, 0x80401000}"
  unfolding kalloc_inv_def
  by (intro exI [of _ "[0x80400000, 0x80401000]"])
    (simp add: two_pages_def good_page_def PGSIZE_def V2P_def KERNBASE_def PHYSTOP_def
      get32_put32_disjoint)

theorem kalloc_hands_out_distinct_pages_witness:
  "distinct (fst (kpages.alloc_many 2 two_pages))"
proof -
  obtain ps s' where "kpages.alloc_many 2 two_pages = (ps, s')" by fastforce
  with kalloc_hands_out_distinct_pages [OF two_pages_inv, of 2 ps s'] show ?thesis by simp
qed

text \<open>
  C12: \<open>kinit1\<close> on an empty free list, for a range between the end of the kernel and the top
  of physical memory, does not panic and leaves on the free list exactly the whole pages of
  the range, each once.
\<close>

theorem kinit1_frees_exactly_the_range:
  assumes "freelist s = 0" and "0 < kend" and "kend \<le> vstart"
    and "KERNBASE \<le> vstart" and "vstart \<le> vend" and "vend \<le> P2V PHYSTOP"
  shows "\<exists>s'. kinit1 kend vstart vend s = Inr s' \<and>
    kalloc_inv kend s' {v. unat v mod PGSIZE = 0 \<and> vstart \<le> v \<and> unat v + PGSIZE \<le> unat vend}"
proof -
  have top: "unat vend \<le> 0x8E000000" "unat vstart \<le> unat vend"
    using assms(5,6) by (auto simp: word_le_nat_alt P2V_def PHYSTOP_def KERNBASE_def)
  then have up: "unat (PGROUNDUP vstart) = (unat vstart + 4095) div PGSIZE * PGSIZE"
    by (intro unat_PGROUNDUP) simp
  let ?p = "unat (PGROUNDUP vstart)"
  have ge: "?p \<le> q \<longleftrightarrow> unat vstart \<le> q" if "q mod PGSIZE = 0" for q
    using that unfolding up by (auto simp: PGSIZE_def)
  have base: "0x80000000 \<le> unat vstart"
    using assms(4) by (simp add: KERNBASE_def word_le_nat_alt)
  have good: "good_page kend (of_nat q) \<and> of_nat q \<notin> {}"
    if q: "q mod PGSIZE = 0" "?p \<le> q" "q + PGSIZE \<le> unat vend" for q
  proof -
    let ?v = "of_nat q :: u32"
    have v: "unat ?v = q" using q(3) top by (intro unat_of_nat32) simp
    have qv: "unat vstart \<le> q" using ge q(1,2) by simp
    then have "kend \<le> ?v" using assms(3) v by (simp add: word_le_nat_alt)
    moreover have "V2P ?v < PHYSTOP"
    proof -
      have "KERNBASE \<le> ?v" using base qv v by (simp add: KERNBASE_def word_le_nat_alt)
      then have "unat (V2P ?v) = q - 0x80000000"
        using v by (simp add: V2P_def unat_sub KERNBASE_def)
      then show ?thesis using q(3) top(1) by (simp add: word_less_nat_alt PHYSTOP_def PGSIZE_def)
    qed
    moreover have "?v \<noteq> 0" using base qv v by (auto simp: word_unat_eq_iff)
    ultimately show ?thesis using q(1) v by (simp add: good_page_def)
  qed
  have "kalloc_inv kend (s\<lparr>use_lock := False\<rparr>) {}"
    using assms(1) by (auto simp: kalloc_inv_def intro!: exI [of _ "[]"])
  moreover have "?p mod PGSIZE = 0" by (simp add: up)
  moreover have "unat vend < 2 ^ 32" using top by simp
  ultimately have "\<exists>s'. freerange_loop kend ?p (unat vend) (s\<lparr>use_lock := False\<rparr>) = Inr s' \<and>
    kalloc_inv kend s' ({} \<union> {v. unat v mod PGSIZE = 0 \<and> ?p \<le> unat v \<and> unat v + PGSIZE \<le> unat vend})"
    by (rule freerange_loop_gives) (rule good)
  then obtain s' where
    "freerange_loop kend ?p (unat vend) (s\<lparr>use_lock := False\<rparr>) = Inr s'"
    "kalloc_inv kend s' ({} \<union> {v. unat v mod PGSIZE = 0 \<and> ?p \<le> unat v \<and> unat v + PGSIZE \<le> unat vend})"
    by blast
  moreover have "{v :: u32. unat v mod PGSIZE = 0 \<and> ?p \<le> unat v \<and> unat v + PGSIZE \<le> unat vend} =
      {v. unat v mod PGSIZE = 0 \<and> vstart \<le> v \<and> unat v + PGSIZE \<le> unat vend}"
    using ge by (auto simp: word_le_nat_alt)
  ultimately show ?thesis
    by (simp add: kinit1_def freerange_def)
qed

theorem kinit1_frees_exactly_the_range_witness:
  "\<exists>s'. kinit1 0x80115000 0x80115000 0x80400000
      \<lparr>memory = \<lambda>_. 0, freelist = 0, use_lock = False\<rparr> = Inr s' \<and>
    kalloc_inv 0x80115000 s'
      {v. unat v mod PGSIZE = 0 \<and> 0x80115000 \<le> v \<and> unat v + PGSIZE \<le> unat (0x80400000 :: u32)}"
  by (rule kinit1_frees_exactly_the_range) (simp_all add: KERNBASE_def P2V_def PHYSTOP_def)

end
