(* ===== verification/Vm.thy ===== *)
theory Vm
  imports Kalloc
begin

text \<open>
  Virtual memory, \<open>vm.c\<close>: two-level page tables held in physical memory, their growth,
  shrinking, copying and release, and the system calls \<open>mprotect\<close> and \<open>munprotect\<close> of
  \<open>p2b\<close>. Page tables are real memory here: a page directory is a page of 1024 words, and so
  are the page tables it points to. \<open>kend\<close> and \<open>kdata\<close> stand for the linker symbols
  \<open>end\<close> and \<open>data\<close>. Sizes are at most \<open>KERNBASE\<close>, so loop variables are natural
  numbers that do not wrap.
\<close>

section \<open>Addresses and page table entries\<close>

definition PDX :: "u32 \<Rightarrow> nat" where "PDX va = unat (drop_bit 22 va AND 0x3FF)"
definition PTX :: "u32 \<Rightarrow> nat" where "PTX va = unat (drop_bit 12 va AND 0x3FF)"

definition PTE_P :: u32 where "PTE_P = 1"
definition PTE_W :: u32 where "PTE_W = 2"
definition PTE_U :: u32 where "PTE_U = 4"

definition PTE_ADDR :: "u32 \<Rightarrow> u32" where "PTE_ADDR pte = pte AND NOT 0xFFF"
definition PTE_FLAGS :: "u32 \<Rightarrow> u32" where "PTE_FLAGS pte = pte AND 0xFFF"

definition load32 :: "machine \<Rightarrow> u32 \<Rightarrow> u32" where
  "load32 s a = get32 (memory s) (unat a)"

definition store32 :: "machine \<Rightarrow> u32 \<Rightarrow> u32 \<Rightarrow> machine" where
  "store32 s a v = s\<lparr>memory := put32 (memory s) (unat a) v\<rparr>"

section \<open>Walking and filling a page table\<close>

definition walkpgdir :: "u32 \<Rightarrow> u32 \<Rightarrow> bool \<Rightarrow> machine \<Rightarrow> u32 \<times> machine" where
  "walkpgdir pgdir va alloc s =
     (let pde = pgdir + 4 * of_nat (PDX va) in
      if load32 s pde AND PTE_P \<noteq> 0
      then (P2V (PTE_ADDR (load32 s pde)) + 4 * of_nat (PTX va), s)
      else if \<not> alloc then (0, s)
      else case kalloc s of (pgtab, s) \<Rightarrow>
        if pgtab = 0 then (0, s)
        else let s = s\<lparr>memory := memset (memory s) (unat pgtab) 0 PGSIZE\<rparr>;
                 s = store32 s pde (V2P pgtab OR PTE_P OR PTE_W OR PTE_U)
             in (pgtab + 4 * of_nat (PTX va), s))"

text \<open>
  The loop of \<open>mappages\<close>. Its bounds are page-aligned, so the pages left to map are counted
  by the distance from \<open>a\<close> to \<open>last\<close>; the second test of the guard only serves the
  termination proof, since aligned addresses less than a page apart are equal.
\<close>

lemma next_page_closer:
  assumes "\<not> unat (l - a) < 4096"
  shows "unat (l - (a + 4096)) < unat (l - (a :: u32))"
proof -
  have "(4096 :: u32) \<le> l - a"
    using assms by (simp add: word_le_nat_alt)
  then have "unat (l - a - 4096) = unat (l - a) - 4096"
    by (simp add: unat_sub)
  moreover have "l - (a + 4096) = l - a - 4096" by (simp only: diff_diff_eq)
  ultimately have "unat (l - (a + 4096)) = unat (l - a) - 4096" by (simp only:)
  then show ?thesis using assms by simp
qed

function mappages_loop ::
  "u32 \<Rightarrow> u32 \<Rightarrow> u32 \<Rightarrow> u32 \<Rightarrow> u32 \<Rightarrow> machine \<Rightarrow> (int \<times> machine) res" where
  "mappages_loop pgdir a lst pa perm s =
     (case walkpgdir pgdir a True s of (pte, s) \<Rightarrow>
        if pte = 0 then Inr (-1, s)
        else if load32 s pte AND PTE_P \<noteq> 0 then Inl (Panic ''remap'')
        else let s = store32 s pte (pa OR perm OR PTE_P) in
          if a = lst \<or> unat (lst - a) < 4096 then Inr (0, s)
          else mappages_loop pgdir (a + 4096) lst (pa + 4096) perm s)"
  by pat_completeness auto
termination
  by (relation "measure (\<lambda>(pgdir, a, lst, pa, perm, s). unat (lst - a))") (auto simp: next_page_closer)

declare mappages_loop.simps [simp del]

definition mappages ::
  "u32 \<Rightarrow> u32 \<Rightarrow> u32 \<Rightarrow> u32 \<Rightarrow> u32 \<Rightarrow> machine \<Rightarrow> (int \<times> machine) res" where
  "mappages pgdir va sz pa perm s =
     (let a = PGROUNDDOWN va; lst = PGROUNDDOWN (va + sz - 1)
      in mappages_loop pgdir a lst pa perm s)"

section \<open>Shrinking and releasing an address space\<close>

lemma next_region: "a < b \<Longrightarrow> b - (4194304 + a div 4194304 * 4194304) < b - (a :: nat)"
  using dividend_less_div_times [of 4194304 a] by (auto intro!: diff_less_mono2)

function deallocuvm_loop :: "u32 \<Rightarrow> u32 \<Rightarrow> nat \<Rightarrow> nat \<Rightarrow> machine \<Rightarrow> machine res" where
  "deallocuvm_loop kend pgdir a oldsz s =
     (if a < oldsz then
        let pte = fst (walkpgdir pgdir (of_nat a) False s) in
        if pte = 0 then
          deallocuvm_loop kend pgdir (((a div 4194304 + 1) * 4194304 - PGSIZE) + PGSIZE) oldsz s
        else if load32 s pte AND PTE_P \<noteq> 0 then
          let pa = PTE_ADDR (load32 s pte) in
          if pa = 0 then Inl (Panic ''kfree'')
          else bindE (kfree kend (P2V pa) s) (\<lambda>s.
               deallocuvm_loop kend pgdir (a + PGSIZE) oldsz (store32 s pte 0))
        else deallocuvm_loop kend pgdir (a + PGSIZE) oldsz s
      else Inr s)"
  by pat_completeness auto
termination
  by (relation "measure (\<lambda>(kend, pgdir, a, oldsz, s). oldsz - a)")
    (auto simp: PGSIZE_def next_region)

declare deallocuvm_loop.simps [simp del]

definition deallocuvm :: "u32 \<Rightarrow> u32 \<Rightarrow> u32 \<Rightarrow> u32 \<Rightarrow> machine \<Rightarrow> (u32 \<times> machine) res" where
  "deallocuvm kend pgdir oldsz newsz s =
     (if newsz \<ge> oldsz then Inr (oldsz, s)
      else bindE (deallocuvm_loop kend pgdir (unat (PGROUNDUP newsz)) (unat oldsz) s)
             (\<lambda>s. Inr (newsz, s)))"

fun freevm_loop :: "u32 \<Rightarrow> u32 \<Rightarrow> nat list \<Rightarrow> machine \<Rightarrow> machine res" where
  "freevm_loop kend pgdir [] s = Inr s"
| "freevm_loop kend pgdir (i # is) s =
     (let e = load32 s (pgdir + 4 * of_nat i) in
      if e AND PTE_P \<noteq> 0
      then bindE (kfree kend (P2V (PTE_ADDR e)) s) (\<lambda>s. freevm_loop kend pgdir is s)
      else freevm_loop kend pgdir is s)"

definition freevm :: "u32 \<Rightarrow> u32 \<Rightarrow> machine \<Rightarrow> machine res" where
  "freevm kend pgdir s =
     (if pgdir = 0 then Inl (Panic ''freevm: no pgdir'')
      else bindE (deallocuvm kend pgdir KERNBASE 0 s) (\<lambda>(_, s).
           bindE (freevm_loop kend pgdir [0..<1024] s) (\<lambda>s.
           kfree kend pgdir s)))"

section \<open>The kernel part of a page table\<close>

record kmap =
  virt :: u32
  phys_start :: u32
  phys_end :: u32
  perm :: u32

definition kmap_table :: "u32 \<Rightarrow> kmap list" where
  "kmap_table kdata =
     [\<lparr>virt = KERNBASE, phys_start = 0, phys_end = EXTMEM, perm = PTE_W\<rparr>,
      \<lparr>virt = KERNBASE + EXTMEM, phys_start = V2P (KERNBASE + EXTMEM), phys_end = V2P kdata, perm = 0\<rparr>,
      \<lparr>virt = kdata, phys_start = V2P kdata, phys_end = PHYSTOP, perm = PTE_W\<rparr>,
      \<lparr>virt = DEVSPACE, phys_start = DEVSPACE, phys_end = 0, perm = PTE_W\<rparr>]"

fun setupkvm_loop :: "u32 \<Rightarrow> u32 \<Rightarrow> kmap list \<Rightarrow> machine \<Rightarrow> (u32 \<times> machine) res" where
  "setupkvm_loop kend pgdir [] s = Inr (pgdir, s)"
| "setupkvm_loop kend pgdir (k # ks) s =
     bindE (mappages pgdir (virt k) (phys_end k - phys_start k) (phys_start k) (perm k) s)
       (\<lambda>(r, s). if r < 0 then bindE (freevm kend pgdir s) (\<lambda>s. Inr (0, s))
                 else setupkvm_loop kend pgdir ks s)"

definition setupkvm :: "u32 \<Rightarrow> u32 \<Rightarrow> machine \<Rightarrow> (u32 \<times> machine) res" where
  "setupkvm kend kdata s =
     (case kalloc s of (pgdir, s) \<Rightarrow>
        if pgdir = 0 then Inr (0, s)
        else let s = s\<lparr>memory := memset (memory s) (unat pgdir) 0 PGSIZE\<rparr> in
          if P2V PHYSTOP > DEVSPACE then Inl (Panic ''PHYSTOP too high'')
          else setupkvm_loop kend pgdir (kmap_table kdata) s)"

section \<open>Growing, loading and copying an address space\<close>

definition inituvm :: "u32 \<Rightarrow> byte list \<Rightarrow> machine \<Rightarrow> machine res" where
  "inituvm pgdir init s =
     (if length init \<ge> PGSIZE then Inl (Panic ''inituvm: more than a page'')
      else case kalloc s of (mem, s) \<Rightarrow>
        let s = s\<lparr>memory := memset (memory s) (unat mem) 0 PGSIZE\<rparr> in
        bindE (mappages pgdir 0 4096 (V2P mem) (PTE_W OR PTE_U) s) (\<lambda>(_, s).
        Inr (s\<lparr>memory := store_bytes (memory s) (unat mem) init\<rparr>)))"

function allocuvm_loop ::
  "u32 \<Rightarrow> u32 \<Rightarrow> nat \<Rightarrow> u32 \<Rightarrow> u32 \<Rightarrow> machine \<Rightarrow> (u32 \<times> machine) res" where
  "allocuvm_loop kend pgdir a oldsz newsz s =
     (if a < unat newsz then
        case kalloc s of (mem, s) \<Rightarrow>
          if mem = 0 then bindE (deallocuvm kend pgdir newsz oldsz s) (\<lambda>(_, s). Inr (0, s))
          else let s = s\<lparr>memory := memset (memory s) (unat mem) 0 PGSIZE\<rparr> in
            bindE (mappages pgdir (of_nat a) 4096 (V2P mem) (PTE_W OR PTE_U) s) (\<lambda>(r, s).
              if r < 0 then
                bindE (deallocuvm kend pgdir newsz oldsz s) (\<lambda>(_, s).
                bindE (kfree kend mem s) (\<lambda>s. Inr (0, s)))
              else allocuvm_loop kend pgdir (a + PGSIZE) oldsz newsz s)
      else Inr (newsz, s))"
  by pat_completeness auto
termination
  by (relation "measure (\<lambda>(kend, pgdir, a, oldsz, newsz, s). unat newsz - a)")
    (auto simp: PGSIZE_def)

declare allocuvm_loop.simps [simp del]

definition allocuvm :: "u32 \<Rightarrow> u32 \<Rightarrow> u32 \<Rightarrow> u32 \<Rightarrow> machine \<Rightarrow> (u32 \<times> machine) res" where
  "allocuvm kend pgdir oldsz newsz s =
     (if newsz \<ge> KERNBASE then Inr (0, s)
      else if newsz < oldsz then Inr (oldsz, s)
      else allocuvm_loop kend pgdir (unat (PGROUNDUP oldsz)) oldsz newsz s)"

definition clearpteu :: "u32 \<Rightarrow> u32 \<Rightarrow> machine \<Rightarrow> machine res" where
  "clearpteu pgdir uva s =
     (let pte = fst (walkpgdir pgdir uva False s) in
      if pte = 0 then Inl (Panic ''clearpteu'')
      else Inr (store32 s pte (load32 s pte AND NOT PTE_U)))"

function copyuvm_loop ::
  "u32 \<Rightarrow> u32 \<Rightarrow> u32 \<Rightarrow> nat \<Rightarrow> u32 \<Rightarrow> machine \<Rightarrow> (u32 \<times> machine) res" where
  "copyuvm_loop kend pgdir d i sz s =
     (if i < unat sz then
        let pte = fst (walkpgdir pgdir (of_nat i) False s) in
        if pte = 0 then Inl (Panic ''copyuvm: pte should exist'')
        else if load32 s pte AND PTE_P = 0 then Inl (Panic ''copyuvm: page not present'')
        else let pa = PTE_ADDR (load32 s pte); flags = PTE_FLAGS (load32 s pte) in
          case kalloc s of (mem, s) \<Rightarrow>
            if mem = 0 then bindE (freevm kend d s) (\<lambda>s. Inr (0, s))
            else let s = s\<lparr>memory := memmove (memory s) (unat mem) (unat (P2V pa)) PGSIZE\<rparr> in
              bindE (mappages d (of_nat i) 4096 (V2P mem) flags s) (\<lambda>(r, s).
                if r < 0 then
                  bindE (kfree kend mem s) (\<lambda>s.
                  bindE (freevm kend d s) (\<lambda>s. Inr (0, s)))
                else copyuvm_loop kend pgdir d (i + PGSIZE) sz s)
      else Inr (d, s))"
  by pat_completeness auto
termination
  by (relation "measure (\<lambda>(kend, pgdir, d, i, sz, s). unat sz - i)") (auto simp: PGSIZE_def)

declare copyuvm_loop.simps [simp del]

definition copyuvm :: "u32 \<Rightarrow> u32 \<Rightarrow> u32 \<Rightarrow> u32 \<Rightarrow> machine \<Rightarrow> (u32 \<times> machine) res" where
  "copyuvm kend kdata pgdir sz s =
     bindE (setupkvm kend kdata s) (\<lambda>(d, s).
       if d = 0 then Inr (0, s) else copyuvm_loop kend pgdir d 0 sz s)"

text \<open>
  \<open>uva2ka\<close> reads through the pointer that \<open>walkpgdir\<close> returns without testing it.
\<close>

definition uva2ka :: "u32 \<Rightarrow> u32 \<Rightarrow> machine \<Rightarrow> u32 res" where
  "uva2ka pgdir uva s =
     (let pte = fst (walkpgdir pgdir uva False s) in
      if pte = 0 then Inl NullDeref
      else if load32 s pte AND PTE_P = 0 then Inr 0
      else if load32 s pte AND PTE_U = 0 then Inr 0
      else Inr (P2V (PTE_ADDR (load32 s pte))))"

function copyout :: "u32 \<Rightarrow> u32 \<Rightarrow> byte list \<Rightarrow> machine \<Rightarrow> (int \<times> machine) res" where
  "copyout pgdir va buf s =
     (if 0 < length buf then
        let va0 = PGROUNDDOWN va in
        bindE (uva2ka pgdir va0 s) (\<lambda>pa0.
          if pa0 = 0 then Inr (-1, s)
          else let n = min (PGSIZE - unat (va - va0)) (length buf);
                   s = s\<lparr>memory := store_bytes (memory s) (unat (pa0 + (va - va0))) (take n buf)\<rparr>
               in if n = 0 then Inr (0, s) else copyout pgdir (va0 + 4096) (drop n buf) s)
      else Inr (0, s))"
  by pat_completeness auto
termination
  by (relation "measure (\<lambda>(pgdir, va, buf, s). length buf)") (auto simp: PGSIZE_def)

declare copyout.simps [simp del]

section \<open>Page protection system calls\<close>

text \<open>
  \<open>mprotect(addr, len)\<close> and \<open>munprotect(addr, len)\<close> of \<open>p2b\<close>: \<open>psz\<close> is the
  calling process's size. The loop stops at the first page that lies beyond the process or has
  no page table; the pages before it have been changed by then. Reloading the page directory
  register flushes the TLB and is not modelled.
\<close>

fun protect_loop ::
  "(u32 \<Rightarrow> u32) \<Rightarrow> u32 \<Rightarrow> u32 \<Rightarrow> u32 \<Rightarrow> nat \<Rightarrow> nat \<Rightarrow> machine \<Rightarrow> int \<times> machine" where
  "protect_loop f pgdir psz a i 0 s = (0, s)"
| "protect_loop f pgdir psz a i (Suc n) s =
     (if a + of_nat i * 4096 > psz then (-1, s)
      else let pte = fst (walkpgdir pgdir (a + of_nat i * 4096) False s) in
        if pte = 0 then (-1, s)
        else protect_loop f pgdir psz a (i + 1) n (store32 s pte (f (load32 s pte))))"

definition mprotect :: "u32 \<Rightarrow> u32 \<Rightarrow> u32 \<Rightarrow> int \<Rightarrow> machine \<Rightarrow> int \<times> machine" where
  "mprotect pgdir psz addr len s =
     (if unat addr mod PGSIZE \<noteq> 0 \<or> len \<le> 0 then (-1, s)
      else protect_loop (\<lambda>e. e AND NOT PTE_W) pgdir psz addr 0 (nat len) s)"

definition munprotect :: "u32 \<Rightarrow> u32 \<Rightarrow> u32 \<Rightarrow> int \<Rightarrow> machine \<Rightarrow> int \<times> machine" where
  "munprotect pgdir psz addr len s =
     (if unat addr mod PGSIZE \<noteq> 0 \<or> len \<le> 0 then (-1, s)
      else protect_loop (\<lambda>e. e OR PTE_W) pgdir psz addr 0 (nat len) s)"

section \<open>Arithmetic of addresses\<close>

lemma and_1023: "(x :: u32) AND 0x3FF = take_bit 10 x"
proof -
  have "(0x3FF :: u32) = mask 10" by (simp add: mask_eq_exp_minus_1)
  show ?thesis unfolding \<open>0x3FF = mask 10\<close> by (simp add: take_bit_eq_mask)
qed

lemma PDX_div: "PDX va = unat va div 4194304"
proof -
  have "unat va < 2 ^ 32" by (rule unat_u32_bound)
  then show ?thesis
    unfolding PDX_def and_1023
    by (simp add: take_bit_eq_mod drop_bit_eq_div unat_div unat_mod)
qed

lemma PTX_div: "PTX va = unat va div 4096 mod 1024"
  unfolding PTX_def and_1023
  by (simp add: take_bit_eq_mod drop_bit_eq_div unat_div unat_mod)

lemma PDX_bound [simp]: "PDX va < 1024"
  using unat_u32_bound [of va] by (simp add: PDX_div div_less_iff_less_mult)

lemma PTX_bound [simp]: "PTX va < 1024"
  by (simp add: PTX_div)

lemma digits_unique:
  assumes "b < n" and "d < (n :: nat)"
  shows "a * n + b = c * n + d \<longleftrightarrow> a = c \<and> b = d"
proof -
  have "a = (a * n + b) div n" and "c = (c * n + d) div n" using assms by auto
  then show ?thesis by (metis add_left_cancel)
qed

lemma same_page: "PDX va = PDX va' \<and> PTX va = PTX va' \<longleftrightarrow> PGROUNDDOWN va = PGROUNDDOWN va'"
proof -
  have "unat v div 4096 = PDX v * 1024 + PTX v" for v
  proof -
    have "unat v div 4194304 = unat v div 4096 div 1024"
      by (simp flip: div_mult2_eq)
    then show ?thesis by (simp add: PDX_div PTX_div)
  qed
  moreover have "PDX v * 1024 + PTX v = PDX w * 1024 + PTX w \<longleftrightarrow> PDX v = PDX w \<and> PTX v = PTX w" for v w
    by (rule digits_unique) simp_all
  moreover have "PGROUNDDOWN va = PGROUNDDOWN va' \<longleftrightarrow> unat va div 4096 = unat va' div 4096"
    by (simp add: word_unat_eq_iff unat_PGROUNDDOWN PGSIZE_def)
  ultimately show ?thesis by (simp only:)
qed

lemma good_page_range:
  assumes "good_page kend p"
  shows "unat p < 0x8E000000" and "P2V (V2P p) = p" and "V2P p AND 0xFFF = 0"
proof -
  define x where "x = p - KERNBASE"
  have p: "p = x + KERNBASE" by (simp add: x_def)
  have x: "unat x < 0xE000000"
    using assms by (simp add: good_page_def V2P_def PHYSTOP_def word_less_nat_alt x_def)
  then have u: "unat p = unat x + 0x80000000"
    by (simp add: p unat_word_ariths KERNBASE_def)
  with x show "unat p < 0x8E000000" by simp
  show "P2V (V2P p) = p" by (simp add: P2V_def V2P_def)
  have "(unat x + 0x80000000) mod 4096 = 0"
    using assms u by (simp add: good_page_def PGSIZE_def)
  then have "unat x mod 4096 = 0"
    using mod_mult_self2 [of "unat x" 4096 524288] by simp
  then have "unat (take_bit 12 x) = 0"
    by (simp add: take_bit_eq_mod unat_mod)
  then have "take_bit 12 x = 0" by (simp add: word_unat_eq_iff)
  moreover have "(0xFFF :: u32) = mask 12" by (simp add: mask_eq_exp_minus_1)
  ultimately show "V2P p AND 0xFFF = 0"
    by (simp only: V2P_def x_def take_bit_eq_mask)
qed

lemma word_slot:
  assumes "good_page kend p" and "i < 1024"
  shows "unat (p + 4 * of_nat i) = unat p + 4 * i"
proof -
  have "unat (4 * of_nat i :: u32) = 4 * i"
    using assms(2) by (simp add: unat_word_ariths unat_of_nat32)
  then show ?thesis
    using good_page_range(1) [OF assms(1)] assms(2) by (simp add: unat_word_ariths)
qed

lemma slot_nonzero:
  assumes "good_page kend p" and "i < 1024"
  shows "p + 4 * of_nat i \<noteq> 0"
proof -
  have "unat p \<noteq> 0" using assms(1) by (simp add: good_page_def word_unat_eq_iff)
  then show ?thesis using word_slot [OF assms] by (metis add_is_0 unat_0)
qed

lemma pte_fields:
  assumes "x AND 0xFFF = 0" and "f AND NOT 0xFFF = 0"
  shows "PTE_ADDR (x OR f) = x" and "(x OR f) AND PTE_P = f AND PTE_P"
proof -
  have m: "(0xFFF :: u32) = mask 12" by (simp add: mask_eq_exp_minus_1)
  have a: "12 \<le> n" if "bit x n" for n
  proof -
    have "\<not> bit (x AND mask 12) n" using assms(1) by (simp only: m) simp
    with that show ?thesis by (auto simp: bit_simps bit_imp_le_length not_le)
  qed
  have b: "n < 12" if "bit f n" for n
  proof -
    have "\<not> bit (f AND NOT (mask 12)) n" using assms(2) by (simp only: m) simp
    with that show ?thesis by (auto simp: bit_simps dest: bit_imp_le_length)
  qed
  show "PTE_ADDR (x OR f) = x"
    unfolding PTE_ADDR_def m
    by (rule bit_word_eqI) (use a b in \<open>fastforce simp: bit_simps\<close>)
  have "\<not> bit x 0"
    using a [of 0] by auto
  then show "(x OR f) AND PTE_P = f AND PTE_P"
    unfolding PTE_P_def
    by (intro bit_word_eqI) (auto simp: bit_simps bit_1_iff)
qed

section \<open>Well-formed page tables\<close>

definition pde :: "machine \<Rightarrow> u32 \<Rightarrow> nat \<Rightarrow> u32" where
  "pde s pgdir i = load32 s (pgdir + 4 * of_nat i)"

definition present :: "machine \<Rightarrow> u32 \<Rightarrow> nat \<Rightarrow> bool" where
  "present s pgdir i \<longleftrightarrow> pde s pgdir i AND PTE_P \<noteq> 0"

definition ptab :: "machine \<Rightarrow> u32 \<Rightarrow> nat \<Rightarrow> u32" where
  "ptab s pgdir i = P2V (PTE_ADDR (pde s pgdir i))"

text \<open>The page table entry of a virtual address; 0 where there is no page table.\<close>

definition entry :: "machine \<Rightarrow> u32 \<Rightarrow> u32 \<Rightarrow> u32" where
  "entry s pgdir va =
     (if present s pgdir (PDX va) then load32 s (ptab s pgdir (PDX va) + 4 * of_nat (PTX va)) else 0)"

text \<open>
  The page directory and its page tables are different pages, none of them free.
\<close>

definition wf_pgdir :: "u32 \<Rightarrow> machine \<Rightarrow> u32 set \<Rightarrow> u32 \<Rightarrow> bool" where
  "wf_pgdir kend s F pgdir \<longleftrightarrow>
     kalloc_inv kend s F \<and> good_page kend pgdir \<and> pgdir \<notin> F \<and>
     (\<forall>i < 1024. present s pgdir i \<longrightarrow>
        good_page kend (ptab s pgdir i) \<and> ptab s pgdir i \<notin> F \<and> ptab s pgdir i \<noteq> pgdir) \<and>
     (\<forall>i < 1024. \<forall>j < 1024. present s pgdir i \<longrightarrow> present s pgdir j \<longrightarrow>
        ptab s pgdir i = ptab s pgdir j \<longrightarrow> i = j)"

lemma wf_pgdirD:
  assumes "wf_pgdir kend s F pgdir"
  shows "kalloc_inv kend s F" and "good_page kend pgdir" and "pgdir \<notin> F"
    and "i < 1024 \<Longrightarrow> present s pgdir i \<Longrightarrow> good_page kend (ptab s pgdir i)"
    and "i < 1024 \<Longrightarrow> present s pgdir i \<Longrightarrow> ptab s pgdir i \<notin> F"
    and "i < 1024 \<Longrightarrow> present s pgdir i \<Longrightarrow> ptab s pgdir i \<noteq> pgdir"
    and "i < 1024 \<Longrightarrow> j < 1024 \<Longrightarrow> present s pgdir i \<Longrightarrow> present s pgdir j \<Longrightarrow>
      ptab s pgdir i = ptab s pgdir j \<longleftrightarrow> i = j"
  using assms by (auto simp: wf_pgdir_def)

definition page_eq :: "machine \<Rightarrow> machine \<Rightarrow> u32 \<Rightarrow> bool" where
  "page_eq s s' q \<longleftrightarrow> (\<forall>a. unat q \<le> a \<longrightarrow> a < unat q + PGSIZE \<longrightarrow> memory s' a = memory s a)"

lemma load32_page_eq:
  assumes "page_eq s s' q" and "good_page kend q" and "i < 1024"
  shows "load32 s' (q + 4 * of_nat i) = load32 s (q + 4 * of_nat i)"
proof -
  have "memory s' (unat q + 4 * i + k) = memory s (unat q + 4 * i + k)" if "k < 4" for k
    using assms(1,3) that by (simp add: page_eq_def PGSIZE_def)
  then have "load_bytes (memory s') (unat q + 4 * i) 4 = load_bytes (memory s) (unat q + 4 * i) 4"
    unfolding load_bytes_def by (intro map_cong) auto
  then show ?thesis
    by (simp add: load32_def get32_def word_slot [OF assms(2,3)])
qed

lemma page_eq_store32:
  assumes "good_page kend q" and "good_page kend p" and "p \<noteq> q" and "i < 1024"
  shows "page_eq s (store32 s (p + 4 * of_nat i) v) q"
proof -
  have "unat p + PGSIZE \<le> unat q \<or> unat q + PGSIZE \<le> unat p"
    using assms by (intro pages_apart) (auto simp: good_page_def)
  then show ?thesis
    using assms(4) by (auto simp: page_eq_def store32_def word_slot [OF assms(2,4)] PGSIZE_def)
qed

lemma load32_store32_same_page:
  assumes "good_page kend p" and "i < 1024" and "j < 1024"
  shows "load32 (store32 s (p + 4 * of_nat i) v) (p + 4 * of_nat j) =
    (if i = j then v else load32 s (p + 4 * of_nat j))"
proof -
  have "unat p + 4 * j + 4 \<le> unat p + 4 * i \<or> unat p + 4 * i + 4 \<le> unat p + 4 * j" if "i \<noteq> j"
    using that by auto
  then show ?thesis
    by (simp add: load32_def store32_def word_slot [OF assms(1,2)] word_slot [OF assms(1,3)]
        get32_put32_disjoint)
qed

lemma kalloc_inv_store32:
  assumes "kalloc_inv kend s F" and "good_page kend p" and "p \<notin> F" and "i < 1024"
  shows "kalloc_inv kend (store32 s (p + 4 * of_nat i) v) F"
  unfolding store32_def
  using assms by (intro kalloc_inv_write) (auto simp: good_page_def word_slot PGSIZE_def)

lemma pde_page_eq:
  "page_eq s s' pgdir \<Longrightarrow> good_page kend pgdir \<Longrightarrow> i < 1024 \<Longrightarrow> pde s' pgdir i = pde s pgdir i"
  by (simp add: pde_def load32_page_eq)

lemma wf_pgdir_page_eq:
  assumes "wf_pgdir kend s F pgdir" and "page_eq s s' pgdir" and "kalloc_inv kend s' F"
  shows "wf_pgdir kend s' F pgdir"
proof -
  have "pde s' pgdir i = pde s pgdir i" if "i < 1024" for i
    using pde_page_eq [OF assms(2) wf_pgdirD(2) [OF assms(1)] that] .
  then show ?thesis
    using assms(1,3) unfolding wf_pgdir_def present_def ptab_def by simp
qed

text \<open>Writing one page table entry.\<close>

lemma store_entry:
  fixes v :: u32
  assumes wf: "wf_pgdir kend s F pgdir" and i: "i < 1024" "present s pgdir i" and j: "j < 1024"
  defines "s' \<equiv> store32 s (ptab s pgdir i + 4 * of_nat j) v"
  shows "wf_pgdir kend s' F pgdir"
    and "entry s' pgdir va = (if PDX va = i \<and> PTX va = j then v else entry s pgdir va)"
    and "k < 1024 \<Longrightarrow> present s' pgdir k = present s pgdir k"
proof -
  note wfs = wf_pgdirD [OF wf]
  have pg: "page_eq s s' pgdir"
    unfolding s'_def using wfs i j by (intro page_eq_store32) auto
  have "kalloc_inv kend s' F"
    unfolding s'_def using wfs i j by (intro kalloc_inv_store32) auto
  with wf pg show "wf_pgdir kend s' F pgdir" by (rule wf_pgdir_page_eq)
  have pde: "pde s' pgdir k = pde s pgdir k" if "k < 1024" for k
    using pg wfs(2) that by (rule pde_page_eq)
  show "present s' pgdir k = present s pgdir k" if "k < 1024"
    using that by (simp add: present_def pde)
  show "entry s' pgdir va = (if PDX va = i \<and> PTX va = j then v else entry s pgdir va)"
  proof (cases "present s pgdir (PDX va) \<and> PDX va \<noteq> i")
    case True
    then have "page_eq s s' (ptab s pgdir (PDX va))"
      unfolding s'_def using wfs i j by (intro page_eq_store32) auto
    then have "load32 s' (ptab s pgdir (PDX va) + 4 * of_nat (PTX va)) =
        load32 s (ptab s pgdir (PDX va) + 4 * of_nat (PTX va))"
      using True wfs(4) by (intro load32_page_eq [of _ _ _ kend]) auto
    with True show ?thesis
      by (simp add: entry_def present_def ptab_def pde)
  next
    case False
    have st: "present s' pgdir (PDX va) = present s pgdir (PDX va)"
      "ptab s' pgdir (PDX va) = ptab s pgdir (PDX va)"
      by (simp_all add: present_def ptab_def pde)
    show ?thesis
    proof (cases "PDX va = i")
      case True
      have "load32 s' (ptab s pgdir i + 4 * of_nat (PTX va)) =
          (if j = PTX va then v else load32 s (ptab s pgdir i + 4 * of_nat (PTX va)))"
        unfolding s'_def by (rule load32_store32_same_page [OF wfs(4) [OF i] j PTX_bound])
      with True i st show ?thesis by (auto simp: entry_def)
    next
      case other: False
      with False st show ?thesis by (simp add: entry_def)
    qed
  qed
qed

text \<open>The three outcomes of \<open>walkpgdir\<close>.\<close>

lemma walk_present:
  "present s pgdir (PDX va) \<Longrightarrow>
   walkpgdir pgdir va alloc s = (ptab s pgdir (PDX va) + 4 * of_nat (PTX va), s)"
  by (simp add: walkpgdir_def present_def ptab_def pde_def Let_def)

lemma walk_absent:
  "\<not> present s pgdir (PDX va) \<Longrightarrow> walkpgdir pgdir va False s = (0, s)"
  by (simp add: walkpgdir_def present_def pde_def Let_def)

lemma kernel_pte:
  assumes "good_page kend p"
  shows "PTE_ADDR (V2P p OR PTE_P OR PTE_W OR PTE_U) = V2P p"
    and "(V2P p OR PTE_P OR PTE_W OR PTE_U) AND PTE_P \<noteq> 0"
proof -
  define f where "f = PTE_P OR PTE_W OR PTE_U"
  have f: "f AND NOT 0xFFF = 0" "f AND PTE_P \<noteq> 0"
    unfolding f_def PTE_P_def PTE_W_def PTE_U_def by simp_all
  note r = pte_fields [OF good_page_range(3) [OF assms] f(1)]
  have "V2P p OR PTE_P OR PTE_W OR PTE_U = V2P p OR f"
    unfolding f_def by (rule or.assoc [THEN trans, OF refl] | simp only: or.assoc)
  then show "PTE_ADDR (V2P p OR PTE_P OR PTE_W OR PTE_U) = V2P p"
    and "(V2P p OR PTE_P OR PTE_W OR PTE_U) AND PTE_P \<noteq> 0"
    using r f(2) by metis+
qed

lemma walk_new_table:
  assumes wf: "wf_pgdir kend s F pgdir" and absent: "\<not> present s pgdir (PDX va)"
    and w: "walkpgdir pgdir va True s = (pte, s')"
  shows "(pte = 0 \<and> F = {} \<and> s' = s) \<or>
    (\<exists>p \<in> F. wf_pgdir kend s' (F - {p}) pgdir \<and> present s' pgdir (PDX va) \<and>
       pte = ptab s' pgdir (PDX va) + 4 * of_nat (PTX va) \<and>
       (\<forall>va'. entry s' pgdir va' = entry s pgdir va'))"
proof -
  note wfs = wf_pgdirD [OF wf]
  obtain p s1 where k: "kalloc s = (p, s1)" by (cases "kalloc s")
  show ?thesis
  proof (cases "p = 0")
    case True
    with kalloc_exhausted [OF wfs(1)] k have "F = {}" "s1 = s" by auto
    with True w absent k show ?thesis
      by (simp add: walkpgdir_def present_def pde_def Let_def)
  next
    case False
    note p = kalloc_takes [OF wfs(1) k False]
    have gp: "good_page kend p" by (rule kalloc_inv_good [OF wfs(1) p(1)])
    have neq: "p \<noteq> pgdir" using p(1) wfs(3) by auto
    define s2 where "s2 = s1\<lparr>memory := memset (memory s1) (unat p) 0 PGSIZE\<rparr>"
    define e where "e = V2P p OR PTE_P OR PTE_W OR PTE_U"
    have s': "s' = store32 s2 (pgdir + 4 * of_nat (PDX va)) e"
      and pte: "pte = p + 4 * of_nat (PTX va)"
      using w absent k False
      by (auto simp: walkpgdir_def present_def pde_def Let_def s2_def e_def)
    have keep2: "page_eq s s2 q" if "good_page kend q" "q \<noteq> p" for q
    proof -
      have "unat q + PGSIZE \<le> unat p \<or> unat p + PGSIZE \<le> unat q"
        using that gp by (intro pages_apart) (auto simp: good_page_def)
      then show ?thesis by (auto simp: page_eq_def s2_def memset_fill p(3))
    qed
    have keep: "page_eq s2 s' q" if "good_page kend q" "q \<noteq> pgdir" for q
      unfolding s' using that wfs(2) by (intro page_eq_store32) auto
    have zero: "load32 s' (p + 4 * of_nat j) = 0" if "j < 1024" for j
    proof -
      have "load_bytes (memory s2) (unat p + 4 * j) 4 = replicate 4 0"
        using that by (auto simp: load_bytes_def s2_def memset_fill store_bytes_def PGSIZE_def
            intro!: nth_equalityI)
      then have "load32 s2 (p + 4 * of_nat j) = 0"
        by (simp add: load32_def get32_def word_slot [OF gp that] replicate_4)
      with load32_page_eq [OF keep [OF gp neq] gp that] show ?thesis by simp
    qed
    have inv: "kalloc_inv kend s' (F - {p})"
    proof -
      have "kalloc_inv kend s2 (F - {p})"
        unfolding s2_def using p(2) gp
        by (intro kalloc_inv_write) (auto simp: good_page_def memset_fill)
      then show ?thesis
        unfolding s' using wfs(2,3) by (intro kalloc_inv_store32) auto
    qed
    have pde': "pde s' pgdir i = (if i = PDX va then e else pde s pgdir i)" if "i < 1024" for i
    proof -
      have "pde s2 pgdir i = pde s pgdir i"
        using keep2 [OF wfs(2)] neq wfs(2) that by (intro pde_page_eq) auto
      then show ?thesis
        using load32_store32_same_page [OF wfs(2) PDX_bound [of va] that, of s2 e]
        by (auto simp: s' pde_def)
    qed
    have new: "present s' pgdir (PDX va)" "ptab s' pgdir (PDX va) = p"
      using kernel_pte [OF gp] good_page_range(2) [OF gp]
      by (auto simp: present_def ptab_def pde' e_def)
    have old: "present s' pgdir i = present s pgdir i" "ptab s' pgdir i = ptab s pgdir i"
      if "i < 1024" "i \<noteq> PDX va" for i
      using that by (auto simp: present_def ptab_def pde')
    have p_new: "ptab s pgdir i \<noteq> p" if "i < 1024" "present s pgdir i" for i
      using wfs(5) [OF that] p(1) by auto
    have "wf_pgdir kend s' (F - {p}) pgdir"
      unfolding wf_pgdir_def
    proof (intro conjI allI impI)
      fix i assume i: "i < 1024" "present s' pgdir i"
      show "good_page kend (ptab s' pgdir i)" "ptab s' pgdir i \<notin> F - {p}" "ptab s' pgdir i \<noteq> pgdir"
        using i new gp neq old wfs(4-6) by (cases "i = PDX va"; auto)+
    next
      fix i j assume ij: "i < 1024" "j < 1024" "present s' pgdir i" "present s' pgdir j"
        "ptab s' pgdir i = ptab s' pgdir j"
      then show "i = j"
        using new old p_new wfs(7) [of i j] by (cases "i = PDX va"; cases "j = PDX va") auto
    qed (use inv wfs in auto)
    moreover have "entry s' pgdir va' = entry s pgdir va'" for va'
    proof (cases "PDX va' = PDX va")
      case True
      then show ?thesis using absent new zero by (simp add: entry_def)
    next
      case False
      let ?t = "ptab s pgdir (PDX va')"
      have "load32 s' (?t + 4 * of_nat (PTX va')) = load32 s (?t + 4 * of_nat (PTX va'))"
        if "present s pgdir (PDX va')"
        using that wfs(4,6) keep keep2 p_new
        by (metis PDX_bound PTX_bound load32_page_eq)
      with False show ?thesis using old [of "PDX va'"] by (simp add: entry_def)
    qed
    ultimately show ?thesis
      using new pte p(1) by auto
  qed
qed

section \<open>Mapping a range\<close>

lemma walk_alloc:
  assumes wf: "wf_pgdir kend s F pgdir" and w: "walkpgdir pgdir va True s = (pte, s')"
  shows "(pte = 0 \<and> F = {} \<and> s' = s) \<or>
    (pte \<noteq> 0 \<and> (\<exists>F' \<subseteq> F. wf_pgdir kend s' F' pgdir \<and> present s' pgdir (PDX va) \<and>
       pte = ptab s' pgdir (PDX va) + 4 * of_nat (PTX va) \<and>
       (\<forall>va'. entry s' pgdir va' = entry s pgdir va')))"
proof (cases "present s pgdir (PDX va)")
  case True
  have "ptab s pgdir (PDX va) + 4 * of_nat (PTX va) \<noteq> 0"
    by (rule slot_nonzero [OF wf_pgdirD(4) [OF wf PDX_bound True] PTX_bound])
  with True w wf show ?thesis by (auto simp: walk_present)
next
  case False
  consider "pte = 0 \<and> F = {} \<and> s' = s"
    | p where "p \<in> F" "wf_pgdir kend s' (F - {p}) pgdir" "present s' pgdir (PDX va)"
      "pte = ptab s' pgdir (PDX va) + 4 * of_nat (PTX va)"
      "\<forall>va'. entry s' pgdir va' = entry s pgdir va'"
    using walk_new_table [OF wf False w] by blast
  then show ?thesis
  proof cases
    case 2
    have "pte \<noteq> 0"
      unfolding 2(4)
      by (rule slot_nonzero [OF wf_pgdirD(4) [OF 2(2) PDX_bound 2(3)] PTX_bound])
    with 2 show ?thesis by blast
  qed blast
qed

text \<open>Page-aligned addresses and the pages between two of them.\<close>

definition page_aligned :: "u32 \<Rightarrow> bool" where
  "page_aligned a \<longleftrightarrow> PGROUNDDOWN a = a"

lemma page_aligned_PGROUNDDOWN [simp]: "page_aligned (PGROUNDDOWN a)"
  by (simp add: page_aligned_def word_unat_eq_iff unat_PGROUNDDOWN)

lemma page_aligned_mult: "page_aligned a \<longleftrightarrow> (\<exists>q. unat a = 4096 * q)"
proof
  show "\<exists>q. unat a = 4096 * q" if "page_aligned a"
    using that by (intro exI [of _ "unat a div 4096"])
      (simp add: page_aligned_def word_unat_eq_iff unat_PGROUNDDOWN PGSIZE_def mult.commute)
qed (auto simp: page_aligned_def word_unat_eq_iff unat_PGROUNDDOWN PGSIZE_def)

lemma next_page:
  assumes "page_aligned a" and "unat a + 4096 * Suc n < 2 ^ 32"
  shows "unat (a + 4096) = unat a + 4096" and "page_aligned (a + 4096)"
proof -
  show u: "unat (a + 4096) = unat a + 4096"
    using assms(2) by (simp add: unat_word_ariths)
  obtain q where "unat a = 4096 * q" using assms(1) by (auto simp: page_aligned_mult)
  then have "unat (a + 4096) = 4096 * (q + 1)" using u by simp
  then show "page_aligned (a + 4096)" unfolding page_aligned_mult ..
qed

lemma page_range_step:
  assumes "page_aligned a" and "page_aligned g" and "unat l = unat a + 4096 * Suc n"
  shows "a \<le> g \<and> g \<le> l \<longleftrightarrow> g = a \<or> a + 4096 \<le> g \<and> g \<le> l" and "\<not> a + 4096 \<le> a"
proof -
  have "unat a + 4096 * Suc n < 2 ^ 32" using assms(3) unat_u32_bound [of l] by simp
  note u = next_page [OF assms(1) this]
  obtain q q' where "unat a = 4096 * q" "unat g = 4096 * q'"
    using assms(1,2) by (auto simp: page_aligned_mult)
  then show "a \<le> g \<and> g \<le> l \<longleftrightarrow> g = a \<or> a + 4096 \<le> g \<and> g \<le> l" and "\<not> a + 4096 \<le> a"
    using u(1) assms(3) by (auto simp: word_le_nat_alt word_unat_eq_iff)
qed

lemma mappages_one:
  assumes wf: "wf_pgdir kend s F pgdir" and al: "page_aligned a"
    and free: "entry s pgdir a AND PTE_P = 0"
  shows "(F = {} \<and> mappages_loop pgdir a l pa prm s = Inr (-1, s)) \<or>
    (\<exists>F' \<subseteq> F. \<exists>s'. wf_pgdir kend s' F' pgdir \<and>
       (\<forall>va. entry s' pgdir va =
          (if PGROUNDDOWN va = a then pa OR prm OR PTE_P else entry s pgdir va)) \<and>
       mappages_loop pgdir a l pa prm s =
         (if a = l \<or> unat (l - a) < 4096 then Inr (0, s')
          else mappages_loop pgdir (a + 4096) l (pa + 4096) prm s'))"
proof -
  obtain pte s1 where w: "walkpgdir pgdir a True s = (pte, s1)"
    by (cases "walkpgdir pgdir a True s")
  consider "pte = 0" "F = {}" "s1 = s"
    | F' where "pte \<noteq> 0" "F' \<subseteq> F" "wf_pgdir kend s1 F' pgdir" "present s1 pgdir (PDX a)"
      "pte = ptab s1 pgdir (PDX a) + 4 * of_nat (PTX a)"
      "\<forall>va'. entry s1 pgdir va' = entry s pgdir va'"
    using walk_alloc [OF wf w] by blast
  then show ?thesis
  proof cases
    case 1
    then show ?thesis using w by (subst (1) mappages_loop.simps) simp
  next
    case 2
    define s2 where "s2 = store32 s1 pte (pa OR prm OR PTE_P)"
    have "load32 s1 pte = entry s pgdir a"
      using 2(4-6) by (metis entry_def)
    then have "mappages_loop pgdir a l pa prm s =
       (if a = l \<or> unat (l - a) < 4096 then Inr (0, s2)
        else mappages_loop pgdir (a + 4096) l (pa + 4096) prm s2)"
      using w 2(1) free by (subst mappages_loop.simps) (simp add: s2_def Let_def)
    moreover have "wf_pgdir kend s2 F' pgdir"
      unfolding s2_def 2(5) using 2(3,4) by (intro store_entry(1)) auto
    moreover have "entry s2 pgdir va =
        (if PGROUNDDOWN va = a then pa OR prm OR PTE_P else entry s pgdir va)" for va
    proof -
      have "PDX va = PDX a \<and> PTX va = PTX a \<longleftrightarrow> PGROUNDDOWN va = a"
        using al unfolding same_page page_aligned_def by simp
      then show ?thesis
        using store_entry(2) [OF 2(3) PDX_bound 2(4) PTX_bound, of a "pa OR prm OR PTE_P" va] 2(6)
        by (simp add: s2_def 2(5))
    qed
    ultimately show ?thesis using 2(2) by blast
  qed
qed

lemma mappages_loop_maps:
  assumes "wf_pgdir kend s F pgdir" and "page_aligned a" and "unat l = unat a + 4096 * n"
    and "\<forall>va. a \<le> PGROUNDDOWN va \<and> PGROUNDDOWN va \<le> l \<longrightarrow> entry s pgdir va AND PTE_P = 0"
  shows "\<exists>r s' F'. mappages_loop pgdir a l pa prm s = Inr (r, s') \<and> F' \<subseteq> F \<and>
    wf_pgdir kend s' F' pgdir \<and> (r = 0 \<or> r = -1 \<and> F' = {}) \<and>
    (\<forall>va. if a \<le> PGROUNDDOWN va \<and> PGROUNDDOWN va \<le> l
       then r = 0 \<longrightarrow> entry s' pgdir va = (pa + (PGROUNDDOWN va - a)) OR prm OR PTE_P
       else entry s' pgdir va = entry s pgdir va)"
  using assms
proof (induction n arbitrary: a pa s F)
  case (0 a pa s F)
  have l: "l = a" using 0(3) by (simp add: word_unat_eq_iff)
  have eq: "a \<le> g \<and> g \<le> l \<longleftrightarrow> g = a" for g using l by auto
  have "entry s pgdir a AND PTE_P = 0" using 0(2,4) l by (simp add: page_aligned_def)
  from mappages_one [OF 0(1,2) this, of l pa prm]
  consider "F = {}" "mappages_loop pgdir a l pa prm s = Inr (-1, s)"
    | F1 s1 where "F1 \<subseteq> F" "wf_pgdir kend s1 F1 pgdir"
      "\<forall>va. entry s1 pgdir va =
          (if PGROUNDDOWN va = a then pa OR prm OR PTE_P else entry s pgdir va)"
      "mappages_loop pgdir a l pa prm s = Inr (0, s1)"
    using l by (simp only: if_True simp_thms) blast
  then show ?case
  proof cases
    case 1
    with 0(1) show ?thesis by (intro exI [of _ "-1"] exI [of _ s] exI [of _ F]) simp
  next
    case 2
    then show ?thesis unfolding eq by (intro exI [of _ 0] exI [of _ s1] exI [of _ F1]) simp
  qed
next
  case (Suc n)
  note step = page_range_step [OF Suc.prems(2) _ Suc.prems(3)]
  have bnd: "unat a + 4096 * Suc n < 2 ^ 32" using Suc.prems(3) unat_u32_bound [of l] by simp
  note nxt = next_page [OF Suc.prems(2) bnd]
  have near: "\<not> (a = l \<or> unat (l - a) < 4096)"
  proof -
    have "a \<le> l" using Suc.prems(3) by (simp add: word_le_nat_alt)
    then have "unat (l - a) = 4096 * Suc n" using Suc.prems(3) by (simp add: unat_sub)
    then show ?thesis by auto
  qed
  have "entry s pgdir a AND PTE_P = 0"
    using Suc.prems(2,3,4) by (simp add: page_aligned_def word_le_nat_alt)
  from mappages_one [OF Suc.prems(1,2) this, of l pa prm]
  consider "F = {}" "mappages_loop pgdir a l pa prm s = Inr (-1, s)"
    | F1 s1 where "F1 \<subseteq> F" "wf_pgdir kend s1 F1 pgdir"
      "\<forall>va. entry s1 pgdir va =
          (if PGROUNDDOWN va = a then pa OR prm OR PTE_P else entry s pgdir va)"
      "mappages_loop pgdir a l pa prm s = mappages_loop pgdir (a + 4096) l (pa + 4096) prm s1"
    using near by (simp only: if_False) blast
  then show ?case
  proof cases
    case 1
    with Suc.prems(1) show ?thesis by (intro exI [of _ "-1"] exI [of _ s] exI [of _ F]) simp
  next
    case 2
    have "unat l = unat (a + 4096) + 4096 * n" using Suc.prems(3) nxt(1) by simp
    moreover have "\<forall>va. a + 4096 \<le> PGROUNDDOWN va \<and> PGROUNDDOWN va \<le> l \<longrightarrow>
        entry s1 pgdir va AND PTE_P = 0"
      using 2(3) step Suc.prems(4) by (metis page_aligned_PGROUNDDOWN)
    ultimately obtain r s' F' where ih:
      "mappages_loop pgdir (a + 4096) l (pa + 4096) prm s1 = Inr (r, s')" "F' \<subseteq> F1"
      "wf_pgdir kend s' F' pgdir" "r = 0 \<or> r = -1 \<and> F' = {}"
      "\<forall>va. if a + 4096 \<le> PGROUNDDOWN va \<and> PGROUNDDOWN va \<le> l
       then r = 0 \<longrightarrow> entry s' pgdir va = (pa + 4096 + (PGROUNDDOWN va - (a + 4096))) OR prm OR PTE_P
       else entry s' pgdir va = entry s1 pgdir va"
      using Suc.IH [OF 2(2) nxt(2)] by blast
    have "if a \<le> PGROUNDDOWN va \<and> PGROUNDDOWN va \<le> l
       then r = 0 \<longrightarrow> entry s' pgdir va = (pa + (PGROUNDDOWN va - a)) OR prm OR PTE_P
       else entry s' pgdir va = entry s pgdir va" for va
    proof -
      have off: "pa + 4096 + (PGROUNDDOWN va - (a + 4096)) = pa + (PGROUNDDOWN va - a)"
        by (simp only: algebra_simps)
      note r = step [of "PGROUNDDOWN va", OF page_aligned_PGROUNDDOWN]
      show ?thesis
        using ih(5) [rule_format, of va] 2(3) [rule_format, of va] r off
        by (cases "PGROUNDDOWN va = a") (simp_all split: if_splits)
    qed
    moreover have "F' \<subseteq> F" using ih(2) 2(1) by (rule subset_trans)
    ultimately show ?thesis
      using ih(1,3,4) 2(4) by (intro exI [of _ r] exI [of _ s'] exI [of _ F']) simp
  qed
qed

section \<open>Changing the protection of a range\<close>

lemma protect_loop_changes:
  assumes "wf_pgdir kend s F pgdir" and "page_aligned (a + of_nat i * 4096)"
    and "unat (a + of_nat i * 4096) + 4096 * n < 2 ^ 32"
    and "\<forall>va. a + of_nat i * 4096 \<le> PGROUNDDOWN va \<and>
        unat (PGROUNDDOWN va) < unat (a + of_nat i * 4096) + 4096 * n \<longrightarrow>
        PGROUNDDOWN va \<le> psz \<and> present s pgdir (PDX va)"
  shows "\<exists>s'. protect_loop f pgdir psz a i n s = (0, s') \<and> wf_pgdir kend s' F pgdir \<and>
    (\<forall>va. entry s' pgdir va =
       (if a + of_nat i * 4096 \<le> PGROUNDDOWN va \<and>
           unat (PGROUNDDOWN va) < unat (a + of_nat i * 4096) + 4096 * n
        then f (entry s pgdir va) else entry s pgdir va)) \<and>
    (\<forall>k < 1024. present s' pgdir k = present s pgdir k)"
  using assms
proof (induction n arbitrary: i s)
  case 0
  have "\<not> (b \<le> g \<and> unat g < unat b + 4096 * 0)" for b g :: u32 by (auto simp: word_le_nat_alt)
  with 0(1) show ?case by (simp only: protect_loop.simps if_False) blast
next
  case (Suc n)
  define b where "b = a + of_nat i * 4096"
  note prems = Suc.prems [folded b_def]
  have b1: "a + of_nat (i + 1) * 4096 = b + 4096" by (simp add: b_def algebra_simps)
  note nxt = next_page [OF prems(2,3)]
  have b_page: "PGROUNDDOWN b = b" using prems(2) by (simp add: page_aligned_def)
  have here: "b \<le> psz" "present s pgdir (PDX b)"
    using prems(4) [rule_format, of b] by (auto simp: b_page)
  define pte where "pte = ptab s pgdir (PDX b) + 4 * of_nat (PTX b)"
  define s1 where "s1 = store32 s pte (f (load32 s pte))"
  have pte: "load32 s pte = entry s pgdir b" using here(2) by (simp add: entry_def pte_def)
  have walk: "fst (walkpgdir pgdir b False s) = pte" using here(2) by (simp add: walk_present pte_def)
  have pte0: "pte \<noteq> 0"
    unfolding pte_def by (rule slot_nonzero [OF wf_pgdirD(4) [OF prems(1) PDX_bound here(2)] PTX_bound])
  have step: "protect_loop f pgdir psz a i (Suc n) s = protect_loop f pgdir psz a (i + 1) n s1"
    using here(1) walk pte0 by (simp add: b_def s1_def Let_def not_less [symmetric])
  have wf1: "wf_pgdir kend s1 F pgdir"
    unfolding s1_def pte_def using prems(1) here(2) by (intro store_entry(1)) auto
  have keep: "present s1 pgdir k = present s pgdir k" if "k < 1024" for k
    unfolding s1_def pte_def using prems(1) here(2) that by (intro store_entry(3)) auto
  have ent1: "entry s1 pgdir va = (if PGROUNDDOWN va = b then f (entry s pgdir va) else entry s pgdir va)" for va
  proof -
    have eq: "PDX va = PDX b \<and> PTX va = PTX b \<longleftrightarrow> PGROUNDDOWN va = b"
      by (simp only: same_page b_page)
    moreover have "entry s pgdir va = entry s pgdir b" if "PGROUNDDOWN va = b"
      using that eq by (simp add: entry_def)
    ultimately show ?thesis
      using store_entry(2) [OF prems(1) PDX_bound here(2) PTX_bound, of b "f (load32 s pte)" va]
      by (simp add: s1_def pte_def pte [unfolded pte_def])
  qed
  have rng: "b \<le> g \<and> unat g < unat b + 4096 * Suc n \<longleftrightarrow>
      g = b \<or> (b + 4096 \<le> g \<and> unat g < unat (b + 4096) + 4096 * n)" if g: "page_aligned g" for g
  proof -
    obtain q q' where "unat b = 4096 * q" "unat g = 4096 * q'"
      using prems(2) g by (auto simp: page_aligned_mult)
    then show ?thesis using nxt(1) by (auto simp: word_le_nat_alt word_unat_eq_iff)
  qed
  have "\<exists>s'. protect_loop f pgdir psz a (i + 1) n s1 = (0, s') \<and> wf_pgdir kend s' F pgdir \<and>
    (\<forall>va. entry s' pgdir va =
       (if b + 4096 \<le> PGROUNDDOWN va \<and> unat (PGROUNDDOWN va) < unat (b + 4096) + 4096 * n
        then f (entry s1 pgdir va) else entry s1 pgdir va)) \<and>
    (\<forall>k < 1024. present s' pgdir k = present s1 pgdir k)"
  proof (rule Suc.IH [of s1 "i + 1", unfolded b1])
    show "unat (b + 4096) + 4096 * n < 2 ^ 32" using prems(3) nxt(1) by simp
    show "\<forall>va. b + 4096 \<le> PGROUNDDOWN va \<and> unat (PGROUNDDOWN va) < unat (b + 4096) + 4096 * n \<longrightarrow>
        PGROUNDDOWN va \<le> psz \<and> present s1 pgdir (PDX va)"
      using prems(4) rng [OF page_aligned_PGROUNDDOWN] keep [OF PDX_bound] by blast
  qed (use wf1 nxt in auto)
  then obtain s' where s': "protect_loop f pgdir psz a (i + 1) n s1 = (0, s')" "wf_pgdir kend s' F pgdir"
    "\<forall>va. entry s' pgdir va =
       (if b + 4096 \<le> PGROUNDDOWN va \<and> unat (PGROUNDDOWN va) < unat (b + 4096) + 4096 * n
        then f (entry s1 pgdir va) else entry s1 pgdir va)"
    "\<forall>k < 1024. present s' pgdir k = present s1 pgdir k"
    by blast
  have "\<not> b + 4096 \<le> b" using nxt(1) by (simp add: word_le_nat_alt)
  then have "entry s' pgdir va = (if b \<le> PGROUNDDOWN va \<and> unat (PGROUNDDOWN va) < unat b + 4096 * Suc n
        then f (entry s pgdir va) else entry s pgdir va)" for va
    using s'(3) [rule_format, of va] ent1 [of va] rng [of "PGROUNDDOWN va"]
    by (cases "PGROUNDDOWN va = b") (simp_all split: if_splits)
  then show ?case
    unfolding step using s'(1,2,4) keep by (intro exI [of _ s']) (simp add: b_def)
qed

section \<open>Properties\<close>

definition in_pages :: "u32 \<Rightarrow> nat \<Rightarrow> u32 \<Rightarrow> bool" where
  "in_pages addr n va \<longleftrightarrow>
     addr \<le> PGROUNDDOWN va \<and> unat (PGROUNDDOWN va) < unat addr + 4096 * n"

lemma aligned_iff_mod: "page_aligned a \<longleftrightarrow> unat a mod PGSIZE = 0"
  by (auto simp: page_aligned_mult PGSIZE_def)

lemma protect_pages:
  assumes "wf_pgdir kend s F pgdir" and "unat addr mod PGSIZE = 0"
    and "unat addr + 4096 * n < 2 ^ 32"
    and "\<forall>va. in_pages addr n va \<longrightarrow> PGROUNDDOWN va \<le> psz \<and> present s pgdir (PDX va)"
  shows "\<exists>s'. protect_loop f pgdir psz addr 0 n s = (0, s') \<and> wf_pgdir kend s' F pgdir \<and>
    (\<forall>va. entry s' pgdir va =
       (if in_pages addr n va then f (entry s pgdir va) else entry s pgdir va)) \<and>
    (\<forall>k < 1024. present s' pgdir k = present s pgdir k)"
  using protect_loop_changes [of kend s F pgdir addr 0 n psz f] assms
  by (simp add: in_pages_def aligned_iff_mod)

text \<open>
  C13: \<open>mappages\<close> on a well-formed page directory, for a range that does not wrap around and of
  which no page is mapped yet, never panics. It returns 0 after mapping every page of the range
  to the physical page at the same offset from \<open>pa\<close> with the permissions given, or -1, and
  then no free page is left. Either way the page directory stays well-formed, only free pages
  became page tables, and no other virtual address changed its page table entry.
\<close>

theorem mappages_maps_the_range:
  assumes "wf_pgdir kend s F pgdir" and "0 < sz" and "unat va + unat sz \<le> 2 ^ 32"
    and "\<forall>v. PGROUNDDOWN va \<le> PGROUNDDOWN v \<and> PGROUNDDOWN v \<le> PGROUNDDOWN (va + sz - 1) \<longrightarrow>
      entry s pgdir v AND PTE_P = 0"
  shows "\<exists>r s' F'. mappages pgdir va sz pa prm s = Inr (r, s') \<and> F' \<subseteq> F \<and>
    wf_pgdir kend s' F' pgdir \<and> (r = 0 \<or> r = -1 \<and> F' = {}) \<and>
    (\<forall>v. if PGROUNDDOWN va \<le> PGROUNDDOWN v \<and> PGROUNDDOWN v \<le> PGROUNDDOWN (va + sz - 1)
       then r = 0 \<longrightarrow> entry s' pgdir v = (pa + (PGROUNDDOWN v - PGROUNDDOWN va)) OR prm OR PTE_P
       else entry s' pgdir v = entry s pgdir v)"
proof -
  have "unat (va + sz - 1) = unat va + unat sz - 1"
  proof -
    have u: "unat (sz - 1) = unat sz - 1" and z: "0 < unat sz"
      using assms(2) by (simp_all add: unat_minus_one word_gt_0 unat_gt_0)
    have "unat (va + (sz - 1)) = unat va + unat (sz - 1)"
      using assms(3) u z by (simp add: unat_word_ariths)
    moreover have "va + (sz - 1) = va + sz - 1" by simp
    ultimately show ?thesis using u z by simp
  qed
  moreover have "0 < unat sz" using assms(2) by (simp add: word_gt_0 unat_gt_0)
  ultimately have le: "unat va div 4096 \<le> unat (va + sz - 1) div 4096"
    by (intro div_le_mono) simp
  have "unat (PGROUNDDOWN (va + sz - 1)) = unat (PGROUNDDOWN va) +
      4096 * (unat (va + sz - 1) div 4096 - unat va div 4096)"
    using le by (simp add: unat_PGROUNDDOWN PGSIZE_def algebra_simps)
  then show ?thesis
    using mappages_loop_maps [OF assms(1) page_aligned_PGROUNDDOWN _ assms(4)]
    by (simp add: mappages_def Let_def)
qed

text \<open>
  C14: \<open>mprotect(addr, len)\<close> on page-aligned \<open>addr\<close>, positive \<open>len\<close> and pages that start
  within the process and have page tables returns 0, clears the write bit of exactly the
  \<open>len\<close> pages from \<open>addr\<close> on and leaves every other entry alone; \<open>munprotect\<close> with the same
  arguments then sets exactly these bits again, so pages that were writable are restored.
\<close>

theorem mprotect_then_munprotect:
  assumes "wf_pgdir kend s F pgdir" and "unat addr mod PGSIZE = 0" and "0 < len"
    and "unat addr + 4096 * nat len < 2 ^ 32"
    and "\<forall>va. in_pages addr (nat len) va \<longrightarrow> PGROUNDDOWN va \<le> psz \<and> present s pgdir (PDX va)"
  shows "\<exists>s1 s2. mprotect pgdir psz addr len s = (0, s1) \<and> munprotect pgdir psz addr len s1 = (0, s2) \<and>
    wf_pgdir kend s1 F pgdir \<and> wf_pgdir kend s2 F pgdir \<and>
    (\<forall>va. entry s1 pgdir va =
       (if in_pages addr (nat len) va then entry s pgdir va AND NOT PTE_W else entry s pgdir va)) \<and>
    (\<forall>va. entry s2 pgdir va =
       (if in_pages addr (nat len) va then entry s pgdir va OR PTE_W else entry s pgdir va))"
proof -
  have bits: "(e AND NOT PTE_W) OR PTE_W = e OR PTE_W" for e
    by (intro bit_word_eqI) (auto simp: bit_simps)
  obtain s1 where s1: "protect_loop (\<lambda>e. e AND NOT PTE_W) pgdir psz addr 0 (nat len) s = (0, s1)"
    "wf_pgdir kend s1 F pgdir"
    "\<forall>va. entry s1 pgdir va = (if in_pages addr (nat len) va then entry s pgdir va AND NOT PTE_W
       else entry s pgdir va)" "\<forall>k < 1024. present s1 pgdir k = present s pgdir k"
    using protect_pages [OF assms(1,2,4,5), of "\<lambda>e. e AND NOT PTE_W"] by blast
  have "\<forall>va. in_pages addr (nat len) va \<longrightarrow> PGROUNDDOWN va \<le> psz \<and> present s1 pgdir (PDX va)"
    using assms(5) s1(4) by simp
  from protect_pages [OF s1(2) assms(2,4) this, of "\<lambda>e. e OR PTE_W"]
  obtain s2 where s2: "protect_loop (\<lambda>e. e OR PTE_W) pgdir psz addr 0 (nat len) s1 = (0, s2)"
    "wf_pgdir kend s2 F pgdir" "\<forall>va. entry s2 pgdir va =
       (if in_pages addr (nat len) va then entry s1 pgdir va OR PTE_W else entry s1 pgdir va)"
    by blast
  have "entry s2 pgdir va =
      (if in_pages addr (nat len) va then entry s pgdir va OR PTE_W else entry s pgdir va)" for va
    using s2(3) s1(3) by (simp add: bits)
  then show ?thesis
    using s1 s2 assms(2,3) by (auto simp: mprotect_def munprotect_def)
qed

text \<open>
  A machine with two free pages and, in the page after them, an empty page directory; and one
  whose page directory at \<open>0x80402000\<close> has the page table at \<open>0x80403000\<close> for the first
  4 megabytes, with the page at address 0 mapped writable.
\<close>

lemma sample_pages: "good_page 0x80200000 0x80402000" "good_page 0x80200000 0x80403000"
  by (simp_all add: good_page_def PGSIZE_def V2P_def KERNBASE_def PHYSTOP_def)

lemma two_pages_zero:
  assumes "i < 1024"
  shows "load32 two_pages (0x80402000 + 4 * of_nat i) = 0"
    and "load32 two_pages (0x80403000 + 4 * of_nat i) = 0"
proof -
  have z: "get32 (\<lambda>_. 0) a = 0" for a
    by (simp add: get32_def load_bytes_def numeral_nat)
  show "load32 two_pages (0x80402000 + 4 * of_nat i) = 0"
    and "load32 two_pages (0x80403000 + 4 * of_nat i) = 0"
    using word_slot [OF sample_pages(1) assms] word_slot [OF sample_pages(2) assms]
    by (simp_all add: load32_def two_pages_def get32_put32_disjoint z)
qed

lemma two_pages_wf: "wf_pgdir 0x80200000 two_pages {0x80400000, 0x80401000} 0x80402000"
proof -
  have "\<not> present two_pages 0x80402000 i" if "i < 1024" for i
    using that by (simp add: present_def pde_def two_pages_zero)
  then show ?thesis
    using two_pages_inv sample_pages(1) by (simp add: wf_pgdir_def)
qed

definition one_table :: machine where
  "one_table = store32 (store32 two_pages 0x80402000 0x00403007) 0x80403000 0x00404007"

lemma one_table_pde:
  assumes "i < 1024"
  shows "pde one_table 0x80402000 i = (if i = 0 then 0x00403007 else 0)"
proof -
  let ?s = "store32 two_pages 0x80402000 0x00403007"
  have "page_eq ?s one_table 0x80402000"
    using page_eq_store32 [OF sample_pages(1,2), of 0 ?s "0x00404007"] by (simp add: one_table_def)
  then have "pde one_table 0x80402000 i = pde ?s 0x80402000 i"
    by (rule pde_page_eq [OF _ sample_pages(1) assms])
  then show ?thesis
    using load32_store32_same_page [OF sample_pages(1) _ assms, of 0 two_pages "0x00403007"]
    by (auto simp: pde_def two_pages_zero [OF assms])
qed

lemma one_table_present:
  assumes "i < 1024"
  shows "present one_table 0x80402000 i \<longleftrightarrow> i = 0" and "ptab one_table 0x80402000 0 = 0x80403000"
  using assms by (auto simp: present_def ptab_def one_table_pde PTE_P_def PTE_ADDR_def P2V_def KERNBASE_def)

lemma one_table_wf: "wf_pgdir 0x80200000 one_table {0x80400000, 0x80401000} 0x80402000"
proof -
  have "kalloc_inv 0x80200000 one_table {0x80400000, 0x80401000}"
    using kalloc_inv_store32 [OF kalloc_inv_store32 [OF two_pages_inv sample_pages(1), of 0 "0x00403007"]
        sample_pages(2), of 0 "0x00404007"]
    by (simp add: one_table_def)
  then show ?thesis
    using sample_pages one_table_present by (auto simp: wf_pgdir_def)
qed

lemma one_table_entry: "entry one_table 0x80402000 0x10 = 0x00404007"
  using load32_store32_same_page [OF sample_pages(2), of 0 0
      "store32 two_pages 0x80402000 0x00403007" "0x00404007"] one_table_present [of 0]
  by (simp add: entry_def PDX_div PTX_div one_table_def)

theorem mappages_maps_the_range_witness:
  "\<exists>r s'. mappages 0x80402000 0x3FF800 0x1000 0x404000 PTE_U two_pages = Inr (r, s') \<and>
    (r = 0 \<longrightarrow> entry s' 0x80402000 0x400123 = 0x405005)"
proof -
  have "entry two_pages 0x80402000 v AND PTE_P = 0" for v
    by (simp add: entry_def present_def pde_def two_pages_zero)
  then obtain r s' where r: "mappages 0x80402000 0x3FF800 0x1000 0x404000 PTE_U two_pages = Inr (r, s')"
    "\<forall>v. if PGROUNDDOWN 0x3FF800 \<le> PGROUNDDOWN v \<and> PGROUNDDOWN v \<le> PGROUNDDOWN (0x3FF800 + 0x1000 - 1)
       then r = 0 \<longrightarrow> entry s' 0x80402000 v =
         (0x404000 + (PGROUNDDOWN v - PGROUNDDOWN 0x3FF800)) OR PTE_U OR PTE_P
       else entry s' 0x80402000 v = entry two_pages 0x80402000 v"
    using mappages_maps_the_range [OF two_pages_wf, of "0x1000" "0x3FF800" "0x404000" PTE_U] by auto
  from r(2) [rule_format, of "0x400123"] r(1) show ?thesis
    by (simp add: PGROUNDDOWN_def PTE_U_def PTE_P_def)
qed

theorem mprotect_then_munprotect_witness:
  "\<exists>s1 s2. mprotect 0x80402000 0x1000 0 1 one_table = (0, s1) \<and> entry s1 0x80402000 0x10 = 0x00404005 \<and>
     munprotect 0x80402000 0x1000 0 1 s1 = (0, s2) \<and> entry s2 0x80402000 0x10 = 0x00404007"
proof -
  have pages: "in_pages 0 (nat 1) va \<Longrightarrow> PGROUNDDOWN va = 0 \<and> PDX va = 0" for va
    by (simp add: in_pages_def PDX_div unat_PGROUNDDOWN word_unat_eq_iff PGSIZE_def)
  then have "\<forall>va. in_pages 0 (nat 1) va \<longrightarrow>
      PGROUNDDOWN va \<le> 0x1000 \<and> present one_table 0x80402000 (PDX va)"
    using one_table_present(1) [of 0] by simp
  from mprotect_then_munprotect [OF one_table_wf _ _ _ this]
  obtain s1 s2 where r: "mprotect 0x80402000 0x1000 0 1 one_table = (0, s1)"
    "munprotect 0x80402000 0x1000 0 1 s1 = (0, s2)"
    "\<forall>va. entry s1 0x80402000 va = (if in_pages 0 (nat 1) va then entry one_table 0x80402000 va AND NOT PTE_W
       else entry one_table 0x80402000 va)"
    "\<forall>va. entry s2 0x80402000 va = (if in_pages 0 (nat 1) va then entry one_table 0x80402000 va OR PTE_W
       else entry one_table 0x80402000 va)"
    by auto
  have "in_pages 0 (nat 1) 0x10" by (simp add: in_pages_def PGROUNDDOWN_def)
  with r one_table_entry show ?thesis by (simp add: PTE_W_def)
qed

end
