(* ===== verification/Spinlock.thy ===== *)
theory Spinlock
  imports Prelude
begin

text \<open>
  Spin locks and interrupt nesting, \<open>spinlock.c\<close>. A processor keeps the depth of its
  \<open>pushcli\<close> calls and whether interrupts were enabled before the first of them; \<open>iflag\<close>
  is the interrupt flag of its \<open>eflags\<close> register. The atomic exchange of \<open>acquire\<close> spins
  while another processor has the lock: the model's \<open>acquire\<close> is then the fault
  \<open>Spins\<close>, a state in which this processor makes no progress. The recorded call stack
  (\<open>pcs\<close>) and the lock's name serve debugging only and are left out.
\<close>

section \<open>State\<close>

record spinlock =
  locked :: bool
  lcpu :: "nat option"

record cpu =
  ncli :: int
  intena :: bool
  iflag :: bool
  cproc :: "nat option"

text \<open>The state that locking works on; the kernel's state extends it.\<close>

record sync =
  cpus :: "nat \<Rightarrow> cpu"
  locks :: "nat \<Rightarrow> spinlock"

definition upd_cpu :: "nat \<Rightarrow> (cpu \<Rightarrow> cpu) \<Rightarrow> 'a sync_scheme \<Rightarrow> 'a sync_scheme" where
  "upd_cpu c f k = k\<lparr>cpus := (cpus k)(c := f (cpus k c))\<rparr>"

definition set_lock :: "nat \<Rightarrow> spinlock \<Rightarrow> 'a sync_scheme \<Rightarrow> 'a sync_scheme" where
  "set_lock l v k = k\<lparr>locks := (locks k)(l := v)\<rparr>"

section \<open>Operations\<close>

definition initlock :: "nat \<Rightarrow> 'a sync_scheme \<Rightarrow> 'a sync_scheme" where
  "initlock l k = set_lock l \<lparr>locked = False, lcpu = None\<rparr> k"

definition pushcli :: "nat \<Rightarrow> 'a sync_scheme \<Rightarrow> 'a sync_scheme" where
  "pushcli c k =
     upd_cpu c (\<lambda>p. p\<lparr>intena := (if ncli p = 0 then iflag p else intena p),
                      iflag := False, ncli := ncli p + 1\<rparr>) k"

definition popcli :: "nat \<Rightarrow> 'a sync_scheme \<Rightarrow> 'a sync_scheme res" where
  "popcli c k =
     (if iflag (cpus k c) then Inl (Panic ''popcli - interruptible'')
      else let k = upd_cpu c (\<lambda>p. p\<lparr>ncli := ncli p - 1\<rparr>) k in
        if ncli (cpus k c) < 0 then Inl (Panic ''popcli'')
        else if ncli (cpus k c) = 0 \<and> intena (cpus k c)
        then Inr (upd_cpu c (\<lambda>p. p\<lparr>iflag := True\<rparr>) k)
        else Inr k)"

definition holding :: "nat \<Rightarrow> nat \<Rightarrow> 'a sync_scheme \<Rightarrow> (bool \<times> 'a sync_scheme) res" where
  "holding c l k =
     (let k = pushcli c k;
          r = (locked (locks k l) \<and> lcpu (locks k l) = Some c)
      in bindE (popcli c k) (\<lambda>k. Inr (r, k)))"

definition acquire :: "nat \<Rightarrow> nat \<Rightarrow> 'a sync_scheme \<Rightarrow> 'a sync_scheme res" where
  "acquire c l k =
     bindE (holding c l (pushcli c k)) (\<lambda>(r, k).
       if r then Inl (Panic ''acquire'')
       else if locked (locks k l) then Inl Spins
       else Inr (set_lock l \<lparr>locked = True, lcpu = Some c\<rparr> k))"

definition release :: "nat \<Rightarrow> nat \<Rightarrow> 'a sync_scheme \<Rightarrow> 'a sync_scheme res" where
  "release c l k =
     bindE (holding c l k) (\<lambda>(r, k).
       if \<not> r then Inl (Panic ''release'')
       else popcli c (set_lock l \<lparr>locked = False, lcpu = None\<rparr> k))"

section \<open>Interrupt nesting\<close>

text \<open>
  The state of a processor is sound when interrupts are off inside every \<open>pushcli\<close>, and
  \<open>held\<close> counts the locks that it holds.
\<close>

definition cpu_ok :: "cpu \<Rightarrow> bool" where
  "cpu_ok p \<longleftrightarrow> 0 \<le> ncli p \<and> (0 < ncli p \<longrightarrow> \<not> iflag p)"

lemma cpus_upd_cpu [simp]: "cpus (upd_cpu c f k) = (cpus k)(c := f (cpus k c))"
  and locks_upd_cpu [simp]: "locks (upd_cpu c f k) = locks k"
  and cpus_set_lock [simp]: "cpus (set_lock l v k) = cpus k"
  and locks_set_lock [simp]: "locks (set_lock l v k) = (locks k)(l := v)"
  by (simp_all add: upd_cpu_def set_lock_def)

lemma upd_cpu_twice: "upd_cpu c f (upd_cpu c g k) = upd_cpu c (f \<circ> g) k"
  by (simp add: upd_cpu_def)

lemma upd_cpu_id: "f (cpus k c) = cpus k c \<Longrightarrow> upd_cpu c f k = k"
  by (simp add: upd_cpu_def)

lemma upd_cpu_eq: "f (cpus k c) = g (cpus k c) \<Longrightarrow> upd_cpu c f k = upd_cpu c g k"
  by (simp add: upd_cpu_def)

lemma upd_set_lock_commute: "upd_cpu c f (set_lock l v k) = set_lock l v (upd_cpu c f k)"
  by (simp add: upd_cpu_def set_lock_def)

lemma set_lock_twice [simp]: "set_lock l v (set_lock l w k) = set_lock l v k"
  by (simp add: set_lock_def)

lemma set_lock_id: "locks k l = v \<Longrightarrow> set_lock l v k = k"
  by (simp add: set_lock_def fun_upd_idem)

lemma push_pop:
  assumes "cpu_ok (cpus k c)"
  shows "popcli c (pushcli c k) =
    Inr (upd_cpu c (\<lambda>p. p\<lparr>intena := (if ncli p = 0 then iflag p else intena p)\<rparr>) k)"
  using assms
  by (cases "cpus k c")
    (auto simp: popcli_def pushcli_def upd_cpu_def cpu_ok_def Let_def fun_upd_idem)

lemma cpu_ok_pushcli: "cpu_ok (cpus k c) \<Longrightarrow> cpu_ok (cpus (pushcli c k) d) \<longleftrightarrow> d = c \<or> cpu_ok (cpus k d)"
  by (auto simp: pushcli_def cpu_ok_def)

lemma holding_eq:
  assumes "cpu_ok (cpus k c)" and "0 < ncli (cpus k c)"
  shows "holding c l k = Inr (locked (locks k l) \<and> lcpu (locks k l) = Some c, k)"
  using push_pop [OF assms(1)] assms(2)
  by (simp add: holding_def Let_def upd_cpu_id pushcli_def [of c k])

text \<open>What \<open>acquire\<close> and \<open>release\<close> do when they return.\<close>

lemma acquire_eq:
  assumes "cpu_ok (cpus k c)"
  shows "acquire c l k =
    (if locked (locks k l) then Inl (if lcpu (locks k l) = Some c then Panic ''acquire'' else Spins)
     else Inr (set_lock l \<lparr>locked = True, lcpu = Some c\<rparr> (pushcli c k)))"
proof -
  have "cpu_ok (cpus (pushcli c k) c)" "0 < ncli (cpus (pushcli c k) c)"
    "locks (pushcli c k) = locks k"
    using assms by (auto simp: pushcli_def cpu_ok_def)
  then show ?thesis by (simp add: acquire_def holding_eq)
qed

lemma release_eq:
  assumes "cpu_ok (cpus k c)" and "0 < ncli (cpus k c)"
  shows "release c l k =
    (if locked (locks k l) \<and> lcpu (locks k l) = Some c
     then Inr (set_lock l \<lparr>locked = False, lcpu = None\<rparr>
       (upd_cpu c (\<lambda>p. p\<lparr>ncli := ncli p - 1, iflag := (ncli p = 1 \<and> intena p)\<rparr>) k))
     else Inl (Panic ''release''))"
  using assms
  by (cases "cpus k c")
    (auto simp: release_def holding_eq popcli_def Let_def cpu_ok_def upd_cpu_def set_lock_def)

section \<open>Critical sections\<close>

text \<open>
  Code that runs between \<open>acquire\<close> and \<open>release\<close> of a lock and itself leaves the locks and
  the processors alone: the pair adds nothing to it but the record of the interrupt flag.
\<close>

definition with_lock ::
  "nat \<Rightarrow> nat \<Rightarrow> ('a sync_scheme \<Rightarrow> 'b \<times> 'a sync_scheme) \<Rightarrow> 'a sync_scheme \<Rightarrow> ('b \<times> 'a sync_scheme) res" where
  "with_lock c l body k =
     bindE (acquire c l k) (\<lambda>k. case body k of (r, k) \<Rightarrow>
     bindE (release c l k) (\<lambda>k. Inr (r, k)))"

definition free_lock :: spinlock where
  "free_lock = \<lparr>locked = False, lcpu = None\<rparr>"

definition note_flag :: "nat \<Rightarrow> 'a sync_scheme \<Rightarrow> 'a sync_scheme" where
  "note_flag c k = upd_cpu c (\<lambda>p. p\<lparr>intena := (if ncli p = 0 then iflag p else intena p)\<rparr>) k"

locale lock_section =
  fixes body :: "'a sync_scheme \<Rightarrow> 'b \<times> 'a sync_scheme"
  assumes keeps_sync: "cpus (snd (body k)) = cpus k" "locks (snd (body k)) = locks k"
    and ignores_sync: "body (k\<lparr>cpus := cs, locks := ls\<rparr>) =
      (fst (body k), (snd (body k))\<lparr>cpus := cs, locks := ls\<rparr>)"
begin

lemma section_runs:
  assumes ok: "cpu_ok (cpus k c)" and free: "locks k l = free_lock"
  shows "with_lock c l body k = Inr (fst (body k), note_flag c (snd (body k)))"
proof -
  define cs where "cs = cpus (pushcli c k)"
  define ls where "ls = (locks k)(l := \<lparr>locked = True, lcpu = Some c\<rparr>)"
  obtain r k' where b: "body k = (r, k')" by (cases "body k")
  have k': "cpus k' = cpus k" "locks k' = locks k" using keeps_sync [of k] b by auto
  have "set_lock l \<lparr>locked = True, lcpu = Some c\<rparr> (pushcli c k) = k\<lparr>cpus := cs, locks := ls\<rparr>"
    by (simp add: cs_def ls_def set_lock_def pushcli_def upd_cpu_def)
  then have "acquire c l k = Inr (k\<lparr>cpus := cs, locks := ls\<rparr>)"
    using ok free by (simp add: acquire_eq free_lock_def)
  moreover have "body (k\<lparr>cpus := cs, locks := ls\<rparr>) = (r, k'\<lparr>cpus := cs, locks := ls\<rparr>)"
    using ignores_sync [where k = k and cs = cs and ls = ls] b by simp
  moreover have "release c l (k'\<lparr>cpus := cs, locks := ls\<rparr>) = Inr (note_flag c k')"
  proof -
    have "cpu_ok (cs c)" "0 < ncli (cs c)" using ok by (auto simp: cs_def pushcli_def cpu_ok_def)
    then show ?thesis
      using ok free k'
      by (cases "cpus k c") (auto simp: release_eq ls_def cs_def pushcli_def note_flag_def
          set_lock_def upd_cpu_def free_lock_def cpu_ok_def fun_upd_idem)
  qed
  ultimately show ?thesis using b by (simp add: with_lock_def)
qed

end

section \<open>Any interleaving of acquires and releases\<close>

text \<open>
  The processors take and give back locks in any order; an \<open>acquire\<close> that spins or a call
  that panics is not a step.
\<close>

inductive lock_step :: "sync \<Rightarrow> sync \<Rightarrow> bool" where
  take_lock: "acquire c l k = Inr k' \<Longrightarrow> lock_step k k'"
| give_lock: "release c l k = Inr k' \<Longrightarrow> lock_step k k'"

inductive lock_steps :: "sync \<Rightarrow> sync \<Rightarrow> bool" where
  lock_refl: "lock_steps k k"
| lock_trans: "lock_steps k k' \<Longrightarrow> lock_step k' k'' \<Longrightarrow> lock_steps k k''"

definition held :: "'a sync_scheme \<Rightarrow> nat \<Rightarrow> nat set" where
  "held k c = {l. locked (locks k l) \<and> lcpu (locks k l) = Some c}"

definition lock_inv :: "(nat \<Rightarrow> bool) \<Rightarrow> 'a sync_scheme \<Rightarrow> bool" where
  "lock_inv flags k \<longleftrightarrow>
     finite {l. locked (locks k l)} \<and>
     (\<forall>c. ncli (cpus k c) = int (card (held k c)) \<and>
        (if held k c = {} then iflag (cpus k c) = flags c
         else \<not> iflag (cpus k c) \<and> intena (cpus k c) = flags c)) \<and>
     (\<forall>l. locked (locks k l) = (lcpu (locks k l) \<noteq> None))"

lemma lock_inv_cpu_ok:
  assumes "lock_inv flags k"
  shows "cpu_ok (cpus k c)" and "finite (held k c)"
proof -
  have "held k c \<subseteq> {l. locked (locks k l)}" by (auto simp: held_def)
  with assms show "finite (held k c)" by (auto simp: lock_inv_def intro: finite_subset)
  have "0 < ncli (cpus k c) \<Longrightarrow> held k c \<noteq> {}" using assms by (auto simp: lock_inv_def)
  with assms show "cpu_ok (cpus k c)" by (auto simp: lock_inv_def cpu_ok_def)
qed

lemma acquire_lock_inv:
  assumes inv: "lock_inv flags k" and a: "acquire c l k = Inr k'"
  shows "lock_inv flags k'" and "held k' = (held k)(c := insert l (held k c))"
proof -
  note ok = lock_inv_cpu_ok [OF inv]
  have free: "\<not> locked (locks k l)"
    and k': "k' = set_lock l \<lparr>locked = True, lcpu = Some c\<rparr> (pushcli c k)"
    using a by (auto simp: acquire_eq [OF ok(1)] split: if_splits)
  show h: "held k' = (held k)(c := insert l (held k c))"
    using free by (auto simp: held_def k' pushcli_def fun_eq_iff)
  have "{l. locked (locks k' l)} = insert l {l. locked (locks k l)}"
    by (auto simp: k' pushcli_def)
  moreover have "l \<notin> held k c" using free by (simp add: held_def)
  ultimately show "lock_inv flags k'"
    using inv ok(2) [of c] unfolding lock_inv_def h
    by (auto simp: k' pushcli_def)
qed

lemma release_eq_held:
  assumes "lock_inv flags k" and "l \<in> held k c"
  shows "release c l k = Inr (set_lock l free_lock
       (upd_cpu c (\<lambda>p. p\<lparr>ncli := ncli p - 1, iflag := (ncli p = 1 \<and> intena p)\<rparr>) k))"
proof -
  have "0 < card (held k c)" using assms lock_inv_cpu_ok(2) [OF assms(1)] by (auto simp: card_gt_0_iff)
  then have "0 < ncli (cpus k c)" using assms(1) by (simp add: lock_inv_def)
  then show ?thesis
    using assms(2) by (simp add: release_eq lock_inv_cpu_ok(1) [OF assms(1)] held_def free_lock_def)
qed

lemma release_not_held:
  assumes inv: "lock_inv flags k" and "l \<notin> held k c"
  shows "release c l k = Inl (Panic ''release'')"
proof -
  have "holding c l k = Inr (False, note_flag c k)"
    using push_pop [OF lock_inv_cpu_ok(1) [OF inv]] assms(2)
    by (auto simp: holding_def Let_def note_flag_def held_def pushcli_def)
  then show ?thesis by (simp add: release_def)
qed

lemma release_lock_inv:
  assumes inv: "lock_inv flags k" and a: "release c l k = Inr k'"
  shows "lock_inv flags k'" and "held k' = (held k)(c := held k c - {l})"
proof -
  note ok = lock_inv_cpu_ok [OF inv]
  have l: "l \<in> held k c" using a release_not_held [OF inv] by (cases "l \<in> held k c") auto
  then have k': "k' = set_lock l free_lock
       (upd_cpu c (\<lambda>p. p\<lparr>ncli := ncli p - 1, iflag := (ncli p = 1 \<and> intena p)\<rparr>) k)"
    using a release_eq_held [OF inv l] by simp
  show h: "held k' = (held k)(c := held k c - {l})"
    using l by (auto simp: held_def k' free_lock_def fun_eq_iff)
  have fin: "finite {l. locked (locks k' l)}"
    using inv by (auto simp: k' free_lock_def lock_inv_def intro: finite_subset [rotated])
  have n: "card (held k c - {l}) = card (held k c) - 1" "0 < card (held k c)"
    using l ok(2) [of c] by (auto simp: card_gt_0_iff)
  have one: "held k c - {l} = {} \<longleftrightarrow> card (held k c) = 1"
    using n card_0_eq [of "held k c - {l}"] ok(2) [of c] by auto
  have "ncli (cpus k' d) = int (card (held k' d)) \<and>
        (if held k' d = {} then iflag (cpus k' d) = flags d
         else \<not> iflag (cpus k' d) \<and> intena (cpus k' d) = flags d)" for d
  proof (cases "d = c")
    case True
    have "held k c \<noteq> {}" using l by auto
    then have "ncli (cpus k c) = int (card (held k c))" "intena (cpus k c) = flags c"
      using inv by (auto simp: lock_inv_def)
    with n one True show ?thesis unfolding h by (simp add: k' of_nat_diff)
  next
    case False
    with inv show ?thesis unfolding h by (simp add: k' lock_inv_def)
  qed
  moreover have "locked (locks k' l') = (lcpu (locks k' l') \<noteq> None)" for l'
    using inv by (simp add: k' free_lock_def lock_inv_def)
  ultimately show "lock_inv flags k'" using fin by (simp add: lock_inv_def)
qed

section \<open>Properties\<close>

text \<open>
  C30: From a state in which no lock is held, after any interleaving of acquires and releases by
  all processors: the nesting depth of every processor is the number of locks it holds, its
  interrupts are off while it holds any and as they were at the start when it holds none; no
  lock is held by two processors; \<open>acquire\<close> panics only on a lock that this processor already
  holds, spins exactly when another one holds it, and otherwise succeeds; \<open>release\<close> succeeds
  exactly for the holder.
\<close>

theorem lock_discipline:
  assumes "lock_steps k0 k" and "\<forall>l. locks k0 l = free_lock" and "\<forall>c. ncli (cpus k0 c) = 0"
  shows "(\<forall>c. ncli (cpus k c) = int (card (held k c)) \<and>
      iflag (cpus k c) = (held k c = {} \<and> iflag (cpus k0 c))) \<and>
    (\<forall>c d. c \<noteq> d \<longrightarrow> held k c \<inter> held k d = {}) \<and>
    (\<forall>c l. acquire c l k =
       (if l \<in> held k c then Inl (Panic ''acquire'')
        else if \<exists>d. l \<in> held k d then Inl Spins
        else Inr (set_lock l \<lparr>locked = True, lcpu = Some c\<rparr> (pushcli c k)))) \<and>
    (\<forall>c l. if l \<in> held k c then \<exists>k'. release c l k = Inr k' \<and> held k' = (held k)(c := held k c - {l})
       else release c l k = Inl (Panic ''release''))"
proof -
  have inv: "lock_inv (\<lambda>c. iflag (cpus k0 c)) k"
    using assms
  proof (induction rule: lock_steps.induct)
    case (lock_refl k)
    then have "held k c = {}" for c by (simp add: held_def free_lock_def)
    with lock_refl show ?case by (simp add: lock_inv_def free_lock_def)
  next
    case (lock_trans k k' k'')
    from lock_trans.hyps(2) lock_trans.IH [OF lock_trans.prems] show ?case
      by (cases rule: lock_step.cases) (blast intro: acquire_lock_inv(1) release_lock_inv(1))+
  qed
  have "acquire c l k =
       (if l \<in> held k c then Inl (Panic ''acquire'')
        else if \<exists>d. l \<in> held k d then Inl Spins
        else Inr (set_lock l \<lparr>locked = True, lcpu = Some c\<rparr> (pushcli c k)))" for c l
  proof -
    have "locked (locks k l) \<longleftrightarrow> (\<exists>d. l \<in> held k d)" "l \<in> held k c \<longleftrightarrow> lcpu (locks k l) = Some c"
      using inv by (auto simp: held_def lock_inv_def)
    then show ?thesis by (auto simp: acquire_eq [OF lock_inv_cpu_ok(1) [OF inv]])
  qed
  moreover have "\<exists>k'. release c l k = Inr k' \<and> held k' = (held k)(c := held k c - {l})"
    if "l \<in> held k c" for c l
    using release_eq_held [OF inv that] release_lock_inv(2) [OF inv release_eq_held [OF inv that]]
    by (intro exI conjI)
  moreover have "held k c \<inter> held k d = {}" if "c \<noteq> d" for c d
    using that by (auto simp: held_def)
  moreover have "ncli (cpus k c) = int (card (held k c)) \<and>
      iflag (cpus k c) = (held k c = {} \<and> iflag (cpus k0 c))" for c
    using inv by (auto simp: lock_inv_def split: if_splits)
  ultimately show ?thesis
    using release_not_held [OF inv] by simp
qed

definition idle_locks :: sync where
  "idle_locks = \<lparr>cpus = (\<lambda>c. \<lparr>ncli = 0, intena = False, iflag = True, cproc = None\<rparr>),
     locks = (\<lambda>l. free_lock)\<rparr>"

theorem lock_discipline_witness:
  "\<exists>k. acquire 0 7 idle_locks = Inr k \<and> iflag (cpus k 0) = False \<and> iflag (cpus k 1) = True \<and>
     acquire 1 7 k = Inl Spins \<and> acquire 0 7 k = Inl (Panic ''acquire'') \<and>
     release 1 7 k = Inl (Panic ''release'') \<and> (\<exists>k'. release 0 7 k = Inr k')"
proof -
  define k where "k = set_lock 7 \<lparr>locked = True, lcpu = Some 0\<rparr> (pushcli 0 idle_locks)"
  have a: "acquire 0 7 idle_locks = Inr k"
    by (simp add: acquire_eq cpu_ok_def idle_locks_def free_lock_def k_def)
  then have steps: "lock_steps idle_locks k"
    by (rule lock_trans [OF lock_refl take_lock])
  have h: "held k 0 = {7}" "held k 1 = {}"
    unfolding held_def k_def idle_locks_def pushcli_def free_lock_def by simp_all
  have start: "\<forall>l. locks idle_locks l = free_lock" "\<forall>c. ncli (cpus idle_locks c) = 0"
    "iflag (cpus idle_locks c)" for c
    by (simp_all add: idle_locks_def)
  note d = lock_discipline [OF steps start(1,2)]
  have f: "iflag (cpus k c) = (held k c = {} \<and> iflag (cpus idle_locks c))" for c
    using d by blast
  have q: "acquire c l k =
       (if l \<in> held k c then Inl (Panic ''acquire'')
        else if \<exists>d. l \<in> held k d then Inl Spins
        else Inr (set_lock l \<lparr>locked = True, lcpu = Some c\<rparr> (pushcli c k)))" for c l
    using d by blast
  have "7 \<in> held k 0 \<Longrightarrow> \<exists>k'. release 0 7 k = Inr k'" "7 \<notin> held k 1 \<Longrightarrow> release 1 7 k = Inl (Panic ''release'')"
    using d by metis+
  moreover have "\<exists>d. 7 \<in> held k d" using h by blast
  ultimately show ?thesis using a f [of 0] f [of 1] q [of 1 7] q [of 0 7] h start(3) by simp
qed

end
