(* ===== verification/Proc.thy ===== *)
theory Proc
  imports Vm Spinlock
begin

text \<open>
  Processes and kernel threads, \<open>proc.c\<close> of \<open>p3b\<close>. The state is the process table with
  its lock, the processors, physical memory and the state \<open>files\<close> of the file layer, whose
  operations (\<open>filedup\<close>, \<open>fileclose\<close>, \<open>idup\<close>, \<open>iput\<close> and so on) come in as
  functions in the record \<open>kenv\<close>, together with the addresses the linker provides.

  A call runs on a processor \<open>c\<close> on behalf of the process that the processor runs. It ends
  with a return value (\<open>Ret\<close>) or by giving up the processor in \<open>sched\<close> (\<open>Blocked\<close>); what
  the process does when it is switched to again is saved in its \<open>p_kont\<close>, which stands for
  the saved kernel context. \<open>scheduler_step\<close> is one turn of the scheduler's loop.
\<close>

section \<open>State\<close>

datatype procstate = UNUSED | EMBRYO | SLEEPING | RUNNABLE | RUNNING | ZOMBIE

text \<open>Wait channels: 0, the address of a process table entry, or another address.\<close>

datatype channel = NoChan | ProcChan nat | AddrChan u32

text \<open>
  Where a switched-out process resumes: in \<open>forkret\<close>; after \<open>sched\<close> in \<open>yield\<close>, \<open>exit\<close>
  or \<open>sleep\<close>, with the saved \<open>intena\<close>. A sleep records the lock to take back and whether
  it is the one of \<open>wait\<close>, the one of \<open>join\<close> (with its argument) or another one.
\<close>

datatype sleeper = InWait | InJoin u32 | InOther
datatype kont = AtForkret | AtYield bool | AtExit bool | AtSleep bool nat sleeper

record proc =
  p_sz :: u32
  p_pgdir :: u32
  p_kstack :: u32
  p_state :: procstate
  p_pid :: int
  p_parent :: "nat option"
  p_tf :: u32
  p_context :: u32
  p_kont :: kont
  p_chan :: channel
  p_killed :: bool
  p_ofile :: "nat option list"
  p_cwd :: "nat option"
  p_name :: "byte list"
  p_stack :: u32

definition NPROC :: nat where "NPROC = 64"
definition NOFILE :: nat where "NOFILE = 16"
definition KSTACKSIZE :: u32 where "KSTACKSIZE = 4096"

record 'f kernel = sync +
  mach :: machine
  ptable :: "proc list"
  nextpid :: int
  initproc :: "nat option"
  first :: bool
  spos :: "nat \<Rightarrow> nat option"
  files :: 'f

record 'f kenv =
  s_end :: u32
  s_data :: u32
  s_trapret :: u32
  s_forkret :: u32
  initcode :: "byte list"
  fl_filedup :: "nat \<Rightarrow> 'f kernel \<Rightarrow> 'f kernel res"
  fl_fileclose :: "nat \<Rightarrow> 'f kernel \<Rightarrow> 'f kernel res"
  fl_idup :: "nat \<Rightarrow> 'f kernel \<Rightarrow> 'f kernel res"
  fl_iput :: "nat \<Rightarrow> 'f kernel \<Rightarrow> 'f kernel res"
  fl_begin_op :: "'f kernel \<Rightarrow> 'f kernel res"
  fl_end_op :: "'f kernel \<Rightarrow> 'f kernel res"
  fl_namei_root :: "'f kernel \<Rightarrow> (nat option \<times> 'f kernel) res"
  fl_start :: "'f kernel \<Rightarrow> 'f kernel res"

text \<open>The lock of the process table, by its number.\<close>

definition ptable_lock :: nat where "ptable_lock = 0"

definition upd_proc :: "nat \<Rightarrow> (proc \<Rightarrow> proc) \<Rightarrow> 'f kernel \<Rightarrow> 'f kernel" where
  "upd_proc i f k = k\<lparr>ptable := (ptable k)[i := f (ptable k ! i)]\<rparr>"

definition myproc :: "nat \<Rightarrow> 'f kernel \<Rightarrow> nat option" where
  "myproc c k = cproc (cpus k c)"

definition with_cur :: "nat \<Rightarrow> 'f kernel \<Rightarrow> (nat \<Rightarrow> 'a res) \<Rightarrow> 'a res" where
  "with_cur c k f = (case myproc c k of None \<Rightarrow> Inl NullDeref | Some cur \<Rightarrow> f cur)"

datatype outcome = Ret int | Blocked

section \<open>Creating processes\<close>

text \<open>Sizes and offsets of \<open>struct trapframe\<close> and \<open>struct context\<close>.\<close>

definition sizeof_tf :: nat where "sizeof_tf = 76"
definition tf_ebp :: u32 where "tf_ebp = 8"
definition tf_eax :: u32 where "tf_eax = 28"
definition tf_es :: u32 where "tf_es = 40"
definition tf_ds :: u32 where "tf_ds = 44"
definition tf_eip :: u32 where "tf_eip = 56"
definition tf_cs :: u32 where "tf_cs = 60"
definition tf_eflags :: u32 where "tf_eflags = 64"
definition tf_esp :: u32 where "tf_esp = 68"
definition tf_ss :: u32 where "tf_ss = 72"
definition sizeof_context :: nat where "sizeof_context = 20"
definition context_eip :: u32 where "context_eip = 16"

definition init_kstack :: "'f kenv \<Rightarrow> u32 \<Rightarrow> u32 \<Rightarrow> u32 \<Rightarrow> machine \<Rightarrow> machine" where
  "init_kstack E tf ra ctx m =
     (let m = store32 m ra (s_trapret E);
          m = m\<lparr>memory := memset (memory m) (unat ctx) 0 sizeof_context\<rparr>
      in store32 m (ctx + context_eip) (s_forkret E))"

definition allocproc :: "'f kenv \<Rightarrow> nat \<Rightarrow> 'f kernel \<Rightarrow> (nat option \<times> 'f kernel) res" where
  "allocproc E c k =
     bindE (acquire c ptable_lock k) (\<lambda>k.
     case find_index (\<lambda>p. p_state p = UNUSED) (ptable k) of
       None \<Rightarrow> bindE (release c ptable_lock k) (\<lambda>k. Inr (None, k))
     | Some i \<Rightarrow>
         let k = (upd_proc i (\<lambda>p. p\<lparr>p_state := EMBRYO, p_pid := nextpid k\<rparr>) k)\<lparr>nextpid := nextpid k + 1\<rparr> in
         bindE (release c ptable_lock k) (\<lambda>k.
         case kalloc (mach k) of (ks, m) \<Rightarrow>
           let k = (upd_proc i (\<lambda>p. p\<lparr>p_kstack := ks\<rparr>) k)\<lparr>mach := m\<rparr> in
           if ks = 0 then Inr (None, upd_proc i (\<lambda>p. p\<lparr>p_state := UNUSED\<rparr>) k)
           else let sp = ks + KSTACKSIZE;
                    tf = sp - of_nat sizeof_tf;
                    ra = tf - 4;
                    ctx = ra - of_nat sizeof_context;
                    k = upd_proc i (\<lambda>p. p\<lparr>p_tf := tf, p_context := ctx, p_kont := AtForkret\<rparr>) k
                in Inr (Some i, k\<lparr>mach := init_kstack E tf ra ctx (mach k)\<rparr>)))"

definition copy_tf :: "u32 \<Rightarrow> u32 \<Rightarrow> machine \<Rightarrow> machine" where
  "copy_tf dst src m =
     m\<lparr>memory := store_bytes (memory m) (unat dst) (load_bytes (memory m) (unat src) sizeof_tf)\<rparr>"

definition put16 :: "u32 \<Rightarrow> nat \<Rightarrow> machine \<Rightarrow> machine" where
  "put16 a v m = m\<lparr>memory := store_bytes (memory m) (unat a) (le_bytes 2 v)\<rparr>"

definition userinit :: "'f kenv \<Rightarrow> nat \<Rightarrow> 'f kernel \<Rightarrow> 'f kernel res" where
  "userinit E c k =
     bindE (allocproc E c k) (\<lambda>(np, k).
     let k = k\<lparr>initproc := np\<rparr> in
     case np of None \<Rightarrow> Inl NullDeref | Some i \<Rightarrow>
     bindE (setupkvm (s_end E) (s_data E) (mach k)) (\<lambda>(d, m).
     let k = (upd_proc i (\<lambda>p. p\<lparr>p_pgdir := d\<rparr>) k)\<lparr>mach := m\<rparr> in
     if d = 0 then Inl (Panic ''userinit: out of memory?'')
     else bindE (inituvm d (initcode E) (mach k)) (\<lambda>m.
     let tf = p_tf (ptable k ! i);
         m = m\<lparr>memory := memset (memory m) (unat tf) 0 sizeof_tf\<rparr>;
         m = put16 (tf + tf_cs) 0x1B m;
         m = put16 (tf + tf_ds) 0x23 m;
         m = put16 (tf + tf_es) 0x23 m;
         m = put16 (tf + tf_ss) 0x23 m;
         m = store32 m (tf + tf_eflags) 0x200;
         m = store32 m (tf + tf_esp) 4096;
         m = store32 m (tf + tf_eip) 0;
         k = (upd_proc i (\<lambda>p. p\<lparr>p_sz := 4096, p_name := map (\<lambda>ch. of_nat (of_char ch)) ''initcode''\<rparr>) k)\<lparr>mach := m\<rparr> in
     bindE (fl_namei_root E k) (\<lambda>(ip, k).
     let k = upd_proc i (\<lambda>p. p\<lparr>p_cwd := ip\<rparr>) k in
     bindE (acquire c ptable_lock k) (\<lambda>k.
     release c ptable_lock (upd_proc i (\<lambda>p. p\<lparr>p_state := RUNNABLE\<rparr>) k))))))"

fun dup_files :: "'f kenv \<Rightarrow> nat \<Rightarrow> nat \<Rightarrow> nat list \<Rightarrow> 'f kernel \<Rightarrow> 'f kernel res" where
  "dup_files E cur np [] k = Inr k"
| "dup_files E cur np (i # is) k =
     (case p_ofile (ptable k ! cur) ! i of
        None \<Rightarrow> dup_files E cur np is k
      | Some f \<Rightarrow>
          bindE (fl_filedup E f k) (\<lambda>k.
          dup_files E cur np is (upd_proc np (\<lambda>p. p\<lparr>p_ofile := (p_ofile p)[i := Some f]\<rparr>) k)))"

text \<open>The end of \<open>fork\<close> and \<open>clone\<close>: files, directory and name are shared, the child is made
  runnable. \<open>start\<close> is what \<open>clone\<close> records in the same critical section.\<close>

definition finish_child ::
  "'f kenv \<Rightarrow> nat \<Rightarrow> nat \<Rightarrow> nat \<Rightarrow> (proc \<Rightarrow> proc) \<Rightarrow> 'f kernel \<Rightarrow> (int \<times> 'f kernel) res" where
  "finish_child E c cur np start k =
     bindE (dup_files E cur np [0..<NOFILE] k) (\<lambda>k.
     case p_cwd (ptable k ! cur) of None \<Rightarrow> Inl NullDeref | Some ip \<Rightarrow>
     bindE (fl_idup E ip k) (\<lambda>k.
     let k = upd_proc np (\<lambda>p. p\<lparr>p_cwd := Some ip, p_name := take 15 (p_name (ptable k ! cur))\<rparr>) k;
         pid = p_pid (ptable k ! np) in
     bindE (acquire c ptable_lock k) (\<lambda>k.
     bindE (release c ptable_lock (upd_proc np (\<lambda>p. start (p\<lparr>p_state := RUNNABLE\<rparr>)) k)) (\<lambda>k.
     Inr (pid, k)))))"

definition fork :: "'f kenv \<Rightarrow> nat \<Rightarrow> 'f kernel \<Rightarrow> (int \<times> 'f kernel) res" where
  "fork E c k =
     with_cur c k (\<lambda>cur.
     bindE (allocproc E c k) (\<lambda>(r, k).
     case r of None \<Rightarrow> Inr (-1, k) | Some np \<Rightarrow>
     bindE (copyuvm (s_end E) (s_data E) (p_pgdir (ptable k ! cur)) (p_sz (ptable k ! cur)) (mach k)) (\<lambda>(d, m).
     let k = (upd_proc np (\<lambda>p. p\<lparr>p_pgdir := d\<rparr>) k)\<lparr>mach := m\<rparr> in
     if d = 0
     then bindE (kfree (s_end E) (p_kstack (ptable k ! np)) (mach k)) (\<lambda>m.
          Inr (-1, (upd_proc np (\<lambda>p. p\<lparr>p_kstack := 0, p_state := UNUSED\<rparr>) k)\<lparr>mach := m\<rparr>))
     else
       let k = upd_proc np (\<lambda>p. p\<lparr>p_sz := p_sz (ptable k ! cur), p_parent := Some cur\<rparr>) k;
           tf = p_tf (ptable k ! np);
           m = copy_tf tf (p_tf (ptable k ! cur)) (mach k);
           m = store32 m (tf + tf_eax) 0
       in finish_child E c cur np id (k\<lparr>mach := m\<rparr>))))"

text \<open>
  A store of the kernel to a user address goes through the page table of the process; it
  traps, and so panics, unless the page is present and writable.
\<close>

definition user_store32 :: "u32 \<Rightarrow> u32 \<Rightarrow> u32 \<Rightarrow> machine \<Rightarrow> machine res" where
  "user_store32 pgdir va v m =
     (let pte = fst (walkpgdir pgdir va False m);
          e = (if pte = 0 then 0 else load32 m pte) in
      if e AND PTE_P = 0 \<or> e AND PTE_W = 0 then Inl (Panic ''trap'')
      else Inr (store32 m (P2V (PTE_ADDR e) + (va AND 0xFFF)) v))"

definition clone :: "'f kenv \<Rightarrow> nat \<Rightarrow> u32 \<Rightarrow> u32 \<Rightarrow> u32 \<Rightarrow> u32 \<Rightarrow> 'f kernel \<Rightarrow> (int \<times> 'f kernel) res" where
  "clone E c fcn arg1 arg2 stk k =
     with_cur c k (\<lambda>cur.
     if unat stk mod PGSIZE \<noteq> 0 \<or> p_sz (ptable k ! cur) - stk < 4096 then Inr (-1, k)
     else bindE (allocproc E c k) (\<lambda>(r, k).
     case r of None \<Rightarrow> Inr (-1, k) | Some np \<Rightarrow>
     let pg = p_pgdir (ptable k ! cur);
         k = upd_proc np (\<lambda>p. p\<lparr>p_pgdir := pg, p_sz := p_sz (ptable k ! cur), p_parent := Some cur\<rparr>) k;
         tf = p_tf (ptable k ! np);
         m = copy_tf tf (p_tf (ptable k ! cur)) (mach k);
         m = store32 m (tf + tf_eax) 0;
         sp = stk + 4096 in
     bindE (user_store32 pg (sp - 4) arg2 m) (\<lambda>m.
     bindE (user_store32 pg (sp - 8) arg1 m) (\<lambda>m.
     bindE (user_store32 pg (sp - 12) 0xFFFFFFFF m) (\<lambda>m.
     let m = store32 m (tf + tf_esp) (sp - 12);
         m = store32 m (tf + tf_ebp) (sp - 12);
         m = store32 m (tf + tf_eip) fcn
     in finish_child E c cur np (\<lambda>p. p\<lparr>p_stack := stk\<rparr>) (k\<lparr>mach := m\<rparr>))))))"

section \<open>Growing a process\<close>

definition switchuvm :: "nat \<Rightarrow> nat \<Rightarrow> 'f kernel \<Rightarrow> 'f kernel res" where
  "switchuvm c i k =
     (if p_kstack (ptable k ! i) = 0 then Inl (Panic ''switchuvm: no kstack'')
      else if p_pgdir (ptable k ! i) = 0 then Inl (Panic ''switchuvm: no pgdir'')
      else popcli c (pushcli c k))"

definition set_sz :: "u32 \<Rightarrow> u32 \<Rightarrow> proc list \<Rightarrow> proc list" where
  "set_sz pg sz = map (\<lambda>p. if p_pgdir p = pg then p\<lparr>p_sz := sz\<rparr> else p)"

definition growproc :: "'f kenv \<Rightarrow> nat \<Rightarrow> int \<Rightarrow> 'f kernel \<Rightarrow> (int \<times> 'f kernel) res" where
  "growproc E c n k =
     with_cur c k (\<lambda>cur.
     let sz = p_sz (ptable k ! cur); pg = p_pgdir (ptable k ! cur) in
     bindE (if n > 0 then allocuvm (s_end E) pg sz (sz + of_int n) (mach k)
            else if n < 0 then deallocuvm (s_end E) pg sz (sz + of_int n) (mach k)
            else Inr (sz, mach k)) (\<lambda>(sz, m).
     let k = k\<lparr>mach := m\<rparr> in
     if n \<noteq> 0 \<and> sz = 0 then Inr (-1, k)
     else bindE (acquire c ptable_lock k) (\<lambda>k.
          bindE (release c ptable_lock (k\<lparr>ptable := set_sz pg sz (ptable k)\<rparr>)) (\<lambda>k.
          bindE (switchuvm c cur k) (\<lambda>k. Inr (0, k))))))"

definition sys_sbrk :: "'f kenv \<Rightarrow> nat \<Rightarrow> int \<Rightarrow> 'f kernel \<Rightarrow> (int \<times> 'f kernel) res" where
  "sys_sbrk E c n k =
     with_cur c k (\<lambda>cur.
     let addr = sint (p_sz (ptable k ! cur)) in
     bindE (growproc E c n k) (\<lambda>(r, k). if r < 0 then Inr (-1, k) else Inr (addr, k)))"

section \<open>Sleeping, waking and giving up the processor\<close>

definition wakeup1 :: "channel \<Rightarrow> proc list \<Rightarrow> proc list" where
  "wakeup1 ch = map (\<lambda>p. if p_state p = SLEEPING \<and> p_chan p = ch then p\<lparr>p_state := RUNNABLE\<rparr> else p)"

definition wakeup :: "nat \<Rightarrow> channel \<Rightarrow> 'f kernel \<Rightarrow> (unit \<times> 'f kernel) res" where
  "wakeup c ch k = with_lock c ptable_lock (\<lambda>k. ((), k\<lparr>ptable := wakeup1 ch (ptable k)\<rparr>)) k"

text \<open>
  \<open>sched\<close> up to the switch: the process saves where to resume, and the processor is back in
  its scheduler loop, which clears \<open>c->proc\<close> and goes on to the next table entry.
\<close>

definition sched :: "nat \<Rightarrow> (bool \<Rightarrow> kont) \<Rightarrow> 'f kernel \<Rightarrow> 'f kernel res" where
  "sched c kt k =
     with_cur c k (\<lambda>cur.
     bindE (holding c ptable_lock k) (\<lambda>(h, k).
     if \<not> h then Inl (Panic ''sched ptable.lock'')
     else if ncli (cpus k c) \<noteq> 1 then Inl (Panic ''sched locks'')
     else if p_state (ptable k ! cur) = RUNNING then Inl (Panic ''sched running'')
     else if iflag (cpus k c) then Inl (Panic ''sched interruptible'')
     else let k = upd_proc cur (\<lambda>p. p\<lparr>p_kont := kt (intena (cpus k c))\<rparr>) k in
       Inr ((upd_cpu c (\<lambda>p. p\<lparr>cproc := None\<rparr>) k)\<lparr>spos := (spos k)(c := Some (cur + 1))\<rparr>)))"

definition yield_proc :: "nat \<Rightarrow> 'f kernel \<Rightarrow> 'f kernel res" where
  "yield_proc c k =
     bindE (acquire c ptable_lock k) (\<lambda>k.
     with_cur c k (\<lambda>cur.
     sched c AtYield (upd_proc cur (\<lambda>p. p\<lparr>p_state := RUNNABLE\<rparr>) k)))"

text \<open>\<open>sleep\<close> up to the switch; the other half is in \<open>resume\<close>.\<close>

definition sleep :: "nat \<Rightarrow> channel \<Rightarrow> nat \<Rightarrow> sleeper \<Rightarrow> 'f kernel \<Rightarrow> 'f kernel res" where
  "sleep c ch lk w k =
     (case myproc c k of None \<Rightarrow> Inl (Panic ''sleep'') | Some cur \<Rightarrow>
      bindE (if lk \<noteq> ptable_lock
             then bindE (acquire c ptable_lock k) (\<lambda>k. release c lk k)
             else Inr k) (\<lambda>k.
      sched c (\<lambda>i. AtSleep i lk w) (upd_proc cur (\<lambda>p. p\<lparr>p_chan := ch, p_state := SLEEPING\<rparr>) k)))"

definition kill :: "nat \<Rightarrow> int \<Rightarrow> 'f kernel \<Rightarrow> (int \<times> 'f kernel) res" where
  "kill c pid k =
     bindE (acquire c ptable_lock k) (\<lambda>k.
     case find_index (\<lambda>p. p_pid p = pid) (ptable k) of
       Some i \<Rightarrow>
         bindE (release c ptable_lock (upd_proc i (\<lambda>p. p\<lparr>p_killed := True,
             p_state := (if p_state p = SLEEPING then RUNNABLE else p_state p)\<rparr>) k)) (\<lambda>k. Inr (0, k))
     | None \<Rightarrow> bindE (release c ptable_lock k) (\<lambda>k. Inr (-1, k)))"

section \<open>Exit, wait and join\<close>

fun close_files :: "'f kenv \<Rightarrow> nat \<Rightarrow> nat list \<Rightarrow> 'f kernel \<Rightarrow> 'f kernel res" where
  "close_files E cur [] k = Inr k"
| "close_files E cur (fd # fds) k =
     (case p_ofile (ptable k ! cur) ! fd of
        None \<Rightarrow> close_files E cur fds k
      | Some f \<Rightarrow>
          bindE (fl_fileclose E f k) (\<lambda>k.
          close_files E cur fds (upd_proc cur (\<lambda>p. p\<lparr>p_ofile := (p_ofile p)[fd := None]\<rparr>) k)))"

definition chan_of :: "nat option \<Rightarrow> channel" where
  "chan_of q = (case q of None \<Rightarrow> NoChan | Some i \<Rightarrow> ProcChan i)"

fun abandon_children :: "nat option \<Rightarrow> nat \<Rightarrow> nat list \<Rightarrow> proc list \<Rightarrow> proc list" where
  "abandon_children ini cur [] ps = ps"
| "abandon_children ini cur (i # is) ps =
     (if p_parent (ps ! i) = Some cur then
        let ps = ps[i := (ps ! i)\<lparr>p_parent := ini\<rparr>] in
        abandon_children ini cur is
          (if p_state (ps ! i) = ZOMBIE then wakeup1 (chan_of ini) ps else ps)
      else abandon_children ini cur is ps)"

definition exit_proc :: "'f kenv \<Rightarrow> nat \<Rightarrow> 'f kernel \<Rightarrow> 'f kernel res" where
  "exit_proc E c k =
     with_cur c k (\<lambda>cur.
     if Some cur = initproc k then Inl (Panic ''init exiting'')
     else bindE (close_files E cur [0..<NOFILE] k) (\<lambda>k.
     bindE (fl_begin_op E k) (\<lambda>k.
     case p_cwd (ptable k ! cur) of None \<Rightarrow> Inl NullDeref | Some ip \<Rightarrow>
     bindE (fl_iput E ip k) (\<lambda>k.
     bindE (fl_end_op E k) (\<lambda>k.
     let k = upd_proc cur (\<lambda>p. p\<lparr>p_cwd := None\<rparr>) k in
     bindE (acquire c ptable_lock k) (\<lambda>k.
     let ps = wakeup1 (chan_of (p_parent (ptable k ! cur))) (ptable k);
         ps = abandon_children (initproc k) cur [0..<NPROC] ps;
         k = k\<lparr>ptable := ps\<rparr>
     in sched c AtExit (upd_proc cur (\<lambda>p. p\<lparr>p_state := ZOMBIE\<rparr>) k)))))))"

text \<open>What \<open>wait\<close> and \<open>join\<close> leave of a child's table entry.\<close>

definition clear_proc :: "proc \<Rightarrow> proc" where
  "clear_proc p = p\<lparr>p_kstack := 0, p_pid := 0, p_parent := None, p_name := [],
     p_killed := False, p_state := UNUSED\<rparr>"

text \<open>
  One round of \<open>wait\<close>: a child is an entry whose parent is the caller and which has another
  page directory; the first zombie among them is reaped. The lock is held on entry.
\<close>

definition wait_child :: "nat \<Rightarrow> proc list \<Rightarrow> proc \<Rightarrow> bool" where
  "wait_child cur ps p \<longleftrightarrow> p_parent p = Some cur \<and> p_pgdir p \<noteq> p_pgdir (ps ! cur)"

definition wait_round :: "'f kenv \<Rightarrow> nat \<Rightarrow> 'f kernel \<Rightarrow> (outcome \<times> 'f kernel) res" where
  "wait_round E c k =
     with_cur c k (\<lambda>cur.
     case find_index (\<lambda>p. wait_child cur (ptable k) p \<and> p_state p = ZOMBIE) (ptable k) of
       Some i \<Rightarrow>
         bindE (kfree (s_end E) (p_kstack (ptable k ! i)) (mach k)) (\<lambda>m.
         bindE (freevm (s_end E) (p_pgdir (ptable k ! i)) m) (\<lambda>m.
         bindE (release c ptable_lock ((upd_proc i clear_proc k)\<lparr>mach := m\<rparr>)) (\<lambda>k'.
         Inr (Ret (p_pid (ptable k ! i)), k'))))
     | None \<Rightarrow>
         if find_index (wait_child cur (ptable k)) (ptable k) = None \<or> p_killed (ptable k ! cur)
         then bindE (release c ptable_lock k) (\<lambda>k. Inr (Ret (-1), k))
         else bindE (sleep c (ProcChan cur) ptable_lock InWait k) (\<lambda>k. Inr (Blocked, k)))"

definition wait :: "'f kenv \<Rightarrow> nat \<Rightarrow> 'f kernel \<Rightarrow> (outcome \<times> 'f kernel) res" where
  "wait E c k = bindE (acquire c ptable_lock k) (\<lambda>k. wait_round E c k)"

definition join_child :: "nat \<Rightarrow> proc list \<Rightarrow> proc \<Rightarrow> bool" where
  "join_child cur ps p \<longleftrightarrow> p_parent p = Some cur \<and> p_pgdir p = p_pgdir (ps ! cur)"

definition join_round :: "'f kenv \<Rightarrow> nat \<Rightarrow> u32 \<Rightarrow> 'f kernel \<Rightarrow> (outcome \<times> 'f kernel) res" where
  "join_round E c ustack k =
     with_cur c k (\<lambda>cur.
     case find_index (\<lambda>p. join_child cur (ptable k) p \<and> p_state p = ZOMBIE) (ptable k) of
       Some i \<Rightarrow>
         bindE (kfree (s_end E) (p_kstack (ptable k ! i)) (mach k)) (\<lambda>m.
         bindE (user_store32 (p_pgdir (ptable k ! cur)) ustack (p_stack (ptable k ! i)) m) (\<lambda>m.
         bindE (release c ptable_lock ((upd_proc i clear_proc k)\<lparr>mach := m\<rparr>)) (\<lambda>k'.
         Inr (Ret (p_pid (ptable k ! i)), k'))))
     | None \<Rightarrow>
         if find_index (join_child cur (ptable k)) (ptable k) = None \<or> p_killed (ptable k ! cur)
         then bindE (release c ptable_lock k) (\<lambda>k. Inr (Ret (-1), k))
         else bindE (sleep c (ProcChan cur) ptable_lock (InJoin ustack) k) (\<lambda>k. Inr (Blocked, k)))"

definition join :: "'f kenv \<Rightarrow> nat \<Rightarrow> u32 \<Rightarrow> 'f kernel \<Rightarrow> (outcome \<times> 'f kernel) res" where
  "join E c ustack k = bindE (acquire c ptable_lock k) (\<lambda>k. join_round E c ustack k)"

section \<open>The scheduler\<close>

definition forkret :: "'f kenv \<Rightarrow> nat \<Rightarrow> 'f kernel \<Rightarrow> 'f kernel res" where
  "forkret E c k =
     bindE (release c ptable_lock k) (\<lambda>k.
     if first k then fl_start E (k\<lparr>first := False\<rparr>) else Inr k)"

text \<open>A system call that returned stores its value in the caller's \<open>eax\<close>.\<close>

definition set_eax :: "nat \<Rightarrow> outcome \<times> 'f kernel \<Rightarrow> 'f kernel" where
  "set_eax cur r =
     (case r of (Ret v, k) \<Rightarrow> k\<lparr>mach := store32 (mach k) (p_tf (ptable k ! cur) + tf_eax) (of_int v)\<rparr>
      | (Blocked, k) \<Rightarrow> k)"

definition resume :: "'f kenv \<Rightarrow> nat \<Rightarrow> nat \<Rightarrow> 'f kernel \<Rightarrow> 'f kernel res" where
  "resume E c cur k =
     (case p_kont (ptable k ! cur) of
        AtForkret \<Rightarrow> forkret E c k
      | AtYield i \<Rightarrow> release c ptable_lock (upd_cpu c (\<lambda>p. p\<lparr>intena := i\<rparr>) k)
      | AtExit i \<Rightarrow> Inl (Panic ''zombie exit'')
      | AtSleep i lk w \<Rightarrow>
          let k = upd_proc cur (\<lambda>p. p\<lparr>p_chan := NoChan\<rparr>) (upd_cpu c (\<lambda>p. p\<lparr>intena := i\<rparr>) k) in
          bindE (if lk \<noteq> ptable_lock
                 then bindE (release c ptable_lock k) (\<lambda>k. acquire c lk k)
                 else Inr k) (\<lambda>k.
          case w of
            InWait \<Rightarrow> bindE (wait_round E c k) (\<lambda>r. Inr (set_eax cur r))
          | InJoin u \<Rightarrow> bindE (join_round E c u k) (\<lambda>r. Inr (set_eax cur r))
          | InOther \<Rightarrow> Inr k))"

text \<open>
  One turn of the scheduler on processor \<open>c\<close>. \<open>spos k c\<close> is the entry that the inner loop
  has reached, with the table's lock held; it is \<open>None\<close> at the top of the outer loop.
\<close>

definition scheduler_step :: "'f kenv \<Rightarrow> nat \<Rightarrow> 'f kernel \<Rightarrow> 'f kernel res" where
  "scheduler_step E c k =
     (case spos k c of
        None \<Rightarrow>
          bindE (acquire c ptable_lock (upd_cpu c (\<lambda>p. p\<lparr>iflag := True\<rparr>) k)) (\<lambda>k.
          Inr (k\<lparr>spos := (spos k)(c := Some 0)\<rparr>))
      | Some i \<Rightarrow>
          if i \<ge> NPROC then
            bindE (release c ptable_lock k) (\<lambda>k. Inr (k\<lparr>spos := (spos k)(c := None)\<rparr>))
          else if p_state (ptable k ! i) \<noteq> RUNNABLE then Inr (k\<lparr>spos := (spos k)(c := Some (i + 1))\<rparr>)
          else
            let k = upd_cpu c (\<lambda>p. p\<lparr>cproc := Some i\<rparr>) k in
            bindE (switchuvm c i k) (\<lambda>k.
            resume E c i (upd_proc i (\<lambda>p. p\<lparr>p_state := RUNNING\<rparr>) k)))"

section \<open>Calls that leave the process structure alone\<close>

text \<open>
  \<open>woken p p'\<close>: the entry is as before but for fields that the scheduling does not look at,
  or it has been woken up. \<open>quiet\<close> lifts this to states.
\<close>

definition woken :: "proc \<Rightarrow> proc \<Rightarrow> bool" where
  "woken p p' \<longleftrightarrow> p_pid p' = p_pid p \<and> p_parent p' = p_parent p \<and> p_kstack p' = p_kstack p \<and>
     p_pgdir p' = p_pgdir p \<and> p_kont p' = p_kont p \<and> p_chan p' = p_chan p \<and>
     (p_state p' = p_state p \<or> p_state p = SLEEPING \<and> p_state p' = RUNNABLE)"

definition sync_inv :: "'a sync_scheme \<Rightarrow> bool" where
  "sync_inv k \<longleftrightarrow> (\<exists>flags. lock_inv flags k)"

definition running :: "'a sync_scheme \<Rightarrow> nat \<Rightarrow> nat option" where
  "running k c = cproc (cpus k c)"

definition quiet :: "'f kernel \<Rightarrow> 'f kernel \<Rightarrow> bool" where
  "quiet k k' \<longleftrightarrow> list_all2 woken (ptable k) (ptable k') \<and> nextpid k' = nextpid k \<and>
     initproc k' = initproc k \<and> spos k' = spos k \<and> running k' = running k \<and> held k' = held k \<and>
     (sync_inv k \<longrightarrow> sync_inv k')"

lemma woken_refl [simp]: "woken p p"
  by (simp add: woken_def)

lemma woken_trans: "woken p q \<Longrightarrow> woken q r \<Longrightarrow> woken p r"
  by (auto simp: woken_def)

lemma quiet_refl [simp]: "quiet k k"
  by (simp add: quiet_def list_all2_refl)

lemma quiet_trans [trans]:
  assumes "quiet k k'" and "quiet k' k''"
  shows "quiet k k''"
proof -
  have "list_all2 woken (ptable k) (ptable k'')"
  proof (rule list_all2_trans)
    show "list_all2 woken (ptable k) (ptable k')" "list_all2 woken (ptable k') (ptable k'')"
      using assms by (simp_all add: quiet_def)
  qed (rule woken_trans)
  then show ?thesis using assms by (simp add: quiet_def)
qed

lemma sync_inv_iff:
  "sync_inv k \<longleftrightarrow> finite {l. locked (locks k l)} \<and>
     (\<forall>c. ncli (cpus k c) = int (card (held k c)) \<and> (held k c \<noteq> {} \<longrightarrow> \<not> iflag (cpus k c))) \<and>
     (\<forall>l. locked (locks k l) = (lcpu (locks k l) \<noteq> None))" (is "_ \<longleftrightarrow> ?R")
proof
  show ?R if "sync_inv k"
  proof -
    obtain fl where "lock_inv fl k" using \<open>sync_inv k\<close> by (auto simp: sync_inv_def)
    then show ?R unfolding lock_inv_def by metis
  qed
  show "sync_inv k" if r: ?R
  proof -
    let ?f = "\<lambda>c. if held k c = {} then iflag (cpus k c) else intena (cpus k c)"
    have "\<forall>c. ncli (cpus k c) = int (card (held k c)) \<and>
        (if held k c = {} then iflag (cpus k c) = ?f c
         else \<not> iflag (cpus k c) \<and> intena (cpus k c) = ?f c)"
      using r [THEN conjunct2, THEN conjunct1] by simp
    then show ?thesis
      unfolding sync_inv_def lock_inv_def
      using r [THEN conjunct1] r [THEN conjunct2, THEN conjunct2] by (intro exI [of _ ?f] conjI)
  qed
qed

lemma sync_ext:
  assumes "cpus k' = cpus k" and "locks k' = locks k"
  shows "held k' = held k" and "running k' = running k" and "sync_inv k' = sync_inv k"
proof -
  show h: "held k' = held k" "running k' = running k"
    using assms by (simp_all add: held_def [abs_def] running_def [abs_def])
  show "sync_inv k' = sync_inv k" unfolding sync_inv_iff h assms ..
qed

lemma quiet_mach [simp]: "quiet k (k\<lparr>mach := m\<rparr>)" "quiet k (k\<lparr>files := fs\<rparr>)" "quiet k (k\<lparr>first := b\<rparr>)"
  by (simp_all add: quiet_def list_all2_refl sync_ext [of "k\<lparr>mach := m\<rparr>" k]
      sync_ext [of "k\<lparr>files := fs\<rparr>" k] sync_ext [of "k\<lparr>first := b\<rparr>" k])

text \<open>
  The contract of the file layer: each of its operations that returns has at most woken
  processes up and leaves the locks as they were.
\<close>

locale file_layer =
  fixes E :: "'f kenv"
  assumes filedup_quiet: "sync_inv k \<Longrightarrow> fl_filedup E f k = Inr k' \<Longrightarrow> quiet k k'"
    and fileclose_quiet: "sync_inv k \<Longrightarrow> fl_fileclose E f k = Inr k' \<Longrightarrow> quiet k k'"
    and idup_quiet: "sync_inv k \<Longrightarrow> fl_idup E ip k = Inr k' \<Longrightarrow> quiet k k'"
    and iput_quiet: "sync_inv k \<Longrightarrow> fl_iput E ip k = Inr k' \<Longrightarrow> quiet k k'"
    and begin_op_quiet: "sync_inv k \<Longrightarrow> fl_begin_op E k = Inr k' \<Longrightarrow> quiet k k'"
    and end_op_quiet: "sync_inv k \<Longrightarrow> fl_end_op E k = Inr k' \<Longrightarrow> quiet k k'"
    and start_quiet: "sync_inv k \<Longrightarrow> fl_start E k = Inr k' \<Longrightarrow> quiet k k'"

section \<open>Locking and unlocking the table\<close>

lemma held_ext: "held k' = held k" if "locks k' = locks k"
  using that by (simp add: held_def [abs_def])

lemma sync_invD: "sync_inv k \<Longrightarrow> cpu_ok (cpus k c)" "sync_inv k \<Longrightarrow> finite (held k c)"
  by (auto simp: sync_inv_def lock_inv_cpu_ok)

text \<open>What stays the same when a lock is taken or given back.\<close>

definition same_procs :: "'f kernel \<Rightarrow> 'f kernel \<Rightarrow> bool" where
  "same_procs k k' \<longleftrightarrow> ptable k' = ptable k \<and> nextpid k' = nextpid k \<and> initproc k' = initproc k \<and>
     spos k' = spos k \<and> running k' = running k \<and> mach k' = mach k \<and> files k' = files k \<and> first k' = first k"

lemma kernel_upd_cpu [simp]:
  "ptable (upd_cpu c f k) = ptable k" "nextpid (upd_cpu c f k) = nextpid k"
  "initproc (upd_cpu c f k) = initproc k" "spos (upd_cpu c f k) = spos k"
  "mach (upd_cpu c f k) = mach k" "files (upd_cpu c f k) = files k" "first (upd_cpu c f k) = first k"
  "ptable (set_lock l v k) = ptable k" "nextpid (set_lock l v k) = nextpid k"
  "initproc (set_lock l v k) = initproc k" "spos (set_lock l v k) = spos k"
  "mach (set_lock l v k) = mach k" "files (set_lock l v k) = files k" "first (set_lock l v k) = first k"
  by (simp_all add: upd_cpu_def set_lock_def)

lemma acquire_kernel:
  fixes k k' :: "'f kernel"
  assumes "sync_inv k" and "acquire c l k = Inr k'"
  shows "same_procs k k'" and "sync_inv k'" and "held k' = (held k)(c := insert l (held k c))"
    and "l \<notin> held k d"
proof -
  obtain flags where inv: "lock_inv flags k" using assms(1) by (auto simp: sync_inv_def)
  show "sync_inv k'" "held k' = (held k)(c := insert l (held k c))"
    using acquire_lock_inv [OF inv assms(2)] by (auto simp: sync_inv_def)
  have free: "\<not> locked (locks k l)"
    and k': "k' = set_lock l \<lparr>locked = True, lcpu = Some c\<rparr> (pushcli c k)"
    using assms(2) by (simp_all add: acquire_eq [OF lock_inv_cpu_ok(1) [OF inv]] split: if_splits)
  have "running k' = running k"
    by (rule ext) (simp add: k' running_def pushcli_def)
  then show "same_procs k k'" by (simp add: same_procs_def k' pushcli_def)
  show "l \<notin> held k d" using free by (simp add: held_def)
qed

lemma release_kernel:
  fixes k k' :: "'f kernel"
  assumes "sync_inv k" and "release c l k = Inr k'"
  shows "same_procs k k'" and "sync_inv k'" and "held k' = (held k)(c := held k c - {l})"
proof -
  obtain flags where inv: "lock_inv flags k" using assms(1) by (auto simp: sync_inv_def)
  show "sync_inv k'" "held k' = (held k)(c := held k c - {l})"
    using release_lock_inv [OF inv assms(2)] by (auto simp: sync_inv_def)
  have "l \<in> held k c" using assms(2) release_not_held [OF inv] by (cases "l \<in> held k c") auto
  then have k': "k' = set_lock l free_lock
       (upd_cpu c (\<lambda>p. p\<lparr>ncli := ncli p - 1, iflag := (ncli p = 1 \<and> intena p)\<rparr>) k)"
    using assms(2) by (simp add: release_eq_held [OF inv])
  have "running k' = running k"
    by (rule ext) (simp add: k' running_def)
  then show "same_procs k k'" by (simp add: same_procs_def k')
qed

lemma release_succeeds: "sync_inv k \<Longrightarrow> l \<in> held k c \<Longrightarrow> \<exists>k'. release c l k = Inr k'"
  by (auto simp: sync_inv_def dest: release_eq_held)

end
