(* ===== verification/Proc_Inv.thy ===== *)
theory Proc_Inv
  imports Proc
begin

text \<open>
  The invariant of the process table, kept by every call and by every turn of the scheduler:
  live processes have different pids, a running process runs on one processor, a parent is
  alive until its children have been passed on, and nobody sleeps in \<open>wait\<close> or \<open>join\<close> on a
  child that has already exited. Its consequences: the panics of \<open>sched\<close> and \<open>switchuvm\<close>
  cannot be reached, and no wakeup is lost.
\<close>

section \<open>The invariant\<close>

definition live :: "procstate \<Rightarrow> bool" where
  "live st \<longleftrightarrow> st \<noteq> UNUSED"

definition active :: "procstate \<Rightarrow> bool" where
  "active st \<longleftrightarrow> st = SLEEPING \<or> st = RUNNABLE \<or> st = RUNNING"

text \<open>
  A sleeper in \<open>wait\<close> or \<open>join\<close> sleeps on its own entry, with the table's lock to take back,
  and has no zombie that it should have reaped.
\<close>

definition reaped :: "(proc \<Rightarrow> bool) \<Rightarrow> proc list \<Rightarrow> bool" where
  "reaped Q ps \<longleftrightarrow> (\<forall>p \<in> set ps. \<not> (Q p \<and> p_state p = ZOMBIE))"

definition waits_rightly :: "proc list \<Rightarrow> nat \<Rightarrow> bool" where
  "waits_rightly ps i \<longleftrightarrow>
     (case p_kont (ps ! i) of
        AtSleep _ lk InWait \<Rightarrow> lk = ptable_lock \<and> p_chan (ps ! i) = ProcChan i \<and>
          reaped (wait_child i ps) ps
      | AtSleep _ lk (InJoin u) \<Rightarrow> lk = ptable_lock \<and> p_chan (ps ! i) = ProcChan i \<and>
          reaped (join_child i ps) ps
      | AtSleep _ lk InOther \<Rightarrow> lk \<noteq> ptable_lock
      | _ \<Rightarrow> False)"

definition lock_after :: "kont \<Rightarrow> bool" where
  "lock_after kt \<longleftrightarrow> (case kt of AtSleep _ lk w \<Rightarrow> (lk = ptable_lock) = (w \<noteq> InOther) | AtExit _ \<Rightarrow> False | _ \<Rightarrow> True)"

definition pids_ok :: "proc list \<Rightarrow> int \<Rightarrow> bool" where
  "pids_ok ps npid \<longleftrightarrow> 0 < npid \<and>
     (\<forall>i < NPROC. live (p_state (ps ! i)) \<longrightarrow>
        0 < p_pid (ps ! i) \<and> p_pid (ps ! i) < npid \<and> p_kstack (ps ! i) \<noteq> 0 \<and> p_pgdir (ps ! i) \<noteq> 0) \<and>
     (\<forall>i < NPROC. \<forall>j < NPROC. live (p_state (ps ! i)) \<longrightarrow> live (p_state (ps ! j)) \<longrightarrow>
        p_pid (ps ! i) = p_pid (ps ! j) \<longrightarrow> i = j)"

definition tree_ok :: "proc list \<Rightarrow> nat option \<Rightarrow> bool" where
  "tree_ok ps ini \<longleftrightarrow>
     (\<forall>i < NPROC. p_state (ps ! i) \<noteq> EMBRYO) \<and>
     (\<forall>i < NPROC. p_state (ps ! i) = UNUSED \<longrightarrow> p_parent (ps ! i) = None) \<and>
     (\<forall>i < NPROC. \<forall>q. p_parent (ps ! i) = Some q \<longrightarrow> q < NPROC \<and> active (p_state (ps ! q))) \<and>
     (\<forall>i < NPROC. live (p_state (ps ! i)) \<longrightarrow> (p_parent (ps ! i) = None) = (ini = Some i)) \<and>
     (\<forall>i < NPROC. p_parent (ps ! i) \<noteq> Some i) \<and>
     (\<exists>i. ini = Some i \<and> i < NPROC \<and> active (p_state (ps ! i)))"

definition run_ok :: "proc list \<Rightarrow> (nat \<Rightarrow> nat option) \<Rightarrow> bool" where
  "run_ok ps run \<longleftrightarrow>
     (\<forall>i < NPROC. p_state (ps ! i) = RUNNING \<longleftrightarrow> (\<exists>c. run c = Some i)) \<and>
     (\<forall>c i. run c = Some i \<longrightarrow> i < NPROC) \<and>
     (\<forall>c d i. run c = Some i \<longrightarrow> run d = Some i \<longrightarrow> c = d)"

definition sleep_ok :: "proc list \<Rightarrow> bool" where
  "sleep_ok ps \<longleftrightarrow>
     (\<forall>i < NPROC. p_state (ps ! i) = SLEEPING \<longrightarrow> waits_rightly ps i) \<and>
     (\<forall>i < NPROC. p_state (ps ! i) = RUNNABLE \<longrightarrow> lock_after (p_kont (ps ! i)))"

definition ptable_inv :: "proc list \<Rightarrow> int \<Rightarrow> nat option \<Rightarrow> (nat \<Rightarrow> nat option) \<Rightarrow> bool" where
  "ptable_inv ps npid ini run \<longleftrightarrow>
     length ps = NPROC \<and> pids_ok ps npid \<and> tree_ok ps ini \<and> run_ok ps run \<and> sleep_ok ps"

text \<open>
  Between calls the table's lock is held by processors that are scanning the table and by no
  other.
\<close>

definition cpu_inv :: "'f kernel \<Rightarrow> bool" where
  "cpu_inv k \<longleftrightarrow> (\<forall>c. case running k c of
       Some i \<Rightarrow> ptable_lock \<notin> held k c
     | None \<Rightarrow> held k c = (case spos k c of None \<Rightarrow> {} | Some _ \<Rightarrow> {ptable_lock}))"

definition kernel_inv :: "'f kernel \<Rightarrow> bool" where
  "kernel_inv k \<longleftrightarrow> sync_inv k \<and> cpu_inv k \<and>
     ptable_inv (ptable k) (nextpid k) (initproc k) (running k)"

lemma wokenD:
  assumes "list_all2 woken ps ps'" and "i < length ps"
  shows "p_pid (ps' ! i) = p_pid (ps ! i)" "p_parent (ps' ! i) = p_parent (ps ! i)"
    "p_kstack (ps' ! i) = p_kstack (ps ! i)" "p_pgdir (ps' ! i) = p_pgdir (ps ! i)"
    "p_kont (ps' ! i) = p_kont (ps ! i)" "p_chan (ps' ! i) = p_chan (ps ! i)"
    "live (p_state (ps' ! i)) = live (p_state (ps ! i))"
    "active (p_state (ps' ! i)) = active (p_state (ps ! i))"
    "p_state (ps' ! i) = p_state (ps ! i) \<or> p_state (ps ! i) = SLEEPING \<and> p_state (ps' ! i) = RUNNABLE"
  using list_all2_nthD [OF assms] by (auto simp: woken_def live_def active_def)

lemma waits_rightly_woken:
  assumes w: "list_all2 woken ps ps'" and i: "i < length ps"
    and r: "waits_rightly ps i"
  shows "waits_rightly ps' i"
proof -
  note d = wokenD [OF w]
  have len: "length ps' = length ps" using w by (simp add: list_all2_lengthD)
  have z: "\<exists>p \<in> set ps. wait_child i ps p = wait_child i ps' p' \<and> join_child i ps p = join_child i ps' p' \<and>
      p_state p = ZOMBIE" if p': "p' \<in> set ps'" "p_state p' = ZOMBIE" for p'
  proof -
    obtain j where j: "j < length ps" "p' = ps' ! j" using p' len by (auto simp: in_set_conv_nth)
    have "p_state (ps ! j) = ZOMBIE" using d(9) [OF j(1)] p'(2) j(2) by auto
    moreover have "wait_child i ps (ps ! j) = wait_child i ps' p'" "join_child i ps (ps ! j) = join_child i ps' p'"
      by (simp_all add: wait_child_def join_child_def j(2) d(2,4) [OF j(1)] d(4) [OF i])
    ultimately show ?thesis using nth_mem [OF j(1)] by blast
  qed
  then have "reaped (wait_child i ps) ps \<Longrightarrow> reaped (wait_child i ps') ps'"
    "reaped (join_child i ps) ps \<Longrightarrow> reaped (join_child i ps') ps'"
    unfolding reaped_def by blast+
  then show ?thesis
    using r unfolding waits_rightly_def d(5,6) [OF i] by (auto split: kont.splits sleeper.splits)
qed

lemma waits_lock_after: "waits_rightly ps i \<Longrightarrow> lock_after (p_kont (ps ! i))"
  by (auto simp: waits_rightly_def lock_after_def split: kont.splits sleeper.splits)

lemma ptable_invD:
  assumes "ptable_inv ps npid ini run"
  shows "length ps = NPROC" and "pids_ok ps npid" and "tree_ok ps ini" and "run_ok ps run" and "sleep_ok ps"
  using assms by (simp_all add: ptable_inv_def)

lemma pids_okD:
  assumes "pids_ok ps npid"
  shows "0 < npid"
    and "i < NPROC \<Longrightarrow> live (p_state (ps ! i)) \<Longrightarrow> 0 < p_pid (ps ! i)"
    and "i < NPROC \<Longrightarrow> live (p_state (ps ! i)) \<Longrightarrow> p_pid (ps ! i) < npid"
    and "i < NPROC \<Longrightarrow> live (p_state (ps ! i)) \<Longrightarrow> p_kstack (ps ! i) \<noteq> 0"
    and "i < NPROC \<Longrightarrow> live (p_state (ps ! i)) \<Longrightarrow> p_pgdir (ps ! i) \<noteq> 0"
    and "i < NPROC \<Longrightarrow> j < NPROC \<Longrightarrow> live (p_state (ps ! i)) \<Longrightarrow> live (p_state (ps ! j)) \<Longrightarrow>
      p_pid (ps ! i) = p_pid (ps ! j) \<Longrightarrow> i = j"
  using assms unfolding pids_ok_def by blast+

lemma pids_ok_mono:
  assumes ok: "pids_ok ps npid" and "npid \<le> npid'"
    and sub: "\<And>i. i < NPROC \<Longrightarrow> live (p_state (ps' ! i)) \<Longrightarrow> live (p_state (ps ! i)) \<and>
      p_pid (ps' ! i) = p_pid (ps ! i) \<and> p_kstack (ps' ! i) = p_kstack (ps ! i) \<and> p_pgdir (ps' ! i) = p_pgdir (ps ! i)"
  shows "pids_ok ps' npid'"
  unfolding pids_ok_def
proof (intro conjI allI impI)
  show "0 < npid'" using pids_okD(1) [OF ok] assms(2) by linarith
  fix i assume i: "i < NPROC" "live (p_state (ps' ! i))"
  note s = sub [OF i]
  show "0 < p_pid (ps' ! i)" "p_kstack (ps' ! i) \<noteq> 0" "p_pgdir (ps' ! i) \<noteq> 0"
    using pids_okD(2,4,5) [OF ok i(1)] s by simp_all
  show "p_pid (ps' ! i) < npid'" using pids_okD(3) [OF ok i(1)] s assms(2) by simp
  fix j assume j: "j < NPROC" "live (p_state (ps' ! j))" "p_pid (ps' ! i) = p_pid (ps' ! j)"
  show "i = j" using pids_okD(6) [OF ok i(1) j(1)] s sub [OF j(1,2)] j(3) by simp
qed

lemma tree_okD:
  assumes "tree_ok ps ini"
  shows "i < NPROC \<Longrightarrow> p_state (ps ! i) \<noteq> EMBRYO"
    and "i < NPROC \<Longrightarrow> p_state (ps ! i) = UNUSED \<Longrightarrow> p_parent (ps ! i) = None"
    and "i < NPROC \<Longrightarrow> p_parent (ps ! i) = Some q \<Longrightarrow> q < NPROC"
    and "i < NPROC \<Longrightarrow> p_parent (ps ! i) = Some q \<Longrightarrow> active (p_state (ps ! q))"
    and "i < NPROC \<Longrightarrow> live (p_state (ps ! i)) \<Longrightarrow> (p_parent (ps ! i) = None) = (ini = Some i)"
    and "i < NPROC \<Longrightarrow> p_parent (ps ! i) \<noteq> Some i"
    and "\<exists>i. ini = Some i \<and> i < NPROC \<and> active (p_state (ps ! i))"
  using assms unfolding tree_ok_def by blast+

lemma tree_okI:
  assumes "\<And>i. i < NPROC \<Longrightarrow> p_state (ps ! i) \<noteq> EMBRYO"
    and "\<And>i. i < NPROC \<Longrightarrow> p_state (ps ! i) = UNUSED \<Longrightarrow> p_parent (ps ! i) = None"
    and "\<And>i q. i < NPROC \<Longrightarrow> p_parent (ps ! i) = Some q \<Longrightarrow> q < NPROC \<and> active (p_state (ps ! q))"
    and "\<And>i. i < NPROC \<Longrightarrow> live (p_state (ps ! i)) \<Longrightarrow> (p_parent (ps ! i) = None) = (ini = Some i)"
    and "\<And>i. i < NPROC \<Longrightarrow> p_parent (ps ! i) \<noteq> Some i"
    and "ini = Some j" and "j < NPROC" and "active (p_state (ps ! j))"
  shows "tree_ok ps ini"
  unfolding tree_ok_def
proof (intro conjI)
  show "\<exists>i. ini = Some i \<and> i < NPROC \<and> active (p_state (ps ! i))"
    using assms(6-8) by blast
qed (rule allI impI | erule assms(1-5) | assumption)+

lemma run_okD:
  assumes "run_ok ps run"
  shows "i < NPROC \<Longrightarrow> p_state (ps ! i) = RUNNING \<longleftrightarrow> (\<exists>c. run c = Some i)"
    and "run c = Some i \<Longrightarrow> i < NPROC"
    and "run c = Some i \<Longrightarrow> run d = Some i \<Longrightarrow> c = d"
  using assms unfolding run_ok_def by blast+

lemma run_ok_running: "run_ok ps run \<Longrightarrow> run c = Some i \<Longrightarrow> i < NPROC \<and> p_state (ps ! i) = RUNNING"
  using run_okD by blast

lemma sleep_okD:
  assumes "sleep_ok ps"
  shows "i < NPROC \<Longrightarrow> p_state (ps ! i) = SLEEPING \<Longrightarrow> waits_rightly ps i"
    and "i < NPROC \<Longrightarrow> p_state (ps ! i) = RUNNABLE \<Longrightarrow> lock_after (p_kont (ps ! i))"
  using assms unfolding sleep_ok_def by blast+

lemma ptable_inv_woken:
  assumes inv: "ptable_inv ps npid ini run" and w: "list_all2 woken ps ps'"
  shows "ptable_inv ps' npid ini run"
proof -
  note d = ptable_invD [OF inv]
  have len: "length ps' = NPROC" using w d(1) by (simp add: list_all2_lengthD)
  note e = wokenD [OF w, unfolded d(1)]
  have st: "(p_state (ps' ! i) = UNUSED) = (p_state (ps ! i) = UNUSED)"
    "(p_state (ps' ! i) = EMBRYO) = (p_state (ps ! i) = EMBRYO)"
    "(p_state (ps' ! i) = RUNNING) = (p_state (ps ! i) = RUNNING)"
    "p_state (ps' ! i) = SLEEPING \<Longrightarrow> p_state (ps ! i) = SLEEPING"
    "p_state (ps' ! i) = RUNNABLE \<Longrightarrow> p_state (ps ! i) = SLEEPING \<or> p_state (ps ! i) = RUNNABLE"
    if "i < NPROC" for i
    using e(9) [OF that] by auto
  have "pids_ok ps' npid"
    by (rule pids_ok_mono [OF d(2)]) (simp_all add: e)
  moreover have "tree_ok ps' ini"
  proof -
    obtain j where j: "ini = Some j" "j < NPROC" "active (p_state (ps ! j))"
      using tree_okD(7) [OF d(3)] by blast
    show ?thesis
    proof (rule tree_okI [where j = j])
      fix i assume i: "i < NPROC"
      note D = tree_okD(1-6) [OF d(3) i]
      show "p_state (ps' ! i) \<noteq> EMBRYO" using D(1) st(2) [OF i] by blast
      show "p_parent (ps' ! i) = None" if "p_state (ps' ! i) = UNUSED"
        using D(2) that by (simp only: e(2) [OF i] st(1) [OF i])
      show "(p_parent (ps' ! i) = None) = (ini = Some i)" if "live (p_state (ps' ! i))"
        using D(5) that by (simp only: e(2,7) [OF i])
      show "p_parent (ps' ! i) \<noteq> Some i" using D(6) e(2) [OF i] by simp
      show "q < NPROC \<and> active (p_state (ps' ! q))" if q: "p_parent (ps' ! i) = Some q" for q
      proof -
        have "p_parent (ps ! i) = Some q" using q e(2) [OF i] by simp
        from D(3,4) [OF this] show ?thesis using e(8) [of q] by simp
      qed
    qed (use j e(8) [OF j(2)] in simp_all)
  qed
  moreover have "run_ok ps' run"
    unfolding run_ok_def using run_okD [OF d(4)] by (simp add: st)
  moreover have "sleep_ok ps'"
    unfolding sleep_ok_def
    using sleep_okD [OF d(5)] waits_rightly_woken [OF w, unfolded d(1)] st(4,5) waits_lock_after e(5)
    by metis
  ultimately show ?thesis using len by (simp add: ptable_inv_def)
qed

lemma kernel_inv_quiet:
  assumes "kernel_inv k" and "quiet k k'"
  shows "kernel_inv k'"
proof -
  have e: "held k' = held k" "running k' = running k" "spos k' = spos k" using assms(2) by (simp_all add: quiet_def)
  have "cpu_inv k' = cpu_inv k" unfolding cpu_inv_def e ..
  then show ?thesis
    using assms ptable_inv_woken [of "ptable k" "nextpid k" "initproc k" "running k" "ptable k'"]
    by (simp add: kernel_inv_def quiet_def)
qed

text \<open>Replacing one entry by one that is not a zombie.\<close>

lemma waits_rightly_upd:
  assumes "waits_rightly ps j" and "j \<noteq> i" and "p_state q \<noteq> ZOMBIE"
  shows "waits_rightly (ps[i := q]) j"
proof -
  have "reaped (wait_child j ps) ps \<Longrightarrow> reaped (wait_child j (ps[i := q])) (ps[i := q])"
    "reaped (join_child j ps) ps \<Longrightarrow> reaped (join_child j (ps[i := q])) (ps[i := q])"
    using set_update_subset_insert [of ps i q] assms(2,3)
    by (auto simp: reaped_def wait_child_def join_child_def)
  then show ?thesis
    using assms(1,2) unfolding waits_rightly_def by (auto split: kont.splits sleeper.splits)
qed

lemma sleep_ok_upd:
  assumes "sleep_ok ps" and "p_state q \<noteq> ZOMBIE" and "length ps = NPROC"
    and "p_state q = SLEEPING \<Longrightarrow> waits_rightly (ps[i := q]) i"
    and "p_state q = RUNNABLE \<Longrightarrow> lock_after (p_kont q)"
  shows "sleep_ok (ps[i := q])"
  unfolding sleep_ok_def
  using sleep_okD [OF assms(1)] waits_rightly_upd [OF _ _ assms(2), of ps] assms(3-5)
  by (metis nth_list_update_eq nth_list_update_neq)

text \<open>A child appears in an unused entry.\<close>

lemma ptable_inv_new:
  assumes inv: "ptable_inv ps npid ini run" and np: "np < NPROC" "p_state (ps ! np) = UNUSED"
    and cur: "run c = Some cur"
    and q: "p_state q = RUNNABLE" "p_pid q = npid" "p_parent q = Some cur" "p_kstack q \<noteq> 0" "p_pgdir q \<noteq> 0"
      "p_kont q = AtForkret"
  shows "ptable_inv (ps[np := q]) (npid + 1) ini run"
proof -
  note d = ptable_invD [OF inv]
  have curs: "cur < NPROC" "p_state (ps ! cur) = RUNNING" using run_ok_running [OF d(4) cur] by auto
  have np': "\<not> active (p_state (ps ! np))" "p_state (ps ! np) \<noteq> RUNNING" "cur \<noteq> np"
    using np curs by (auto simp: active_def)
  have nth: "(ps[np := q]) ! i = (if i = np then q else ps ! i)" if "i < NPROC" for i
    using that d(1) np(1) by (simp add: nth_list_update)
  have "pids_ok (ps[np := q]) (npid + 1)"
    unfolding pids_ok_def
  proof (intro conjI allI impI)
    show "0 < npid + 1" using pids_okD(1) [OF d(2)] by simp
    fix i assume i: "i < NPROC" "live (p_state (ps[np := q] ! i))"
    note D = pids_okD(2-6) [OF d(2) i(1)]
    show "0 < p_pid (ps[np := q] ! i)" "p_pid (ps[np := q] ! i) < npid + 1"
      "p_kstack (ps[np := q] ! i) \<noteq> 0" "p_pgdir (ps[np := q] ! i) \<noteq> 0"
      using i D(1-4) q pids_okD(1) [OF d(2)] by (cases "i = np"; simp add: nth)+
    fix j assume j: "j < NPROC" "live (p_state (ps[np := q] ! j))"
      "p_pid (ps[np := q] ! i) = p_pid (ps[np := q] ! j)"
    show "i = j"
      using i j q(2) D(2) D(5) [OF j(1)] pids_okD(3) [OF d(2) j(1)]
      by (cases "i = np"; cases "j = np") (simp_all add: nth)
  qed
  moreover have "tree_ok (ps[np := q]) ini"
  proof -
    obtain j where j: "ini = Some j" "j < NPROC" "active (p_state (ps ! j))"
      using tree_okD(7) [OF d(3)] by blast
    show ?thesis
    proof (rule tree_okI [where j = j])
      fix i assume i: "i < NPROC"
      note D = tree_okD(1-6) [OF d(3) i]
      show "p_state (ps[np := q] ! i) \<noteq> EMBRYO" using D(1) q(1) by (simp add: nth [OF i])
      show "p_parent (ps[np := q] ! i) = None" if "p_state (ps[np := q] ! i) = UNUSED"
        using D(2) that q(1) by (simp add: nth [OF i] split: if_splits)
      show "(p_parent (ps[np := q] ! i) = None) = (ini = Some i)" if "live (p_state (ps[np := q] ! i))"
        using D(5) that q(3) np' j by (auto simp: nth [OF i] split: if_splits)
      show "p_parent (ps[np := q] ! i) \<noteq> Some i" using D(6) q(3) np' by (simp add: nth [OF i])
      show "r < NPROC \<and> active (p_state (ps[np := q] ! r))" if r: "p_parent (ps[np := q] ! i) = Some r" for r
        using D(3,4) [of r] r [unfolded nth [OF i]] q(1,3) curs np' by (cases "i = np"; cases "r = np") (simp_all add: nth active_def)
    qed (use j np' in \<open>auto simp: nth\<close>)
  qed
  moreover have "run_ok (ps[np := q]) run"
    unfolding run_ok_def using run_okD [OF d(4)] q(1) np' np(1) by (auto simp: nth)
  moreover have "sleep_ok (ps[np := q])"
    using d(1,5) q by (intro sleep_ok_upd) (auto simp: lock_after_def)
  ultimately show ?thesis using d(1) by (simp add: ptable_inv_def)
qed

text \<open>An entry that is not in use, or is a zombie, becomes unused.\<close>

lemma ptable_inv_free:
  assumes inv: "ptable_inv ps npid ini run" and i: "i < NPROC" "p_state (ps ! i) = UNUSED \<or> p_state (ps ! i) = ZOMBIE"
    and q: "p_state q = UNUSED" "p_parent q = None" and n: "npid \<le> npid'"
  shows "ptable_inv (ps[i := q]) npid' ini run"
proof -
  note d = ptable_invD [OF inv]
  have i': "\<not> active (p_state (ps ! i))" "p_state (ps ! i) \<noteq> RUNNING"
    using i by (auto simp: active_def)
  have nth: "(ps[i := q]) ! j = (if j = i then q else ps ! j)" if "j < NPROC" for j
    using that d(1) i(1) by (simp add: nth_list_update)
  have "pids_ok (ps[i := q]) npid'"
    by (rule pids_ok_mono [OF d(2) n]) (use q in \<open>simp add: nth live_def split: if_splits\<close>)
  moreover have "tree_ok (ps[i := q]) ini"
  proof -
    obtain j where j: "ini = Some j" "j < NPROC" "active (p_state (ps ! j))"
      using tree_okD(7) [OF d(3)] by blast
    show ?thesis
    proof (rule tree_okI [where j = j])
      fix j assume j: "j < NPROC"
      note D = tree_okD(1-6) [OF d(3) j]
      show "p_state (ps[i := q] ! j) \<noteq> EMBRYO" using D(1) q(1) by (simp add: nth [OF j])
      show "p_parent (ps[i := q] ! j) = None" if "p_state (ps[i := q] ! j) = UNUSED"
        using D(2) that q(2) by (simp add: nth [OF j] split: if_splits)
      show "(p_parent (ps[i := q] ! j) = None) = (ini = Some j)" if "live (p_state (ps[i := q] ! j))"
        using D(5) that q(1) by (simp add: nth [OF j] live_def split: if_splits)
      show "p_parent (ps[i := q] ! j) \<noteq> Some j" using D(6) q(2) by (simp add: nth [OF j])
      show "r < NPROC \<and> active (p_state (ps[i := q] ! r))" if r: "p_parent (ps[i := q] ! j) = Some r" for r
        using D(3,4) [of r] r [unfolded nth [OF j]] q(2) i' by (cases "j = i"; cases "r = i") (simp_all add: nth)
    qed (use j i' in \<open>auto simp: nth\<close>)
  qed
  moreover have "run_ok (ps[i := q]) run"
    unfolding run_ok_def using run_okD [OF d(4)] q(1) i' i(1) by (auto simp: nth)
  moreover have "sleep_ok (ps[i := q])"
    using d(1,5) q by (intro sleep_ok_upd) auto
  ultimately show ?thesis using d(1) by (simp add: ptable_inv_def)
qed

section \<open>Moving an active process between states\<close>

lemma ptable_inv_move:
  assumes inv: "ptable_inv ps npid ini run" and i: "i < NPROC" "active (p_state (ps ! i))"
    and q: "active (p_state q)" "p_pid q = p_pid (ps ! i)" "p_parent q = p_parent (ps ! i)"
      "p_kstack q = p_kstack (ps ! i)" "p_pgdir q = p_pgdir (ps ! i)"
    and run: "run_ok (ps[i := q]) run'"
    and sl: "p_state q = SLEEPING \<Longrightarrow> waits_rightly (ps[i := q]) i"
      "p_state q = RUNNABLE \<Longrightarrow> lock_after (p_kont q)"
  shows "ptable_inv (ps[i := q]) npid ini run'"
proof -
  note d = ptable_invD [OF inv]
  have nth: "(ps[i := q]) ! j = (if j = i then q else ps ! j)" if "j < NPROC" for j
    using that d(1) i(1) by (simp add: nth_list_update)
  have alive: "active st \<Longrightarrow> live st \<and> st \<noteq> UNUSED \<and> st \<noteq> EMBRYO \<and> st \<noteq> ZOMBIE" for st
    by (auto simp: active_def live_def)
  have "pids_ok (ps[i := q]) npid"
    by (rule pids_ok_mono [OF d(2) order_refl]) (use q i(2) alive in \<open>simp add: nth split: if_splits\<close>)
  moreover have "tree_ok (ps[i := q]) ini"
  proof -
    obtain j where j: "ini = Some j" "j < NPROC" "active (p_state (ps ! j))"
      using tree_okD(7) [OF d(3)] by blast
    show ?thesis
    proof (rule tree_okI [where j = j])
      fix j assume j: "j < NPROC"
      note D = tree_okD(1-6) [OF d(3) j]
      show "p_state (ps[i := q] ! j) \<noteq> EMBRYO" using D(1) alive [OF q(1)] by (simp add: nth [OF j])
      show "p_parent (ps[i := q] ! j) = None" if "p_state (ps[i := q] ! j) = UNUSED"
        using D(2) that alive [OF q(1)] by (simp add: nth [OF j] split: if_splits)
      show "(p_parent (ps[i := q] ! j) = None) = (ini = Some j)" if "live (p_state (ps[i := q] ! j))"
        using D(5) that q(3) alive [OF i(2)] by (auto simp: nth [OF j] split: if_splits)
      show "p_parent (ps[i := q] ! j) \<noteq> Some j" using D(6) q(3) by (auto simp: nth [OF j])
      show "r < NPROC \<and> active (p_state (ps[i := q] ! r))" if r: "p_parent (ps[i := q] ! j) = Some r" for r
        using D(3,4) [of r] r [unfolded nth [OF j]] q(1,3)
        by (cases "j = i"; cases "r = i") (simp_all add: nth)
    qed (use j q(1) in \<open>auto simp: nth\<close>)
  qed
  moreover have "sleep_ok (ps[i := q])"
    using d(1,5) sl alive [OF q(1)] by (intro sleep_ok_upd) auto
  ultimately show ?thesis using d(1) run by (simp add: ptable_inv_def)
qed

lemma run_ok_stop:
  assumes ok: "run_ok ps run" and c: "run c = Some i" and len: "length ps = NPROC"
    and q: "p_state q \<noteq> RUNNING"
  shows "run_ok (ps[i := q]) (run(c := None))"
proof -
  have i: "i < NPROC" by (rule run_okD(2) [OF ok c])
  have only: "run d = Some i \<longleftrightarrow> d = c" for d using run_okD(3) [OF ok c] c by blast
  show ?thesis
    unfolding run_ok_def
  proof (intro conjI allI impI)
    fix j assume j: "j < NPROC"
    show "(p_state (ps[i := q] ! j) = RUNNING) = (\<exists>d. (run(c := None)) d = Some j)"
    proof (cases "j = i")
      case True
      then show ?thesis using q i len only by auto
    next
      case False
      have "(\<exists>d. (run(c := None)) d = Some j) \<longleftrightarrow> (\<exists>d. run d = Some j)"
        using False c by (metis fun_upd_apply option.distinct(1) option.inject)
      with False show ?thesis using run_okD(1) [OF ok j] by simp
    qed
  next
    fix d j assume "(run(c := None)) d = Some j"
    then show "j < NPROC" using run_okD(2) [OF ok] by (auto split: if_splits)
  next
    fix d e j assume "(run(c := None)) d = Some j" "(run(c := None)) e = Some j"
    then show "d = e" using run_okD(3) [OF ok] by (auto split: if_splits)
  qed
qed

lemma run_ok_start:
  assumes ok: "run_ok ps run" and c: "run c = None" and i: "i < NPROC" "p_state (ps ! i) \<noteq> RUNNING"
    and len: "length ps = NPROC" and q: "p_state q = RUNNING"
  shows "run_ok (ps[i := q]) (run(c := Some i))"
proof -
  have none: "run d \<noteq> Some i" for d using run_okD(1) [OF ok i(1)] i(2) by blast
  show ?thesis
    unfolding run_ok_def
  proof (intro conjI allI impI)
    fix j assume j: "j < NPROC"
    show "(p_state (ps[i := q] ! j) = RUNNING) = (\<exists>d. (run(c := Some i)) d = Some j)"
    proof (cases "j = i")
      case True
      then show ?thesis using q i len by auto
    next
      case False
      have "(\<exists>d. (run(c := Some i)) d = Some j) \<longleftrightarrow> (\<exists>d. run d = Some j)"
        using False c by (metis fun_upd_apply option.distinct(1) option.inject)
      with False show ?thesis using run_okD(1) [OF ok j] by simp
    qed
  next
    fix d j assume "(run(c := Some i)) d = Some j"
    then show "j < NPROC" using run_okD(2) [OF ok] i(1) by (auto split: if_splits)
  next
    fix d e j assume "(run(c := Some i)) d = Some j" "(run(c := Some i)) e = Some j"
    then show "d = e" using run_okD(3) [OF ok] none by (auto split: if_splits)
  qed
qed

section \<open>Exit\<close>

lemma wakeup1_woken: "list_all2 woken ps (wakeup1 ch ps)"
  by (auto simp: wakeup1_def list_all2_conv_all_nth woken_def)

lemma wakeup1_awake:
  "j < length ps \<Longrightarrow> p_state (wakeup1 ch ps ! j) = SLEEPING \<Longrightarrow> p_chan (wakeup1 ch ps ! j) \<noteq> ch"
  by (auto simp: wakeup1_def)

definition same_core :: "proc \<Rightarrow> proc \<Rightarrow> bool" where
  "same_core p p' \<longleftrightarrow> woken p (p'\<lparr>p_parent := p_parent p\<rparr>)"

lemma same_coreD:
  assumes "same_core p p'"
  shows "p_pid p' = p_pid p" "p_kstack p' = p_kstack p" "p_pgdir p' = p_pgdir p" "p_kont p' = p_kont p"
    "p_chan p' = p_chan p" "p_state p' = p_state p \<or> p_state p = SLEEPING \<and> p_state p' = RUNNABLE"
  using assms by (auto simp: same_core_def woken_def)

lemma same_core_trans: "same_core p q \<Longrightarrow> same_core q r \<Longrightarrow> same_core p r"
  by (auto simp: same_core_def woken_def)

lemma woken_same_core: "woken p q \<Longrightarrow> same_core p q \<and> p_parent q = p_parent p"
  by (auto simp: same_core_def woken_def)

lemma abandon_children_spec:
  assumes "distinct is" and "\<forall>i \<in> set is. i < length ps"
  shows "length (abandon_children ini cur is ps) = length ps \<and>
    (\<forall>j < length ps. same_core (ps ! j) (abandon_children ini cur is ps ! j) \<and>
      p_parent (abandon_children ini cur is ps ! j) =
        (if j \<in> set is \<and> p_parent (ps ! j) = Some cur then ini else p_parent (ps ! j))) \<and>
    ((\<exists>i \<in> set is. p_parent (ps ! i) = Some cur \<and> p_state (ps ! i) = ZOMBIE) \<longrightarrow>
      (\<forall>j < length ps. p_state (abandon_children ini cur is ps ! j) = SLEEPING \<longrightarrow>
        p_chan (abandon_children ini cur is ps ! j) \<noteq> chan_of ini))"
  using assms
proof (induction "is" arbitrary: ps)
  case Nil
  then show ?case by (simp add: same_core_def)
next
  case (Cons i "is")
  define ps1 where "ps1 = (if p_parent (ps ! i) = Some cur then ps[i := (ps ! i)\<lparr>p_parent := ini\<rparr>] else ps)"
  define ps2 where "ps2 = (if p_parent (ps ! i) = Some cur \<and> p_state (ps ! i) = ZOMBIE
    then wakeup1 (chan_of ini) ps1 else ps1)"
  have i: "i < length ps" using Cons.prems by simp
  have eq: "abandon_children ini cur (i # is) ps = abandon_children ini cur is ps2"
    using i by (simp add: ps1_def ps2_def Let_def)
  have w: "list_all2 woken ps1 ps2"
    by (simp add: ps2_def wakeup1_woken list_all2_refl)
  have len: "length ps1 = length ps" "length ps2 = length ps"
    using w by (simp_all add: ps1_def ps2_def wakeup1_def)
  have one: "same_core (ps ! j) (ps2 ! j) \<and>
      p_parent (ps2 ! j) = (if j = i \<and> p_parent (ps ! j) = Some cur then ini else p_parent (ps ! j))"
    if j: "j < length ps" for j
  proof -
    have a: "same_core (ps ! j) (ps1 ! j)"
      "p_parent (ps1 ! j) = (if j = i \<and> p_parent (ps ! j) = Some cur then ini else p_parent (ps ! j))"
      using i j by (auto simp: ps1_def same_core_def woken_def nth_list_update)
    have "same_core (ps1 ! j) (ps2 ! j) \<and> p_parent (ps2 ! j) = p_parent (ps1 ! j)"
      using list_all2_nthD [OF w] j len(1) by (simp add: woken_same_core)
    with a show ?thesis using same_core_trans by metis
  qed
  have "distinct is" "\<forall>i \<in> set is. i < length ps2" "i \<notin> set is" using Cons.prems len by simp_all
  note ih = Cons.IH [OF this(1,2), unfolded len] and i_is = this(3)
  let ?r = "abandon_children ini cur is ps2"
  have "same_core (ps ! j) (?r ! j) \<and> p_parent (?r ! j) =
      (if j \<in> set (i # is) \<and> p_parent (ps ! j) = Some cur then ini else p_parent (ps ! j))"
    if j: "j < length ps" for j
  proof -
    have b: "same_core (ps2 ! j) (?r ! j)"
      "p_parent (?r ! j) = (if j \<in> set is \<and> p_parent (ps2 ! j) = Some cur then ini else p_parent (ps2 ! j))"
      using ih j by blast+
    have "same_core (ps ! j) (?r ! j)" using one [OF j] b(1) same_core_trans by blast
    moreover have "p_parent (?r ! j) =
      (if j \<in> set (i # is) \<and> p_parent (ps ! j) = Some cur then ini else p_parent (ps ! j))"
      using one [OF j] b(2) i_is by (cases "j = i") simp_all
    ultimately show ?thesis ..
  qed
  moreover have "p_chan (?r ! j) \<noteq> chan_of ini"
    if z: "\<exists>m \<in> set (i # is). p_parent (ps ! m) = Some cur \<and> p_state (ps ! m) = ZOMBIE"
      and j: "j < length ps" "p_state (?r ! j) = SLEEPING" for j
  proof (cases "p_parent (ps ! i) = Some cur \<and> p_state (ps ! i) = ZOMBIE")
    case True
    then have "ps2 = wakeup1 (chan_of ini) ps1" by (simp add: ps2_def)
    then have "p_state (ps2 ! j) = SLEEPING \<Longrightarrow> p_chan (ps2 ! j) \<noteq> chan_of ini"
      using wakeup1_awake [of j ps1 "chan_of ini"] j(1) len by simp
    moreover have "same_core (ps2 ! j) (?r ! j)" using ih j(1) by blast
    ultimately show ?thesis using same_coreD(5,6) j(2) by (metis procstate.distinct(23))
  next
    case False
    with z obtain m where m: "m \<in> set is" "p_parent (ps ! m) = Some cur" "p_state (ps ! m) = ZOMBIE" by auto
    then have mi: "m < length ps" "m \<noteq> i" using Cons.prems i_is by auto
    then have "p_parent (ps2 ! m) = Some cur" "p_state (ps2 ! m) = ZOMBIE"
      using one [OF mi(1)] m same_coreD(6) [of "ps ! m" "ps2 ! m"] by auto
    with ih m(1) j show ?thesis by blast
  qed
  ultimately show ?case
    unfolding eq using ih by blast
qed

text \<open>The process table after the critical section of \<open>exit\<close>.\<close>

definition exit_table :: "nat option \<Rightarrow> nat \<Rightarrow> kont \<Rightarrow> proc list \<Rightarrow> proc list" where
  "exit_table ini cur kt ps =
     (let ps = abandon_children ini cur [0..<NPROC] (wakeup1 (chan_of (p_parent (ps ! cur))) ps)
      in ps[cur := (ps ! cur)\<lparr>p_state := ZOMBIE, p_kont := kt\<rparr>])"

lemma exit_table_spec:
  fixes ini kt
  assumes len: "length ps = NPROC" and cur: "cur < NPROC" "p_state (ps ! cur) = RUNNING"
  defines "ps3 \<equiv> exit_table ini cur kt ps"
  shows "length ps3 = NPROC"
    and "j < NPROC \<Longrightarrow> p_pid (ps3 ! j) = p_pid (ps ! j) \<and> p_kstack (ps3 ! j) = p_kstack (ps ! j) \<and>
      p_pgdir (ps3 ! j) = p_pgdir (ps ! j) \<and> p_chan (ps3 ! j) = p_chan (ps ! j) \<and>
      p_parent (ps3 ! j) = (if p_parent (ps ! j) = Some cur then ini else p_parent (ps ! j))"
    and "p_state (ps3 ! cur) = ZOMBIE"
    and "j < NPROC \<Longrightarrow> j \<noteq> cur \<Longrightarrow> p_kont (ps3 ! j) = p_kont (ps ! j) \<and>
      (p_state (ps3 ! j) = p_state (ps ! j) \<or> p_state (ps ! j) = SLEEPING \<and> p_state (ps3 ! j) = RUNNABLE)"
    and "j < NPROC \<Longrightarrow> p_state (ps3 ! j) = SLEEPING \<Longrightarrow> p_chan (ps ! j) \<noteq> chan_of (p_parent (ps ! cur))"
    and "j < NPROC \<Longrightarrow> p_state (ps3 ! j) = SLEEPING \<Longrightarrow>
      \<exists>i < NPROC. p_parent (ps ! i) = Some cur \<and> p_state (ps ! i) = ZOMBIE \<Longrightarrow> p_chan (ps ! j) \<noteq> chan_of ini"
proof -
  define ch where "ch = chan_of (p_parent (ps ! cur))"
  define ps1 where "ps1 = wakeup1 ch ps"
  define ps2 where "ps2 = abandon_children ini cur [0..<NPROC] ps1"
  have ps3: "ps3 = ps2[cur := (ps2 ! cur)\<lparr>p_state := ZOMBIE, p_kont := kt\<rparr>]"
    by (simp add: ps3_def exit_table_def ps2_def ps1_def ch_def Let_def)
  have len1: "length ps1 = NPROC" using len by (simp add: ps1_def wakeup1_def)
  have "\<forall>i \<in> set [0..<NPROC]. i < length ps1" using len1 by simp
  note spec = abandon_children_spec [OF distinct_upt this, of ini cur, folded ps2_def, unfolded len1]
  have len2: "length ps2 = NPROC" using spec by blast
  show "length ps3 = NPROC" by (simp add: ps3 len2)
  have w1: "same_core (ps ! j) (ps1 ! j) \<and> p_parent (ps1 ! j) = p_parent (ps ! j)" if "j < NPROC" for j
    using list_all2_nthD [OF wakeup1_woken [of ps ch]] that len by (simp add: woken_same_core ps1_def)
  have w2: "same_core (ps1 ! j) (ps2 ! j)"
    "p_parent (ps2 ! j) = (if p_parent (ps1 ! j) = Some cur then ini else p_parent (ps1 ! j))"
    if "j < NPROC" for j
    using spec that by auto
  have core: "same_core (ps ! j) (ps2 ! j)" if "j < NPROC" for j
    using w1 [OF that] w2(1) [OF that] same_core_trans by blast
  have nth: "ps3 ! j = (if j = cur then (ps2 ! cur)\<lparr>p_state := ZOMBIE, p_kont := kt\<rparr> else ps2 ! j)"
    if "j < NPROC" for j
    using that len2 by (simp add: ps3 nth_list_update)
  show "p_state (ps3 ! cur) = ZOMBIE" using nth [OF cur(1)] by simp
  {
    assume j: "j < NPROC"
    note c = same_coreD [OF core [OF j]]
    have par: "p_parent (ps2 ! j) = (if p_parent (ps ! j) = Some cur then ini else p_parent (ps ! j))"
      using w2(2) [OF j] w1 [OF j] by simp
    show "p_pid (ps3 ! j) = p_pid (ps ! j) \<and> p_kstack (ps3 ! j) = p_kstack (ps ! j) \<and>
      p_pgdir (ps3 ! j) = p_pgdir (ps ! j) \<and> p_chan (ps3 ! j) = p_chan (ps ! j) \<and>
      p_parent (ps3 ! j) = (if p_parent (ps ! j) = Some cur then ini else p_parent (ps ! j))"
      using c(1-3,5) par nth [OF j] by (cases "j = cur") simp_all
    show "p_kont (ps3 ! j) = p_kont (ps ! j) \<and>
      (p_state (ps3 ! j) = p_state (ps ! j) \<or> p_state (ps ! j) = SLEEPING \<and> p_state (ps3 ! j) = RUNNABLE)"
      if "j \<noteq> cur"
      using c(4,6) that by (simp add: nth [OF j])
    assume sl: "p_state (ps3 ! j) = SLEEPING"
    then have sl2: "p_state (ps2 ! j) = SLEEPING" by (simp add: nth [OF j] split: if_splits)
    then have sl1: "p_state (ps1 ! j) = SLEEPING" using same_coreD(6) [OF w2(1) [OF j]] by auto
    show "p_chan (ps ! j) \<noteq> chan_of (p_parent (ps ! cur))"
      using wakeup1_awake [of j ps ch] sl1 j len same_coreD(5) [of "ps ! j" "ps1 ! j"] w1 [OF j]
      by (simp add: ps1_def ch_def)
    assume "\<exists>i < NPROC. p_parent (ps ! i) = Some cur \<and> p_state (ps ! i) = ZOMBIE"
    then obtain i where i: "i < NPROC" "p_parent (ps ! i) = Some cur" "p_state (ps ! i) = ZOMBIE" by blast
    have "p_parent (ps1 ! i) = Some cur" "p_state (ps1 ! i) = ZOMBIE"
      using w1 [OF i(1)] i same_coreD(6) [of "ps ! i" "ps1 ! i"] by auto
    then have "p_chan (ps2 ! j) \<noteq> chan_of ini" using spec sl2 j i(1) by auto
    then show "p_chan (ps ! j) \<noteq> chan_of ini" using c(5) by simp
  }
qed

lemma ptable_inv_exit:
  assumes inv: "ptable_inv ps npid ini run" and c: "run c = Some cur" and ini: "ini \<noteq> Some cur"
  shows "ptable_inv (exit_table ini cur kt ps) npid ini (run(c := None))"
proof -
  note d = ptable_invD [OF inv]
  have cur: "cur < NPROC" "p_state (ps ! cur) = RUNNING" using run_ok_running [OF d(4) c] by auto
  define ps3 where "ps3 = exit_table ini cur kt ps"
  note spec = exit_table_spec [OF d(1) cur, where ini = ini and kt = kt, folded ps3_def]
  have st: "live (p_state (ps3 ! j)) = live (p_state (ps ! j))" if "j < NPROC" for j
    using spec(3) spec(4) [OF that] cur by (cases "j = cur") (auto simp: live_def)
  have act: "active (p_state (ps3 ! j)) = active (p_state (ps ! j))" if "j < NPROC" "j \<noteq> cur" for j
    using spec(4) [OF that] by (auto simp: active_def)
  obtain j0 where j0: "ini = Some j0" "j0 < NPROC" "active (p_state (ps ! j0))"
    using tree_okD(7) [OF d(3)] by blast
  have p0: "p_parent (ps ! j0) = None"
    using tree_okD(5) [OF d(3) j0(2)] j0 by (auto simp: live_def active_def)
  have "pids_ok ps3 npid"
    by (rule pids_ok_mono [OF d(2) order_refl]) (use spec(2) st in blast)
  moreover have "tree_ok ps3 ini"
  proof (rule tree_okI [where j = j0])
    fix j assume j: "j < NPROC"
    note D = tree_okD(1-6) [OF d(3) j]
    have par: "p_parent (ps3 ! j) = (if p_parent (ps ! j) = Some cur then ini else p_parent (ps ! j))"
      using spec(2) [OF j] by blast
    show "p_state (ps3 ! j) \<noteq> EMBRYO"
      using D(1) spec(3) spec(4) [OF j] by (cases "j = cur") auto
    show "p_parent (ps3 ! j) = None" if "p_state (ps3 ! j) = UNUSED"
      using D(2) st [OF j] that par by (auto simp: live_def)
    show "(p_parent (ps3 ! j) = None) = (ini = Some j)" if "live (p_state (ps3 ! j))"
      using D(5) that st [OF j] par p0 j0 by auto
    show "p_parent (ps3 ! j) \<noteq> Some j" using D(6) par p0 j0 by auto
    show "r < NPROC \<and> active (p_state (ps3 ! r))" if r: "p_parent (ps3 ! j) = Some r" for r
    proof (cases "p_parent (ps ! j) = Some cur")
      case True
      then have "r = j0" using r par j0 by simp
      then show ?thesis using act [of j0] j0 ini by auto
    next
      case False
      then have "p_parent (ps ! j) = Some r" using r par by simp
      then show ?thesis using D(3,4) act [of r] False by auto
    qed
  qed (use j0 ini act [of j0] in auto)
  moreover have "run_ok ps3 (run(c := None))"
  proof -
    have "ps3 = (ps3[cur := ps ! cur])[cur := ps3 ! cur]" by simp
    moreover have "run_ok (ps3[cur := ps ! cur]) run"
      unfolding run_ok_def
    proof (intro conjI allI impI)
      fix j assume j: "j < NPROC"
      have "(p_state (ps3[cur := ps ! cur] ! j) = RUNNING) = (p_state (ps ! j) = RUNNING)"
        using spec(1) spec(4) [OF j] by (cases "j = cur") (use cur in auto)
      then show "(p_state (ps3[cur := ps ! cur] ! j) = RUNNING) = (\<exists>c. run c = Some j)"
        using run_okD(1) [OF d(4) j] by simp
    qed (use run_okD(2,3) [OF d(4)] in blast)+
    ultimately show ?thesis
      using run_ok_stop [of "ps3[cur := ps ! cur]" run c cur "ps3 ! cur"] c spec(1,3) by simp
  qed
  moreover have "sleep_ok ps3"
    unfolding sleep_ok_def
  proof (intro conjI allI impI)
    fix j assume j: "j < NPROC" "p_state (ps3 ! j) = RUNNABLE"
    then have "j \<noteq> cur" using spec(3) by auto
    then show "lock_after (p_kont (ps3 ! j))"
      using spec(4) [OF j(1)] j sleep_okD [OF d(5) j(1)] waits_lock_after [of ps j] by auto
  next
    fix j assume j: "j < NPROC" "p_state (ps3 ! j) = SLEEPING"
    then have jc: "j \<noteq> cur" using spec(3) by auto
    have s: "p_state (ps ! j) = SLEEPING" and k: "p_kont (ps3 ! j) = p_kont (ps ! j)"
      using spec(4) [OF j(1) jc] j(2) by auto
    note w = sleep_okD(1) [OF d(5) j(1) s]
    have par: "p_parent (ps ! m) = Some j \<and> p_state (ps ! m) = ZOMBIE \<and> p_pgdir (ps3 ! m) = p_pgdir (ps ! m)"
      if ch: "p_chan (ps ! j) = ProcChan j" and m: "m < NPROC" "p_parent (ps3 ! m) = Some j" "p_state (ps3 ! m) = ZOMBIE" for m
    proof -
      have "p_chan (ps ! j) \<noteq> chan_of (p_parent (ps ! cur))" by (rule spec(5) [OF j])
      then have not_cur: "p_parent (ps ! cur) \<noteq> Some j" using ch by (auto simp: chan_of_def)
      have mp: "p_parent (ps3 ! m) = (if p_parent (ps ! m) = Some cur then ini else p_parent (ps ! m))"
        using spec(2) [OF m(1)] by blast
      have mc: "m \<noteq> cur"
        using m(2) mp not_cur tree_okD(6) [OF d(3) cur(1)] by auto
      then have z: "p_state (ps ! m) = ZOMBIE" using spec(4) [OF m(1) mc] m(3) by auto
      have "p_parent (ps ! m) \<noteq> Some cur"
      proof
        assume a: "p_parent (ps ! m) = Some cur"
        then have "ini = Some j" using m(2) mp by simp
        moreover have "p_chan (ps ! j) \<noteq> chan_of ini"
          using spec(6) [OF j] m(1) z a by blast
        ultimately show False using ch by (simp add: chan_of_def)
      qed
      then show ?thesis using m(2) mp z spec(2) [OF m(1)] by simp
    qed
    have pg: "p_pgdir (ps3 ! j) = p_pgdir (ps ! j)" "p_chan (ps3 ! j) = p_chan (ps ! j)"
      using spec(2) [OF j(1)] by auto
    have "reaped (wait_child j ps3) ps3" if "reaped (wait_child j ps) ps" "p_chan (ps ! j) = ProcChan j"
      using that(1) par [OF that(2)] pg spec(1) d(1)
      unfolding reaped_def wait_child_def by (metis in_set_conv_nth)
    moreover have "reaped (join_child j ps3) ps3" if "reaped (join_child j ps) ps" "p_chan (ps ! j) = ProcChan j"
      using that(1) par [OF that(2)] pg spec(1) d(1)
      unfolding reaped_def join_child_def by (metis in_set_conv_nth)
    ultimately show "waits_rightly ps3 j"
      using w unfolding waits_rightly_def k pg(2) by (auto split: kont.splits sleeper.splits)
  qed
  ultimately show ?thesis using spec(1) by (simp add: ptable_inv_def ps3_def)
qed

end
