(* ===== verification/Proc_Steps.thy ===== *)
theory Proc_Steps
  imports Proc_Inv
begin

text \<open>
  Every call of the process layer and every turn of the scheduler keeps the invariant of
  \<open>Proc_Inv\<close>; the step relation \<open>kstep\<close> lets all processors make calls in any order.
\<close>

section \<open>Critical sections that only wake up\<close>

lemma same_procs_quiet:
  "same_procs k k' \<Longrightarrow> held k' = held k \<Longrightarrow> sync_inv k' \<Longrightarrow> quiet k k'"
  by (simp add: same_procs_def quiet_def list_all2_refl)

lemma locked_quiet:
  fixes k k1 k2 k3 :: "'f kernel"
  assumes "sync_inv k" and a: "acquire c l k = Inr k1" and q: "quiet k1 k2" and r: "release c l k2 = Inr k3"
  shows "quiet k k3"
proof -
  note A = acquire_kernel [OF assms(1) a]
  have s2: "sync_inv k2" "held k2 = held k1" using q A(2) by (auto simp: quiet_def)
  note R = release_kernel [OF s2(1) r]
  have "held k3 = held k"
    using R(3) s2(2) A(3) A(4) [of c] by (auto simp: fun_eq_iff)
  then show ?thesis using q A(1) R(1,2) by (simp add: quiet_def same_procs_def)
qed

lemma quiet_ptable:
  assumes "list_all2 woken (ptable k) ps"
  shows "quiet k (k\<lparr>ptable := ps\<rparr>)"
  using assms sync_ext [of "k\<lparr>ptable := ps\<rparr>" k] by (simp add: quiet_def)

lemma upd_woken:
  assumes "i < length ps \<Longrightarrow> woken (ps ! i) q"
  shows "list_all2 woken ps (ps[i := q])"
  using assms by (cases "i < length ps") (auto simp: list_all2_conv_all_nth nth_list_update)

interpretation wakeup_section: lock_section "\<lambda>k :: 'f kernel. ((), k\<lparr>ptable := wakeup1 ch (ptable k)\<rparr>)" for ch
  by unfold_locales simp_all

lemma wakeup_quiet:
  assumes "sync_inv k" and "wakeup c ch k = Inr (r, k')"
  shows "quiet k k'"
proof -
  obtain k1 where k1: "acquire c ptable_lock k = Inr k1"
    "release c ptable_lock (k1\<lparr>ptable := wakeup1 ch (ptable k1)\<rparr>) = Inr k'"
    using assms(2) by (auto simp: wakeup_def with_lock_def res_simps)
  show ?thesis
    by (rule locked_quiet [OF assms(1) k1(1) quiet_ptable k1(2)]) (rule wakeup1_woken)
qed

lemma kill_quiet:
  assumes "sync_inv k" and "kill c pid k = Inr (r, k')"
  shows "quiet k k'"
proof -
  obtain k1 where a: "acquire c ptable_lock k = Inr k1"
    using assms(2) by (auto simp: kill_def res_simps)
  show ?thesis
  proof (cases "find_index (\<lambda>p. p_pid p = pid) (ptable k1)")
    case None
    then have "release c ptable_lock k1 = Inr k'"
      using assms(2) a by (simp add: kill_def res_simps del: find_index_None)
    from locked_quiet [OF assms(1) a quiet_refl this] show ?thesis .
  next
    case (Some i)
    define f :: "proc \<Rightarrow> proc" where "f = (\<lambda>p. p\<lparr>p_killed := True, p_state := (if p_state p = SLEEPING then RUNNABLE else p_state p)\<rparr>)"
    have "release c ptable_lock (upd_proc i f k1) = Inr k'"
      using assms(2) a Some by (simp add: kill_def res_simps f_def)
    moreover have "quiet k1 (upd_proc i f k1)"
      unfolding upd_proc_def by (intro quiet_ptable upd_woken) (simp add: f_def woken_def)
    ultimately show ?thesis using locked_quiet [OF assms(1) a] by blast
  qed
qed

lemma sync_inv_upd:
  assumes "sync_inv k" and l: "locks k' = locks k" and n: "\<And>c. ncli (cpus k' c) = ncli (cpus k c)"
    and f: "\<And>c. held k c \<noteq> {} \<Longrightarrow> \<not> iflag (cpus k' c)"
  shows "sync_inv k'"
proof -
  have h: "held k' = held k" using l by (simp add: held_def [abs_def])
  note S = assms(1) [unfolded sync_inv_iff]
  have "ncli (cpus k' c) = int (card (held k c)) \<and> (held k c \<noteq> {} \<longrightarrow> \<not> iflag (cpus k' c))" for c
    using S f [of c] n [of c] by metis
  then show ?thesis
    unfolding sync_inv_iff h l using S [THEN conjunct1] S [THEN conjunct2, THEN conjunct2] by blast
qed

lemma popcli_pushcli_quiet:
  fixes k k' :: "'f kernel"
  assumes "sync_inv k" and "popcli c (pushcli c k) = Inr k'"
  shows "quiet k k'" and "same_procs k k'"
proof -
  have k': "k' = upd_cpu c (\<lambda>p. p\<lparr>intena := (if ncli p = 0 then iflag p else intena p)\<rparr>) k"
    using assms(2) push_pop [OF sync_invD(1) [OF assms(1)]] by simp
  have h: "held k' = held k" by (simp add: held_def [abs_def] k')
  have r: "running k' = running k" by (rule ext) (simp add: running_def k')
  have "sync_inv k'"
    by (rule sync_inv_upd [OF assms(1)]) (use assms(1) sync_inv_iff [of k] in \<open>auto simp: k'\<close>)
  with h r show "quiet k k'" by (simp add: quiet_def k' list_all2_refl)
  show "same_procs k k'" using r by (simp add: same_procs_def k')
qed

lemma growproc_quiet:
  assumes "sync_inv k" and "growproc E c n k = Inr (r, k')"
  shows "quiet k k'"
proof -
  obtain cur where cur: "myproc c k = Some cur"
    using assms(2) by (auto simp: growproc_def with_cur_def split: option.splits)
  let ?pg = "p_pgdir (ptable k ! cur)"
  obtain sz m where "(if n \<noteq> 0 \<and> sz = 0 then Inr (-1, k\<lparr>mach := m\<rparr>)
     else bindE (acquire c ptable_lock (k\<lparr>mach := m\<rparr>)) (\<lambda>k.
          bindE (release c ptable_lock (k\<lparr>ptable := set_sz ?pg sz (ptable k)\<rparr>)) (\<lambda>k.
          bindE (switchuvm c cur k) (\<lambda>k. Inr (0, k))))) = Inr (r, k')"
    using assms(2) cur by (auto simp: growproc_def with_cur_def Let_def bindE_Inr_iff)
  then have m: "k' = k\<lparr>mach := m\<rparr> \<or>
     (\<exists>k2 k3. acquire c ptable_lock (k\<lparr>mach := m\<rparr>) = Inr k2 \<and>
       release c ptable_lock (k2\<lparr>ptable := set_sz ?pg sz (ptable k2)\<rparr>) = Inr k3 \<and>
       switchuvm c cur k3 = Inr k')"
    by (auto simp: bindE_Inr_iff split: if_splits)
  have s: "sync_inv (k\<lparr>mach := m\<rparr>)" using sync_ext(3) [of "k\<lparr>mach := m\<rparr>" k] assms(1) by simp
  from m show ?thesis
  proof (elim disjE exE conjE)
    assume "k' = k\<lparr>mach := m\<rparr>" then show ?thesis by simp
  next
    fix k2 k3
    assume a: "acquire c ptable_lock (k\<lparr>mach := m\<rparr>) = Inr k2"
      and r: "release c ptable_lock (k2\<lparr>ptable := set_sz (p_pgdir (ptable k ! cur)) sz (ptable k2)\<rparr>) = Inr k3"
      and w: "switchuvm c cur k3 = Inr k'"
    have "quiet (k\<lparr>mach := m\<rparr>) k3"
      by (rule locked_quiet [OF s a quiet_ptable r])
        (auto simp: set_sz_def list_all2_conv_all_nth woken_def)
    moreover from this s have "sync_inv k3" by (simp add: quiet_def)
    moreover have "popcli c (pushcli c k3) = Inr k'" using w by (simp add: switchuvm_def split: if_splits)
    ultimately show ?thesis using popcli_pushcli_quiet(1) quiet_trans quiet_mach(1) by metis
  qed
qed

section \<open>Fork and clone\<close>

text \<open>
  \<open>embryo np k0 k\<close>: since the state \<open>k0\<close> the unused entry \<open>np\<close> has become an embryo with a
  kernel stack and the next pid; other entries have at most been woken up.
\<close>

definition embryo :: "nat \<Rightarrow> 'f kernel \<Rightarrow> 'f kernel \<Rightarrow> bool" where
  "embryo np k0 k \<longleftrightarrow>
     np < length (ptable k0) \<and> p_state (ptable k0 ! np) = UNUSED \<and>
     list_all2 woken (ptable k0) ((ptable k)[np := ptable k0 ! np]) \<and>
     p_state (ptable k ! np) = EMBRYO \<and> p_pid (ptable k ! np) = nextpid k0 \<and>
     p_kstack (ptable k ! np) \<noteq> 0 \<and> p_kont (ptable k ! np) = AtForkret \<and>
     nextpid k = nextpid k0 + 1 \<and> initproc k = initproc k0 \<and> spos k = spos k0 \<and>
     running k = running k0 \<and> held k = held k0 \<and> sync_inv k"

lemma woken_list_trans:
  assumes "list_all2 woken as bs" and "list_all2 woken bs cs"
  shows "list_all2 woken as cs"
  by (rule list_all2_trans [OF _ assms]) (rule woken_trans)

lemma embryo_quiet:
  assumes e: "embryo np k0 k" and q: "quiet k k'"
  shows "embryo np k0 k'"
    and "p_parent (ptable k' ! np) = p_parent (ptable k ! np)" and "p_pgdir (ptable k' ! np) = p_pgdir (ptable k ! np)"
proof -
  have w: "list_all2 woken (ptable k) (ptable k')" using q by (simp add: quiet_def)
  have len: "length (ptable k) = length (ptable k0)"
    using e list_all2_lengthD unfolding embryo_def by fastforce
  have np: "np < length (ptable k)" using e len by (simp add: embryo_def)
  have "list_all2 woken ((ptable k)[np := ptable k0 ! np]) ((ptable k')[np := ptable k0 ! np])"
    by (rule list_all2_update_cong [OF w]) simp
  moreover have "list_all2 woken (ptable k0) ((ptable k)[np := ptable k0 ! np])"
    using e by (simp add: embryo_def)
  ultimately have "list_all2 woken (ptable k0) ((ptable k')[np := ptable k0 ! np])"
    by (rule woken_list_trans [rotated])
  moreover have nw: "woken (ptable k ! np) (ptable k' ! np)" by (rule list_all2_nthD [OF w np])
  ultimately show "embryo np k0 k'" using e q by (auto simp: embryo_def quiet_def woken_def)
  show "p_parent (ptable k' ! np) = p_parent (ptable k ! np)" "p_pgdir (ptable k' ! np) = p_pgdir (ptable k ! np)"
    using nw by (simp_all add: woken_def)
qed

lemma embryo_sync: "embryo np k0 k \<Longrightarrow> sync_inv k"
  by (simp add: embryo_def)

lemma quiet_sync: "quiet k k' \<Longrightarrow> sync_inv k \<Longrightarrow> sync_inv k'"
  by (simp add: quiet_def)

lemma embryo_length: "embryo np k0 k \<Longrightarrow> np < length (ptable k) \<and> length (ptable k) = length (ptable k0)"
  unfolding embryo_def by (metis list_all2_lengthD length_list_update)

lemma embryo_upd:
  assumes e: "embryo np k0 k"
    and f: "\<And>p. p_state (f p) = p_state p \<and> p_pid (f p) = p_pid p \<and> p_kstack (f p) = p_kstack p \<and> p_kont (f p) = p_kont p"
  shows "embryo np k0 (upd_proc np f k)"
proof -
  have "held (upd_proc np f k) = held k" "running (upd_proc np f k) = running k" "sync_inv (upd_proc np f k) = sync_inv k"
    by (intro sync_ext; simp add: upd_proc_def)+
  then show ?thesis
    using e f embryo_length [OF e] by (simp add: embryo_def upd_proc_def)
qed

lemma embryo_others:
  assumes e: "embryo np k0 k" and i: "i < length (ptable k0)" "i \<noteq> np"
  shows "woken (ptable k0 ! i) (ptable k ! i)"
proof -
  have "list_all2 woken (ptable k0) ((ptable k)[np := ptable k0 ! np])" using e by (simp add: embryo_def)
  from list_all2_nthD [OF this i(1)] i(2) show ?thesis by simp
qed

lemma embryo_mach: "embryo np k0 (k\<lparr>mach := m\<rparr>) = embryo np k0 k"
proof -
  have "held (k\<lparr>mach := m\<rparr>) = held k" "running (k\<lparr>mach := m\<rparr>) = running k" "sync_inv (k\<lparr>mach := m\<rparr>) = sync_inv k"
    by (intro sync_ext; simp)+
  then show ?thesis by (simp add: embryo_def)
qed

lemma kernel_inv_ext:
  assumes "kernel_inv k0" and "sync_inv k" and "held k = held k0" and "running k = running k0" and "spos k = spos k0"
    and "ptable_inv (ptable k) (nextpid k) (initproc k) (running k)"
  shows "kernel_inv k"
proof -
  have "cpu_inv k" using assms(1) unfolding kernel_inv_def cpu_inv_def assms(3-5) by blast
  with assms(2,6) show ?thesis by (simp add: kernel_inv_def)
qed

text \<open>The last step makes the embryo runnable.\<close>

lemma embryo_born:
  assumes inv: "kernel_inv k0" and cur: "running k0 c = Some cur" and e: "embryo np k0 k"
    and p: "p_parent (ptable k ! np) = Some cur" "p_pgdir (ptable k ! np) \<noteq> 0"
    and a: "acquire c ptable_lock k = Inr k1" and r: "release c ptable_lock (upd_proc np f k1) = Inr k'"
    and f: "\<And>p. p_state (f p) = RUNNABLE \<and> p_pid (f p) = p_pid p \<and> p_kstack (f p) = p_kstack p \<and>
      p_kont (f p) = p_kont p \<and> p_parent (f p) = p_parent p \<and> p_pgdir (f p) = p_pgdir p"
  shows "kernel_inv k'"
proof -
  have s: "sync_inv k" using e by (simp add: embryo_def)
  note A = acquire_kernel [OF s a]
  have s1: "held (upd_proc np f k1) = held k1" "running (upd_proc np f k1) = running k1" "sync_inv (upd_proc np f k1)"
    using sync_ext [of "upd_proc np f k1" k1] A(2) by (simp_all add: upd_proc_def)
  note R = release_kernel [OF s1(3) r]
  have held: "held k' = held k"
    using R(3) s1(1) A(3) A(4) [of c] by (auto simp: fun_eq_iff)
  have pt: "ptable k' = (ptable k)[np := f (ptable k ! np)]"
    using R(1) A(1) by (simp add: same_procs_def upd_proc_def)
  define ps where "ps = (ptable k)[np := ptable k0 ! np]"
  have pt': "ptable k' = ps[np := f (ptable k ! np)]" by (simp add: pt ps_def)
  have inv0: "ptable_inv (ptable k0) (nextpid k0) (initproc k0) (running k0)" using inv by (simp add: kernel_inv_def)
  have len: "length (ptable k0) = NPROC" by (rule ptable_invD(1) [OF inv0])
  have "ptable_inv ps (nextpid k0) (initproc k0) (running k0)"
    using e by (intro ptable_inv_woken [OF inv0]) (simp add: ps_def embryo_def)
  moreover have "np < NPROC" "p_state (ps ! np) = UNUSED"
    using e len embryo_length [OF e] by (simp_all add: ps_def embryo_def)
  ultimately have "ptable_inv (ptable k') (nextpid k0 + 1) (initproc k0) (running k0)"
    unfolding pt' using cur e f p by (intro ptable_inv_new) (simp_all add: embryo_def)
  moreover have "nextpid k' = nextpid k0 + 1" "initproc k' = initproc k0" "spos k' = spos k0" "running k' = running k0"
    using R(1) A(1) s1(2) e by (simp_all add: same_procs_def upd_proc_def embryo_def)
  ultimately show ?thesis
    using R(2) held e by (intro kernel_inv_ext [OF inv]) (simp_all add: embryo_def)
qed

text \<open>The failures that give the entry back.\<close>

lemma embryo_dies:
  assumes inv: "kernel_inv k0" and e: "embryo np k0 k"
    and p: "p_parent (ptable k ! np) = None"
    and f: "\<And>p. p_state (f p) = UNUSED \<and> p_parent (f p) = p_parent p"
  shows "kernel_inv (upd_proc np f k)"
proof -
  define ps where "ps = (ptable k)[np := ptable k0 ! np]"
  have inv0: "ptable_inv (ptable k0) (nextpid k0) (initproc k0) (running k0)" using inv by (simp add: kernel_inv_def)
  have len: "length (ptable k0) = NPROC" by (rule ptable_invD(1) [OF inv0])
  have "ptable_inv ps (nextpid k0) (initproc k0) (running k0)"
    using e by (intro ptable_inv_woken [OF inv0]) (simp add: ps_def embryo_def)
  then have "ptable_inv (ps[np := f (ptable k ! np)]) (nextpid k0 + 1) (initproc k0) (running k0)"
    by (rule ptable_inv_free) (use e len embryo_length [OF e] f p in \<open>simp_all add: ps_def embryo_def\<close>)
  moreover have "held (upd_proc np f k) = held k" "running (upd_proc np f k) = running k" "sync_inv (upd_proc np f k) = sync_inv k"
    by (intro sync_ext; simp add: upd_proc_def)+
  ultimately show ?thesis
    using e by (intro kernel_inv_ext [OF inv]) (simp_all add: embryo_def upd_proc_def ps_def)
qed

lemma allocproc_spec:
  fixes k k' :: "'f kernel"
  assumes s: "sync_inv k" and a: "allocproc E c k = Inr (r, k')"
  shows "case r of
      Some np \<Rightarrow> embryo np k k' \<and> p_parent (ptable k' ! np) = p_parent (ptable k ! np)
    | None \<Rightarrow> kernel_inv k \<longrightarrow> kernel_inv k'"
proof -
  obtain k1 where k1: "acquire c ptable_lock k = Inr k1"
    using a by (auto simp: allocproc_def bindE_Inr_iff)
  note A = acquire_kernel [OF s k1]
  have pt1: "ptable k1 = ptable k" "nextpid k1 = nextpid k" using A(1) by (simp_all add: same_procs_def)
  show ?thesis
  proof (cases "find_index (\<lambda>p. p_state p = UNUSED) (ptable k1)")
    case None
    then have r: "r = None" and "release c ptable_lock k1 = Inr k'"
      using a k1 by (simp_all add: allocproc_def bindE_Inr_iff del: find_index_None)
    then show ?thesis using locked_quiet [OF s k1 quiet_refl] kernel_inv_quiet [of k k'] by (simp add: r)
  next
    case (Some i)
    then have i: "i < length (ptable k)" "p_state (ptable k ! i) = UNUSED"
      using find_index_SomeD [OF Some] pt1 by simp_all
    define k2 where "k2 = (upd_proc i (\<lambda>p. p\<lparr>p_state := EMBRYO, p_pid := nextpid k1\<rparr>) k1)\<lparr>nextpid := nextpid k1 + 1\<rparr>"
    have s2: "held k2 = held k1" "running k2 = running k1" "sync_inv k2"
      using sync_ext [of k2 k1] A(2) by (simp_all add: k2_def upd_proc_def)
    obtain k3 where k3a: "release c ptable_lock k2 = Inr k3"
      using a k1 Some by (auto simp: allocproc_def bindE_Inr_iff k2_def Let_def)
    obtain ks m where k3b: "kalloc (mach k3) = (ks, m)" by (cases "kalloc (mach k3)")
    note k3 = k3a k3b
    have res: "(let k = (upd_proc i (\<lambda>p. p\<lparr>p_kstack := ks\<rparr>) k3)\<lparr>mach := m\<rparr> in
           if ks = 0 then Inr (None, upd_proc i (\<lambda>p. p\<lparr>p_state := UNUSED\<rparr>) k)
           else let sp = ks + KSTACKSIZE;
                    tf = sp - of_nat sizeof_tf;
                    ra = tf - 4;
                    ctx = ra - of_nat sizeof_context;
                    k = upd_proc i (\<lambda>p. p\<lparr>p_tf := tf, p_context := ctx, p_kont := AtForkret\<rparr>) k
                in Inr (Some i, k\<lparr>mach := init_kstack E tf ra ctx (mach k)\<rparr>)) = (Inr (r, k') :: (nat option \<times> 'f kernel) res)"
      using a k1 Some k3a k3b by (simp add: allocproc_def k2_def Let_def)
    note R = release_kernel [OF s2(3) k3(1)]
    have held3: "held k3 = held k"
      using R(3) s2(1) A(3) A(4) [of c] by (auto simp: fun_eq_iff)
    have k3': "ptable k3 = (ptable k)[i := (ptable k ! i)\<lparr>p_state := EMBRYO, p_pid := nextpid k\<rparr>]"
      "nextpid k3 = nextpid k + 1" "initproc k3 = initproc k" "spos k3 = spos k" "running k3 = running k"
      using R(1) A(1) s2(2) by (simp_all add: same_procs_def k2_def upd_proc_def)
    show ?thesis
    proof (cases "ks = 0")
      case True
      then have r: "r = None" and k': "k' = upd_proc i (\<lambda>p. p\<lparr>p_state := UNUSED\<rparr>)
          ((upd_proc i (\<lambda>p. p\<lparr>p_kstack := ks\<rparr>) k3)\<lparr>mach := m\<rparr>)"
        using res by (simp_all add: Let_def)
      have s': "held k' = held k" "running k' = running k" "sync_inv k'"
        using sync_ext [of k' k3] R(2) held3 k3'(5) by (simp_all add: k' upd_proc_def)
      have "kernel_inv k'" if inv: "kernel_inv k"
      proof (rule kernel_inv_ext [OF inv s'(3,1,2)])
        have inv0: "ptable_inv (ptable k) (nextpid k) (initproc k) (running k)" using inv by (simp add: kernel_inv_def)
        have len: "length (ptable k) = NPROC" by (rule ptable_invD(1) [OF inv0])
        have par: "p_parent (ptable k ! i) = None"
          using tree_okD(2) [OF ptable_invD(3) [OF inv0]] i len by simp
        have "ptable k' = (ptable k)[i := (ptable k ! i)\<lparr>p_pid := nextpid k, p_kstack := ks, p_state := UNUSED\<rparr>]"
          using i by (simp add: k' upd_proc_def k3'(1))
        moreover have "nextpid k' = nextpid k + 1" "initproc k' = initproc k"
          by (simp_all add: k' upd_proc_def k3')
        ultimately show "ptable_inv (ptable k') (nextpid k') (initproc k') (running k')"
          using i len par s'(2) by (simp only:) (rule ptable_inv_free [OF inv0], simp_all)
      qed (simp add: k' upd_proc_def k3'(4))
      then show ?thesis by (simp add: r)
    next
      case False
      define tf where "tf = ks + KSTACKSIZE - of_nat sizeof_tf"
      define g :: "proc \<Rightarrow> proc" where "g = (\<lambda>p. p\<lparr>p_tf := tf, p_context := tf - 4 - of_nat sizeof_context, p_kont := AtForkret\<rparr>)"
      obtain m' where r: "r = Some i"
        and k': "k' = (upd_proc i g ((upd_proc i (\<lambda>p. p\<lparr>p_kstack := ks\<rparr>) k3)\<lparr>mach := m\<rparr>))\<lparr>mach := m'\<rparr>"
        using False res by (auto simp: Let_def tf_def g_def)
      have s': "held k' = held k" "running k' = running k" "sync_inv k'"
        using sync_ext [of k' k3] R(2) held3 k3'(5) by (simp_all add: k' upd_proc_def)
      have pt: "ptable k' = (ptable k)[i := g ((ptable k ! i)\<lparr>p_state := EMBRYO, p_pid := nextpid k, p_kstack := ks\<rparr>)]"
        using i by (simp add: k' upd_proc_def k3')
      have "nextpid k' = nextpid k + 1" "initproc k' = initproc k" "spos k' = spos k"
        by (simp_all add: k' upd_proc_def k3')
      then have "embryo i k k'"
        using False i s' by (simp add: embryo_def pt g_def list_all2_refl list_update_same_conv)
      moreover have "p_parent (ptable k' ! i) = p_parent (ptable k ! i)"
        using i by (simp add: pt g_def)
      ultimately show ?thesis by (simp add: r)
    qed
  qed
qed

context file_layer
begin

lemma dup_files_embryo:
  "embryo np k0 k \<Longrightarrow> dup_files E cur np fds k = Inr k' \<Longrightarrow>
   embryo np k0 k' \<and> p_parent (ptable k' ! np) = p_parent (ptable k ! np) \<and>
   p_pgdir (ptable k' ! np) = p_pgdir (ptable k ! np)"
proof (induction fds arbitrary: k)
  case Nil
  then show ?case by simp
next
  case (Cons fd fds)
  show ?case
  proof (cases "p_ofile (ptable k ! cur) ! fd")
    case None
    with Cons show ?thesis by simp
  next
    case (Some f)
    define g :: "proc \<Rightarrow> proc" where "g = (\<lambda>p. p\<lparr>p_ofile := (p_ofile p)[fd := Some f]\<rparr>)"
    obtain k1 where k1: "fl_filedup E f k = Inr k1" "dup_files E cur np fds (upd_proc np g k1) = Inr k'"
      using Cons.prems(2) Some by (auto simp: bindE_Inr_iff g_def)
    note q = embryo_quiet [OF Cons.prems(1) filedup_quiet [OF embryo_sync [OF Cons.prems(1)] k1(1)]]
    have "embryo np k0 (upd_proc np g k1)" by (rule embryo_upd [OF q(1)]) (simp add: g_def)
    from Cons.IH [OF this k1(2)] q(2,3) embryo_length [OF q(1)] show ?thesis
      by (simp add: upd_proc_def g_def)
  qed
qed

lemma finish_child_inv:
  assumes inv: "kernel_inv k0" and cur: "running k0 c = Some cur" and e: "embryo np k0 k"
    and p: "p_parent (ptable k ! np) = Some cur" "p_pgdir (ptable k ! np) \<noteq> 0"
    and start: "\<And>p. p_state (start p) = p_state p \<and> p_pid (start p) = p_pid p \<and> p_kstack (start p) = p_kstack p \<and>
      p_kont (start p) = p_kont p \<and> p_parent (start p) = p_parent p \<and> p_pgdir (start p) = p_pgdir p"
    and r: "finish_child E c cur np start k = Inr (pid, k')"
  shows "kernel_inv k'" and "pid = nextpid k0"
proof -
  obtain k1 ip k2 where k1: "dup_files E cur np [0..<NOFILE] k = Inr k1" and ip: "p_cwd (ptable k1 ! cur) = Some ip"
    and k2: "fl_idup E ip k1 = Inr k2"
    using r by (auto simp: finish_child_def bindE_Inr_iff split: option.splits)
  define g :: "proc \<Rightarrow> proc" where "g = (\<lambda>p. p\<lparr>p_cwd := Some ip, p_name := take 15 (p_name (ptable k2 ! cur))\<rparr>)"
  define k3 where "k3 = upd_proc np g k2"
  note e1 = dup_files_embryo [OF e k1]
  note q = embryo_quiet [OF conjunct1 [OF e1] idup_quiet [OF embryo_sync [OF conjunct1 [OF e1]] k2]]
  have e3: "embryo np k0 k3" unfolding k3_def by (rule embryo_upd [OF q(1)]) (simp add: g_def)
  have p3: "p_parent (ptable k3 ! np) = Some cur" "p_pgdir (ptable k3 ! np) \<noteq> 0"
    using p e1 q(2,3) embryo_length [OF q(1)] by (simp_all add: k3_def upd_proc_def g_def)
  obtain k4 where k4: "acquire c ptable_lock k3 = Inr k4"
    "release c ptable_lock (upd_proc np (\<lambda>p. start (p\<lparr>p_state := RUNNABLE\<rparr>)) k4) = Inr k'"
    and pid: "pid = p_pid (ptable k3 ! np)"
    using r k1 ip k2 by (auto simp: finish_child_def bindE_Inr_iff k3_def g_def Let_def)
  show "kernel_inv k'"
    by (rule embryo_born [OF inv cur e3 p3 k4]) (simp add: start)
  show "pid = nextpid k0" using pid e3 by (simp add: embryo_def)
qed

lemma fork_inv:
  assumes inv: "kernel_inv k" and cur: "running k c = Some cur" and r: "fork E c k = Inr (pid, k')"
  shows "kernel_inv k'"
proof -
  have my: "myproc c k = Some cur" using cur by (simp add: myproc_def running_def)
  obtain np k1 where a: "allocproc E c k = Inr (np, k1)"
    using r my by (auto simp: fork_def with_cur_def bindE_Inr_iff)
  have s: "sync_inv k" using inv by (simp add: kernel_inv_def)
  note spec = allocproc_spec [OF s a]
  show ?thesis
  proof (cases np)
    case None
    then show ?thesis using spec inv r my a by (simp add: fork_def with_cur_def)
  next
    case (Some i)
    have e: "embryo i k k1" and par: "p_parent (ptable k1 ! i) = p_parent (ptable k ! i)"
      using spec Some by simp_all
    obtain d m where cp: "copyuvm (s_end E) (s_data E) (p_pgdir (ptable k1 ! cur)) (p_sz (ptable k1 ! cur)) (mach k1) = Inr (d, m)"
      using r my a Some by (auto simp: fork_def with_cur_def bindE_Inr_iff)
    define k2 where "k2 = (upd_proc i (\<lambda>p. p\<lparr>p_pgdir := d\<rparr>) k1)\<lparr>mach := m\<rparr>"
    have e2: "embryo i k k2" unfolding k2_def embryo_mach by (rule embryo_upd [OF e]) simp
    have len: "i < length (ptable k1)" using embryo_length [OF e] by simp
    show ?thesis
    proof (cases "d = 0")
      case True
      have ptk: "ptable_inv (ptable k) (nextpid k) (initproc k) (running k)" using inv by (simp add: kernel_inv_def)
      have "i < NPROC" "p_state (ptable k ! i) = UNUSED"
        using e ptable_invD(1) [OF ptk] by (simp_all add: embryo_def)
      then have "p_parent (ptable k2 ! i) = None"
        using tree_okD(2) [OF ptable_invD(3) [OF ptk]] par len by (simp add: k2_def upd_proc_def)
      then have "kernel_inv (upd_proc i (\<lambda>p. p\<lparr>p_kstack := 0, p_state := UNUSED\<rparr>) k2)"
        using embryo_dies [OF inv e2] by simp
      moreover obtain m' where "k' = (upd_proc i (\<lambda>p. p\<lparr>p_kstack := 0, p_state := UNUSED\<rparr>) k2)\<lparr>mach := m'\<rparr>"
        using r my a Some cp True by (auto simp: fork_def with_cur_def bindE_Inr_iff k2_def)
      ultimately show ?thesis using kernel_inv_quiet quiet_mach(1) by blast
    next
      case False
      define k3 where "k3 = upd_proc i (\<lambda>p. p\<lparr>p_sz := p_sz (ptable k2 ! cur), p_parent := Some cur\<rparr>) k2"
      have e3: "embryo i k k3" unfolding k3_def by (rule embryo_upd [OF e2]) simp
      obtain m' where fin: "finish_child E c cur i id (k3\<lparr>mach := m'\<rparr>) = Inr (pid, k')"
        using r my a Some cp False by (auto simp: fork_def with_cur_def bindE_Inr_iff Let_def k2_def k3_def)
      have len2: "i < length (ptable k2)" using len by (simp add: k2_def upd_proc_def)
      have "p_parent (ptable k3 ! i) = Some cur" "p_pgdir (ptable k3 ! i) \<noteq> 0"
        using False len len2 by (simp_all add: k3_def k2_def upd_proc_def)
      then show ?thesis
        using finish_child_inv(1) [OF inv cur _ _ _ _ fin] e3 by (simp add: embryo_mach)
    qed
  qed
qed

lemma clone_inv:
  assumes inv: "kernel_inv k" and cur: "running k c = Some cur" and r: "clone E c fcn a1 a2 stk k = Inr (pid, k')"
  shows "kernel_inv k'"
proof -
  have my: "myproc c k = Some cur" using cur by (simp add: myproc_def running_def)
  have s: "sync_inv k" and ptk: "ptable_inv (ptable k) (nextpid k) (initproc k) (running k)"
    using inv by (simp_all add: kernel_inv_def)
  show ?thesis
  proof (cases "unat stk mod PGSIZE \<noteq> 0 \<or> p_sz (ptable k ! cur) - stk < 4096")
    case True
    then show ?thesis using r my inv by (simp add: clone_def with_cur_def)
  next
    case ok: False
    obtain np k1 where a: "allocproc E c k = Inr (np, k1)"
      using r my ok by (auto simp: clone_def with_cur_def bindE_Inr_iff)
    note spec = allocproc_spec [OF s a]
    show ?thesis
    proof (cases np)
      case None
      then show ?thesis using spec inv r my a ok by (simp add: clone_def with_cur_def)
    next
      case (Some i)
      have e: "embryo i k k1" using spec Some by simp
      define k2 where "k2 = upd_proc i (\<lambda>p. p\<lparr>p_pgdir := p_pgdir (ptable k1 ! cur),
        p_sz := p_sz (ptable k1 ! cur), p_parent := Some cur\<rparr>) k1"
      have e2: "embryo i k k2" unfolding k2_def by (rule embryo_upd [OF e]) simp
      have len: "i < length (ptable k1)" using embryo_length [OF e] by simp
      have curs: "cur < NPROC" "p_state (ptable k ! cur) = RUNNING"
        using run_ok_running [OF ptable_invD(4) [OF ptk] cur] by auto
      have "p_pgdir (ptable k ! cur) \<noteq> 0"
        using pids_okD(5) [OF ptable_invD(2) [OF ptk] curs(1)] curs(2) by (simp add: live_def)
      moreover have "cur \<noteq> i" using e curs by (auto simp: embryo_def)
      ultimately have "p_pgdir (ptable k1 ! cur) \<noteq> 0"
        using embryo_others [OF e, of cur] curs ptable_invD(1) [OF ptk] by (simp add: woken_def)
      then have p2: "p_parent (ptable k2 ! i) = Some cur" "p_pgdir (ptable k2 ! i) \<noteq> 0"
        using len by (simp_all add: k2_def upd_proc_def)
      obtain m' where fin: "finish_child E c cur i (\<lambda>p. p\<lparr>p_stack := stk\<rparr>) (k2\<lparr>mach := m'\<rparr>) = Inr (pid, k')"
        using r my a Some ok by (auto simp: clone_def with_cur_def bindE_Inr_iff Let_def k2_def)
      then show ?thesis
        using finish_child_inv(1) [OF inv cur _ _ _ _ fin] e2 p2 by (simp add: embryo_mach)
    qed
  qed
qed

end

section \<open>Inside the table's critical section\<close>

definition cpu_at :: "'f kernel \<Rightarrow> nat \<Rightarrow> bool" where
  "cpu_at k c \<longleftrightarrow> (case running k c of
       Some i \<Rightarrow> ptable_lock \<notin> held k c
     | None \<Rightarrow> held k c = (case spos k c of None \<Rightarrow> {} | Some _ \<Rightarrow> {ptable_lock}))"

lemma cpu_inv_at: "cpu_inv k \<longleftrightarrow> (\<forall>c. cpu_at k c)"
  by (simp add: cpu_inv_def cpu_at_def)

lemma cpu_at_cong:
  "running k' d = running k d \<Longrightarrow> held k' d = held k d \<Longrightarrow> spos k' d = spos k d \<Longrightarrow> cpu_at k' d = cpu_at k d"
  by (simp only: cpu_at_def)

text \<open>Processor \<open>c\<close> runs \<open>cur\<close> and holds the table's lock and no other.\<close>

definition in_section :: "nat \<Rightarrow> nat \<Rightarrow> 'f kernel \<Rightarrow> bool" where
  "in_section c cur k \<longleftrightarrow> sync_inv k \<and> running k c = Some cur \<and> held k c = {ptable_lock} \<and>
     (\<forall>d. d \<noteq> c \<longrightarrow> cpu_at k d) \<and> ptable_inv (ptable k) (nextpid k) (initproc k) (running k)"

lemma in_sectionD:
  assumes "in_section c cur k"
  shows "sync_inv k" "running k c = Some cur" "held k c = {ptable_lock}" "d \<noteq> c \<Longrightarrow> cpu_at k d"
    "ptable_inv (ptable k) (nextpid k) (initproc k) (running k)" "myproc c k = Some cur"
    "cur < NPROC" "p_state (ptable k ! cur) = RUNNING" "length (ptable k) = NPROC"
proof -
  show a: "sync_inv k" "running k c = Some cur" "held k c = {ptable_lock}" "d \<noteq> c \<Longrightarrow> cpu_at k d"
    "ptable_inv (ptable k) (nextpid k) (initproc k) (running k)"
    using assms by (simp_all add: in_section_def)
  show "myproc c k = Some cur" using a(2) by (simp add: myproc_def running_def)
  show "cur < NPROC" "p_state (ptable k ! cur) = RUNNING"
    using run_ok_running [OF ptable_invD(4) [OF a(5)] a(2)] by auto
  show "length (ptable k) = NPROC" by (rule ptable_invD(1) [OF a(5)])
qed

lemma section_begin:
  assumes inv: "kernel_inv k" and cur: "running k c = Some cur" and h: "held k c = {}"
    and a: "acquire c ptable_lock k = Inr k1"
  shows "in_section c cur k1" and "same_procs k k1"
proof -
  have s: "sync_inv k" and ci: "cpu_inv k" using inv by (simp_all add: kernel_inv_def)
  note A = acquire_kernel [OF s a]
  show sp: "same_procs k k1" by (rule A(1))
  have "cpu_at k1 d" if "d \<noteq> c" for d
    using cpu_at_cong [of k1 d k] sp A(3) ci that by (simp add: same_procs_def cpu_inv_at)
  then show "in_section c cur k1"
    using A(2,3) sp inv cur h by (simp add: in_section_def same_procs_def kernel_inv_def)
qed

lemma section_end:
  assumes i: "in_section c cur k" and r: "release c ptable_lock k = Inr k'"
  shows "kernel_inv k'" and "same_procs k k'" and "held k' c = {}"
proof -
  note I = in_sectionD [OF i]
  note R = release_kernel [OF I(1) r]
  show sp: "same_procs k k'" by (rule R(1))
  show h: "held k' c = {}" using R(3) I(3) by simp
  have "cpu_at k' d" for d
  proof (cases "d = c")
    case True
    then show ?thesis using sp I(2) h by (simp add: cpu_at_def same_procs_def)
  next
    case False
    then show ?thesis using cpu_at_cong [of k' d k] sp R(3) I(4) [of d] by (simp add: same_procs_def)
  qed
  then show "kernel_inv k'"
    using R(2) sp I(5) by (simp add: kernel_inv_def cpu_inv_at same_procs_def)
qed

lemma section_end_ok: "in_section c cur k \<Longrightarrow> \<exists>k'. release c ptable_lock k = Inr k'"
  using in_sectionD(1,3) release_succeeds by fast

lemma section_upd:
  assumes i: "in_section c cur k"
    and "cpus k' = cpus k" "locks k' = locks k" "spos k' = spos k"
    and "ptable_inv (ptable k') (nextpid k') (initproc k') (running k)"
  shows "in_section c cur k'"
proof -
  note I = in_sectionD [OF i] and e = sync_ext [OF assms(2,3)]
  have "cpu_at k' d" if "d \<noteq> c" for d
    using cpu_at_cong [of k' d k] e assms(4) I(4) [OF that] by simp
  then show ?thesis using I e assms(5) by (simp add: in_section_def)
qed

text \<open>\<open>sched\<close> never panics inside the section, once the state is no longer \<open>RUNNING\<close>.\<close>

lemma sched_runs:
  assumes s: "sync_inv k" and cur: "running k c = Some cur" and h: "held k c = {ptable_lock}"
    and st: "p_state (ptable k ! cur) \<noteq> RUNNING"
  shows "\<exists>k' b. sched c kt k = Inr k' \<and>
    ptable k' = (ptable k)[cur := (ptable k ! cur)\<lparr>p_kont := kt b\<rparr>] \<and>
    nextpid k' = nextpid k \<and> initproc k' = initproc k \<and> spos k' = (spos k)(c := Some (cur + 1)) \<and>
    running k' = (running k)(c := None) \<and> held k' = held k \<and> sync_inv k'"
proof -
  have my: "myproc c k = Some cur" using cur by (simp add: myproc_def running_def)
  have n: "ncli (cpus k c) = 1" "\<not> iflag (cpus k c)"
    using s h unfolding sync_inv_iff by (metis card_1_singleton_iff One_nat_def of_nat_1, metis insert_not_empty)
  have l: "locked (locks k ptable_lock) \<and> lcpu (locks k ptable_lock) = Some c"
    using h by (auto simp: held_def)
  have hold: "holding c ptable_lock k = Inr (True, k)"
    using holding_eq [OF sync_invD(1) [OF s], of c ptable_lock] n(1) l by simp
  define k' where "k' = (upd_cpu c (\<lambda>p. p\<lparr>cproc := None\<rparr>)
    (upd_proc cur (\<lambda>p. p\<lparr>p_kont := kt (intena (cpus k c))\<rparr>) k))\<lparr>spos := (spos k)(c := Some (cur + 1))\<rparr>"
  have "sched c kt k = Inr k'"
    using my hold n st by (simp add: sched_def with_cur_def k'_def Let_def upd_proc_def)
  moreover have "locks k' = locks k" by (simp add: k'_def upd_cpu_def upd_proc_def)
  then have "held k' = held k" by (simp add: held_def [abs_def])
  moreover have "running k' = (running k)(c := None)"
    by (rule ext) (simp add: running_def k'_def upd_cpu_def upd_proc_def)
  moreover have "sync_inv k'"
    by (rule sync_inv_upd [OF s])
      (use s sync_inv_iff [of k] in \<open>auto simp: k'_def upd_cpu_def upd_proc_def\<close>)
  ultimately show ?thesis
    by (intro exI [of _ k'] exI [of _ "intena (cpus k c)"]) (simp add: k'_def upd_proc_def upd_cpu_def)
qed

text \<open>Leaving the processor from inside the section.\<close>

lemma section_leave:
  assumes i: "in_section c cur k" and st: "p_state q \<noteq> RUNNING"
    and len: "ptable k1 = ps" and k1: "cpus k1 = cpus k" "locks k1 = locks k" "spos k1 = spos k"
      "nextpid k1 = nextpid k" "initproc k1 = initproc k"
    and ps: "cur < length ps" "ps ! cur = q"
    and inv: "\<And>b. ptable_inv (ps[cur := q\<lparr>p_kont := kt b\<rparr>]) (nextpid k) (initproc k) ((running k)(c := None))"
  shows "\<exists>k'. sched c kt k1 = Inr k' \<and> kernel_inv k'"
proof -
  note I = in_sectionD [OF i] and e = sync_ext [OF k1(1,2)]
  obtain k' b where k': "sched c kt k1 = Inr k'"
    "ptable k' = ps[cur := q\<lparr>p_kont := kt b\<rparr>]" "nextpid k' = nextpid k" "initproc k' = initproc k"
    "spos k' = (spos k)(c := Some (cur + 1))" "running k' = (running k)(c := None)" "held k' = held k" "sync_inv k'"
    using sched_runs [of k1 c cur kt] I(1-3) e st ps k1 len by auto
  have "cpu_at k' d" for d
  proof (cases "d = c")
    case True
    then show ?thesis using k' I(3) by (simp add: cpu_at_def)
  next
    case False
    then show ?thesis using cpu_at_cong [of k' d k] k' I(4) [of d] by simp
  qed
  then have "kernel_inv k'"
    using k' inv [of b] by (simp add: kernel_inv_def cpu_inv_at)
  with k'(1) show ?thesis by blast
qed

section \<open>Yield and sleep\<close>

lemma section_moves:
  assumes i: "in_section c cur k"
    and q: "active (p_state q)" "p_state q \<noteq> RUNNING" "p_pid q = p_pid (ptable k ! cur)"
      "p_parent q = p_parent (ptable k ! cur)" "p_kstack q = p_kstack (ptable k ! cur)"
      "p_pgdir q = p_pgdir (ptable k ! cur)"
    and sl: "p_state q = SLEEPING \<Longrightarrow> waits_rightly ((ptable k)[cur := q]) cur"
      "p_state q = RUNNABLE \<Longrightarrow> lock_after (p_kont q)"
  shows "ptable_inv ((ptable k)[cur := q]) (nextpid k) (initproc k) ((running k)(c := None))"
proof -
  note I = in_sectionD [OF i]
  show ?thesis
    using I q sl
    by (intro ptable_inv_move [OF I(5)] run_ok_stop [OF ptable_invD(4) [OF I(5)]])
      (simp_all add: active_def)
qed

lemma section_yield:
  assumes i: "in_section c cur k"
  shows "\<exists>k'. sched c AtYield (upd_proc cur (\<lambda>p. p\<lparr>p_state := RUNNABLE\<rparr>) k) = Inr k' \<and> kernel_inv k'"
proof (rule section_leave [OF i])
  note I = in_sectionD [OF i]
  let ?q = "(ptable k ! cur)\<lparr>p_state := RUNNABLE\<rparr>"
  show "ptable (upd_proc cur (\<lambda>p. p\<lparr>p_state := RUNNABLE\<rparr>) k) = (ptable k)[cur := ?q]"
    by (simp add: upd_proc_def)
  show "p_state ?q \<noteq> RUNNING" by simp
  show "(ptable k)[cur := ?q] ! cur = ?q" "cur < length ((ptable k)[cur := ?q])"
    using I(7,9) by simp_all
  show "ptable_inv ((ptable k)[cur := ?q, cur := ?q\<lparr>p_kont := AtYield b\<rparr>]) (nextpid k) (initproc k) ((running k)(c := None))" for b
    unfolding list_update_overwrite by (rule section_moves [OF i]) (simp_all add: active_def lock_after_def)
qed (simp_all add: upd_proc_def)

lemma section_sleep:
  assumes i: "in_section c cur k"
    and w: "\<And>b. waits_rightly ((ptable k)[cur := (ptable k ! cur)\<lparr>p_chan := ch, p_state := SLEEPING, p_kont := kt b\<rparr>]) cur"
  shows "\<exists>k'. sched c kt (upd_proc cur (\<lambda>p. p\<lparr>p_chan := ch, p_state := SLEEPING\<rparr>) k) = Inr k' \<and> kernel_inv k'"
proof (rule section_leave [OF i])
  note I = in_sectionD [OF i]
  let ?q = "(ptable k ! cur)\<lparr>p_chan := ch, p_state := SLEEPING\<rparr>"
  show "ptable (upd_proc cur (\<lambda>p. p\<lparr>p_chan := ch, p_state := SLEEPING\<rparr>) k) = (ptable k)[cur := ?q]"
    by (simp add: upd_proc_def)
  show "p_state ?q \<noteq> RUNNING" by simp
  show "(ptable k)[cur := ?q] ! cur = ?q" "cur < length ((ptable k)[cur := ?q])"
    using I(7,9) by simp_all
  show "ptable_inv ((ptable k)[cur := ?q, cur := ?q\<lparr>p_kont := kt b\<rparr>]) (nextpid k) (initproc k) ((running k)(c := None))" for b
    unfolding list_update_overwrite by (rule section_moves [OF i]) (use w in \<open>simp_all add: active_def\<close>)
qed (simp_all add: upd_proc_def)

text \<open>An \<open>acquire\<close> of the table's lock by a processor that does not hold it can only spin.\<close>

lemma acquire_spins:
  fixes k :: "'f kernel"
  assumes "sync_inv k" and "l \<notin> held k c" and "acquire c l k = Inl e"
  shows "e = Spins"
  using assms acquire_eq [OF sync_invD(1) [OF assms(1)], of c l]
  by (auto simp: held_def split: if_splits)

lemma yield_inv:
  assumes inv: "kernel_inv k" and cur: "running k c = Some cur" and h: "held k c = {}"
  shows "(\<exists>k'. yield_proc c k = Inr k' \<and> kernel_inv k') \<or> yield_proc c k = Inl Spins"
proof (cases "acquire c ptable_lock k")
  case (Inl e)
  then show ?thesis
    using acquire_spins [of k ptable_lock c e] inv h by (simp add: yield_proc_def kernel_inv_def)
next
  case (Inr k1)
  note i = section_begin(1) [OF inv cur h Inr]
  then show ?thesis
    using section_yield [OF i] Inr in_sectionD(6) [OF i] by (simp add: yield_proc_def with_cur_def)
qed

lemma waits_other: "lk \<noteq> ptable_lock \<Longrightarrow> cur < length ps \<Longrightarrow> p_kont q = AtSleep b lk InOther \<Longrightarrow> waits_rightly (ps[cur := q]) cur"
  by (simp add: waits_rightly_def)

lemma sleep_inv:
  assumes inv: "kernel_inv k" and cur: "running k c = Some cur" and h: "held k c = {lk}" and lk: "lk \<noteq> ptable_lock"
  shows "(\<exists>k'. sleep c ch lk InOther k = Inr k' \<and> kernel_inv k') \<or> sleep c ch lk InOther k = Inl Spins"
proof -
  have my: "myproc c k = Some cur" using cur by (simp add: myproc_def running_def)
  have s: "sync_inv k" and ci: "cpu_inv k" using inv by (simp_all add: kernel_inv_def)
  show ?thesis
  proof (cases "acquire c ptable_lock k")
    case (Inl e)
    then show ?thesis
      using acquire_spins [OF s _ Inl] h lk my by (auto simp: sleep_def)
  next
    case (Inr k1)
    note A = acquire_kernel [OF s Inr]
    have "lk \<in> held k1 c" using A(3) h by simp
    then obtain k2 where k2: "release c lk k1 = Inr k2" using release_succeeds [OF A(2)] by blast
    note R = release_kernel [OF A(2) k2]
    have sp: "ptable k2 = ptable k" "nextpid k2 = nextpid k" "initproc k2 = initproc k" "spos k2 = spos k" "running k2 = running k"
      using A(1) R(1) by (simp_all add: same_procs_def)
    have h2: "held k2 = (held k)(c := {ptable_lock})" using R(3) A(3) h lk by (auto simp: fun_eq_iff)
    have "cpu_at k2 d" if "d \<noteq> c" for d
      using cpu_at_cong [of k2 d k] sp h2 ci that by (simp add: cpu_inv_at)
    then have i: "in_section c cur k2"
      using R(2) sp h2 inv cur by (simp add: in_section_def kernel_inv_def)
    have "\<exists>k'. sched c (\<lambda>b. AtSleep b lk InOther) (upd_proc cur (\<lambda>p. p\<lparr>p_chan := ch, p_state := SLEEPING\<rparr>) k2) = Inr k' \<and> kernel_inv k'"
      by (rule section_sleep [OF i], rule waits_other [OF lk]) (use in_sectionD(7,9) [OF i] in simp_all)
    then show ?thesis using my Inr k2 lk by (simp add: sleep_def)
  qed
qed

section \<open>Exit, wait and join\<close>

context file_layer
begin

lemma close_files_quiet: "sync_inv k \<Longrightarrow> close_files E cur fds k = Inr k' \<Longrightarrow> quiet k k'"
proof (induction fds arbitrary: k)
  case Nil
  then show ?case by simp
next
  case (Cons fd fds)
  show ?case
  proof (cases "p_ofile (ptable k ! cur) ! fd")
    case None
    with Cons show ?thesis by simp
  next
    case (Some f)
    define g :: "proc \<Rightarrow> proc" where "g = (\<lambda>p. p\<lparr>p_ofile := (p_ofile p)[fd := None]\<rparr>)"
    obtain k1 where k1: "fl_fileclose E f k = Inr k1" "close_files E cur fds (upd_proc cur g k1) = Inr k'"
      using Cons.prems(2) Some by (auto simp: bindE_Inr_iff g_def)
    have "quiet k1 (upd_proc cur g k1)"
      unfolding upd_proc_def by (intro quiet_ptable upd_woken) (simp add: g_def woken_def)
    from quiet_trans [OF fileclose_quiet [OF Cons.prems(1) k1(1)] this]
    have q: "quiet k (upd_proc cur g k1)" .
    from quiet_trans [OF q Cons.IH [OF quiet_sync [OF q Cons.prems(1)] k1(2)]] show ?thesis .
  qed
qed

lemma exit_inv:
  assumes inv: "kernel_inv k" and cur: "running k c = Some cur" and h: "held k c = {}"
    and r: "exit_proc E c k = Inr k'"
  shows "kernel_inv k'"
proof -
  have my: "myproc c k = Some cur" using cur by (simp add: myproc_def running_def)
  have ini: "initproc k \<noteq> Some cur" using r my by (auto simp: exit_proc_def with_cur_def split: if_splits)
  obtain k1 k2 ip k3 k4 where k1: "close_files E cur [0..<NOFILE] k = Inr k1" and k2: "fl_begin_op E k1 = Inr k2"
    and k3: "fl_iput E ip k2 = Inr k3" and k4: "fl_end_op E k3 = Inr k4" and ip: "p_cwd (ptable k2 ! cur) = Some ip"
    using r my ini by (auto simp: exit_proc_def with_cur_def bindE_Inr_iff split: option.splits)
  define k5 where "k5 = upd_proc cur (\<lambda>p. p\<lparr>p_cwd := None\<rparr>) k4"
  have "quiet k4 k5"
    unfolding k5_def upd_proc_def by (intro quiet_ptable upd_woken) (simp add: woken_def)
  moreover have s0: "sync_inv k" using inv by (simp add: kernel_inv_def)
  note q1 = close_files_quiet [OF s0 k1]
  note q2 = quiet_trans [OF q1 begin_op_quiet [OF quiet_sync [OF q1 s0] k2]]
  note q3 = quiet_trans [OF q2 iput_quiet [OF quiet_sync [OF q2 s0] k3]]
  have "quiet k k4" by (rule quiet_trans [OF q3 end_op_quiet [OF quiet_sync [OF q3 s0] k4]])
  ultimately have q: "quiet k k5" by (metis quiet_trans)
  have inv5: "kernel_inv k5" by (rule kernel_inv_quiet [OF inv q])
  have cur5: "running k5 c = Some cur" "held k5 c = {}" "initproc k5 \<noteq> Some cur"
    using q cur h ini by (simp_all add: quiet_def)
  obtain k6 where k6: "acquire c ptable_lock k5 = Inr k6"
    using r my ini k1 k2 k3 k4 ip by (auto simp: exit_proc_def with_cur_def bindE_Inr_iff k5_def Let_def)
  note i = section_begin [OF inv5 cur5(1,2) k6]
  note I = in_sectionD [OF i(1)]
  define ps where "ps = abandon_children (initproc k6) cur [0..<NPROC]
    (wakeup1 (chan_of (p_parent (ptable k6 ! cur))) (ptable k6))"
  define q where "q = (ps ! cur)\<lparr>p_state := ZOMBIE\<rparr>"
  have ini6: "initproc k6 \<noteq> Some cur" using i(2) cur5(3) by (simp add: same_procs_def)
  have len: "length ps = NPROC"
    using exit_table_spec(1) [OF I(9,7,8), of "initproc k6" "AtExit b"]
    by (simp add: exit_table_def ps_def Let_def)
  have "\<exists>k'. sched c AtExit (upd_proc cur (\<lambda>p. p\<lparr>p_state := ZOMBIE\<rparr>) (k6\<lparr>ptable := ps\<rparr>)) = Inr k' \<and> kernel_inv k'"
  proof (rule section_leave [OF i(1)])
    show "ptable (upd_proc cur (\<lambda>p. p\<lparr>p_state := ZOMBIE\<rparr>) (k6\<lparr>ptable := ps\<rparr>)) = ps[cur := q]"
      by (simp add: upd_proc_def q_def)
    show "p_state q \<noteq> RUNNING" by (simp add: q_def)
    show "ps[cur := q] ! cur = q" "cur < length (ps[cur := q])" using I(7) len by simp_all
    show "ptable_inv (ps[cur := q, cur := q\<lparr>p_kont := AtExit b\<rparr>]) (nextpid k6) (initproc k6) ((running k6)(c := None))" for b
      using ptable_inv_exit [OF I(5,2) ini6, of "AtExit b"]
      by (simp add: exit_table_def Let_def ps_def q_def)
  qed (simp_all add: upd_proc_def)
  moreover have "sched c AtExit (upd_proc cur (\<lambda>p. p\<lparr>p_state := ZOMBIE\<rparr>) (k6\<lparr>ptable := ps\<rparr>)) = Inr k'"
    using r my ini k1 k2 k3 k4 ip k6
    by (auto simp: exit_proc_def with_cur_def bindE_Inr_iff k5_def Let_def ps_def)
  ultimately show ?thesis by simp
qed

end

lemma section_mach: "in_section c cur k \<Longrightarrow> in_section c cur (k\<lparr>mach := m\<rparr>)"
  by (rule section_upd) (auto dest: in_sectionD(5))

lemma section_reap:
  assumes i: "in_section c cur k" and z: "j < NPROC" "p_state (ptable k ! j) = ZOMBIE"
  shows "in_section c cur (upd_proc j clear_proc k)"
proof (rule section_upd [OF i])
  show "ptable_inv (ptable (upd_proc j clear_proc k)) (nextpid (upd_proc j clear_proc k))
      (initproc (upd_proc j clear_proc k)) (running k)"
    unfolding upd_proc_def
    using z by (simp, intro ptable_inv_free [OF in_sectionD(5) [OF i]]) (simp_all add: clear_proc_def)
qed (simp_all add: upd_proc_def)

text \<open>What a reaping call can fail with: the release of a page that is not one.\<close>

definition reap_faults :: "fault set" where
  "reap_faults = {Panic ''kfree'', Panic ''freevm: no pgdir'', Panic ''trap''}"

lemma kfree_fault: "kfree kend v m = Inl e \<Longrightarrow> e = Panic ''kfree''"
  by (auto simp: kfree_def Let_def split: if_splits)

lemma deallocuvm_loop_fault: "deallocuvm_loop kend pgdir a oldsz m = Inl e \<Longrightarrow> e = Panic ''kfree''"
proof (induction kend pgdir a oldsz m rule: deallocuvm_loop.induct)
  case (1 kend pgdir a oldsz s)
  from 1(4) show ?case
    by (subst (asm) deallocuvm_loop.simps)
      (auto simp: Let_def bindE_Inl_iff dest: kfree_fault 1(1-3) split: if_splits)
qed

lemma freevm_loop_fault: "freevm_loop kend pgdir is m = Inl e \<Longrightarrow> e = Panic ''kfree''"
  by (induction kend pgdir "is" m rule: freevm_loop.induct)
    (auto simp: Let_def bindE_Inl_iff dest: kfree_fault split: if_splits)

lemma freevm_fault: "freevm kend pgdir m = Inl e \<Longrightarrow> e \<in> reap_faults"
  by (auto simp: freevm_def deallocuvm_def bindE_Inl_iff reap_faults_def split: if_splits
      dest: deallocuvm_loop_fault freevm_loop_fault kfree_fault)

lemma find_none_reaped:
  "find_index (\<lambda>p. Q p \<and> p_state p = ZOMBIE) ps = None \<Longrightarrow> reaped Q ps"
  by (auto simp: reaped_def)

lemma reaped_upd:
  assumes "reaped (wait_child cur ps) ps" and "p_state q \<noteq> ZOMBIE" and "p_pgdir q = p_pgdir (ps ! cur)"
  shows "reaped (wait_child cur (ps[cur := q])) (ps[cur := q])"
proof (cases "cur < length ps")
  case True
  then show ?thesis
    using assms set_update_subset_insert [of ps cur q] by (auto simp: reaped_def wait_child_def)
next
  case False
  then show ?thesis using assms by (simp add: list_update_beyond)
qed

lemma reaped_join_upd:
  assumes "reaped (join_child cur ps) ps" and "p_state q \<noteq> ZOMBIE" and "p_pgdir q = p_pgdir (ps ! cur)"
  shows "reaped (join_child cur (ps[cur := q])) (ps[cur := q])"
proof (cases "cur < length ps")
  case True
  then show ?thesis
    using assms set_update_subset_insert [of ps cur q] by (auto simp: reaped_def join_child_def)
next
  case False
  then show ?thesis using assms by (simp add: list_update_beyond)
qed

lemma wait_round_inv:
  assumes i: "in_section c cur k"
  shows "case wait_round E c k of Inr (r, k') \<Rightarrow> kernel_inv k' | Inl e \<Rightarrow> e \<in> reap_faults"
proof -
  note I = in_sectionD [OF i]
  show ?thesis
  proof (cases "find_index (\<lambda>p. wait_child cur (ptable k) p \<and> p_state p = ZOMBIE) (ptable k)")
    case (Some j)
    then have j: "j < NPROC" "p_state (ptable k ! j) = ZOMBIE"
      using find_index_SomeD [OF Some] I(9) by simp_all
    have fin: "\<exists>k'. release c ptable_lock ((upd_proc j clear_proc k)\<lparr>mach := m\<rparr>) = Inr k' \<and> kernel_inv k'" for m
      using section_end_ok [OF section_mach [OF section_reap [OF i j]]]
        section_end(1) [OF section_mach [OF section_reap [OF i j]]] by blast
    show ?thesis
    proof (cases "wait_round E c k")
      case (Inl e)
      then show ?thesis
        using Some I(6) fin kfree_fault freevm_fault
        by (auto simp: wait_round_def with_cur_def bindE_Inl_iff reap_faults_def)
          (metis sum.distinct(1))+
    next
      case (Inr x)
      then show ?thesis
        using Some I(6) fin
        by (auto simp: wait_round_def with_cur_def bindE_Inr_iff split: prod.splits) (metis sum.inject(2))
    qed
  next
    case None
    obtain k1 where k1: "release c ptable_lock k = Inr k1" "kernel_inv k1"
      using section_end_ok [OF i] section_end(1) [OF i] by blast
    have "\<exists>k'. sched c (\<lambda>b. AtSleep b ptable_lock InWait)
        (upd_proc cur (\<lambda>p. p\<lparr>p_chan := ProcChan cur, p_state := SLEEPING\<rparr>) k) = Inr k' \<and> kernel_inv k'"
      by (rule section_sleep [OF i])
        (use I(7,9) reaped_upd [OF find_none_reaped [OF None]] in \<open>simp add: waits_rightly_def\<close>)
    then show ?thesis
      using None I(6) k1 by (auto simp: wait_round_def with_cur_def sleep_def simp del: find_index_None)
  qed
qed

lemma user_store32_fault: "user_store32 pgdir va v m = Inl e \<Longrightarrow> e = Panic ''trap''"
  by (auto simp: user_store32_def Let_def split: if_splits)

lemma join_round_inv:
  assumes i: "in_section c cur k"
  shows "case join_round E c u k of Inr (r, k') \<Rightarrow> kernel_inv k' | Inl e \<Rightarrow> e \<in> reap_faults"
proof -
  note I = in_sectionD [OF i]
  show ?thesis
  proof (cases "find_index (\<lambda>p. join_child cur (ptable k) p \<and> p_state p = ZOMBIE) (ptable k)")
    case (Some j)
    then have j: "j < NPROC" "p_state (ptable k ! j) = ZOMBIE"
      using find_index_SomeD [OF Some] I(9) by simp_all
    have fin: "\<exists>k'. release c ptable_lock ((upd_proc j clear_proc k)\<lparr>mach := m\<rparr>) = Inr k' \<and> kernel_inv k'" for m
      using section_end_ok [OF section_mach [OF section_reap [OF i j]]]
        section_end(1) [OF section_mach [OF section_reap [OF i j]]] by blast
    show ?thesis
    proof (cases "join_round E c u k")
      case (Inl e)
      then show ?thesis
        using Some I(6) fin kfree_fault user_store32_fault
        by (auto simp: join_round_def with_cur_def bindE_Inl_iff reap_faults_def)
          (metis sum.distinct(1))+
    next
      case (Inr x)
      then show ?thesis
        using Some I(6) fin
        by (auto simp: join_round_def with_cur_def bindE_Inr_iff split: prod.splits) (metis sum.inject(2))
    qed
  next
    case None
    obtain k1 where k1: "release c ptable_lock k = Inr k1" "kernel_inv k1"
      using section_end_ok [OF i] section_end(1) [OF i] by blast
    have "\<exists>k'. sched c (\<lambda>b. AtSleep b ptable_lock (InJoin u))
        (upd_proc cur (\<lambda>p. p\<lparr>p_chan := ProcChan cur, p_state := SLEEPING\<rparr>) k) = Inr k' \<and> kernel_inv k'"
      by (rule section_sleep [OF i])
        (use I(7,9) reaped_join_upd [OF find_none_reaped [OF None]] in \<open>simp add: waits_rightly_def\<close>)
    then show ?thesis
      using None I(6) k1 by (auto simp: join_round_def with_cur_def sleep_def simp del: find_index_None)
  qed
qed

lemma wait_inv:
  assumes inv: "kernel_inv k" and cur: "running k c = Some cur" and h: "held k c = {}"
  shows "case wait E c k of Inr (r, k') \<Rightarrow> kernel_inv k' | Inl e \<Rightarrow> e = Spins \<or> e \<in> reap_faults"
proof (cases "acquire c ptable_lock k")
  case (Inl e)
  then show ?thesis
    using acquire_spins [of k ptable_lock c e] inv h by (simp add: wait_def kernel_inv_def)
next
  case (Inr k1)
  then show ?thesis
    using wait_round_inv [OF section_begin(1) [OF inv cur h Inr], of E]
    by (auto simp: wait_def split: sum.splits)
qed

lemma join_inv:
  assumes inv: "kernel_inv k" and cur: "running k c = Some cur" and h: "held k c = {}"
  shows "case join E c u k of Inr (r, k') \<Rightarrow> kernel_inv k' | Inl e \<Rightarrow> e = Spins \<or> e \<in> reap_faults"
proof (cases "acquire c ptable_lock k")
  case (Inl e)
  then show ?thesis
    using acquire_spins [of k ptable_lock c e] inv h by (simp add: join_def kernel_inv_def)
next
  case (Inr k1)
  then show ?thesis
    using join_round_inv [OF section_begin(1) [OF inv cur h Inr], of E u]
    by (auto simp: join_def split: sum.splits)
qed

section \<open>The scheduler\<close>

lemma section_intena:
  assumes i: "in_section c cur k"
  shows "in_section c cur (upd_cpu c (\<lambda>p. p\<lparr>intena := b\<rparr>) k)"
proof -
  note I = in_sectionD [OF i]
  let ?k = "upd_cpu c (\<lambda>p. p\<lparr>intena := b\<rparr>) k"
  have h: "held ?k = held k" by (simp add: held_def [abs_def])
  have r: "running ?k = running k" by (rule ext) (simp add: running_def)
  have "sync_inv ?k"
    by (rule sync_inv_upd [OF I(1)]) (use I(1) sync_inv_iff [of k] in auto)
  moreover have "cpu_at ?k d" if "d \<noteq> c" for d
    using cpu_at_cong [of ?k d k] h r I(4) [OF that] by simp
  ultimately show ?thesis using I h r by (simp add: in_section_def)
qed

lemma section_wake:
  assumes i: "in_section c cur k"
  shows "in_section c cur (upd_proc cur (\<lambda>p. p\<lparr>p_chan := NoChan\<rparr>) k)"
proof (rule section_upd [OF i])
  note I = in_sectionD [OF i]
  let ?q = "(ptable k ! cur)\<lparr>p_chan := NoChan\<rparr>"
  have "run_ok ((ptable k)[cur := ?q]) (running k)"
    unfolding run_ok_def
  proof (intro conjI allI impI)
    fix j assume j: "j < NPROC"
    have "p_state ((ptable k)[cur := ?q] ! j) = p_state (ptable k ! j)"
      using I(7,9) by (cases "j = cur") simp_all
    then show "(p_state ((ptable k)[cur := ?q] ! j) = RUNNING) = (\<exists>c. running k c = Some j)"
      using run_okD(1) [OF ptable_invD(4) [OF I(5)] j] by simp
  qed (use run_okD(2,3) [OF ptable_invD(4) [OF I(5)]] in blast)+
  then have "ptable_inv ((ptable k)[cur := ?q]) (nextpid k) (initproc k) (running k)"
    using I(7,8) by (intro ptable_inv_move [OF I(5)]) (simp_all add: active_def)
  then show "ptable_inv (ptable (upd_proc cur (\<lambda>p. p\<lparr>p_chan := NoChan\<rparr>) k))
      (nextpid (upd_proc cur (\<lambda>p. p\<lparr>p_chan := NoChan\<rparr>) k))
      (initproc (upd_proc cur (\<lambda>p. p\<lparr>p_chan := NoChan\<rparr>) k)) (running k)"
    by (simp add: upd_proc_def)
qed (simp_all add: upd_proc_def)

lemma set_eax_inv: "kernel_inv (snd r) \<Longrightarrow> kernel_inv (set_eax cur r)"
  by (auto simp: set_eax_def split: outcome.splits prod.splits intro: kernel_inv_quiet)

lemma acquire_other_inv:
  assumes inv: "kernel_inv k" and l: "l \<noteq> ptable_lock" and cur: "running k c = Some cur" and a: "acquire c l k = Inr k'"
  shows "kernel_inv k'"
proof -
  have s: "sync_inv k" and ci: "cpu_inv k" using inv by (simp_all add: kernel_inv_def)
  note A = acquire_kernel [OF s a]
  have "cpu_at k' d" for d
  proof (cases "d = c")
    case True
    have "cpu_at k c" using ci by (simp add: cpu_inv_at)
    with True show ?thesis using A(1,3) cur l by (simp add: cpu_at_def same_procs_def)
  next
    case False
    then show ?thesis using cpu_at_cong [of k' d k] A(1,3) ci by (simp add: same_procs_def cpu_inv_at)
  qed
  then show ?thesis using A(1,2) inv by (simp add: kernel_inv_def cpu_inv_at same_procs_def)
qed

lemma release_other_inv:
  assumes inv: "kernel_inv k" and l: "l \<noteq> ptable_lock" and cur: "running k c = Some cur" and r: "release c l k = Inr k'"
  shows "kernel_inv k'"
proof -
  have s: "sync_inv k" and ci: "cpu_inv k" using inv by (simp_all add: kernel_inv_def)
  note R = release_kernel [OF s r]
  have "cpu_at k' d" for d
  proof (cases "d = c")
    case True
    have "cpu_at k c" using ci by (simp add: cpu_inv_at)
    with True show ?thesis using R(1,3) cur l by (simp add: cpu_at_def same_procs_def)
  next
    case False
    then show ?thesis using cpu_at_cong [of k' d k] R(1,3) ci by (simp add: same_procs_def cpu_inv_at)
  qed
  then show ?thesis using R(1,2) inv by (simp add: kernel_inv_def cpu_inv_at same_procs_def)
qed

lemma cpu_inv_scan:
  assumes ci: "cpu_inv k" and c: "running k c = None" and r: "running k' = running k"
    and h: "held k' = (held k)(c := (case sp of None \<Rightarrow> {} | Some _ \<Rightarrow> {ptable_lock}))"
    and s: "spos k' = (spos k)(c := sp)"
  shows "cpu_inv k'"
  unfolding cpu_inv_at
proof
  fix d
  show "cpu_at k' d"
  proof (cases "d = c")
    case True
    have "held k' c = (case spos k' c of None \<Rightarrow> {} | Some _ \<Rightarrow> {ptable_lock})" by (simp add: h s)
    then show ?thesis unfolding cpu_at_def r True c by simp
  next
    case False
    then show ?thesis using cpu_at_cong [of k' d k] r h s ci by (simp add: cpu_inv_at)
  qed
qed

context file_layer
begin

lemma resume_inv:
  assumes i: "in_section c cur k" and l: "lock_after (p_kont (ptable k ! cur))"
  shows "case resume E c cur k of Inr k' \<Rightarrow> kernel_inv k' | Inl e \<Rightarrow> e = Spins \<or> e \<in> reap_faults \<or> first k"
proof (cases "p_kont (ptable k ! cur)")
  case AtForkret
  obtain k1 where k1: "release c ptable_lock k = Inr k1" "kernel_inv k1" "same_procs k k1"
    using section_end_ok [OF i] section_end [OF i] by blast
  have "kernel_inv (k1\<lparr>first := False\<rparr>)" by (rule kernel_inv_quiet [OF k1(2)]) simp
  then have "kernel_inv k'" if "fl_start E (k1\<lparr>first := False\<rparr>) = Inr k'" for k'
    using kernel_inv_quiet start_quiet [OF _ that] \<open>kernel_inv (k1\<lparr>first := False\<rparr>)\<close> by (metis kernel_inv_def)
  with AtForkret k1 show ?thesis
    by (auto simp: resume_def forkret_def same_procs_def split: sum.splits)
next
  case (AtYield b)
  then show ?thesis
    using section_end_ok [OF section_intena [OF i, of b]] section_end(1) [OF section_intena [OF i, of b]]
    by (auto simp: resume_def split: sum.splits)
next
  case (AtExit b)
  with l show ?thesis by (simp add: lock_after_def)
next
  case (AtSleep b lk w)
  define k1 where "k1 = upd_proc cur (\<lambda>p. p\<lparr>p_chan := NoChan\<rparr>) (upd_cpu c (\<lambda>p. p\<lparr>intena := b\<rparr>) k)"
  have i1: "in_section c cur k1" unfolding k1_def by (rule section_wake [OF section_intena [OF i]])
  show ?thesis
  proof (cases w)
    case InWait
    then have lk: "lk = ptable_lock" using l AtSleep by (simp add: lock_after_def)
    have "resume E c cur k = bindE (wait_round E c k1) (\<lambda>r. Inr (set_eax cur r))"
      using AtSleep InWait lk by (simp add: resume_def k1_def Let_def)
    then show ?thesis
      using wait_round_inv [OF i1, of E] set_eax_inv by (auto split: sum.splits)
  next
    case (InJoin u)
    then have lk: "lk = ptable_lock" using l AtSleep by (simp add: lock_after_def)
    have "resume E c cur k = bindE (join_round E c u k1) (\<lambda>r. Inr (set_eax cur r))"
      using AtSleep InJoin lk by (simp add: resume_def k1_def Let_def)
    then show ?thesis
      using join_round_inv [OF i1, of E u] set_eax_inv by (auto split: sum.splits)
  next
    case InOther
    then have lk: "lk \<noteq> ptable_lock" using l AtSleep by (simp add: lock_after_def)
    obtain k2 where k2: "release c ptable_lock k1 = Inr k2" "kernel_inv k2" "same_procs k1 k2" "held k2 c = {}"
      using section_end_ok [OF i1] section_end [OF i1] by blast
    have cur2: "running k2 c = Some cur" using k2(3) in_sectionD(2) [OF i1] by (simp add: same_procs_def)
    have res: "resume E c cur k = acquire c lk k2"
      using AtSleep InOther lk k2(1) by (simp add: resume_def k1_def Let_def)
    show ?thesis
    proof (cases "acquire c lk k2")
      case (Inl e)
      have "e = Spins"
        by (rule acquire_spins [OF _ _ Inl]) (use k2 in \<open>simp_all add: kernel_inv_def\<close>)
      then show ?thesis using res Inl by simp
    next
      case (Inr k3)
      then show ?thesis using res acquire_other_inv [OF k2(2) lk cur2 Inr] by simp
    qed
  qed
qed

lemma dispatch_section:
  assumes inv: "kernel_inv k" and c: "running k c = None" and sp: "spos k c = Some i"
    and i: "i < NPROC" "p_state (ptable k ! i) = RUNNABLE"
  shows "\<exists>k'. switchuvm c i (upd_cpu c (\<lambda>p. p\<lparr>cproc := Some i\<rparr>) k) = Inr k' \<and>
    in_section c i (upd_proc i (\<lambda>p. p\<lparr>p_state := RUNNING\<rparr>) k') \<and> ptable k' = ptable k \<and> first k' = first k"
proof -
  have s: "sync_inv k" and ci: "cpu_inv k" and pi: "ptable_inv (ptable k) (nextpid k) (initproc k) (running k)"
    using inv by (simp_all add: kernel_inv_def)
  have len: "length (ptable k) = NPROC" by (rule ptable_invD(1) [OF pi])
  have h: "held k c = {ptable_lock}" using ci c sp unfolding cpu_inv_at cpu_at_def by (metis option.simps(4,5))
  define k1 where "k1 = upd_cpu c (\<lambda>p. p\<lparr>cproc := Some i\<rparr>) k"
  have s1: "sync_inv k1"
    by (rule sync_inv_upd [OF s]) (use s sync_inv_iff [of k] in \<open>auto simp: k1_def\<close>)
  have h1: "held k1 = held k" by (simp add: held_def [abs_def] k1_def)
  have r1: "running k1 = (running k)(c := Some i)" by (rule ext) (simp add: running_def k1_def)
  have live: "live (p_state (ptable k ! i))" using i(2) by (simp add: live_def)
  have "switchuvm c i k1 = popcli c (pushcli c k1)"
    using pids_okD(4,5) [OF ptable_invD(2) [OF pi] i(1) live] by (simp add: switchuvm_def k1_def)
  then obtain k2 where k2: "switchuvm c i k1 = Inr k2" "popcli c (pushcli c k1) = Inr k2"
    using push_pop [OF sync_invD(1) [OF s1]] by simp
  note Q = popcli_pushcli_quiet [OF s1 k2(2)]
  have e2: "held k2 = held k" "running k2 = (running k)(c := Some i)" "sync_inv k2" "spos k2 = spos k"
    "ptable k2 = ptable k" "nextpid k2 = nextpid k" "initproc k2 = initproc k" "first k2 = first k"
    using Q s1 h1 r1 by (simp_all add: quiet_def same_procs_def k1_def)
  define k3 where "k3 = upd_proc i (\<lambda>p. p\<lparr>p_state := RUNNING\<rparr>) k2"
  have e3: "held k3 = held k" "running k3 = (running k)(c := Some i)" "sync_inv k3"
    using sync_ext [of k3 k2] e2 by (simp_all add: k3_def upd_proc_def)
  have "cpu_at k3 d" if "d \<noteq> c" for d
    using cpu_at_cong [of k3 d k] e2(4) e3 ci that by (simp add: k3_def upd_proc_def cpu_inv_at)
  moreover have "ptable_inv ((ptable k)[i := (ptable k ! i)\<lparr>p_state := RUNNING\<rparr>]) (nextpid k) (initproc k) ((running k)(c := Some i))"
    using i c len by (intro ptable_inv_move [OF pi] run_ok_start [OF ptable_invD(4) [OF pi]]) (simp_all add: active_def)
  ultimately have "in_section c i k3"
    using e2 e3 h by (simp add: in_section_def k3_def upd_proc_def)
  then show ?thesis using k2(1) e2(5,8) by (auto simp: k1_def k3_def)
qed

lemma scheduler_step_inv:
  assumes inv: "kernel_inv k" and c: "running k c = None"
  shows "case scheduler_step E c k of Inr k' \<Rightarrow> kernel_inv k' | Inl e \<Rightarrow> e = Spins \<or> e \<in> reap_faults \<or> first k"
proof -
  have s: "sync_inv k" and ci: "cpu_inv k" and pi: "ptable_inv (ptable k) (nextpid k) (initproc k) (running k)"
    using inv by (simp_all add: kernel_inv_def)
  have at: "cpu_at k d" for d using ci by (simp add: cpu_inv_at)
  show ?thesis
  proof (cases "spos k c")
    case None
    then have h: "held k c = {}" using at [of c] c by (simp add: cpu_at_def)
    define k1 where "k1 = upd_cpu c (\<lambda>p. p\<lparr>iflag := True\<rparr>) k"
    have s1: "sync_inv k1"
      by (rule sync_inv_upd [OF s]) (use s h sync_inv_iff [of k] in \<open>auto simp: k1_def\<close>)
    have e1: "held k1 = held k" "running k1 = running k" "spos k1 = spos k" "ptable k1 = ptable k"
      "nextpid k1 = nextpid k" "initproc k1 = initproc k"
      by (simp_all add: held_def [abs_def] running_def [abs_def] k1_def fun_eq_iff)
    show ?thesis
    proof (cases "acquire c ptable_lock k1")
      case (Inl e)
      then have "e = Spins" using acquire_spins [OF s1 _ Inl] e1 h by simp
      then show ?thesis using None Inl by (simp add: scheduler_step_def k1_def)
    next
      case (Inr k2)
      note A = acquire_kernel [OF s1 Inr]
      define k3 where "k3 = k2\<lparr>spos := (spos k2)(c := Some 0)\<rparr>"
      have e3: "held k3 = (held k)(c := {ptable_lock})" "running k3 = running k" "sync_inv k3"
        using sync_ext [of k3 k2] A(1-3) e1 h by (simp_all add: k3_def same_procs_def)
      have "cpu_inv k3"
        by (rule cpu_inv_scan [OF ci c, where sp = "Some 0"])
          (use e3(1,2) A(1) e1 in \<open>simp_all add: k3_def same_procs_def\<close>)
      then have "kernel_inv k3"
        using e3 pi A(1) e1 by (simp add: kernel_inv_def k3_def same_procs_def)
      then show ?thesis using None Inr by (simp add: scheduler_step_def k1_def k3_def)
    qed
  next
    case (Some i)
    then have h: "held k c = {ptable_lock}" using at [of c] c by (simp add: cpu_at_def)
    consider (last) "i \<ge> NPROC" | (skip) "i < NPROC" "p_state (ptable k ! i) \<noteq> RUNNABLE"
      | (run) "i < NPROC" "p_state (ptable k ! i) = RUNNABLE" by force
    then show ?thesis
    proof cases
      case last
      obtain k1 where k1: "release c ptable_lock k = Inr k1" using release_succeeds [OF s] h by blast
      note R = release_kernel [OF s k1]
      define k2 where "k2 = k1\<lparr>spos := (spos k1)(c := None)\<rparr>"
      have e2: "held k2 = (held k)(c := {})" "running k2 = running k" "sync_inv k2"
        using sync_ext [of k2 k1] R h by (simp_all add: k2_def same_procs_def)
      have "cpu_inv k2"
        by (rule cpu_inv_scan [OF ci c, where sp = None])
          (use e2(1,2) R(1) in \<open>simp_all add: k2_def same_procs_def\<close>)
      then have "kernel_inv k2"
        using e2 pi R(1) by (simp add: kernel_inv_def k2_def same_procs_def)
      then show ?thesis using Some last k1 by (simp add: scheduler_step_def k2_def)
    next
      case skip
      define k2 where "k2 = k\<lparr>spos := (spos k)(c := Some (i + 1))\<rparr>"
      have e2: "held k2 = held k" "running k2 = running k" "sync_inv k2"
        using sync_ext [of k2 k] s by (simp_all add: k2_def)
      have "cpu_inv k2"
        by (rule cpu_inv_scan [OF ci c, where sp = "Some (i + 1)"])
          (use e2(1,2) h in \<open>simp_all add: k2_def fun_upd_idem\<close>)
      then have "kernel_inv k2"
        using e2 pi by (simp add: kernel_inv_def k2_def)
      then show ?thesis using Some skip by (simp add: scheduler_step_def k2_def)
    next
      case run
      obtain k' where k': "switchuvm c i (upd_cpu c (\<lambda>p. p\<lparr>cproc := Some i\<rparr>) k) = Inr k'"
        "in_section c i (upd_proc i (\<lambda>p. p\<lparr>p_state := RUNNING\<rparr>) k')" "ptable k' = ptable k" "first k' = first k"
        using dispatch_section [OF inv c Some run] by blast
      have len: "length (ptable k) = NPROC" by (rule ptable_invD(1) [OF pi])
      have "lock_after (p_kont (ptable k ! i))"
        using sleep_okD(2) [OF ptable_invD(5) [OF pi] run] .
      then have l: "lock_after (p_kont (ptable (upd_proc i (\<lambda>p. p\<lparr>p_state := RUNNING\<rparr>) k') ! i))"
        using k'(3) len run(1) by (simp add: upd_proc_def)
      have "scheduler_step E c k = resume E c i (upd_proc i (\<lambda>p. p\<lparr>p_state := RUNNING\<rparr>) k')"
        using Some run k'(1) by (simp add: scheduler_step_def)
      moreover have "first (upd_proc i (\<lambda>p. p\<lparr>p_state := RUNNING\<rparr>) k') = first k"
        using k'(4) by (simp add: upd_proc_def)
      ultimately show ?thesis using resume_inv [OF k'(2) l] by (simp only:)
    qed
  qed
qed

end

section \<open>All processors together\<close>

text \<open>
  One step of one processor: a call of the process layer by the process it runs, entered with
  no lock held (or the one given to \<open>sleep\<close>), the acquisition or release of another lock, a
  turn of the scheduler, or any other kernel code that at most wakes processes up.
\<close>

inductive kstep :: "'f kenv \<Rightarrow> 'f kernel \<Rightarrow> 'f kernel \<Rightarrow> bool" for E where
  k_fork: "running k c = Some p \<Longrightarrow> held k c = {} \<Longrightarrow> fork E c k = Inr (r, k') \<Longrightarrow> kstep E k k'"
| k_clone: "running k c = Some p \<Longrightarrow> held k c = {} \<Longrightarrow> clone E c fcn a1 a2 stk k = Inr (r, k') \<Longrightarrow> kstep E k k'"
| k_exit: "running k c = Some p \<Longrightarrow> held k c = {} \<Longrightarrow> exit_proc E c k = Inr k' \<Longrightarrow> kstep E k k'"
| k_wait: "running k c = Some p \<Longrightarrow> held k c = {} \<Longrightarrow> wait E c k = Inr (out, k') \<Longrightarrow> kstep E k k'"
| k_join: "running k c = Some p \<Longrightarrow> held k c = {} \<Longrightarrow> join E c u k = Inr (out, k') \<Longrightarrow> kstep E k k'"
| k_grow: "running k c = Some p \<Longrightarrow> held k c = {} \<Longrightarrow> growproc E c n k = Inr (r, k') \<Longrightarrow> kstep E k k'"
| k_kill: "kill c pid k = Inr (r, k') \<Longrightarrow> kstep E k k'"
| k_yield: "running k c = Some p \<Longrightarrow> held k c = {} \<Longrightarrow> yield_proc c k = Inr k' \<Longrightarrow> kstep E k k'"
| k_sleep: "running k c = Some p \<Longrightarrow> held k c = {lk} \<Longrightarrow> lk \<noteq> ptable_lock \<Longrightarrow>
    sleep c ch lk InOther k = Inr k' \<Longrightarrow> kstep E k k'"
| k_wakeup: "wakeup c ch k = Inr (x, k') \<Longrightarrow> kstep E k k'"
| k_acquire: "running k c = Some p \<Longrightarrow> lk \<noteq> ptable_lock \<Longrightarrow> acquire c lk k = Inr k' \<Longrightarrow> kstep E k k'"
| k_release: "running k c = Some p \<Longrightarrow> lk \<noteq> ptable_lock \<Longrightarrow> release c lk k = Inr k' \<Longrightarrow> kstep E k k'"
| k_schedule: "running k c = None \<Longrightarrow> scheduler_step E c k = Inr k' \<Longrightarrow> kstep E k k'"
| k_other: "quiet k k' \<Longrightarrow> kstep E k k'"

inductive kreach :: "'f kenv \<Rightarrow> 'f kernel \<Rightarrow> 'f kernel \<Rightarrow> bool" for E where
  kreach_refl: "kreach E k k"
| kreach_step: "kreach E k k' \<Longrightarrow> kstep E k' k'' \<Longrightarrow> kreach E k k''"

context file_layer
begin

lemma kstep_inv: "kstep E k k' \<Longrightarrow> kernel_inv k \<Longrightarrow> kernel_inv k'"
proof (induction rule: kstep.induct)
  case (k_wait k c p out k')
  then show ?case using wait_inv [of k c p E] by simp
next
  case (k_join k c p u out k')
  then show ?case using join_inv [of k c p E u] by simp
next
  case (k_yield k c p k')
  then show ?case using yield_inv [of k c p] by auto
next
  case (k_sleep k c p lk ch k')
  then show ?case using sleep_inv [of k c p lk ch] by auto
next
  case (k_schedule k c k')
  then show ?case using scheduler_step_inv [of k c] by simp
next
  case (k_grow k c p n r k')
  then show ?case using growproc_quiet kernel_inv_quiet by (metis kernel_inv_def)
next
  case (k_kill c pid k r k')
  then show ?case using kill_quiet kernel_inv_quiet by (metis kernel_inv_def)
next
  case (k_wakeup c ch k x k')
  then show ?case using wakeup_quiet kernel_inv_quiet by (metis kernel_inv_def)
qed (blast intro: fork_inv clone_inv exit_inv acquire_other_inv release_other_inv kernel_inv_quiet)+

lemma kreach_inv: "kreach E k k' \<Longrightarrow> kernel_inv k \<Longrightarrow> kernel_inv k'"
  by (induction rule: kreach.induct) (auto intro: kstep_inv)

end

end
