(* ===== verification/File.thy ===== *)
theory File
  imports Fs_Spec Pipe Proc_Steps
begin

text \<open>
  Open files, \<open>file.c\<close> and \<open>pipealloc\<close>, over inodes and pipes, and the file layer as the process code uses it. The state extends that of
  the file system by the file table, the pipes by their address, the machine (pipes live in pages of \<open>kalloc\<close>) and the
  wake-ups that are still to be done; \<open>on_files\<close> runs an operation inside the kernel state and then does the wake-ups. A call
  that has to wait in a pipe ends with \<open>PSleep\<close>.
\<close>

section \<open>State\<close>

datatype fdtype = FD_NONE | FD_PIPE | FD_INODE

record kfile =
  f_type :: fdtype
  f_ref :: int
  f_readable :: bool
  f_writable :: bool
  f_pipe :: u32
  f_ip :: nat
  f_off :: u32

definition NFILE :: nat where "NFILE = 100"

record filest = fsst +
  ftab :: "kfile list"
  pipes :: "u32 \<Rightarrow> pipe option"
  fmach :: machine
  fwakes :: "channel list"

text \<open>The addresses of \<open>p->nread\<close> and \<open>p->nwrite\<close>, behind the lock (52 bytes) and the data, and that of \<open>log\<close>.\<close>

definition nread_chan :: "u32 \<Rightarrow> channel" where "nread_chan p = AddrChan (p + 564)"
definition nwrite_chan :: "u32 \<Rightarrow> channel" where "nwrite_chan p = AddrChan (p + 568)"

fun wake_chan :: "u32 \<Rightarrow> wake \<Rightarrow> channel" where
  "wake_chan p WakeR = nread_chan p"
| "wake_chan p WakeW = nwrite_chan p"

definition upd_file :: "nat \<Rightarrow> (kfile \<Rightarrow> kfile) \<Rightarrow> filest \<Rightarrow> filest" where
  "upd_file f g s = s\<lparr>ftab := (ftab s)[f := g (ftab s ! f)]\<rparr>"

section \<open>Operations\<close>

definition filealloc :: "filest \<Rightarrow> nat option \<times> filest" where
  "filealloc s =
     (case find_index (\<lambda>f. f_ref f = 0) (ftab s) of
        Some f \<Rightarrow> (Some f, upd_file f (\<lambda>f. f\<lparr>f_ref := 1\<rparr>) s)
      | None \<Rightarrow> (None, s))"

definition filedup :: "nat \<Rightarrow> filest \<Rightarrow> filest res" where
  "filedup f s =
     (if f_ref (ftab s ! f) < 1 then Inl (Panic ''filedup'')
      else Inr (upd_file f (\<lambda>f. f\<lparr>f_ref := f_ref f + 1\<rparr>) s))"

text \<open>\<open>begin_op\<close>, \<open>end_op\<close> with the wake-ups on the log, whose address is \<open>lg\<close>.\<close>

definition log_end :: "u32 \<Rightarrow> filest \<Rightarrow> filest res" where
  "log_end lg s =
     bindE (end_op s) (\<lambda>s'. Inr (s'\<lparr>fwakes := fwakes s' @ replicate (l_woken s' - l_woken s) (AddrChan lg)\<rparr>))"

definition file_pipeclose :: "u32 \<Rightarrow> u32 \<Rightarrow> bool \<Rightarrow> filest \<Rightarrow> filest res" where
  "file_pipeclose kend p writable s =
     (case pipes s p of
        None \<Rightarrow> Inl NullDeref
      | Some q \<Rightarrow>
          let (q, ws, free) = pipeclose writable q; s = s\<lparr>fwakes := fwakes s @ map (wake_chan p) ws\<rparr> in
          if free then bindE (kfree kend p (fmach s)) (\<lambda>m. Inr (s\<lparr>pipes := (pipes s)(p := None), fmach := m\<rparr>))
          else Inr (s\<lparr>pipes := (pipes s)(p \<mapsto> q)\<rparr>))"

definition fileclose :: "u32 \<Rightarrow> u32 \<Rightarrow> nat \<Rightarrow> filest \<Rightarrow> filest res" where
  "fileclose kend lg f s =
     (let ff = ftab s ! f in
      if f_ref ff < 1 then Inl (Panic ''fileclose'')
      else if f_ref ff - 1 > 0 then Inr (upd_file f (\<lambda>f. f\<lparr>f_ref := f_ref f - 1\<rparr>) s)
      else
        let s = upd_file f (\<lambda>f. f\<lparr>f_ref := 0, f_type := FD_NONE\<rparr>) s in
        case f_type ff of
          FD_PIPE \<Rightarrow> file_pipeclose kend (f_pipe ff) (f_writable ff) s
        | FD_INODE \<Rightarrow> bindE (begin_op s) (\<lambda>s. bindE (iput (f_ip ff) s) (log_end lg))
        | FD_NONE \<Rightarrow> Inr s)"

text \<open>The page of the new pipe holds \<open>dat\<close> where its data goes.\<close>

definition pipealloc :: "u32 \<Rightarrow> u32 \<Rightarrow> byte list \<Rightarrow> filest \<Rightarrow> ((nat \<times> nat) option \<times> filest) res" where
  "pipealloc kend lg dat s =
     (let (f0, s) = filealloc s in
      case f0 of
        None \<Rightarrow> Inr (None, s)
      | Some f0 \<Rightarrow>
          let (f1, s) = filealloc s in
          (case f1 of
             None \<Rightarrow> bindE (fileclose kend lg f0 s) (\<lambda>s. Inr (None, s))
           | Some f1 \<Rightarrow>
               let (p, m) = kalloc (fmach s); s = s\<lparr>fmach := m\<rparr> in
               if p = 0
               then bindE (fileclose kend lg f0 s) (\<lambda>s. bindE (fileclose kend lg f1 s) (\<lambda>s. Inr (None, s)))
               else
                 let s = s\<lparr>pipes := (pipes s)(p \<mapsto> pipe_init dat)\<rparr>;
                     s = upd_file f0 (\<lambda>f. f\<lparr>f_type := FD_PIPE, f_readable := True, f_writable := False, f_pipe := p\<rparr>) s;
                     s = upd_file f1 (\<lambda>f. f\<lparr>f_type := FD_PIPE, f_readable := False, f_writable := True, f_pipe := p\<rparr>) s in
                 Inr (Some (f0, f1), s)))"

definition filestat :: "nat \<Rightarrow> filest \<Rightarrow> (stat option \<times> filest) res" where
  "filestat f s =
     (if f_type (ftab s ! f) = FD_INODE
      then bindE (ilock (Some (f_ip (ftab s ! f))) s) (\<lambda>s.
        let st = stati (f_ip (ftab s ! f)) s in
        bindE (iunlock (Some (f_ip (ftab s ! f))) s) (\<lambda>s. Inr (Some st, s)))
      else Inr (None, s))"

text \<open>\<open>killed\<close> is that of the calling process.\<close>

definition fileread :: "filest devsw \<Rightarrow> bool \<Rightarrow> nat \<Rightarrow> int \<Rightarrow> filest \<Rightarrow> (pend \<times> byte list \<times> filest) res" where
  "fileread dv killed f n s =
     (let ff = ftab s ! f in
      if \<not> f_readable ff then Inr (PRet (- 1), [], s)
      else case f_type ff of
        FD_PIPE \<Rightarrow>
          (case pipes s (f_pipe ff) of
             None \<Rightarrow> Inl NullDeref
           | Some q \<Rightarrow>
               let (r, bs, ws, q) = piperead killed n q in
               Inr (r, bs, s\<lparr>pipes := (pipes s)(f_pipe ff \<mapsto> q), fwakes := fwakes s @ map (wake_chan (f_pipe ff)) ws\<rparr>))
      | FD_INODE \<Rightarrow>
          bindE (ilock (Some (f_ip ff)) s) (\<lambda>s.
          bindE (readi dv (f_ip ff) (f_off (ftab s ! f)) (of_int n) s) (\<lambda>(r, bs, s).
          let s = (if r > 0 then upd_file f (\<lambda>f. f\<lparr>f_off := f_off f + of_int r\<rparr>) s else s) in
          bindE (iunlock (Some (f_ip ff)) s) (\<lambda>s.
          Inr (PRet r, bs, s))))
      | FD_NONE \<Rightarrow> Inl (Panic ''fileread''))"

definition FILEMAX :: nat where "FILEMAX = ((MAXOPBLOCKS - 1 - 1 - 2) div 2) * 512"

text \<open>The loop of \<open>filewrite\<close> on an inode; the result says whether all bytes were written.\<close>

function filewrite_loop :: "filest devsw \<Rightarrow> u32 \<Rightarrow> nat \<Rightarrow> byte list \<Rightarrow> filest \<Rightarrow> (bool \<times> filest) res" where
  "filewrite_loop dv lg f src s =
     (if src = [] then Inr (True, s)
      else
        let n1 = min (length src) FILEMAX; ip = f_ip (ftab s ! f) in
        bindE (begin_op s) (\<lambda>s.
        bindE (ilock (Some ip) s) (\<lambda>s.
        bindE (writei dv ip (take n1 src) (f_off (ftab s ! f)) (of_nat n1) s) (\<lambda>(r, s).
        let s = (if r > 0 then upd_file f (\<lambda>f. f\<lparr>f_off := f_off f + of_int r\<rparr>) s else s) in
        bindE (iunlock (Some ip) s) (\<lambda>s.
        bindE (log_end lg s) (\<lambda>s.
        if r < 0 then Inr (False, s)
        else if r \<noteq> int n1 then Inl (Panic ''short filewrite'')
        else filewrite_loop dv lg f (drop n1 src) s))))))"
  by pat_completeness auto
termination
  by (relation "measure (\<lambda>(dv, lg, f, src, s). length src)") (auto simp: FILEMAX_def MAXOPBLOCKS_def)

declare filewrite_loop.simps [simp del]

definition filewrite :: "filest devsw \<Rightarrow> u32 \<Rightarrow> bool \<Rightarrow> nat \<Rightarrow> byte list \<Rightarrow> int \<Rightarrow> filest \<Rightarrow> (pend \<times> filest) res" where
  "filewrite dv lg killed f src n s =
     (let ff = ftab s ! f in
      if \<not> f_writable ff then Inr (PRet (- 1), s)
      else case f_type ff of
        FD_PIPE \<Rightarrow>
          (case pipes s (f_pipe ff) of
             None \<Rightarrow> Inl NullDeref
           | Some q \<Rightarrow>
               let (r, ws, q) = pipewrite killed n (take (nat n) src) q in
               Inr (r, s\<lparr>pipes := (pipes s)(f_pipe ff \<mapsto> q), fwakes := fwakes s @ map (wake_chan (f_pipe ff)) ws\<rparr>))
      | FD_INODE \<Rightarrow>
          bindE (filewrite_loop dv lg f (take (nat n) src) s) (\<lambda>(all, s). Inr (PRet (if all \<and> n \<ge> 0 then n else - 1), s))
      | FD_NONE \<Rightarrow> Inl (Panic ''filewrite''))"

section \<open>The file layer in the kernel\<close>

fun wake_all :: "nat \<Rightarrow> channel list \<Rightarrow> 'f kernel \<Rightarrow> 'f kernel res" where
  "wake_all c [] k = Inr k"
| "wake_all c (ch # chs) k = bindE (wakeup c ch k) (\<lambda>(_, k). wake_all c chs k)"

definition on_files :: "nat \<Rightarrow> (filest \<Rightarrow> ('r \<times> filest) res) \<Rightarrow> filest kernel \<Rightarrow> ('r \<times> filest kernel) res" where
  "on_files c f k =
     bindE (f ((files k)\<lparr>fmach := mach k, fwakes := []\<rparr>)) (\<lambda>(r, s).
     bindE (wake_all c (fwakes s) (k\<lparr>mach := fmach s, files := s\<rparr>)) (\<lambda>k. Inr (r, k)))"

definition on_files0 :: "nat \<Rightarrow> (filest \<Rightarrow> filest res) \<Rightarrow> filest kernel \<Rightarrow> filest kernel res" where
  "on_files0 c f k = bindE (on_files c (\<lambda>s. bindE (f s) (\<lambda>s. Inr ((), s))) k) (\<lambda>(_, k). Inr k)"

text \<open>The environment of the process code on processor \<open>c\<close>; \<open>dt\<close>, \<open>tr\<close>, \<open>fr\<close> are linker symbols and \<open>ic\<close> is \<open>initcode\<close>.\<close>

definition kernel_env :: "filest devsw \<Rightarrow> u32 \<Rightarrow> u32 \<Rightarrow> u32 \<Rightarrow> u32 \<Rightarrow> u32 \<Rightarrow> byte list \<Rightarrow> nat \<Rightarrow> filest kenv" where
  "kernel_env dv lg kend dt tr fr ic c =
     \<lparr>s_end = kend, s_data = dt, s_trapret = tr, s_forkret = fr, initcode = ic,
      fl_filedup = (\<lambda>f. on_files0 c (filedup f)),
      fl_fileclose = (\<lambda>f. on_files0 c (fileclose kend lg f)),
      fl_idup = (\<lambda>ip. on_files0 c (\<lambda>s. Inr (snd (idup ip s)))),
      fl_iput = (\<lambda>ip. on_files0 c (iput ip)),
      fl_begin_op = on_files0 c begin_op,
      fl_end_op = on_files0 c (log_end lg),
      fl_namei_root = on_files c (namei dv 0 [slash]),
      fl_start = on_files0 c (\<lambda>s. bindE (iinit ROOTDEV s) (initlog ROOTDEV))\<rparr>"

lemma wake_all_quiet: "sync_inv k \<Longrightarrow> wake_all c chs k = Inr k' \<Longrightarrow> quiet k k'"
proof (induction chs arbitrary: k)
  case Nil
  then show ?case by simp
next
  case (Cons ch chs)
  then obtain x k1 where k1: "wakeup c ch k = Inr (x, k1)" "wake_all c chs k1 = Inr k'"
    by (auto simp: bindE_Inr_iff)
  note q = wakeup_quiet [OF Cons.prems(1) k1(1)]
  from quiet_trans [OF q Cons.IH [OF quiet_sync [OF q Cons.prems(1)] k1(2)]] show ?case .
qed

lemma on_files_quiet:
  assumes "sync_inv k" and "on_files c f k = Inr (r, k')"
  shows "quiet k k'"
proof -
  obtain s where s: "wake_all c (fwakes s) (k\<lparr>mach := fmach s, files := s\<rparr>) = Inr k'"
    using assms(2) by (auto simp: on_files_def bindE_Inr_iff)
  have q: "quiet k (k\<lparr>mach := fmach s, files := s\<rparr>)"
    by (rule quiet_trans [OF quiet_mach(1) quiet_mach(2)])
  from quiet_trans [OF q wake_all_quiet [OF quiet_sync [OF q assms(1)] s]] show ?thesis .
qed

lemma on_files0_quiet: "sync_inv k \<Longrightarrow> on_files0 c f k = Inr k' \<Longrightarrow> quiet k k'"
  by (auto simp: on_files0_def bindE_Inr_iff dest: on_files_quiet)

interpretation kfl: file_layer "kernel_env dv lg kend dt tr fr ic c" for dv lg kend dt tr fr ic c
  by unfold_locales (auto simp: kernel_env_def dest: on_files0_quiet)

end
