(* ===== verification/Kernel.thy ===== *)
theory Kernel
  imports File
begin

text \<open>
  The kernel as a whole: runs of system calls, interrupts and scheduler turns on all processors, with the file layer of \<open>File\<close>, and the properties
  of the process table that hold in every state they reach.
\<close>

section \<open>Runs\<close>

text \<open>\<open>E c\<close> is the environment in which processor \<open>c\<close> runs the code of \<open>proc.c\<close>.\<close>

inductive sysrun :: "(nat \<Rightarrow> 'f kenv) \<Rightarrow> 'f kernel \<Rightarrow> 'f kernel \<Rightarrow> bool" for E where
  run_refl: "sysrun E k k"
| run_step: "sysrun E k k' \<Longrightarrow> kstep (E c) k' k'' \<Longrightarrow> sysrun E k k''"

lemma sysrun_inv:
  assumes "sysrun (kernel_env dv lg kend dt tr fr ic) k k'" and "kernel_inv k"
  shows "kernel_inv k'"
  using assms by (induction rule: sysrun.induct) (auto intro: kfl.kstep_inv)

section \<open>Properties\<close>


text \<open>
  C4: No wake-up of a parent is lost. In every state that the kernel reaches from a sound one, a process that sleeps in \<open>wait\<close> sleeps on
  its own table entry and has no exited child with another address space, and one that sleeps in \<open>join\<close> has no exited thread: a child that exits
  while its parent is about to sleep, on whatever processor, is always noticed.
\<close>

theorem no_lost_child_wakeup:
  assumes "sysrun (kernel_env dv lg kend dt tr fr ic) k0 k" and "kernel_inv k0"
    and "i < NPROC" and "p_state (ptable k ! i) = SLEEPING"
  shows "((\<exists>b lk. p_kont (ptable k ! i) = AtSleep b lk InWait) \<longrightarrow>
      p_chan (ptable k ! i) = ProcChan i \<and>
      (\<forall>p \<in> set (ptable k). p_parent p = Some i \<and> p_pgdir p \<noteq> p_pgdir (ptable k ! i) \<longrightarrow> p_state p \<noteq> ZOMBIE)) \<and>
    ((\<exists>b lk u. p_kont (ptable k ! i) = AtSleep b lk (InJoin u)) \<longrightarrow>
      p_chan (ptable k ! i) = ProcChan i \<and>
      (\<forall>p \<in> set (ptable k). p_parent p = Some i \<and> p_pgdir p = p_pgdir (ptable k ! i) \<longrightarrow> p_state p \<noteq> ZOMBIE))"
proof -
  have "kernel_inv k" by (rule sysrun_inv [OF assms(1,2)])
  then have "waits_rightly (ptable k) i" using assms(3,4) by (simp add: kernel_inv_def ptable_inv_def sleep_ok_def)
  then show ?thesis by (auto simp: waits_rightly_def reaped_def wait_child_def join_child_def)
qed

text \<open>
  C16: The scheduler cannot reach the panics of the locking and switching code. In every state that the kernel reaches from a sound one, a turn of
  the scheduler on a processor that runs no process either leads to a sound state, or waits for the lock of the process table, or
  stops in the memory code of a resumed \<open>wait\<close> or \<open>join\<close> (\<open>kfree\<close>, \<open>freevm\<close>, a bad user address), or in the start-up of
  the file system on the first switch; it never panics in \<open>acquire\<close>, \<open>release\<close>, \<open>sched\<close> or \<open>switchuvm\<close>.
\<close>

theorem scheduler_never_panics:
  assumes "sysrun (kernel_env dv lg kend dt tr fr ic) k0 k" and "kernel_inv k0" and "cproc (cpus k c) = None" and "\<not> first k"
  shows "case scheduler_step (kernel_env dv lg kend dt tr fr ic c) c k of
      Inr k' \<Rightarrow> kernel_inv k'
    | Inl e \<Rightarrow> e = Spins \<or> e \<in> {Panic ''kfree'', Panic ''freevm: no pgdir'', Panic ''trap''}"
proof -
  have "kernel_inv k" by (rule sysrun_inv [OF assms(1,2)])
  moreover have "running k c = None" using assms(3) by (simp add: running_def)
  ultimately show ?thesis
    using kfl.scheduler_step_inv [of k c dv lg kend dt tr fr ic c] assms(4)
    by (auto simp: reap_faults_def split: sum.splits)
qed

section \<open>A sound state\<close>

definition demo_proc :: proc where
  "demo_proc = \<lparr>p_sz = 0, p_pgdir = 0, p_kstack = 0, p_state = UNUSED, p_pid = 0, p_parent = None, p_tf = 0, p_context = 0,
     p_kont = AtForkret, p_chan = NoChan, p_killed = False, p_ofile = replicate NOFILE None, p_cwd = None, p_name = [], p_stack = 0\<rparr>"

text \<open>Process 1 is runnable, its child 2 has exited and the child 3 sleeps in \<open>wait\<close>; all processors are idle.\<close>

definition demo_table :: "proc list" where
  "demo_table =
     [demo_proc\<lparr>p_state := RUNNABLE, p_pid := 1, p_pgdir := 4096, p_kstack := 8192, p_kont := AtYield True\<rparr>,
      demo_proc\<lparr>p_state := ZOMBIE, p_pid := 2, p_pgdir := 12288, p_kstack := 16384, p_parent := Some 0\<rparr>,
      demo_proc\<lparr>p_state := SLEEPING, p_pid := 3, p_pgdir := 20480, p_kstack := 24576, p_parent := Some 0,
        p_kont := AtSleep True ptable_lock InWait, p_chan := ProcChan 2\<rparr>] @ replicate 61 demo_proc"

definition demo_kernel :: "machine \<Rightarrow> 'f \<Rightarrow> 'f kernel" where
  "demo_kernel m f =
     \<lparr>cpus = (\<lambda>c. \<lparr>ncli = 0, intena = False, iflag = True, cproc = None\<rparr>), locks = (\<lambda>l. free_lock),
      mach = m, ptable = demo_table, nextpid = 4, initproc = Some 0, first = False, spos = (\<lambda>c. None), files = f\<rparr>"

lemma demo_nth: "i < 64 \<Longrightarrow> demo_table ! i = (if i = 0 then demo_table ! 0 else if i = 1 then demo_table ! 1
    else if i = 2 then demo_table ! 2 else demo_proc)"
  by (auto simp: demo_table_def nth_Cons nth_append split: nat.splits)

lemma demo_entries:
  "demo_table ! 0 = demo_proc\<lparr>p_state := RUNNABLE, p_pid := 1, p_pgdir := 4096, p_kstack := 8192, p_kont := AtYield True\<rparr>"
  "demo_table ! Suc 0 = demo_proc\<lparr>p_state := ZOMBIE, p_pid := 2, p_pgdir := 12288, p_kstack := 16384, p_parent := Some 0\<rparr>"
  "demo_table ! 2 = demo_proc\<lparr>p_state := SLEEPING, p_pid := 3, p_pgdir := 20480, p_kstack := 24576, p_parent := Some 0,
        p_kont := AtSleep True ptable_lock InWait, p_chan := ProcChan 2\<rparr>"
  by (simp_all add: demo_table_def numeral_2_eq_2)

lemma demo_inv: "kernel_inv (demo_kernel m f)"
proof -
  have l: "held (demo_kernel m f) c = {}" for c by (simp add: held_def demo_kernel_def free_lock_def)
  have s: "sync_inv (demo_kernel m f)"
    unfolding sync_inv_def lock_inv_def using l
    by (intro exI [of _ "\<lambda>_. True"]) (simp add: demo_kernel_def free_lock_def)
  have r: "running (demo_kernel m f) = (\<lambda>c. None)" by (simp add: running_def [abs_def] demo_kernel_def)
  have c: "cpu_inv (demo_kernel m f)" using l r by (simp add: cpu_inv_def demo_kernel_def)
  have st: "p_state (demo_table ! i) = (if i = 0 then RUNNABLE else if i = 1 then ZOMBIE else if i = 2 then SLEEPING else UNUSED)"
    "p_pid (demo_table ! i) = (if i < 3 then int i + 1 else 0)"
    "p_parent (demo_table ! i) = (if i = 1 \<or> i = 2 then Some 0 else None)" if "i < 64" for i
    using demo_nth [OF that] demo_entries by (auto simp: demo_proc_def)
  have k: "p_kstack (demo_table ! i) \<noteq> 0 \<and> p_pgdir (demo_table ! i) \<noteq> 0" if "i < 3" for i
  proof -
    have "i = 0 \<or> i = Suc 0 \<or> i = 2" using that by auto
    then show ?thesis using demo_entries by auto
  qed
  have "pids_ok demo_table 4"
    unfolding pids_ok_def live_def NPROC_def using st(1,2) k by (auto split: if_splits)
  moreover have "tree_ok demo_table (Some 0)"
    unfolding tree_ok_def live_def active_def NPROC_def using st(1,3) by auto
  moreover have "run_ok demo_table (\<lambda>c. None)"
    unfolding run_ok_def NPROC_def using st(1) by auto
  moreover have "reaped (wait_child 2 demo_table) demo_table"
  proof -
    have "length demo_table = 64" by (simp add: demo_table_def)
    then show ?thesis
      unfolding reaped_def wait_child_def using st(3) by (auto simp: in_set_conv_nth split: if_splits)
  qed
  then have "sleep_ok demo_table"
    unfolding sleep_ok_def NPROC_def using st(1) demo_entries
    by (auto simp: waits_rightly_def lock_after_def split: if_splits)
  ultimately have "ptable_inv demo_table 4 (Some 0) (\<lambda>c. None)"
    by (simp add: ptable_inv_def NPROC_def) (simp add: demo_table_def)
  then show ?thesis using s c r by (simp add: kernel_inv_def) (simp add: demo_kernel_def)
qed

text \<open>The initial state of a run of the scheduler on processor 0 of the sample state: it takes the lock of the table.\<close>

lemma demo_run:
  "\<exists>k. sysrun (kernel_env dv lg kend dt tr fr ic) (demo_kernel m f) k \<and> spos k 0 = Some 0 \<and> ptable k = demo_table \<and>
     cproc (cpus k 0) = None \<and> \<not> first k"
proof -
  let ?k = "demo_kernel m f"
  obtain k1 where a: "acquire 0 ptable_lock (upd_cpu 0 (\<lambda>p. p\<lparr>iflag := True\<rparr>) ?k) = Inr k1"
      "k1 = set_lock ptable_lock \<lparr>locked = True, lcpu = Some 0\<rparr> (pushcli 0 (upd_cpu 0 (\<lambda>p. p\<lparr>iflag := True\<rparr>) ?k))"
    by (simp add: acquire_eq cpu_ok_def demo_kernel_def free_lock_def upd_cpu_def)
  have "scheduler_step (kernel_env dv lg kend dt tr fr ic 0) 0 ?k = Inr (k1\<lparr>spos := (spos k1)(0 := Some 0)\<rparr>)"
    using a(1) by (simp add: scheduler_step_def) (simp add: demo_kernel_def)
  then have "kstep (kernel_env dv lg kend dt tr fr ic 0) ?k (k1\<lparr>spos := (spos k1)(0 := Some 0)\<rparr>)"
    by (rule k_schedule [rotated]) (simp add: demo_kernel_def running_def)
  then have "sysrun (kernel_env dv lg kend dt tr fr ic) ?k (k1\<lparr>spos := (spos k1)(0 := Some 0)\<rparr>)"
    by (rule run_step [OF run_refl])
  moreover have "ptable k1 = demo_table" "cproc (cpus k1 0) = None" "\<not> first k1"
    using a(2) by (simp_all add: demo_kernel_def set_lock_def pushcli_def upd_cpu_def)
  ultimately show ?thesis by (intro exI [of _ "k1\<lparr>spos := (spos k1)(0 := Some 0)\<rparr>"]) simp
qed

definition demo_devs :: "filest devsw" where
  "demo_devs = \<lparr>dv_read = (\<lambda>_. None), dv_write = (\<lambda>_. None)\<rparr>"

definition demo_machine :: machine where
  "demo_machine = \<lparr>memory = (\<lambda>_. 0), freelist = 0, use_lock = False\<rparr>"


theorem no_lost_child_wakeup_witness:
  "\<forall>f. \<exists>k. sysrun (kernel_env demo_devs 0 0 0 0 0 []) (demo_kernel demo_machine f) k \<and> p_state (ptable k ! 2) = SLEEPING \<and>
     p_chan (ptable k ! 2) = ProcChan 2"
proof
  fix f
  obtain k where k: "sysrun (kernel_env demo_devs 0 0 0 0 0 []) (demo_kernel demo_machine f) k" "ptable k = demo_table"
    using demo_run by blast
  have s: "p_state (ptable k ! 2) = SLEEPING" "p_kont (ptable k ! 2) = AtSleep True ptable_lock InWait"
    using k(2) demo_entries(3) by simp_all
  have "2 < NPROC" by (simp add: NPROC_def)
  from no_lost_child_wakeup [OF k(1) demo_inv this s(1)] s(2) have "p_chan (ptable k ! 2) = ProcChan 2" by blast
  then show "\<exists>k. sysrun (kernel_env demo_devs 0 0 0 0 0 []) (demo_kernel demo_machine f) k \<and> p_state (ptable k ! 2) = SLEEPING \<and>
     p_chan (ptable k ! 2) = ProcChan 2"
    using k(1) s(1) by blast
qed

theorem scheduler_never_panics_witness:
  "\<forall>f. \<exists>k. sysrun (kernel_env demo_devs 0 0 0 0 0 []) (demo_kernel demo_machine f) k \<and>
     (case scheduler_step (kernel_env demo_devs 0 0 0 0 0 [] 0) 0 k of Inr k' \<Rightarrow> kernel_inv k'
      | Inl e \<Rightarrow> e = Spins \<or> e \<in> {Panic ''kfree'', Panic ''freevm: no pgdir'', Panic ''trap''})"
proof
  fix f
  obtain k where k: "sysrun (kernel_env demo_devs 0 0 0 0 0 []) (demo_kernel demo_machine f) k" "cproc (cpus k 0) = None" "\<not> first k"
    using demo_run by blast
  from scheduler_never_panics [OF k(1) demo_inv k(2,3)] k(1)
  show "\<exists>k. sysrun (kernel_env demo_devs 0 0 0 0 0 []) (demo_kernel demo_machine f) k \<and>
     (case scheduler_step (kernel_env demo_devs 0 0 0 0 0 [] 0) 0 k of Inr k' \<Rightarrow> kernel_inv k'
      | Inl e \<Rightarrow> e = Spins \<or> e \<in> {Panic ''kfree'', Panic ''freevm: no pgdir'', Panic ''trap''})"
    by blast
qed

section \<open>Killing a process that does not exist yet\<close>

text \<open>
  C21: \<open>kill\<close> looks at entries that are not in use. If the first entry with the given pid is the first unused one, the call succeeds and marks it,
  and the next process that \<open>allocproc\<close> creates in this entry starts out killed: nothing clears the mark.
\<close>

lemma sync_inv_table:
  "sync_inv (upd_proc i f k) = sync_inv k" "sync_inv (k\<lparr>nextpid := n\<rparr>) = sync_inv k"
  by (simp_all add: sync_inv_def lock_inv_def held_def upd_proc_def)

theorem kill_poisons_unused_entry:
  assumes s: "sync_inv k" and kill: "kill c pid k = Inr (r, k1)"
    and i: "find_index (\<lambda>p. p_pid p = pid) (ptable k) = Some i" "find_index (\<lambda>p. p_state p = UNUSED) (ptable k) = Some i"
    and new: "allocproc E d k1 = Inr (Some np, k2)"
  shows "r = 0 \<and> np = i \<and> p_killed (ptable k2 ! i)"
proof -
  note I = find_index_SomeD [OF i(2)]
  let ?f = "\<lambda>p. p\<lparr>p_killed := True, p_state := (if p_state p = SLEEPING then RUNNABLE else p_state p)\<rparr>"
  obtain a where a: "acquire c ptable_lock k = Inr a" using kill by (auto simp: kill_def res_simps)
  have pa: "ptable a = ptable k" "sync_inv a" using acquire_kernel(1,2) [OF s a] by (simp_all add: same_procs_def)
  have r: "release c ptable_lock (upd_proc i ?f a) = Inr k1" "r = 0"
    using kill a pa i(1) by (auto simp: kill_def res_simps)
  have s1: "sync_inv (upd_proc i ?f a)" using pa(2) by (simp add: sync_inv_table)
  have p1: "ptable k1 = (ptable k)[i := ?f (ptable k ! i)]" "sync_inv k1"
    using release_kernel(1,2) [OF s1 r(1)] pa(1) by (simp_all add: same_procs_def upd_proc_def)
  have f1: "find_index (\<lambda>p. p_state p = UNUSED) (ptable k1) = Some i"
    unfolding find_index_Some_iff p1(1) using I by (auto simp: nth_list_update)
  obtain b where b: "acquire d ptable_lock k1 = Inr b" using new by (auto simp: allocproc_def res_simps)
  have pb: "ptable b = ptable k1" "sync_inv b" using acquire_kernel(1,2) [OF p1(2) b] by (simp_all add: same_procs_def)
  let ?b = "(upd_proc i (\<lambda>p. p\<lparr>p_state := EMBRYO, p_pid := nextpid b\<rparr>) b)\<lparr>nextpid := nextpid b + 1\<rparr>"
  obtain e where e: "release d ptable_lock ?b = Inr e"
    using new b pb f1 by (auto simp: allocproc_def res_simps Let_def)
  have sb: "sync_inv ?b" using pb(2) by (simp add: sync_inv_table)
  have pe: "ptable e = (ptable k1)[i := (ptable k1 ! i)\<lparr>p_state := EMBRYO, p_pid := nextpid b\<rparr>]"
    using release_kernel(1) [OF sb e] pb by (simp add: same_procs_def upd_proc_def)
  have len: "i < length (ptable k)" using I by simp
  obtain ks m where "kalloc (mach e) = (ks, m)" by (cases "kalloc (mach e)")
  then show ?thesis
    using new b pb f1 e r(2) pe p1(1) len by (auto simp: allocproc_def Let_def upd_proc_def split: if_splits)
qed

lemma acquire_free:
  assumes "sync_inv k" and "\<And>d. l \<notin> held k d"
  shows "\<exists>k'. acquire c l k = Inr k'"
proof -
  obtain flags where inv: "lock_inv flags k" using assms(1) by (auto simp: sync_inv_def)
  have "\<not> locked (locks k l)"
  proof
    assume l: "locked (locks k l)"
    then have "lcpu (locks k l) \<noteq> None" using inv by (simp add: lock_inv_def)
    then obtain d where "lcpu (locks k l) = Some d" by blast
    with l assms(2) [of d] show False by (simp add: held_def)
  qed
  then show ?thesis by (simp add: acquire_eq [OF lock_inv_cpu_ok(1) [OF inv]])
qed

lemma held_upd: "held (upd_proc i f k) = held k" "held (k\<lparr>nextpid := n\<rparr>) = held k"
  by (simp_all add: held_def [abs_def] upd_proc_def)

lemma demo_find:
  "find_index (\<lambda>p. p_pid p = 0) demo_table = Some 3" "find_index (\<lambda>p. p_state p = UNUSED) demo_table = Some 3"
proof -
  have r: "find_index P (replicate 61 demo_proc) = Some 0" if "P demo_proc" for P
    using that by (simp add: find_index_Some_iff)
  show "find_index (\<lambda>p. p_pid p = 0) demo_table = Some 3" "find_index (\<lambda>p. p_state p = UNUSED) demo_table = Some 3"
    using r by (simp_all add: demo_table_def) (simp_all add: demo_proc_def)
qed

theorem kill_poisons_unused_entry_witness:
  "\<forall>E :: unit kenv. \<exists>k1 k2 :: unit kernel.
     kill 0 0 (demo_kernel \<lparr>memory = (\<lambda>_. 0), freelist = 8192, use_lock = False\<rparr> ()) = Inr (0, k1) \<and>
     allocproc E 0 k1 = Inr (Some 3, k2) \<and> p_killed (ptable k2 ! 3)"
proof
  fix E :: "unit kenv"
  let ?k = "demo_kernel \<lparr>memory = (\<lambda>_. 0), freelist = 8192, use_lock = False\<rparr> ()"
  have s: "sync_inv ?k" using demo_inv [of "\<lparr>memory = (\<lambda>_. 0), freelist = 8192, use_lock = False\<rparr>" "()"]
    by (simp add: kernel_inv_def)
  have h: "held ?k d = {}" for d by (simp add: held_def demo_kernel_def free_lock_def)
  have t: "ptable ?k = demo_table" "mach ?k = \<lparr>memory = (\<lambda>_. 0), freelist = 8192, use_lock = False\<rparr>"
    by (simp_all add: demo_kernel_def)
  let ?f = "\<lambda>p. p\<lparr>p_killed := True, p_state := (if p_state p = SLEEPING then RUNNABLE else p_state p)\<rparr>"
  obtain a where a: "acquire 0 ptable_lock ?k = Inr a" using acquire_free [OF s, of ptable_lock 0] h by auto
  note A = acquire_kernel [OF s a]
  have sa: "sync_inv (upd_proc 3 ?f a)" using A(2) by (simp add: sync_inv_table)
  obtain k1 where k1: "release 0 ptable_lock (upd_proc 3 ?f a) = Inr k1"
    using release_succeeds [OF sa, of ptable_lock 0] A(3) by (auto simp: held_upd)
  note R = release_kernel [OF sa k1]
  have kill: "kill 0 0 ?k = Inr (0, k1)"
    using a k1 A(1) demo_find(1) t by (simp add: kill_def same_procs_def)
  have h1: "held k1 d = {}" for d using R(3) A(3) h by (simp add: held_upd)
  obtain b where b: "acquire 0 ptable_lock k1 = Inr b" using acquire_free [OF R(2), of ptable_lock 0] h1 by auto
  note B = acquire_kernel [OF R(2) b]
  let ?b = "(upd_proc 3 (\<lambda>p. p\<lparr>p_state := EMBRYO, p_pid := nextpid b\<rparr>) b)\<lparr>nextpid := nextpid b + 1\<rparr>"
  have sb: "sync_inv ?b" using B(2) by (simp add: sync_inv_table)
  obtain e where e: "release 0 ptable_lock ?b = Inr e"
    using release_succeeds [OF sb, of ptable_lock 0] B(3) by (auto simp: held_upd)
  have me: "mach e = \<lparr>memory = (\<lambda>_. 0), freelist = 8192, use_lock = False\<rparr>"
    using release_kernel(1) [OF sb e] B(1) R(1) A(1) t by (simp add: same_procs_def upd_proc_def)
  have "find_index (\<lambda>p. p_state p = UNUSED) (ptable b) = Some 3"
    using demo_find(2) B(1) R(1) A(1) t
    by (auto simp: same_procs_def upd_proc_def find_index_Some_iff nth_list_update)
  then have "\<exists>k2. allocproc E 0 k1 = Inr (Some 3, k2)"
    using b e me by (simp add: allocproc_def Let_def kalloc_def)
  then obtain k2 where k2: "allocproc E 0 k1 = Inr (Some 3, k2)" ..
  have "p_killed (ptable k2 ! 3)"
    using kill_poisons_unused_entry [OF s kill _ _ k2] demo_find t by auto
  then show "\<exists>k1 k2. kill 0 0 ?k = Inr (0, k1) \<and> allocproc E 0 k1 = Inr (Some 3, k2) \<and> p_killed (ptable k2 ! 3)"
    using kill k2 by blast
qed

end
