(* ===== verification/Ulock.thy ===== *)
theory Ulock
  imports Prelude
begin

text \<open>
  The user-level thread library of \<open>ulib.c\<close> (\<open>p3b/xv6-public\<close>): the spin lock on
  \<open>fetch_and_add\<close>, run by any number of threads whose instructions interleave, and the stacks
  that \<open>thread_create\<close> hands to \<open>clone\<close>.
\<close>

section \<open>The lock\<close>

record lock_t =
  flag :: u32

text \<open>\<open>lock; xaddl\<close>: the old value is returned, the sum is stored.\<close>

definition fetch_and_add :: "u32 \<Rightarrow> u32 \<Rightarrow> u32 \<times> u32" where
  "fetch_and_add variable val = (variable, variable + val)"

text \<open>One turn of the loop of \<open>lock_acquire\<close>: the result says whether the loop ends.\<close>

definition acquire_turn :: "lock_t \<Rightarrow> bool \<times> lock_t" where
  "acquire_turn l = (let (old, new) = fetch_and_add (flag l) 1 in (\<not> old \<noteq> 0, l\<lparr>flag := new\<rparr>))"

definition lock_release :: "lock_t \<Rightarrow> lock_t" where
  "lock_release l = l\<lparr>flag := 0\<rparr>"

definition lock_init :: "lock_t \<Rightarrow> lock_t" where
  "lock_init l = l\<lparr>flag := 0\<rparr>"

section \<open>Threads that use the lock\<close>

text \<open>
  A thread is outside, in the loop of \<open>lock_acquire\<close>, or past it and not yet in
  \<open>lock_release\<close>.  The turn counter is an auxiliary variable: it counts the turns taken by all
  threads since the flag was last reset.
\<close>

datatype place = Outside | Looping | Holding

record ulock =
  the_lock :: lock_t
  place_of :: "nat \<Rightarrow> place"
  turns :: nat

definition ulock_init :: "ulock \<Rightarrow> bool" where
  "ulock_init s \<longleftrightarrow> (\<exists>l. the_lock s = lock_init l) \<and> (\<forall>t. place_of s t = Outside) \<and> turns s = 0"

inductive ulock_step :: "ulock \<Rightarrow> ulock \<Rightarrow> bool" where
  call: "place_of s t = Outside \<Longrightarrow> ulock_step s (s\<lparr>place_of := (place_of s)(t := Looping)\<rparr>)"
| turn: "place_of s t = Looping \<Longrightarrow> acquire_turn (the_lock s) = (won, l) \<Longrightarrow>
    ulock_step s (s\<lparr>the_lock := l, place_of := (place_of s)(t := if won then Holding else Looping), turns := turns s + 1\<rparr>)"
| unlock: "place_of s t = Holding \<Longrightarrow>
    ulock_step s (s\<lparr>the_lock := lock_release (the_lock s), place_of := (place_of s)(t := Outside), turns := 0\<rparr>)"

inductive_cases ulock_stepE: "ulock_step s s'"

text \<open>Runs in which fewer than \<open>bound\<close> turns are ever taken between two resets.\<close>

inductive ulock_run :: "nat \<Rightarrow> ulock \<Rightarrow> bool" for bound where
  start: "ulock_init s \<Longrightarrow> ulock_run bound s"
| more: "ulock_run bound s \<Longrightarrow> ulock_step s s' \<Longrightarrow> turns s' \<le> bound \<Longrightarrow> ulock_run bound s'"

definition ulock_inv :: "ulock \<Rightarrow> bool" where
  "ulock_inv s \<longleftrightarrow> flag (the_lock s) = of_nat (turns s) \<and>
     (turns s = 0 \<longrightarrow> (\<forall>t. place_of s t \<noteq> Holding)) \<and>
     (\<forall>t u. place_of s t = Holding \<longrightarrow> place_of s u = Holding \<longrightarrow> t = u)"

lemma of_nat_u32_zero: "n < 2 ^ 32 \<Longrightarrow> (of_nat n :: u32) = 0 \<longleftrightarrow> n = 0"
  using unat_of_nat32 [of n] by auto

lemma ulock_run_inv: "ulock_run bound s \<Longrightarrow> bound \<le> 2 ^ 32 \<Longrightarrow> ulock_inv s \<and> turns s \<le> bound"
proof (induction rule: ulock_run.induct)
  case (start s)
  then show ?case by (auto simp: ulock_init_def ulock_inv_def lock_init_def)
next
  case (more s s')
  then have I: "ulock_inv s" and b: "turns s' \<le> 2 ^ 32" by simp_all
  from more.hyps(2) have "ulock_inv s'"
  proof (cases rule: ulock_step.cases)
    case (call t)
    with I show ?thesis by (auto simp: ulock_inv_def split: if_splits)
  next
    case (turn t won l)
    then have "turns s < 2 ^ 32" using b by simp
    then have "(flag (the_lock s) = 0) = (turns s = 0)"
      using I of_nat_u32_zero by (simp add: ulock_inv_def)
    with turn I show ?thesis
      by (auto simp: ulock_inv_def acquire_turn_def fetch_and_add_def Let_def add.commute split: if_splits)
  next
    case (unlock t)
    with I show ?thesis by (auto simp: ulock_inv_def lock_release_def split: if_splits)
  qed
  with more.hyps(3) show ?case by simp
qed

text \<open>
  C36: Mutual exclusion of the user-level lock.  For any number of threads and any interleaving of
  their calls, at most one thread holds the lock, as long as no \<open>2 ^ 32\<close> turns of the waiting
  loops pass between two releases; and a thread that takes a turn while the flag is 0 gets it.
\<close>

theorem ulock_mutual_exclusion:
  assumes "ulock_run (2 ^ 32 - 1) s"
  shows "(\<forall>t u. place_of s t = Holding \<longrightarrow> place_of s u = Holding \<longrightarrow> t = u) \<and>
     ((\<exists>t. place_of s t = Holding) \<longrightarrow> \<not> fst (acquire_turn (the_lock s))) \<and>
     (flag (the_lock s) = 0 \<longrightarrow> fst (acquire_turn (the_lock s)))"
proof -
  have I: "ulock_inv s" "turns s \<le> 2 ^ 32 - 1" using ulock_run_inv [OF assms] by simp_all
  then have "turns s < 2 ^ 32" by simp
  then have "(flag (the_lock s) = 0) = (turns s = 0)"
    using I(1) of_nat_u32_zero by (simp add: ulock_inv_def)
  with I(1) show ?thesis
    by (auto simp: ulock_inv_def acquire_turn_def fetch_and_add_def Let_def)
qed

text \<open>Thread 0 holds the lock, thread 1 waits, and \<open>k\<close> turns have been taken.\<close>

definition contended :: "nat \<Rightarrow> ulock" where
  "contended k = \<lparr> the_lock = \<lparr> flag = of_nat k \<rparr>, place_of = (\<lambda>_. Outside)(0 := Holding, 1 := Looping), turns = k \<rparr>"

lemma contended_start:
  assumes "1 \<le> bound"
  shows "ulock_run bound (contended 1)"
proof -
  define s0 where "s0 = \<lparr> the_lock = \<lparr> flag = 0 \<rparr>, place_of = (\<lambda>_. Outside), turns = 0 \<rparr>"
  define s1 where "s1 = s0\<lparr>place_of := (place_of s0)(0 := Looping)\<rparr>"
  define s2 where "s2 = s1\<lparr>place_of := (place_of s1)(1 := Looping)\<rparr>"
  have "ulock_init s0"
    by (auto simp: ulock_init_def lock_init_def s0_def intro: exI [of _ "\<lparr> flag = 0 \<rparr>"])
  then have "ulock_run bound s0" by (rule ulock_run.start)
  moreover have "ulock_step s0 s1" unfolding s1_def by (rule ulock_step.call) (simp add: s0_def)
  ultimately have "ulock_run bound s1" by (rule ulock_run.more) (simp add: s1_def s0_def)
  moreover have "ulock_step s1 s2" unfolding s2_def by (rule ulock_step.call) (simp add: s1_def s0_def)
  ultimately have "ulock_run bound s2" by (rule ulock_run.more) (simp add: s2_def s1_def s0_def)
  moreover have "ulock_step s2 (s2\<lparr>the_lock := \<lparr> flag = 1 \<rparr>,
      place_of := (place_of s2)(0 := if True then Holding else Looping), turns := turns s2 + 1\<rparr>)"
    by (rule ulock_step.turn) (simp_all add: s2_def s1_def s0_def acquire_turn_def fetch_and_add_def)
  moreover have "s2\<lparr>the_lock := \<lparr> flag = 1 \<rparr>, place_of := (place_of s2)(0 := if True then Holding else Looping),
      turns := turns s2 + 1\<rparr> = contended 1"
    by (simp add: s2_def s1_def s0_def contended_def fun_upd_twist)
  ultimately show ?thesis using assms by (metis ulock_run.more contended_def ulock.select_convs(3))
qed

lemma contended_run:
  assumes "n < 2 ^ 32" and "Suc n \<le> bound"
  shows "ulock_run bound (contended (Suc n))"
  using assms
proof (induction n)
  case 0
  then show ?case using contended_start by simp
next
  case (Suc n)
  have "(of_nat (Suc n) :: u32) \<noteq> 0" using of_nat_u32_zero [of "Suc n"] Suc.prems(1) by simp
  then have "acquire_turn (the_lock (contended (Suc n))) = (False, \<lparr> flag = of_nat (Suc (Suc n)) \<rparr>)"
    by (simp add: contended_def acquire_turn_def fetch_and_add_def add.commute)
  then have "ulock_step (contended (Suc n)) ((contended (Suc n))\<lparr>the_lock := \<lparr> flag = of_nat (Suc (Suc n)) \<rparr>,
      place_of := (place_of (contended (Suc n)))(1 := if False then Holding else Looping), turns := turns (contended (Suc n)) + 1\<rparr>)"
    by (intro ulock_step.turn) (simp_all add: contended_def)
  moreover have "(contended (Suc n))\<lparr>the_lock := \<lparr> flag = of_nat (Suc (Suc n)) \<rparr>,
      place_of := (place_of (contended (Suc n)))(1 := if False then Holding else Looping), turns := turns (contended (Suc n)) + 1\<rparr>
      = contended (Suc (Suc n))"
    by (simp add: contended_def)
  moreover have "ulock_run bound (contended (Suc n))" using Suc by simp
  ultimately show ?case
    using Suc.prems(2) ulock_run.more [of bound "contended (Suc n)" "contended (Suc (Suc n))"] by (simp add: contended_def)
qed


theorem ulock_mutual_exclusion_witness:
  "\<exists>s. ulock_run (2 ^ 32 - 1) s \<and> place_of s 0 = Holding \<and> (\<forall>u. place_of s u = Holding \<longrightarrow> u = 0) \<and>
     \<not> fst (acquire_turn (the_lock s))"
proof -
  have "ulock_run (2 ^ 32 - 1) (contended 1)" by (rule contended_start) simp
  moreover have "place_of (contended 1) 0 = Holding" by (simp add: contended_def)
  ultimately show ?thesis using ulock_mutual_exclusion [of "contended 1"] by blast
qed

section \<open>Stacks of threads\<close>

text \<open>
  \<open>thread_create\<close>: the pointer that \<open>malloc(2 * PGSIZE)\<close> returned is moved up to a page
  boundary; \<open>clone\<close> is an argument.  \<open>thread_join\<close> frees the pointer that \<open>join\<close> returns,
  which is the one \<open>clone\<close> was given.
\<close>

definition thread_stack :: "u32 \<Rightarrow> u32" where
  "thread_stack stack =
     (if stack mod 4096 \<noteq> 0 then stack + (4096 - stack mod 4096) else stack)"

definition thread_create :: "(u32 \<Rightarrow> 'k \<Rightarrow> int \<times> 'k) \<Rightarrow> u32 \<Rightarrow> 'k \<Rightarrow> int \<times> 'k" where
  "thread_create clone stack k = (if stack = 0 then (- 1, k) else clone (thread_stack stack) k)"

definition thread_join :: "('k \<Rightarrow> int \<times> u32 \<times> 'k) \<Rightarrow> (u32 \<Rightarrow> 'k \<Rightarrow> 'k) \<Rightarrow> 'k \<Rightarrow> int \<times> 'k" where
  "thread_join join free k = (case join k of (pid, stack, k) \<Rightarrow> (pid, free stack k))"

text \<open>
  The stack that \<open>thread_create\<close> passes to \<open>clone\<close> is page-aligned and its page lies inside
  the two pages that were allocated; it is the allocated pointer, which \<open>thread_join\<close> may
  free, only when that pointer was page-aligned already.
\<close>

theorem thread_stack_inside:
  assumes "unat stack + 2 * 4096 \<le> 2 ^ 32"
  shows "unat (thread_stack stack) mod 4096 = 0 \<and> unat stack \<le> unat (thread_stack stack) \<and>
     unat (thread_stack stack) + 4096 \<le> unat stack + 2 * 4096 \<and>
     (thread_stack stack = stack \<longleftrightarrow> unat stack mod 4096 = 0)"
proof -
  define a where "a = unat stack"
  have m: "unat (stack mod 4096) = a mod 4096" by (simp add: a_def unat_mod)
  have z: "stack mod 4096 = 0 \<longleftrightarrow> a mod 4096 = 0" using m by (metis unat_eq_zero)
  show ?thesis
  proof (cases "a mod 4096 = 0")
    case True
    then show ?thesis using z by (simp add: thread_stack_def a_def)
  next
    case False
    have l: "a mod 4096 < 4096" by simp
    have "unat (4096 - stack mod 4096 :: u32) = 4096 - a mod 4096"
      using m l by (subst unat_sub) (simp_all add: word_le_nat_alt)
    moreover have "a + (4096 - a mod 4096) < 2 ^ 32" using assms False by (simp add: a_def)
    ultimately have u: "unat (thread_stack stack) = a + (4096 - a mod 4096)"
      using False z unat_add_lem [of stack "4096 - stack mod 4096"] by (simp add: thread_stack_def a_def)
    obtain q r where r: "a mod 4096 = r" "a = 4096 * q + r"
      using mult_div_mod_eq [of 4096 a] by metis
    then have "a + (4096 - r) = 4096 * (q + 1)" using l by simp
    then have "(a + (4096 - a mod 4096)) mod 4096 = 0" unfolding r(1) by (simp only: mod_mult_self1_is_0)
    moreover have "thread_stack stack \<noteq> stack" using u l by (auto simp: a_def)
    moreover have "a \<le> a + (4096 - a mod 4096)" "a + (4096 - a mod 4096) + 4096 \<le> a + 2 * 4096" by simp_all
    ultimately show ?thesis using u False unfolding a_def by metis
  qed
qed

theorem thread_stack_inside_witness:
  "unat (thread_stack 0x5008) mod 4096 = 0 \<and> thread_stack 0x5008 \<noteq> 0x5008"
  using thread_stack_inside [of "0x5008"] by simp

end
