(* ===== verification/Umalloc.thy ===== *)
theory Umalloc
  imports Memory
begin

text \<open>
  The allocator of user programs (\<open>umalloc.c\<close>): \<open>malloc\<close>, \<open>free\<close> and \<open>morecore\<close> on a
  circular list of free blocks in address order, whose headers lie in the memory that is managed.
  A loop over the list is a partial function, as nothing in the code bounds it: \<open>None\<close> says that
  it does not return.
\<close>

section \<open>Headers\<close>

text \<open>
  A header is eight bytes, the address of the next free block and the size of the block in headers;
  \<open>bp + n\<close> of the code is \<open>hadd bp n\<close>.
\<close>

definition sizeof_Header :: u32 where "sizeof_Header = 8"

definition hptr :: "mem \<Rightarrow> u32 \<Rightarrow> u32" where "hptr m p = get32 m (unat p)"
definition hsize :: "mem \<Rightarrow> u32 \<Rightarrow> u32" where "hsize m p = get32 m (unat (p + 4))"
definition set_hptr :: "u32 \<Rightarrow> u32 \<Rightarrow> mem \<Rightarrow> mem" where "set_hptr p v m = put32 m (unat p) v"
definition set_hsize :: "u32 \<Rightarrow> u32 \<Rightarrow> mem \<Rightarrow> mem" where "set_hsize p v m = put32 m (unat (p + 4)) v"
definition hadd :: "u32 \<Rightarrow> u32 \<Rightarrow> u32" where "hadd p n = p + n * sizeof_Header"

text \<open>The memory of the program, \<open>freep\<close>, and the state of the kernel that \<open>sbrk\<close> depends on.\<close>

record 'k uheap =
  umem :: mem
  freep :: u32
  kstate :: 'k

type_synonym 'k sbrk = "u32 \<Rightarrow> 'k \<Rightarrow> (u32 \<times> 'k) option"

section \<open>free\<close>

partial_function (option) free_search :: "mem \<Rightarrow> u32 \<Rightarrow> u32 \<Rightarrow> u32 option" where
  "free_search m bp p =
     (if bp > p \<and> bp < hptr m p then Some p
      else if p \<ge> hptr m p \<and> (bp > p \<or> bp < hptr m p) then Some p
      else free_search m bp (hptr m p))"

definition join_next :: "u32 \<Rightarrow> u32 \<Rightarrow> mem \<Rightarrow> mem" where
  "join_next bp p m =
     (if hadd bp (hsize m bp) = hptr m p then
        let m = set_hsize bp (hsize m bp + hsize m (hptr m p)) m in
        set_hptr bp (hptr m (hptr m p)) m
      else set_hptr bp (hptr m p) m)"

definition join_prev :: "u32 \<Rightarrow> u32 \<Rightarrow> mem \<Rightarrow> mem" where
  "join_prev bp p m =
     (if hadd p (hsize m p) = bp then
        let m = set_hsize p (hsize m p + hsize m bp) m in
        set_hptr p (hptr m bp) m
      else set_hptr p bp m)"

definition free :: "u32 \<Rightarrow> 'k uheap \<Rightarrow> 'k uheap option" where
  "free ap s =
     (let bp = ap - sizeof_Header in
      case free_search (umem s) bp (freep s) of
        None \<Rightarrow> None
      | Some p \<Rightarrow> Some (s\<lparr>umem := join_prev bp p (join_next bp p (umem s)), freep := p\<rparr>))"

section \<open>malloc\<close>

definition morecore :: "'k sbrk \<Rightarrow> u32 \<Rightarrow> 'k uheap \<Rightarrow> (u32 \<times> 'k uheap) option" where
  "morecore sbrk nu s =
     (let nu = (if nu < 4096 then 4096 else nu) in
      case sbrk (nu * sizeof_Header) (kstate s) of
        None \<Rightarrow> None
      | Some (p, k) \<Rightarrow>
          let s = s\<lparr>kstate := k\<rparr> in
          if p = - 1 then Some (0, s)
          else case free (hadd p 1) (s\<lparr>umem := set_hsize p nu (umem s)\<rparr>) of
                 None \<Rightarrow> None
               | Some s \<Rightarrow> Some (freep s, s))"

text \<open>A block that is large enough: taken as a whole, or its tail end.\<close>

definition take_block :: "u32 \<Rightarrow> u32 \<Rightarrow> u32 \<Rightarrow> 'k uheap \<Rightarrow> u32 \<times> 'k uheap" where
  "take_block nunits prevp p s =
     (if hsize (umem s) p = nunits
      then (hadd p 1, s\<lparr>umem := set_hptr prevp (hptr (umem s) p) (umem s), freep := prevp\<rparr>)
      else let m = set_hsize p (hsize (umem s) p - nunits) (umem s);
               p = hadd p (hsize m p);
               m = set_hsize p nunits m
           in (hadd p 1, s\<lparr>umem := m, freep := prevp\<rparr>))"

partial_function (option) malloc_loop :: "'k sbrk \<Rightarrow> u32 \<Rightarrow> u32 \<Rightarrow> u32 \<Rightarrow> 'k uheap \<Rightarrow> (u32 \<times> 'k uheap) option" where
  "malloc_loop sbrk nunits prevp p s =
     (if hsize (umem s) p \<ge> nunits then Some (take_block nunits prevp p s)
      else if p = freep s then
        (case morecore sbrk nunits s of
           None \<Rightarrow> None
         | Some (q, s) \<Rightarrow>
             if q = 0 then Some (0, s) else malloc_loop sbrk nunits q (hptr (umem s) q) s)
      else malloc_loop sbrk nunits p (hptr (umem s) p) s)"

definition units :: "u32 \<Rightarrow> u32" where
  "units nbytes = (nbytes + sizeof_Header - 1) div sizeof_Header + 1"

text \<open>\<open>base\<close> is the address of the static header.\<close>

definition malloc :: "'k sbrk \<Rightarrow> u32 \<Rightarrow> u32 \<Rightarrow> 'k uheap \<Rightarrow> (u32 \<times> 'k uheap) option" where
  "malloc sbrk base nbytes s =
     (let nunits = units nbytes;
          s = (if freep s = 0
               then s\<lparr>umem := set_hsize base 0 (set_hptr base base (umem s)), freep := base\<rparr>
               else s)
      in malloc_loop sbrk nunits (freep s) (hptr (umem s) (freep s)) s)"

section \<open>Reading and writing headers\<close>

abbreviation below :: "u32 \<Rightarrow> bool" where
  "below a \<equiv> unat a + 8 \<le> 2147483648"

definition apart :: "u32 \<Rightarrow> u32 \<Rightarrow> bool" where
  "apart a b \<longleftrightarrow> unat a + 8 \<le> unat b \<or> unat b + 8 \<le> unat a"

lemma below_plus4: "below a \<Longrightarrow> unat (a + 4) = unat a + 4"
  by (subst unat_plus_if') simp

lemma header_same [simp]:
  "hptr (set_hptr a v m) a = v" "hsize (set_hsize a v m) a = v"
  by (simp_all add: hptr_def hsize_def set_hptr_def set_hsize_def)

lemma header_other_field:
  assumes "below a"
  shows "hptr (set_hsize a v m) a = hptr m a" "hsize (set_hptr a v m) a = hsize m a"
  using assms by (simp_all add: hptr_def hsize_def set_hptr_def set_hsize_def below_plus4 get32_put32_disjoint)

lemma header_apart:
  assumes "below a" "below b" "apart a b"
  shows "hptr (set_hptr b v m) a = hptr m a" "hptr (set_hsize b v m) a = hptr m a"
    "hsize (set_hptr b v m) a = hsize m a" "hsize (set_hsize b v m) a = hsize m a"
  using assms
  by (auto simp: hptr_def hsize_def set_hptr_def set_hsize_def below_plus4 apart_def intro!: get32_put32_disjoint)

lemma header_outside:
  assumes "below b" "x < unat b \<or> unat b + 8 \<le> x"
  shows "set_hptr b v m x = m x" "set_hsize b v m x = m x"
  using assms by (auto simp: set_hptr_def set_hsize_def below_plus4)

lemma header_cong:
  assumes "below a" "\<And>x. unat a \<le> x \<Longrightarrow> x < unat a + 8 \<Longrightarrow> m' x = m x"
  shows "hptr m' a = hptr m a" "hsize m' a = hsize m a"
proof -
  have "load_bytes m' (unat a) 4 = load_bytes m (unat a) 4" "load_bytes m' (unat a + 4) 4 = load_bytes m (unat a + 4) 4"
    unfolding load_bytes_def using assms(2) by (auto intro!: map_cong)
  then show "hptr m' a = hptr m a" "hsize m' a = hsize m a"
    using assms(1) by (simp_all add: hptr_def hsize_def below_plus4 get32_def)
qed

lemma hadd_eq:
  assumes "unat p + 8 * unat n < 4294967296"
  shows "unat (hadd p n) = unat p + 8 * unat n"
proof -
  have "unat (n * 8) = unat n * 8" using assms by (subst unat_mult_lem [THEN iffD1]) simp_all
  then show ?thesis
    using assms by (simp add: hadd_def sizeof_Header_def) (subst unat_plus_if', simp)
qed

section \<open>The circular list\<close>

fun hpath :: "mem \<Rightarrow> u32 \<Rightarrow> u32 list \<Rightarrow> u32 \<Rightarrow> bool" where
  "hpath m x [] y \<longleftrightarrow> x = y"
| "hpath m x (a # as) y \<longleftrightarrow> x = a \<and> hpath m (hptr m a) as y"

lemma hpath_append [simp]: "hpath m x (as @ bs) y \<longleftrightarrow> (\<exists>z. hpath m x as z \<and> hpath m z bs y)"
  by (induction as arbitrary: x) auto

lemma hpath_cong: "\<forall>a\<in>set as. hptr m' a = hptr m a \<Longrightarrow> hpath m' x as y \<longleftrightarrow> hpath m x as y"
  by (induction as arbitrary: x) auto

text \<open>The bytes a block takes; the static header has size 0 and takes eight.\<close>

definition bytes :: "mem \<Rightarrow> u32 \<Rightarrow> nat set" where
  "bytes m a = {unat a ..< unat a + 8 * unat (hsize m a)}"

definition stop_of :: "mem \<Rightarrow> u32 \<Rightarrow> nat" where
  "stop_of m a = unat a + 8 * max 1 (unat (hsize m a))"

definition free_bytes :: "mem \<Rightarrow> u32 list \<Rightarrow> nat set" where
  "free_bytes m L = (\<Union>a\<in>set L. bytes m a)"

text \<open>
  The list: circular from the static header, in address order, with a gap between any two blocks,
  below \<open>hi\<close>.
\<close>

definition flist_ok :: "u32 \<Rightarrow> mem \<Rightarrow> u32 list \<Rightarrow> nat \<Rightarrow> bool" where
  "flist_ok base m L hi \<longleftrightarrow>
     hpath m base L base \<and> base \<noteq> 0 \<and> base \<in> set L \<and> hsize m base = 0 \<and>
     (\<forall>a\<in>set L. a \<noteq> base \<longrightarrow> hsize m a \<noteq> 0) \<and>
     sorted_wrt (\<lambda>a b. stop_of m a < unat b) L \<and> (\<forall>a\<in>set L. stop_of m a \<le> hi) \<and> hi \<le> 2147483648"

lemma stop_of_ge: "unat a + 8 \<le> stop_of m a" "unat a + 8 * unat (hsize m a) \<le> stop_of m a"
  by (auto simp: stop_of_def)

lemma stop_of_eq: "hsize m a \<noteq> 0 \<Longrightarrow> stop_of m a = unat a + 8 * unat (hsize m a)"
  by (auto simp: stop_of_def max_def unat_eq_zero) (metis One_nat_def le_less less_Suc0 not_le unat_eq_zero)

lemma flist_below: "flist_ok base m L hi \<Longrightarrow> a \<in> set L \<Longrightarrow> below a"
  unfolding flist_ok_def using stop_of_ge(1) by (metis le_trans)

lemma flist_ordered:
  assumes "flist_ok base m (xs @ p # ys) hi"
  shows "a \<in> set xs \<Longrightarrow> stop_of m a < unat p" "b \<in> set ys \<Longrightarrow> stop_of m p < unat b"
    "a \<in> set xs \<Longrightarrow> b \<in> set ys \<Longrightarrow> stop_of m a < unat b"
  using assms by (auto simp: flist_ok_def sorted_wrt_append)

lemma flist_base:
  assumes "flist_ok base m L hi"
  obtains ys where "L = base # ys"
  using assms unfolding flist_ok_def by (cases L) auto

lemma flist_base_least: "flist_ok base m L hi \<Longrightarrow> a \<in> set L \<Longrightarrow> a \<noteq> base \<Longrightarrow> unat base + 8 < unat a"
proof -
  assume L: "flist_ok base m L hi" and a: "a \<in> set L" "a \<noteq> base"
  obtain ys where ys: "L = base # ys" by (rule flist_base [OF L])
  then have "stop_of m base < unat a" using flist_ordered(2) [of base m "[]" base ys hi a] L a by simp
  then show ?thesis using stop_of_ge(1) [of base m] by simp
qed

lemma flist_apart:
  assumes "flist_ok base m L hi" "a \<in> set L" "b \<in> set L" "a \<noteq> b"
  shows "stop_of m a < unat b \<or> stop_of m b < unat a"
proof -
  obtain xs ys where L: "L = xs @ a # ys" using assms(2) split_list by fastforce
  with assms(3,4) consider "b \<in> set xs" | "b \<in> set ys" by auto
  then show ?thesis using flist_ordered [OF assms(1) [unfolded L]] by cases auto
qed

section \<open>The search of free\<close>

text \<open>The successor in the list, from its two ends.\<close>

lemma flist_next:
  assumes "flist_ok base m (xs @ p # ys) hi"
  shows "hptr m p = (case ys of [] \<Rightarrow> base | q # _ \<Rightarrow> q)"
  using assms by (auto simp: flist_ok_def split: list.splits)

lemma search_up:
  assumes "flist_ok base m (xs @ p # ys) hi" "p < bp" "base < bp" "bp \<notin> set (xs @ p # ys)"
  shows "\<exists>us q vs. xs @ p # ys = us @ q # vs \<and> q < bp \<and> (\<forall>v\<in>set vs. bp < v) \<and> free_search m bp p = Some q"
  using assms
proof (induction ys arbitrary: xs p)
  case Nil
  then have "free_search m bp p = Some p"
    using flist_next [OF Nil(1)] flist_base_least [OF Nil(1), of p]
    by (subst free_search.simps, cases "p = base") (auto simp: word_less_nat_alt word_le_nat_alt)
  with Nil show ?case by fastforce
next
  case (Cons q ys)
  have lt: "p < q" using flist_ordered(2) [OF Cons.prems(1), of q] stop_of_ge(1) [of p m]
    by (simp add: word_less_nat_alt)
  have nx: "hptr m p = q" using flist_next [OF Cons.prems(1)] by simp
  show ?case
  proof (cases "bp < q")
    case True
    have "bp < v" if "v \<in> set (q # ys)" for v
      using that True flist_ordered(2) [of base m "xs @ [p]" q ys hi v] Cons.prems(1) stop_of_ge(1) [of q m]
      by (auto simp: word_less_nat_alt)
    moreover have "free_search m bp p = Some p"
      using True nx Cons.prems(2) by (subst free_search.simps) simp
    ultimately show ?thesis using Cons.prems(2) by blast
  next
    case False
    then have "q < bp" using Cons.prems(4) by auto
    moreover have "free_search m bp p = free_search m bp q"
      using False lt nx by (subst free_search.simps [of m bp p]) auto
    moreover have "xs @ p # q # ys = (xs @ [p]) @ q # ys" by simp
    ultimately show ?thesis
      using Cons.IH [of "xs @ [p]" q] Cons.prems(1,3,4) by metis
  qed
qed

lemma search_down:
  assumes "flist_ok base m (xs @ p # ys) hi" "bp < p" "base < bp" "bp \<notin> set (xs @ p # ys)"
  shows "free_search m bp p = free_search m bp base"
  using assms
proof (induction ys arbitrary: xs p)
  case Nil
  then show ?case using flist_next [OF Nil(1)]
    by (subst free_search.simps) (auto)
next
  case (Cons q ys)
  have lt: "p < q" using flist_ordered(2) [OF Cons.prems(1), of q] stop_of_ge(1) [of p m]
    by (simp add: word_less_nat_alt)
  have nx: "hptr m p = q" using flist_next [OF Cons.prems(1)] by simp
  then have "free_search m bp p = free_search m bp q"
    using lt Cons.prems(2) by (subst free_search.simps [of m bp p]) auto
  then show ?case using Cons.IH [of "xs @ [p]" q] Cons.prems lt by simp
qed

lemma free_search_spec:
  assumes "flist_ok base m L hi" "p \<in> set L" "base < bp" "bp \<notin> set L"
  obtains us q vs where "L = us @ q # vs" "q < bp" "\<forall>v\<in>set vs. bp < v" "free_search m bp p = Some q"
proof -
  obtain xs ys where L: "L = xs @ p # ys" using assms(2) split_list by fastforce
  obtain zs where B: "L = base # zs" by (rule flist_base [OF assms(1)])
  have "p \<noteq> bp" using assms(2,4) by auto
  then consider "p < bp" | "bp < p" by force
  then show ?thesis
  proof cases
    case 1
    then show ?thesis using search_up [of base m xs p ys hi bp] assms L that by blast
  next
    case 2
    then have "free_search m bp p = free_search m bp base"
      using search_down [of base m xs p ys hi bp] assms L by simp
    then show ?thesis using search_up [of base m "[]" base zs hi bp] assms B that by auto
  qed
qed

section \<open>Joining blocks\<close>

text \<open>A block \<open>b\<close> outside the list, to be put after \<open>p\<close>.\<close>

definition block_fits :: "u32 \<Rightarrow> mem \<Rightarrow> u32 list \<Rightarrow> u32 \<Rightarrow> nat \<Rightarrow> bool" where
  "block_fits base m L b hi \<longleftrightarrow>
     hsize m b \<noteq> 0 \<and> unat b + 8 * unat (hsize m b) \<le> hi \<and> unat base + 8 < unat b \<and>
     (\<forall>a\<in>set L. unat b + 8 * unat (hsize m b) \<le> unat a \<or> stop_of m a \<le> unat b)"

lemma block_fits_apart:
  assumes "flist_ok base m L hi" "block_fits base m L b hi"
  shows "below b" "a \<in> set L \<Longrightarrow> apart a b" "b \<notin> set L" "base < b"
proof -
  have s: "8 \<le> 8 * unat (hsize m b)" using assms(2) by (auto simp: block_fits_def unat_gt_0 Suc_le_eq)
  then show "below b" using assms by (auto simp: block_fits_def flist_ok_def)
  show ap: "apart a b" if "a \<in> set L" for a
    using assms(2) s that stop_of_ge(1) [of a m] unfolding block_fits_def apart_def by fastforce
  show "b \<notin> set L" using ap by (fastforce simp: apart_def)
  show "base < b" using assms(2) by (auto simp: block_fits_def word_less_nat_alt)
qed

lemma stop_of_cong: "hsize m' a = hsize m a \<Longrightarrow> stop_of m' a = stop_of m a"
  by (simp add: stop_of_def)

lemma bytes_cong: "hsize m' a = hsize m a \<Longrightarrow> bytes m' a = bytes m a"
  by (simp add: bytes_def)

lemma sorted_stop_cong:
  "\<forall>a\<in>set L. hsize m' a = hsize m a \<Longrightarrow>
   sorted_wrt (\<lambda>a b. stop_of m' a < unat b) L \<longleftrightarrow> sorted_wrt (\<lambda>a b. stop_of m a < unat b) L"
  by (induction L) (auto simp: stop_of_def)

text \<open>After the first half of \<open>free\<close>: \<open>b\<close> has its successor and its final upper end.\<close>

definition half_joined :: "u32 \<Rightarrow> mem \<Rightarrow> mem \<Rightarrow> u32 list \<Rightarrow> u32 \<Rightarrow> u32 list \<Rightarrow> nat \<Rightarrow> bool" where
  "half_joined base m m1 vs b vs' hi \<longleftrightarrow>
     hpath m1 (hptr m1 b) vs' base \<and> hsize m b \<le> hsize m1 b \<and> unat b + 8 * unat (hsize m1 b) \<le> hi \<and>
     set vs' \<subseteq> set vs \<and> (\<forall>v\<in>set vs'. unat b + 8 * unat (hsize m1 b) < unat v) \<and>
     sorted_wrt (\<lambda>a b. stop_of m1 a < unat b) vs' \<and>
     bytes m1 b \<union> (\<Union>v\<in>set vs'. bytes m1 v) = bytes m b \<union> (\<Union>v\<in>set vs. bytes m v)"

lemma join_next_frame:
  assumes "below b" "x < unat b \<or> unat b + 8 \<le> x"
  shows "join_next b p m x = m x"
  using assms by (simp add: join_next_def Let_def header_outside)

lemma join_next_others:
  assumes "below b" "below a" "apart a b"
  shows "hptr (join_next b p m) a = hptr m a" "hsize (join_next b p m) a = hsize m a"
  using assms by (simp_all add: join_next_def Let_def header_apart)

lemma join_next_ok:
  assumes L: "flist_ok base m (us @ p # vs) hi" and b: "block_fits base m (us @ p # vs) b hi"
    and above: "\<forall>v\<in>set vs. b < v"
  shows "\<exists>vs'. half_joined base m (join_next b p m) vs b vs' hi"
proof -
  let ?m = "join_next b p m" and ?n = "unat (hsize m b)"
  note A = block_fits_apart [OF L b]
  note nx = flist_next [OF L]
  have hi: "unat b + 8 * ?n \<le> hi" "hi \<le> 2147483648" using L b by (auto simp: flist_ok_def block_fits_def)
  have same: "hptr ?m a = hptr m a" "hsize ?m a = hsize m a" if "a \<in> set (us @ p # vs)" for a
    using join_next_others that A flist_below [OF L] by blast+
  have un: "unat (hadd b (hsize m b)) = unat b + 8 * ?n" using hi by (intro hadd_eq) simp
  have up: "unat b + 8 * ?n \<le> unat v" if "v \<in> set vs" for v
    using b above that stop_of_ge(1) [of v m] by (fastforce simp: block_fits_def word_less_nat_alt)
  have tails: "hpath ?m x ws y \<longleftrightarrow> hpath m x ws y" if "set ws \<subseteq> set vs" for x ws y
    using that same by (intro hpath_cong) auto
  show ?thesis
  proof (cases "hadd b (hsize m b) = hptr m p")
    case False
    then have m1: "hptr ?m b = hptr m p" "hsize ?m b = hsize m b"
      using A(1) by (simp_all add: join_next_def header_other_field)
    have "unat b + 8 * ?n < unat v" if v: "v \<in> set vs" for v
    proof (cases vs)
      case (Cons q ws)
      then have "unat q \<noteq> unat b + 8 * ?n" using False nx un by (metis list.simps(5) unat_eq_nat_uint word_eq_iff_unsigned)
      then have "unat b + 8 * ?n < unat q" using up [of q] Cons by simp
      moreover have "unat q \<le> unat v"
        using v Cons flist_ordered(2) [of base m "us @ [p]" q ws hi v] L stop_of_ge(1) [of q m] by auto
      ultimately show ?thesis by simp
    qed (use v in simp)
    moreover have "hpath m (hptr m p) vs base" using L by (auto simp: flist_ok_def)
    moreover have "sorted_wrt (\<lambda>a b. stop_of ?m a < unat b) vs"
      using L same by (subst sorted_stop_cong [of vs _ m]) (auto simp: flist_ok_def sorted_wrt_append)
    ultimately have "half_joined base m ?m vs b vs hi"
      unfolding half_joined_def m1(2)
      using m1 hi(1) tails [OF order_refl] same bytes_cong [of ?m _ m]
      by (intro conjI) (simp_all only: m1 order_refl ball_simps UN_simps, auto)
    then show ?thesis ..
  next
    case True
    have "vs \<noteq> []" using nx True un A(4) by (auto simp: word_less_nat_alt)
    then obtain q ws where vs: "vs = q # ws" by (cases vs) auto
    have q: "hptr m p = q" "unat q = unat b + 8 * ?n" using nx vs True un by auto
    have "q \<noteq> base" using above vs A(4) by auto
    then have q0: "hsize m q \<noteq> 0" using L vs by (auto simp: flist_ok_def)
    have qhi: "unat q + 8 * unat (hsize m q) \<le> hi" using L vs stop_of_ge(2) [of q m] by (fastforce simp: flist_ok_def)
    have ap: "below q" "apart q b" "below p" "apart p b" using A flist_below [OF L] vs by auto
    have m1: "hptr ?m b = hptr m q" "hsize ?m b = hsize m b + hsize m q"
      using True A(1) ap q by (simp_all add: join_next_def Let_def header_other_field header_apart)
    have sz: "unat (hsize ?m b) = ?n + unat (hsize m q)"
      unfolding m1 using qhi q hi by (subst unat_plus_if') simp
    have "half_joined base m ?m vs b ws hi"
      unfolding half_joined_def
    proof (intro conjI)
      show "hpath ?m (hptr ?m b) ws base" using tails [of ws] L vs m1(1) by (auto simp: flist_ok_def)
      show "hsize m b \<le> hsize ?m b" "unat b + 8 * unat (hsize ?m b) \<le> hi" "set ws \<subseteq> set vs"
        using sz q(2) qhi vs by (auto simp: word_le_nat_alt)
      show "\<forall>v\<in>set ws. unat b + 8 * unat (hsize ?m b) < unat v"
        using flist_ordered(2) [of base m "us @ [p]" q ws hi] L vs stop_of_ge(2) [of q m] sz q(2) by fastforce
      show "sorted_wrt (\<lambda>a b. stop_of ?m a < unat b) ws"
        using L same vs by (subst sorted_stop_cong [of ws _ m]) (auto simp: flist_ok_def sorted_wrt_append)
      have "bytes ?m b = bytes m b \<union> bytes m q" using q(2) sz by (auto simp: bytes_def)
      moreover have "(\<Union>v\<in>set ws. bytes ?m v) = (\<Union>v\<in>set ws. bytes m v)"
        using same vs by (intro SUP_cong bytes_cong) auto
      ultimately show "bytes ?m b \<union> (\<Union>v\<in>set ws. bytes ?m v) = bytes m b \<union> (\<Union>v\<in>set vs. bytes m v)"
        using vs by auto
    qed
    then show ?thesis ..
  qed
qed

lemma join_prev_others:
  assumes "below p" "below a" "apart a p"
  shows "hptr (join_prev b p m) a = hptr m a" "hsize (join_prev b p m) a = hsize m a"
  using assms by (simp_all add: join_prev_def Let_def header_apart)

lemma join_prev_frame:
  assumes "below p" "x < unat p \<or> unat p + 8 \<le> x"
  shows "join_prev b p m x = m x"
  using assms by (simp add: join_prev_def Let_def header_outside)

text \<open>
  The list with the front of one list and another rest, when the memory agrees on the front and
  the rest is in order after \<open>p\<close>.
\<close>

lemma flist_replace:
  assumes L: "flist_ok base m (us @ p # vs) hi"
    and front: "\<forall>a\<in>set us. hptr m' a = hptr m a \<and> hsize m' a = hsize m a" "p = base \<longleftrightarrow> hsize m' p = 0"
    and "base \<notin> set rest" "hpath m' (hptr m' p) rest base" "\<forall>a\<in>set rest. hsize m' a \<noteq> 0 \<and> stop_of m' p < unat a \<and> stop_of m' a \<le> hi"
      "sorted_wrt (\<lambda>a b. stop_of m' a < unat b) rest" "stop_of m' p \<le> hi" "base \<notin> set vs"
  shows "flist_ok base m' (us @ p # rest) hi"
proof -
  have "hpath m' base us p" using L front(1) hpath_cong [of us m' m] by (auto simp: flist_ok_def)
  moreover have "base \<in> set us \<or> p = base" using L assms(9) by (auto simp: flist_ok_def)
  moreover have "stop_of m' a = stop_of m a" if "a \<in> set us" for a
    using front that by (intro stop_of_cong) simp
  moreover have "stop_of m' a < unat c" if "a \<in> set us" "c \<in> set rest" for a c
  proof -
    have "stop_of m' a = stop_of m a" using front(1) that(1) by (intro stop_of_cong) simp
    moreover have "stop_of m' p < unat c" using assms(6) that(2) by blast
    ultimately show ?thesis using flist_ordered(1) [OF L that(1)] stop_of_ge(1) [of p m'] by simp
  qed
  moreover have "p \<noteq> base \<Longrightarrow> base \<in> set us \<Longrightarrow> hsize m' base = 0" using L front by (simp add: flist_ok_def)
  ultimately show ?thesis
    using L front assms(4-8) sorted_stop_cong [of us m' m]
    unfolding flist_ok_def by (auto simp: sorted_wrt_append)
qed

lemma flist_base_front:
  assumes "flist_ok base m (us @ p # vs) hi" shows "base \<notin> set vs"
proof
  assume v: "base \<in> set vs"
  obtain ys where "us @ p # vs = base # ys" by (rule flist_base [OF assms])
  then have "p = base \<or> base \<in> set us" by (cases us) auto
  then show False
    using v flist_ordered(2) [OF assms v] flist_ordered(3) [OF assms _ v, of base] stop_of_ge(1) [of base m] by auto
qed

lemma join_prev_ok:
  assumes L: "flist_ok base m (us @ p # vs) hi" and b: "block_fits base m (us @ p # vs) b hi" and pb: "p < b"
    and H: "half_joined base m m1 vs b vs' hi"
    and same: "\<forall>a\<in>set (us @ p # vs). hptr m1 a = hptr m a \<and> hsize m1 a = hsize m a"
  shows "\<exists>L'. p \<in> set L' \<and> flist_ok base (join_prev b p m1) L' hi \<and>
    free_bytes (join_prev b p m1) L' = free_bytes m (us @ p # vs) \<union> bytes m b \<and>
    (\<exists>a\<in>set L'. hsize m b \<le> hsize (join_prev b p m1) a)"
proof -
  let ?m = "join_prev b p m1"
  note A = block_fits_apart [OF L b]
  have p: "below p" "apart p b" "hptr m1 p = hptr m p" "hsize m1 p = hsize m p" using A(2) flist_below [OF L] same by auto
  have apb: "apart b p" using p(2) by (auto simp: apart_def)
  have pe: "stop_of m p \<le> unat b" using b pb by (auto simp: block_fits_def word_less_nat_alt)
  have ap: "below a \<and> apart a p" if "a \<in> set us \<or> a \<in> set vs" for a
    using flist_ordered(1,2) [OF L, of a] flist_below [OF L] that stop_of_ge(1) [of a m] stop_of_ge(1) [of p m]
    by (auto simp: apart_def)
  have us: "\<forall>a\<in>set us. hptr ?m a = hptr m a \<and> hsize ?m a = hsize m a"
    using ap same p(1) join_prev_others by simp
  have sub: "set vs' \<subseteq> set vs" using H by (simp add: half_joined_def)
  have vs: "hptr ?m a = hptr m1 a" "hsize ?m a = hsize m1 a" "hsize ?m a = hsize m a" if "a \<in> set vs'" for a
    using that sub ap same p(1) join_prev_others by auto
  have b2: "hptr ?m b = hptr m1 b" "hsize ?m b = hsize m1 b"
    using p(1,2) A(1) join_prev_others [of p b b m1] by (auto simp: apart_def)
  have nb: "base \<notin> set vs" by (rule flist_base_front [OF L])
  have tail: "hpath ?m x vs' base \<longleftrightarrow> hpath m1 x vs' base" for x using vs by (intro hpath_cong) simp
  have srt: "sorted_wrt (\<lambda>a b. stop_of ?m a < unat b) vs'"
    using H vs(2) sorted_stop_cong [of vs' ?m m1] by (simp add: half_joined_def)
  have rest: "\<forall>a\<in>set vs'. hsize ?m a \<noteq> 0 \<and> unat b + 8 * unat (hsize m1 b) < unat a \<and> stop_of ?m a \<le> hi"
  proof
    fix a assume a: "a \<in> set vs'"
    then have "stop_of ?m a = stop_of m a" using vs(3) by (intro stop_of_cong)
    moreover have "hsize m a \<noteq> 0" "stop_of m a \<le> hi" using L sub nb a by (auto simp: flist_ok_def)
    ultimately show "hsize ?m a \<noteq> 0 \<and> unat b + 8 * unat (hsize m1 b) < unat a \<and> stop_of ?m a \<le> hi"
      using H a vs(3) by (simp add: half_joined_def)
  qed
  have FB: "free_bytes m (us @ p # vs) \<union> bytes m b = free_bytes ?m us \<union> bytes m p \<union> (bytes m1 b \<union> (\<Union>v\<in>set vs'. bytes ?m v))"
  proof -
    have "(\<Union>v\<in>set vs'. bytes ?m v) = (\<Union>v\<in>set vs'. bytes m1 v)" "free_bytes ?m us = free_bytes m us"
      unfolding free_bytes_def using vs us by (auto intro!: SUP_cong bytes_cong)
    then show ?thesis using H unfolding half_joined_def by (simp add: free_bytes_def) blast
  qed
  have m1b: "hsize m1 b \<noteq> 0" "hsize m b \<le> hsize m1 b" "unat b + 8 * unat (hsize m1 b) \<le> hi" "hi \<le> 2147483648"
    "hpath m1 (hptr m1 b) vs' base"
    using H b L by (auto simp: half_joined_def block_fits_def flist_ok_def)
  have "unat p + 8 * unat (hsize m p) \<le> unat b" using pe stop_of_ge(2) [of p m] by simp
  then have un: "unat (hadd p (hsize m1 p)) = unat p + 8 * unat (hsize m p)"
    unfolding p(4) using m1b by (intro hadd_eq) simp
  show ?thesis
  proof (cases "hadd p (hsize m1 p) = b")
    case True
    then have b_eq: "unat b = unat p + 8 * unat (hsize m p)" using un by simp
    then have p0: "hsize m p \<noteq> 0" using pb by (auto simp: word_less_nat_alt)
    then have "p \<noteq> base" using L by (auto simp: flist_ok_def)
    have m2: "hptr ?m p = hptr m1 b" "hsize ?m p = hsize m p + hsize m1 b"
      using True p A(1) apb by (simp_all add: join_prev_def Let_def header_other_field header_apart)
    have sz: "unat (hsize ?m p) = unat (hsize m p) + unat (hsize m1 b)"
      unfolding m2 using m1b b_eq by (subst unat_plus_if') simp
    then have z: "hsize ?m p \<noteq> 0" using p0 by (auto simp: unat_eq_zero)
    have stop: "stop_of ?m p = unat b + 8 * unat (hsize m1 b)" using z sz b_eq by (simp add: stop_of_eq)
    have "flist_ok base ?m (us @ p # vs') hi"
    proof (rule flist_replace [OF L us])
      show "\<forall>a\<in>set vs'. hsize ?m a \<noteq> 0 \<and> stop_of ?m p < unat a \<and> stop_of ?m a \<le> hi" using rest stop by simp
      show "hpath ?m (hptr ?m p) vs' base" using m1b(5) tail m2(1) by simp
    qed (use \<open>p \<noteq> base\<close> z nb sub m1b(3) srt stop in auto)
    moreover have "bytes ?m p = bytes m p \<union> bytes m1 b" using sz b_eq by (auto simp: bytes_def)
    moreover have "hsize m b \<le> hsize ?m p" using m1b(2) sz by (simp add: word_le_nat_alt)
    ultimately show ?thesis using FB by (intro exI [of _ "us @ p # vs'"]) (auto simp: free_bytes_def)
  next
    case False
    then have m2: "hptr ?m p = b" "hsize ?m p = hsize m p"
      using p by (simp_all add: join_prev_def header_other_field)
    have zp: "p = base \<longleftrightarrow> hsize m p = 0" using L by (auto simp: flist_ok_def)
    have "stop_of m p < unat b"
    proof (cases "p = base")
      case True
      then show ?thesis using zp b by (simp add: stop_of_def block_fits_def)
    next
      case np: False
      then have "stop_of m p \<noteq> unat b" using False un zp stop_of_eq [of m p] by (simp add: word_unat_eq_iff)
      then show ?thesis using pe by simp
    qed
    moreover have "stop_of ?m p = stop_of m p" using m2 by (simp add: stop_of_def)
    ultimately have sp: "stop_of ?m p < unat b" by simp
    have sb: "stop_of ?m b = unat b + 8 * unat (hsize m1 b)" using b2 m1b(1) by (simp add: stop_of_eq)
    have "flist_ok base ?m (us @ p # b # vs') hi"
    proof (rule flist_replace [OF L us])
      show "p = base \<longleftrightarrow> hsize ?m p = 0" using zp m2 by simp
      show "base \<notin> set (b # vs')" using A(4) nb sub by auto
      show "hpath ?m (hptr ?m p) (b # vs') base" using m1b(5) tail m2 b2 by simp
      show "\<forall>a\<in>set (b # vs'). hsize ?m a \<noteq> 0 \<and> stop_of ?m p < unat a \<and> stop_of ?m a \<le> hi"
      proof
        fix a assume "a \<in> set (b # vs')"
        then consider "a = b" | "a \<in> set vs'" by auto
        then show "hsize ?m a \<noteq> 0 \<and> stop_of ?m p < unat a \<and> stop_of ?m a \<le> hi"
        proof cases
          case 2
          then have "unat b < unat a" using rest by fastforce
          then show ?thesis using rest 2 sp by (meson less_trans)
        qed (use sp sb m1b(1,3) b2(2) in simp)
      qed
      show "sorted_wrt (\<lambda>a b. stop_of ?m a < unat b) (b # vs')" using srt rest sb by simp
      show "stop_of ?m p \<le> hi" using sp m1b(3) by simp
    qed (rule nb)
    moreover have "bytes ?m p = bytes m p" "bytes ?m b = bytes m1 b" using m2 b2 by (simp_all add: bytes_def)
    ultimately show ?thesis using FB m1b(2) b2 by (intro exI [of _ "us @ p # b # vs'"]) (auto simp: free_bytes_def)
  qed
qed

text \<open>The first block of the bytes given back need not stay a block of its own.\<close>

lemma free_ok:
  assumes L: "flist_ok base m L hi" and fp: "fp \<in> set L" and b: "block_fits base m L b hi"
  obtains p L' where "free_search m b fp = Some p" "p \<in> set L'" "flist_ok base (join_prev b p (join_next b p m)) L' hi"
    "free_bytes (join_prev b p (join_next b p m)) L' = free_bytes m L \<union> bytes m b"
    "\<exists>a\<in>set L'. hsize m b \<le> hsize (join_prev b p (join_next b p m)) a"
    "\<forall>x. x \<notin> {unat base ..< unat base + 8} \<union> free_bytes m L \<union> bytes m b \<longrightarrow> join_prev b p (join_next b p m) x = m x"
proof -
  note A = block_fits_apart [OF L b]
  obtain us p vs where p: "L = us @ p # vs" "p < b" "\<forall>v\<in>set vs. b < v" "free_search m b fp = Some p"
    by (rule free_search_spec [OF L fp A(4,3)])
  note L' = L [unfolded p(1)] and b' = b [unfolded p(1)]
  obtain vs' where H: "half_joined base m (join_next b p m) vs b vs' hi"
    using join_next_ok [OF L' b' p(3)] by blast
  have same: "\<forall>a\<in>set (us @ p # vs). hptr (join_next b p m) a = hptr m a \<and> hsize (join_next b p m) a = hsize m a"
    using join_next_others A(1,2) flist_below [OF L] p(1) by blast
  have hp: "x \<in> {unat base ..< unat base + 8} \<union> free_bytes m L" if "unat p \<le> x" "x < unat p + 8" for x
  proof (cases "p = base")
    case False
    then have "hsize m p \<noteq> 0" using L p(1) by (simp add: flist_ok_def)
    then have "x \<in> bytes m p" using that stop_of_ge(1) [of p m] by (auto simp: bytes_def stop_of_eq)
    then show ?thesis using p(1) by (auto simp: free_bytes_def)
  qed (use that in simp)
  have hb: "x \<in> bytes m b" if "unat b \<le> x" "x < unat b + 8" for x
    using that b stop_of_ge(1) [of b m] by (auto simp: bytes_def stop_of_eq block_fits_def)
  have fr: "join_prev b p (join_next b p m) x = m x" if "x \<notin> {unat base ..< unat base + 8} \<union> free_bytes m L \<union> bytes m b" for x
  proof -
    have "x < unat p \<or> unat p + 8 \<le> x" "x < unat b \<or> unat b + 8 \<le> x" using hp [of x] hb [of x] that by (meson UnI1 UnI2 not_le)+
    then show ?thesis using join_prev_frame join_next_frame A(1) flist_below [OF L] p(1) by simp
  qed
  then show ?thesis using join_prev_ok [OF L' b' p(2) H same] p(1,4) that by blast
qed

end
