(* ===== verification/Umalloc_Spec.thy ===== *)
theory Umalloc_Spec
  imports Umalloc
begin

text \<open>
  Correctness of the allocator of \<open>umalloc.c\<close>: \<open>malloc\<close> and \<open>free\<close> always return, the blocks in
  use never overlap each other or the free list, and the free list and the blocks in use together
  are all the memory \<open>sbrk\<close> has given.
\<close>

section \<open>Taking a block\<close>

lemma flist_bytes_disjoint:
  assumes "flist_ok base m L hi" "a \<in> set L" "b \<in> set L" "a \<noteq> b"
  shows "bytes m a \<inter> bytes m b = {}"
  using flist_apart [OF assms] stop_of_ge [of a m] stop_of_ge [of b m] by (auto simp: bytes_def)

lemma header_bytes:
  assumes "flist_ok base m L hi" "a \<in> set L" "x \<notin> {unat base ..< unat base + 8} \<union> free_bytes m L"
  shows "x < unat a \<or> unat a + 8 \<le> x"
proof (cases "a = base")
  case False
  then have "hsize m a \<noteq> 0" using assms(1,2) by (simp add: flist_ok_def)
  moreover have "x \<notin> bytes m a" using assms(2,3) by (auto simp: free_bytes_def)
  ultimately show ?thesis using stop_of_ge(1) [of a m] by (auto simp: bytes_def stop_of_eq)
qed (use assms in auto)

lemma flist_rest:
  assumes "flist_ok base m (us @ p # vs) hi"
  shows "hpath m (hptr m p) vs base" "\<forall>a\<in>set vs. hsize m a \<noteq> 0 \<and> stop_of m a \<le> hi"
    "sorted_wrt (\<lambda>a b. stop_of m a < unat b) vs"
  using assms flist_base_front [OF assms] unfolding flist_ok_def by (auto simp: sorted_wrt_append)

text \<open>The block with header \<open>h\<close> is cut out of the free list.\<close>

definition cut_out :: "u32 \<Rightarrow> nat \<Rightarrow> mem \<Rightarrow> u32 list \<Rightarrow> u32 \<Rightarrow> mem \<Rightarrow> u32 list \<Rightarrow> bool" where
  "cut_out base hi m L h m' L' \<longleftrightarrow>
     flist_ok base m' L' hi \<and> hsize m' h \<noteq> 0 \<and> unat h + 8 * unat (hsize m' h) \<le> hi \<and> unat base + 8 < unat h \<and>
     bytes m' h \<subseteq> free_bytes m L \<and> free_bytes m' L' = free_bytes m L - bytes m' h \<and>
     (\<forall>x. x \<notin> {unat base ..< unat base + 8} \<union> free_bytes m L \<longrightarrow> m' x = m x)"

lemma take_whole:
  assumes L: "flist_ok base m (xs @ prev # p # ys) hi"
  defines "m' \<equiv> set_hptr prev (hptr m p) m"
  shows "cut_out base hi m (xs @ prev # p # ys) p m' (xs @ prev # ys) \<and> hsize m' p = hsize m p"
proof -
  let ?L = "xs @ prev # p # ys"
  note ord = flist_ordered [OF L]
  have L2: "flist_ok base m ((xs @ [prev]) @ p # ys) hi" using L by simp
  note ord2 = flist_ordered [OF L2]
  have nb: "base \<notin> set (p # ys)" by (rule flist_base_front [OF L])
  have prev: "below prev" by (rule flist_below [OF L]) simp
  have ap: "below a \<and> apart a prev" if "a \<in> set xs \<union> set (p # ys)" for a
    using that ord(1,2) [of a] flist_below [OF L, of a] stop_of_ge(1) [of a m] stop_of_ge(1) [of prev m]
    by (auto simp: apart_def)
  have same: "hptr m' a = hptr m a" "hsize m' a = hsize m a" if "a \<in> set xs \<union> set (p # ys)" for a
    using header_apart [of a prev "hptr m p" m] ap [OF that] prev by (simp_all add: m'_def)
  have pv: "hptr m' prev = hptr m p" "hsize m' prev = hsize m prev"
    using prev by (simp_all add: m'_def header_other_field)
  have sz: "hsize m' a = hsize m a" if "a \<in> set ?L" for a using that same pv by auto
  have st: "stop_of m' a = stop_of m a" if "a \<in> set ?L" for a using sz that by (simp add: stop_of_def)
  have eqb: "bytes m' a = bytes m a" if "a \<in> set ?L" for a using sz that by (simp add: bytes_def)
  have p: "hsize m p \<noteq> 0" "stop_of m p \<le> hi" using L nb by (auto simp: flist_ok_def)
  have "flist_ok base m' (xs @ prev # ys) hi"
  proof (rule flist_replace [OF L])
    show "\<forall>a\<in>set xs. hptr m' a = hptr m a \<and> hsize m' a = hsize m a" using same by simp
    show "prev = base \<longleftrightarrow> hsize m' prev = 0" using pv L by (auto simp: flist_ok_def)
    have "hpath m' (hptr m p) ys base \<longleftrightarrow> hpath m (hptr m p) ys base" using same by (intro hpath_cong) simp
    then show "hpath m' (hptr m' prev) ys base" using flist_rest(1) [OF L2] pv(1) by simp
    show "\<forall>a\<in>set ys. hsize m' a \<noteq> 0 \<and> stop_of m' prev < unat a \<and> stop_of m' a \<le> hi"
      using flist_rest(2) [OF L2] st sz ord(2) by simp
    show "sorted_wrt (\<lambda>a b. stop_of m' a < unat b) ys"
      using flist_rest(3) [OF L2] sz sorted_stop_cong [of ys m' m] by simp
    show "stop_of m' prev \<le> hi" using L st by (simp add: flist_ok_def)
  qed (use nb in auto)
  moreover have "unat base + 8 < unat p" using flist_base_least [OF L, of p] nb by auto
  moreover have "free_bytes m' (xs @ prev # ys) = free_bytes m ?L - bytes m p"
  proof -
    have dj: "bytes m a \<inter> bytes m p = {}" if "a \<in> set (xs @ prev # ys)" for a
    proof -
      have "a \<noteq> p" using that ord2(1,2) [of a] stop_of_ge(1) [of a m] stop_of_ge(1) [of p m] by auto
      then show ?thesis using that by (intro flist_bytes_disjoint [OF L]) auto
    qed
    have "free_bytes m' (xs @ prev # ys) = (\<Union>a\<in>set (xs @ prev # ys). bytes m a)"
      unfolding free_bytes_def by (intro SUP_cong eqb refl) auto
    also have "\<dots> = free_bytes m ?L - bytes m p" using dj by (auto simp: free_bytes_def)
    finally show ?thesis .
  qed
  moreover have "m' x = m x" if "x \<notin> {unat base ..< unat base + 8} \<union> free_bytes m ?L" for x
    unfolding m'_def using header_bytes [OF L _ that, of prev] prev by (intro header_outside) auto
  ultimately show ?thesis
    using sz [of p] p eqb [of p] by (auto simp: cut_out_def free_bytes_def stop_of_eq)
qed

lemma take_tail:
  assumes L: "flist_ok base m (us @ p # ys) hi" and p: "p \<noteq> base" and n: "n \<noteq> 0" "n < hsize m p"
  defines "m1 \<equiv> set_hsize p (hsize m p - n) m"
  defines "q \<equiv> hadd p (hsize m p - n)"
  defines "m' \<equiv> set_hsize q n m1"
  shows "cut_out base hi m (us @ p # ys) q m' (us @ p # ys) \<and> hsize m' q = n"
proof -
  let ?L = "us @ p # ys"
  note ord = flist_ordered [OF L] and rest = flist_rest [OF L]
  have sz: "unat (hsize m p - n) = unat (hsize m p) - unat n" "unat n < unat (hsize m p)" "0 < unat n"
    using n unat_sub [OF less_imp_le [OF n(2)]] by (auto simp: word_less_nat_alt unat_gt_0)
  have p8: "unat p + 8 * unat (hsize m p) \<le> hi" "hi \<le> 2147483648" using L stop_of_ge(2) [of p m] by (fastforce simp: flist_ok_def)+
  then have uq: "unat q = unat p + 8 * (unat (hsize m p) - unat n)"
    unfolding q_def using sz by (subst hadd_eq) auto
  then have q: "unat p + 8 \<le> unat q" "unat q + 8 * unat n = unat p + 8 * unat (hsize m p)" using sz by auto
  have bl: "below p" "below q" using q p8 sz by auto
  have ap: "below a \<and> apart a p \<and> apart a q" if "a \<in> set us \<union> set ys" for a
    using that ord(1,2) [of a] flist_below [OF L, of a] stop_of_ge [of a m] stop_of_ge [of p m] q sz
    by (auto simp: apart_def)
  have same: "hptr m' a = hptr m a" "hsize m' a = hsize m a" if "a \<in> set us \<union> set ys" for a
    using ap [OF that] bl by (simp_all add: m'_def m1_def header_apart)
  have pq: "apart p q" using q by (simp add: apart_def)
  then have mp: "hptr m' p = hptr m p" "hsize m' p = hsize m p - n"
    using bl by (simp_all add: m'_def m1_def header_apart header_other_field)
  have mq: "hsize m' q = n" by (simp add: m'_def)
  have z: "hsize m' p \<noteq> 0" using mp sz by (metis unat_0 zero_less_diff less_irrefl)
  then have stp: "stop_of m' p = unat q" "stop_of m p = unat p + 8 * unat (hsize m p)"
    using mp(2) sz uq L p by (auto simp: stop_of_eq flist_ok_def)
  have st: "stop_of m' a = stop_of m a" "bytes m' a = bytes m a" if "a \<in> set us \<union> set ys" for a
    using same [OF that] by (simp_all add: stop_of_def bytes_def)
  have "flist_ok base m' ?L hi"
  proof (rule flist_replace [OF L])
    show "\<forall>a\<in>set us. hptr m' a = hptr m a \<and> hsize m' a = hsize m a" using same by simp
    show "hpath m' (hptr m' p) ys base" using rest(1) mp same hpath_cong [of ys m' m] by simp
    show "\<forall>a\<in>set ys. hsize m' a \<noteq> 0 \<and> stop_of m' p < unat a \<and> stop_of m' a \<le> hi"
      using rest(2) same st stp q ord(2) by fastforce
    show "sorted_wrt (\<lambda>a b. stop_of m' a < unat b) ys" using rest(3) same sorted_stop_cong [of ys m' m] by simp
    show "stop_of m' p \<le> hi" using stp q p8 by simp
  qed (use p z flist_base_front [OF L] in auto)
  moreover have bq: "bytes m p = bytes m' p \<union> bytes m' q" "bytes m' p \<inter> bytes m' q = {}"
    using mp(2) mq sz uq q by (auto simp: bytes_def)
  moreover have "free_bytes m' ?L = free_bytes m ?L - bytes m' q"
  proof -
    have dj: "bytes m a \<inter> bytes m p = {}" if "a \<in> set us \<union> set ys" for a
      using that ord(1,2) [of a] stop_of_ge [of a m] stop_of_ge [of p m] by (auto simp: bytes_def)
    have "free_bytes m' ?L = (\<Union>a\<in>set us \<union> set ys. bytes m a) \<union> bytes m' p"
      using st(2) by (auto simp: free_bytes_def)
    also have "\<dots> = free_bytes m ?L - bytes m' q" using dj bq by (auto simp: free_bytes_def)
    finally show ?thesis .
  qed
  moreover have "unat base + 8 < unat q" using flist_base_least [OF L, of p] p q by simp
  moreover have "m' x = m x" if x: "x \<notin> {unat base ..< unat base + 8} \<union> free_bytes m ?L" for x
  proof -
    have "x \<notin> bytes m p" using x by (auto simp: free_bytes_def)
    then have "x < unat p \<or> unat p + 8 \<le> x" "x < unat q \<or> unat q + 8 \<le> x"
      using header_bytes [OF L _ x, of p] q sz by (auto simp: bytes_def)
    then show ?thesis using bl by (simp add: m'_def m1_def header_outside)
  qed
  ultimately show ?thesis
    using mq n(1) q p8 by (auto simp: cut_out_def free_bytes_def)
qed

lemma take_block_ok:
  assumes L: "flist_ok base (umem s) L hi" and prev: "prev \<in> set L" "hptr (umem s) prev = p"
    and n: "n \<noteq> 0" "n \<le> hsize (umem s) p"
  obtains h s' L' where "take_block n prev p s = (hadd h 1, s')" "cut_out base hi (umem s) L h (umem s') L'"
    "hsize (umem s') h = n" "freep s' = prev" "prev \<in> set L'" "kstate s' = kstate s"
proof -
  have p: "p \<noteq> base" using L n by (auto simp: flist_ok_def)
  obtain xs ys' where "L = xs @ prev # ys'" using prev(1) split_list by fastforce
  with flist_next [of base "umem s" xs prev ys' hi] L prev(2) p obtain ys
    where Ls: "L = xs @ prev # p # ys" by (auto split: list.splits)
  show ?thesis
  proof (cases "hsize (umem s) p = n")
    case True
    then show ?thesis
      using take_whole [OF L [unfolded Ls]] Ls
      by (intro that [of p "s\<lparr>umem := set_hptr prev (hptr (umem s) p) (umem s), freep := prev\<rparr>" "xs @ prev # ys"])
        (simp_all add: take_block_def)
  next
    case False
    then have lt: "n < hsize (umem s) p" using n(2) by simp
    have Ls': "L = (xs @ [prev]) @ p # ys" using Ls by simp
    let ?q = "hadd p (hsize (umem s) p - n)"
    show ?thesis
      using take_tail [OF L [unfolded Ls'] p n(1) lt] Ls' False
      by (intro that [of ?q "s\<lparr>umem := set_hsize ?q n (set_hsize p (hsize (umem s) p - n) (umem s)), freep := prev\<rparr>" L])
        (simp_all add: take_block_def Let_def)
  qed
qed

section \<open>The search of malloc\<close>

text \<open>Starting after \<open>freep\<close>, the loop meets every block once and \<open>freep\<close> last.\<close>

lemma flist_ring:
  assumes "flist_ok base m L hi" "fp \<in> set L"
  obtains cs where "hpath m (hptr m fp) (cs @ [fp]) (hptr m fp)" "set (cs @ [fp]) = set L" "fp \<notin> set cs"
proof -
  obtain xs ys where L: "L = xs @ fp # ys" using assms(2) split_list by fastforce
  have "fp \<notin> set xs" "fp \<notin> set ys"
    using flist_ordered(1,2) [OF assms(1) [unfolded L], of fp] stop_of_ge(1) [of fp m] by auto
  then show ?thesis
    using assms(1) L by (intro that [of "ys @ xs"]) (auto simp: flist_ok_def)
qed

lemma loop_finds:
  assumes "hpath (umem s) p (cs @ [freep s]) e" "prev \<in> S" "hptr (umem s) prev = p" "set cs \<subseteq> S" "freep s \<notin> set cs"
    "c \<in> set (cs @ [freep s])" "n \<le> hsize (umem s) c"
  shows "\<exists>q r. q \<in> S \<and> hptr (umem s) q = r \<and> n \<le> hsize (umem s) r \<and>
    malloc_loop sbrk n prev p s = Some (take_block n q r s)"
  using assms
proof (induction cs arbitrary: prev p)
  case Nil
  then show ?case by (subst malloc_loop.simps) auto
next
  case (Cons d cs)
  then have d: "p = d" "d \<in> S" "d \<noteq> freep s" by auto
  show ?case
  proof (cases "n \<le> hsize (umem s) d")
    case True
    then show ?thesis using Cons.prems d by (subst malloc_loop.simps) auto
  next
    case False
    then have "malloc_loop sbrk n prev p s = malloc_loop sbrk n d (hptr (umem s) d) s"
      using d by (subst malloc_loop.simps) simp
    moreover have "c \<in> set (cs @ [freep s])" using False Cons.prems by auto
    ultimately show ?thesis using Cons.IH [of "hptr (umem s) d" d] Cons.prems d by auto
  qed
qed

lemma loop_grows:
  assumes "hpath (umem s) p (cs @ [freep s]) e" "freep s \<notin> set cs" "\<forall>c\<in>set (cs @ [freep s]). hsize (umem s) c < n"
  shows "malloc_loop sbrk n prev p s =
    (case morecore sbrk n s of None \<Rightarrow> None
     | Some (q, s) \<Rightarrow> if q = 0 then Some (0, s) else malloc_loop sbrk n q (hptr (umem s) q) s)"
  using assms
proof (induction cs arbitrary: prev p)
  case Nil
  then show ?case by (subst malloc_loop.simps) auto
next
  case (Cons d cs)
  then have "malloc_loop sbrk n prev p s = malloc_loop sbrk n d (hptr (umem s) d) s"
    by (subst malloc_loop.simps) auto
  then show ?case using Cons by simp
qed

section \<open>More memory\<close>

lemma flist_ok_cong:
  assumes "flist_ok base m L hi" "\<forall>a\<in>set L. hptr m' a = hptr m a \<and> hsize m' a = hsize m a" "hi \<le> hi'" "hi' \<le> 2147483648"
  shows "flist_ok base m' L hi'"
proof -
  have "stop_of m' a = stop_of m a" if "a \<in> set L" for a using assms(2) that by (simp add: stop_of_def)
  moreover have "hpath m' base L base" "sorted_wrt (\<lambda>a b. stop_of m' a < unat b) L"
    using assms(1,2) hpath_cong [of L m' m] sorted_stop_cong [of L m' m] by (simp_all add: flist_ok_def)
  moreover have "hsize m' base = 0" "\<forall>a\<in>set L. a \<noteq> base \<longrightarrow> hsize m' a \<noteq> 0"
    using assms(1,2) by (auto simp: flist_ok_def)
  ultimately show ?thesis using assms(1,3,4) unfolding flist_ok_def by (auto intro: le_trans)
qed

lemma free_bytes_cong: "\<forall>a\<in>set L. hsize m' a = hsize m a \<Longrightarrow> free_bytes m' L = free_bytes m L"
  by (simp add: free_bytes_def bytes_def)

lemma free_bytes_range:
  assumes "flist_ok base m L hi" "x \<in> free_bytes m L"
  shows "unat base + 8 < x" "x < hi"
proof -
  obtain a where a: "a \<in> set L" "x \<in> bytes m a" using assms(2) by (auto simp: free_bytes_def)
  then have "a \<noteq> base" using assms(1) by (auto simp: flist_ok_def bytes_def)
  then show "unat base + 8 < x" "x < hi"
    using flist_base_least [OF assms(1) a(1)] a assms(1) stop_of_ge(2) [of a m] unfolding flist_ok_def bytes_def by fastforce+
qed

text \<open>
  A heap in use: the list ends below the end of the heap \<open>brk\<close>, and \<open>freep\<close> is on it.
\<close>

definition heap_ok :: "('k \<Rightarrow> nat) \<Rightarrow> u32 \<Rightarrow> 'k uheap \<Rightarrow> u32 list \<Rightarrow> bool" where
  "heap_ok brk base s L \<longleftrightarrow>
     flist_ok base (umem s) L (brk (kstate s)) \<and> freep s \<in> set L \<and> unat base + 8 < brk (kstate s)"

text \<open>
  A block of \<open>n\<close> headers was taken from the free bytes and what \<open>sbrk\<close> gave.
\<close>

definition allocated :: "('k \<Rightarrow> nat) \<Rightarrow> u32 \<Rightarrow> u32 \<Rightarrow> 'k uheap \<Rightarrow> u32 list \<Rightarrow> u32 \<Rightarrow> 'k uheap \<Rightarrow> u32 list \<Rightarrow> bool" where
  "allocated brk base n s L h s' L' \<longleftrightarrow>
     (let G = free_bytes (umem s) L \<union> {brk (kstate s) ..< brk (kstate s')} in
      heap_ok brk base s' L' \<and> brk (kstate s) \<le> brk (kstate s') \<and> hsize (umem s') h = n \<and>
      unat base + 8 < unat h \<and> unat h + 8 * unat n \<le> brk (kstate s') \<and>
      bytes (umem s') h \<subseteq> G \<and> free_bytes (umem s') L' = G - bytes (umem s') h \<and>
      (\<forall>x. x \<notin> {unat base ..< unat base + 8} \<union> G \<longrightarrow> umem s' x = umem s x))"

text \<open>The list after \<open>morecore\<close>, with a block that is large enough; a call that failed.\<close>

definition grown :: "('k \<Rightarrow> nat) \<Rightarrow> u32 \<Rightarrow> u32 \<Rightarrow> 'k uheap \<Rightarrow> u32 list \<Rightarrow> 'k uheap \<Rightarrow> u32 list \<Rightarrow> bool" where
  "grown brk base n s L s' L' \<longleftrightarrow>
     heap_ok brk base s' L' \<and> brk (kstate s) \<le> brk (kstate s') \<and> (\<exists>a\<in>set L'. n \<le> hsize (umem s') a) \<and>
     free_bytes (umem s') L' = free_bytes (umem s) L \<union> {brk (kstate s) ..< brk (kstate s')} \<and>
     (\<forall>x. x \<notin> {unat base ..< unat base + 8} \<union> free_bytes (umem s') L' \<longrightarrow> umem s' x = umem s x)"

definition unchanged :: "('k \<Rightarrow> nat) \<Rightarrow> 'k uheap \<Rightarrow> 'k uheap \<Rightarrow> bool" where
  "unchanged brk s s' \<longleftrightarrow> umem s' = umem s \<and> freep s' = freep s \<and> brk (kstate s') = brk (kstate s)"

text \<open>
  What the allocator relies on: \<open>sbrk\<close> returns the old end of the heap and moves the end up by as
  much as was asked, below \<open>KERNBASE\<close>, or returns -1 and leaves it where it was.
\<close>

locale sbrk_law =
  fixes sbrk :: "'k sbrk" and brk :: "'k \<Rightarrow> nat"
  assumes grows: "sbrk n k = Some (p, k') \<Longrightarrow> p \<noteq> - 1 \<Longrightarrow> 0 < n \<Longrightarrow> unat n < 2147483648 \<Longrightarrow> brk k \<le> 2147483648 \<Longrightarrow>
      unat p = brk k \<and> brk k' = brk k + unat n \<and> brk k' \<le> 2147483648"
    and fails: "sbrk n k = Some (- 1, k') \<Longrightarrow> 0 < n \<Longrightarrow> unat n < 2147483648 \<Longrightarrow> brk k \<le> 2147483648 \<Longrightarrow> brk k' = brk k"
begin

lemma free_heap:
  assumes H: "heap_ok brk base s L" and b: "block_fits base (umem s) L b (brk (kstate s))"
  obtains s' L' where "free (b + 8) s = Some s'" "heap_ok brk base s' L'" "kstate s' = kstate s"
    "free_bytes (umem s') L' = free_bytes (umem s) L \<union> bytes (umem s) b"
    "\<exists>a\<in>set L'. hsize (umem s) b \<le> hsize (umem s') a"
    "\<forall>x. x \<notin> {unat base ..< unat base + 8} \<union> free_bytes (umem s) L \<union> bytes (umem s) b \<longrightarrow> umem s' x = umem s x"
proof -
  have L: "flist_ok base (umem s) L (brk (kstate s))" "freep s \<in> set L" using H by (auto simp: heap_ok_def)
  from free_ok [OF L b] obtain p L' where p: "free_search (umem s) b (freep s) = Some p" "p \<in> set L'"
    "flist_ok base (join_prev b p (join_next b p (umem s))) L' (brk (kstate s))"
    "free_bytes (join_prev b p (join_next b p (umem s))) L' = free_bytes (umem s) L \<union> bytes (umem s) b"
    "\<exists>a\<in>set L'. hsize (umem s) b \<le> hsize (join_prev b p (join_next b p (umem s))) a"
    "\<forall>x. x \<notin> {unat base ..< unat base + 8} \<union> free_bytes (umem s) L \<union> bytes (umem s) b \<longrightarrow>
      join_prev b p (join_next b p (umem s)) x = umem s x" by metis
  show ?thesis
    using p H by (intro that [of "s\<lparr>umem := join_prev b p (join_next b p (umem s)), freep := p\<rparr>" L'])
      (simp_all add: free_def sizeof_Header_def heap_ok_def)
qed

lemma take_heap:
  assumes H: "heap_ok brk base s L" and prev: "prev \<in> set L" "hptr (umem s) prev = p" and n: "n \<noteq> 0" "n \<le> hsize (umem s) p"
  obtains h s' L' where "take_block n prev p s = (h + 8, s')" "allocated brk base n s L h s' L'" "kstate s' = kstate s"
proof -
  have L: "flist_ok base (umem s) L (brk (kstate s))" using H by (simp add: heap_ok_def)
  from take_block_ok [OF L prev n] obtain h s' L' where
    t: "take_block n prev p s = (hadd h 1, s')" "cut_out base (brk (kstate s)) (umem s) L h (umem s') L'"
    "hsize (umem s') h = n" "freep s' = prev" "prev \<in> set L'" "kstate s' = kstate s" by metis
  then show ?thesis
    using H by (intro that [of h s' L'])
      (auto simp: hadd_def sizeof_Header_def allocated_def cut_out_def heap_ok_def Let_def)
qed

lemma search_heap:
  assumes H: "heap_ok brk base s L" and n: "n \<noteq> 0" and c: "c \<in> set L" "n \<le> hsize (umem s) c"
  obtains h s' L' where "malloc_loop sbrk n (freep s) (hptr (umem s) (freep s)) s = Some (h + 8, s')"
    "allocated brk base n s L h s' L'" "kstate s' = kstate s"
proof -
  have L: "flist_ok base (umem s) L (brk (kstate s))" "freep s \<in> set L" using H by (auto simp: heap_ok_def)
  obtain cs where cs: "hpath (umem s) (hptr (umem s) (freep s)) (cs @ [freep s]) (hptr (umem s) (freep s))"
    "set (cs @ [freep s]) = set L" "freep s \<notin> set cs"
    by (rule flist_ring [OF L])
  have "set cs \<subseteq> set L" using cs(2) by auto
  from loop_finds [OF cs(1) L(2) refl this cs(3) c(1) [folded cs(2)] c(2)]
  obtain q r where q: "q \<in> set L" "hptr (umem s) q = r" "n \<le> hsize (umem s) r"
    "malloc_loop sbrk n (freep s) (hptr (umem s) (freep s)) s = Some (take_block n q r s)" by blast
  from take_heap [OF H q(1,2) n q(3)] obtain h s' L' where
    "take_block n q r s = (h + 8, s')" "allocated brk base n s L h s' L'" "kstate s' = kstate s" by metis
  then show ?thesis using q(4) that by simp
qed

lemma morecore_heap:
  assumes H: "heap_ok brk base s L" and n: "n \<noteq> 0" "unat n < 268435456"
  shows "case morecore sbrk n s of
      None \<Rightarrow> \<exists>w. sbrk w (kstate s) = None
    | Some (q, s') \<Rightarrow>
        q = 0 \<and> unchanged brk s s' \<or> q \<noteq> 0 \<and> q = freep s' \<and> (\<exists>L'. grown brk base n s L s' L')"
proof -
  define nu where "nu = (if n < 4096 then 4096 else n)"
  have nu: "n \<le> nu" "nu \<noteq> 0" "unat nu < 268435456"
    using n by (auto simp: nu_def)
  then have w: "unat (nu * 8) = 8 * unat nu" by (subst unat_mult_lem [THEN iffD1]) simp_all
  moreover have "0 < unat nu" using nu(2) by (simp add: unat_gt_0)
  ultimately have pos: "0 < nu * 8" "unat (nu * 8) < 2147483648" using nu by (auto simp: word_less_nat_alt)
  have L: "flist_ok base (umem s) L (brk (kstate s))" "freep s \<in> set L" "unat base + 8 < brk (kstate s)"
    using H by (auto simp: heap_ok_def)
  have b0: "brk (kstate s) \<le> 2147483648" using L(1) by (simp add: flist_ok_def)
  note mc = morecore_def [of sbrk n s, folded nu_def, unfolded Let_def sizeof_Header_def]
  consider "sbrk (nu * 8) (kstate s) = None" | k where "sbrk (nu * 8) (kstate s) = Some (- 1, k)"
    | p k where "sbrk (nu * 8) (kstate s) = Some (p, k)" "p \<noteq> - 1" by (cases "sbrk (nu * 8) (kstate s)") auto
  then show ?thesis
  proof cases
    case 1
    then show ?thesis by (auto simp: mc)
  next
    case (2 k)
    then show ?thesis using fails [OF 2 pos b0] by (simp add: mc unchanged_def)
  next
    case sb: (3 p k)
    from grows [OF sb pos b0] have g: "unat p = brk (kstate s)" "brk k = brk (kstate s) + 8 * unat nu" "brk k \<le> 2147483648"
      using w by auto
    let ?s = "s\<lparr>kstate := k, umem := set_hsize p nu (umem s)\<rparr>"
    have bp: "below p" using g \<open>0 < unat nu\<close> by simp
    have ap: "below a \<and> apart a p \<and> stop_of (umem s) a \<le> unat p" if "a \<in> set L" for a
      using L(1) that flist_below [OF L(1) that] g(1) stop_of_ge(1) [of a "umem s"] by (auto simp: apart_def flist_ok_def)
    then have same: "\<forall>a\<in>set L. hptr (umem ?s) a = hptr (umem s) a \<and> hsize (umem ?s) a = hsize (umem s) a"
      using bp by (simp add: header_apart)
    have H1: "heap_ok brk base ?s L"
      using flist_ok_cong [OF L(1) same] g L by (simp add: heap_ok_def)
    have "stop_of (umem ?s) a \<le> unat p" if "a \<in> set L" for a
      using ap [OF that] same that by (simp add: stop_of_def)
    then have "block_fits base (umem ?s) L p (brk (kstate ?s))"
      using g nu(2) L(3) by (simp add: block_fits_def)
    from free_heap [OF H1 this] obtain t L' where t: "free (p + 8) ?s = Some t" "heap_ok brk base t L'" "kstate t = k"
      "free_bytes (umem t) L' = free_bytes (umem ?s) L \<union> bytes (umem ?s) p" "\<exists>a\<in>set L'. nu \<le> hsize (umem t) a"
      "\<forall>x. x \<notin> {unat base ..< unat base + 8} \<union> free_bytes (umem ?s) L \<union> bytes (umem ?s) p \<longrightarrow> umem t x = umem ?s x"
      by (auto simp: header_same)
    have mt: "morecore sbrk n s = Some (freep t, t)" using sb t(1) by (simp add: mc hadd_def sizeof_Header_def)
    have fp: "freep t \<noteq> 0"
      using t(2) flist_base_least [of base "umem t" L' "brk k" "freep t"] t(3) by (auto simp: heap_ok_def flist_ok_def)
    have fb: "free_bytes (umem t) L' = free_bytes (umem s) L \<union> {brk (kstate s) ..< brk k}"
      using t(4) same g free_bytes_cong [of L "umem ?s" "umem s"] by (auto simp: bytes_def)
    have fr: "umem t x = umem s x" if "x \<notin> {unat base ..< unat base + 8} \<union> free_bytes (umem t) L'" for x
    proof -
      have "x < unat p \<or> unat p + 8 \<le> x" using that fb g \<open>0 < unat nu\<close> by auto
      then have "umem ?s x = umem s x" using bp by (simp add: header_outside)
      then show ?thesis using t(4,6) that by simp
    qed
    have "\<exists>a\<in>set L'. n \<le> hsize (umem t) a" using t(5) nu(1) by (meson order_trans)
    then have "grown brk base n s L t L'" using t(2,3) fb fr g by (simp add: grown_def)
    then show ?thesis using mt fp by auto
  qed
qed

text \<open>The loop as a whole: the list is searched once, and once more after \<open>morecore\<close>.\<close>

lemma malloc_heap:
  assumes H: "heap_ok brk base s L" and n: "n \<noteq> 0" "unat n < 268435456"
  shows "case malloc_loop sbrk n (freep s) (hptr (umem s) (freep s)) s of
      None \<Rightarrow> \<exists>w. sbrk w (kstate s) = None
    | Some (q, s') \<Rightarrow>
        (q = 0 \<and> unchanged brk s s') \<or> (\<exists>h L'. q = h + 8 \<and> allocated brk base n s L h s' L')"
proof (cases "\<exists>c\<in>set L. n \<le> hsize (umem s) c")
  case True
  then obtain c where "c \<in> set L" "n \<le> hsize (umem s) c" by blast
  from search_heap [OF H n(1) this] obtain h s' L' where
    "malloc_loop sbrk n (freep s) (hptr (umem s) (freep s)) s = Some (h + 8, s')" "allocated brk base n s L h s' L'" by blast
  then show ?thesis by auto
next
  case False
  have L: "flist_ok base (umem s) L (brk (kstate s))" "freep s \<in> set L" using H by (auto simp: heap_ok_def)
  obtain cs where cs: "hpath (umem s) (hptr (umem s) (freep s)) (cs @ [freep s]) (hptr (umem s) (freep s))"
    "set (cs @ [freep s]) = set L" "freep s \<notin> set cs"
    by (rule flist_ring [OF L])
  have "\<forall>c\<in>set (cs @ [freep s]). hsize (umem s) c < n" using False cs(2) by (auto simp: not_le)
  note loop = loop_grows [OF cs(1,3) this, of sbrk "freep s"]
  show ?thesis
  proof (cases "morecore sbrk n s")
    case None
    then show ?thesis using loop morecore_heap [OF H n] by simp
  next
    case (Some r)
    obtain q t where r: "r = (q, t)" by fastforce
    note M = morecore_heap [OF H n, unfolded Some r, simplified]
    show ?thesis
    proof (cases "q = 0")
      case True
      then show ?thesis using M loop Some r by simp
    next
      case False
      then obtain L1 where G: "q = freep t" "grown brk base n s L t L1" using M by auto
      then obtain a where t: "brk (kstate s) \<le> brk (kstate t)" "heap_ok brk base t L1" "a \<in> set L1" "n \<le> hsize (umem t) a"
        "free_bytes (umem t) L1 = free_bytes (umem s) L \<union> {brk (kstate s) ..< brk (kstate t)}"
        "\<forall>x. x \<notin> {unat base ..< unat base + 8} \<union> free_bytes (umem t) L1 \<longrightarrow> umem t x = umem s x"
        by (auto simp: grown_def)
      from search_heap [OF t(2) n(1) t(3,4)] obtain h s' L' where
        u: "malloc_loop sbrk n (freep t) (hptr (umem t) (freep t)) t = Some (h + 8, s')" "allocated brk base n t L1 h s' L'" "kstate s' = kstate t"
        by metis
      then have "allocated brk base n s L h s' L'"
        using t unfolding allocated_def Let_def by auto
      then show ?thesis using loop Some r False u(1) G(1) by auto
    qed
  qed
qed

end

section \<open>Programs that use the allocator\<close>

text \<open>
  A run of a program: \<open>live\<close> has the pointers it holds, with the sizes it asked for.  It stores
  only inside its blocks, frees only pointers it holds and asks for less than 2 GB at a time.
\<close>

inductive heap_run :: "'k sbrk \<Rightarrow> u32 \<Rightarrow> 'k uheap \<Rightarrow> 'k uheap \<Rightarrow> (u32 \<Rightarrow> nat option) \<Rightarrow> bool"
  for sbrk base s0 where
  run_start: "freep s0 = 0 \<Longrightarrow> heap_run sbrk base s0 s0 (\<lambda>_. None)"
| run_malloc: "heap_run sbrk base s0 s live \<Longrightarrow> n \<le> 2147483632 \<Longrightarrow> malloc sbrk base (of_nat n) s = Some (p, s') \<Longrightarrow>
    heap_run sbrk base s0 s' (if p = 0 then live else live(p \<mapsto> n))"
| run_free: "heap_run sbrk base s0 s live \<Longrightarrow> live p = Some n \<Longrightarrow> free p s = Some s' \<Longrightarrow>
    heap_run sbrk base s0 s' (live(p := None))"
| run_store: "heap_run sbrk base s0 s live \<Longrightarrow> live p = Some n \<Longrightarrow> unat p \<le> x \<Longrightarrow> x < unat p + n \<Longrightarrow>
    heap_run sbrk base s0 (s\<lparr>umem := (umem s)(x := v)\<rparr>) live"

definition used_bytes :: "mem \<Rightarrow> (u32 \<Rightarrow> nat option) \<Rightarrow> nat set" where
  "used_bytes m live = (\<Union>p\<in>dom live. bytes m (p - 8))"

definition live_ok :: "u32 \<Rightarrow> mem \<Rightarrow> (u32 \<Rightarrow> nat option) \<Rightarrow> nat \<Rightarrow> nat set \<Rightarrow> bool" where
  "live_ok base m live hi F \<longleftrightarrow>
     (\<forall>p n. live p = Some n \<longrightarrow>
        8 \<le> unat p \<and> unat base + 8 < unat (p - 8) \<and> hsize m (p - 8) \<noteq> 0 \<and> n + 8 \<le> 8 * unat (hsize m (p - 8)) \<and>
        unat (p - 8) + 8 * unat (hsize m (p - 8)) \<le> hi \<and> bytes m (p - 8) \<inter> F = {}) \<and>
     (\<forall>p\<in>dom live. \<forall>q\<in>dom live. p \<noteq> q \<longrightarrow> bytes m (p - 8) \<inter> bytes m (q - 8) = {})"

definition heap_inv :: "('k \<Rightarrow> nat) \<Rightarrow> u32 \<Rightarrow> nat \<Rightarrow> 'k uheap \<Rightarrow> (u32 \<Rightarrow> nat option) \<Rightarrow> bool" where
  "heap_inv brk base lo s live \<longleftrightarrow>
     lo \<le> brk (kstate s) \<and> (\<exists>L. heap_ok brk base s L \<and> live_ok base (umem s) live (brk (kstate s)) (free_bytes (umem s) L) \<and>
       free_bytes (umem s) L \<union> used_bytes (umem s) live = {lo ..< brk (kstate s)})"

lemma heap_invI:
  "heap_ok brk base s L \<Longrightarrow> live_ok base (umem s) live (brk (kstate s)) (free_bytes (umem s) L) \<Longrightarrow>
   free_bytes (umem s) L \<union> used_bytes (umem s) live = {lo ..< brk (kstate s)} \<Longrightarrow> lo \<le> brk (kstate s) \<Longrightarrow>
   heap_inv brk base lo s live"
  unfolding heap_inv_def by blast

lemma units_eq:
  assumes "n \<le> 2147483632"
  shows "unat (units (of_nat n)) = (n + 7) div 8 + 1" "units (of_nat n) \<noteq> 0" "unat (units (of_nat n)) < 268435456"
proof -
  define w where "w = n + 7"
  have a: "of_nat n + 8 - 1 = (of_nat w :: u32)" by (simp add: w_def)
  have "unat (of_nat w :: u32) = w" using assms by (simp add: unat_of_nat w_def del: of_nat_add)
  then have d: "unat ((of_nat w :: u32) div 8) = (n + 7) div 8" by (simp add: unat_div w_def)
  have "(n + 7) div 8 + 1 < 268435456" using assms by simp
  then have "unat ((of_nat w :: u32) div 8 + 1) = (n + 7) div 8 + 1"
    using d by (subst unat_plus_if') simp
  then show "unat (units (of_nat n)) = (n + 7) div 8 + 1" by (simp add: units_def sizeof_Header_def a)
  then show "units (of_nat n) \<noteq> 0" "unat (units (of_nat n)) < 268435456" using \<open>(n + 7) div 8 + 1 < 268435456\<close> by auto
qed

lemma live_header:
  assumes "live_ok base m live hi F" "live p = Some n" "hi \<le> 2147483648"
  shows "below (p - 8)" "unat (p - 8) + 8 = unat p" "{unat (p - 8) ..< unat (p - 8) + 8} \<subseteq> bytes m (p - 8)"
    "{unat p ..< unat p + n} \<subseteq> bytes m (p - 8)"
proof -
  have p: "8 \<le> unat p" "hsize m (p - 8) \<noteq> 0" "n + 8 \<le> 8 * unat (hsize m (p - 8))"
    "unat (p - 8) + 8 * unat (hsize m (p - 8)) \<le> hi" using assms(1,2) by (auto simp: live_ok_def)
  have "unat (p - 8) = unat p - 8" using p(1) by (subst unat_sub) (simp_all add: word_le_nat_alt)
  then show u: "unat (p - 8) + 8 = unat p" using p(1) by simp
  have "8 \<le> 8 * unat (hsize m (p - 8))" using p(3) by simp
  then show "below (p - 8)" "{unat (p - 8) ..< unat (p - 8) + 8} \<subseteq> bytes m (p - 8)" using p(4) assms(3) by (auto simp: bytes_def)
  show "{unat p ..< unat p + n} \<subseteq> bytes m (p - 8)" using p(3) u by (auto simp: bytes_def)
qed

lemma live_cong:
  assumes "\<forall>p\<in>dom live. hsize m' (p - 8) = hsize m (p - 8)"
  shows "live_ok base m' live hi F \<longleftrightarrow> live_ok base m live hi F" "used_bytes m' live = used_bytes m live"
proof -
  have "bytes m' (p - 8) = bytes m (p - 8)" if "p \<in> dom live" for p using assms that by (simp add: bytes_def)
  then show "used_bytes m' live = used_bytes m live" by (simp add: used_bytes_def)
  show "live_ok base m' live hi F \<longleftrightarrow> live_ok base m live hi F"
    unfolding live_ok_def bytes_def using assms by (auto simp: dom_def)
qed

lemma live_disjoint_free: "live_ok base m live hi F \<Longrightarrow> used_bytes m live \<inter> F = {}"
  by (auto simp: live_ok_def used_bytes_def dom_def)

text \<open>Memory that changes only outside the blocks in use keeps their headers.\<close>

lemma live_headers_kept:
  assumes "live_ok base m live hi F" "hi \<le> 2147483648" "\<forall>x. x \<in> used_bytes m live \<longrightarrow> m' x = m x"
  shows "\<forall>p\<in>dom live. hsize m' (p - 8) = hsize m (p - 8)"
proof
  fix p assume "p \<in> dom live"
  then obtain n where n: "live p = Some n" by auto
  note h = live_header [OF assms(1) n assms(2)]
  have "bytes m (p - 8) \<subseteq> used_bytes m live" using n by (auto simp: used_bytes_def)
  then have "m' x = m x" if "unat (p - 8) \<le> x" "x < unat (p - 8) + 8" for x
    using h(3) assms(3) that by (meson atLeastLessThan_iff subsetD)
  then show "hsize m' (p - 8) = hsize m (p - 8)" by (intro header_cong(2) h(1))
qed

lemma live_above_base: "live_ok base m live hi F \<Longrightarrow> x \<in> used_bytes m live \<Longrightarrow> unat base + 8 < x \<and> x < hi"
  by (fastforce simp: live_ok_def used_bytes_def bytes_def dom_def)

lemma live_add:
  assumes "live_ok base m live hi F" "hi \<le> hi'" "unat (h + 8) = unat h + 8" "unat base + 8 < unat h" "hsize m h \<noteq> 0"
    "n + 8 \<le> 8 * unat (hsize m h)" "unat h + 8 * unat (hsize m h) \<le> hi'"
    "bytes m h \<inter> used_bytes m live = {}" "used_bytes m live \<inter> F' = {}" "bytes m h \<inter> F' = {}"
  shows "live_ok base m (live(h + 8 \<mapsto> n)) hi' F'"
proof -
  have u: "bytes m (p - 8) \<inter> F' = {}" "bytes m (p - 8) \<inter> bytes m h = {}" if "p \<in> dom live" for p
    using assms(8,9) that by (auto simp: used_bytes_def)
  show ?thesis
    unfolding live_ok_def
  proof (intro conjI allI impI ballI)
    fix p k assume "(live(h + 8 \<mapsto> n)) p = Some k"
    then consider "p = h + 8" "k = n" | "p \<noteq> h + 8" "live p = Some k" by (auto split: if_splits)
    then have "8 \<le> unat p \<and> unat base + 8 < unat (p - 8) \<and> hsize m (p - 8) \<noteq> 0 \<and> k + 8 \<le> 8 * unat (hsize m (p - 8)) \<and>
        unat (p - 8) + 8 * unat (hsize m (p - 8)) \<le> hi' \<and> bytes m (p - 8) \<inter> F' = {}"
    proof cases
      case 2
      then show ?thesis using assms(1,2) u(1) [of p] unfolding live_ok_def by (meson domI order_trans)
    qed (use assms(3-7,10) in simp)
    then show "8 \<le> unat p" "unat base + 8 < unat (p - 8)" "hsize m (p - 8) \<noteq> 0" "k + 8 \<le> 8 * unat (hsize m (p - 8))"
      "unat (p - 8) + 8 * unat (hsize m (p - 8)) \<le> hi'" "bytes m (p - 8) \<inter> F' = {}" by auto
  next
    fix p q assume "p \<in> dom (live(h + 8 \<mapsto> n))" "q \<in> dom (live(h + 8 \<mapsto> n))" "p \<noteq> q"
    then consider "p = h + 8" "q \<in> dom live" | "q = h + 8" "p \<in> dom live" | "p \<in> dom live" "q \<in> dom live" by auto
    then show "bytes m (p - 8) \<inter> bytes m (q - 8) = {}"
      using u(2) [of p] u(2) [of q] assms(1) \<open>p \<noteq> q\<close> by cases (auto simp: live_ok_def)
  qed
qed

lemma malloc_inv:
  assumes L: "heap_ok brk base s L" "live_ok base (umem s) live (brk (kstate s)) (free_bytes (umem s) L)"
    "free_bytes (umem s) L \<union> used_bytes (umem s) live = {lo ..< brk (kstate s)}" "lo \<le> brk (kstate s)"
    and n: "n \<le> 2147483632" and A: "allocated brk base (units (of_nat n)) s L h s' L'"
  shows "h + 8 \<noteq> 0 \<and> heap_inv brk base lo s' (live(h + 8 \<mapsto> n))"
proof -
  define G where "G = free_bytes (umem s) L \<union> {brk (kstate s) ..< brk (kstate s')}"
  have L': "heap_ok brk base s' L'" "brk (kstate s) \<le> brk (kstate s')" "hsize (umem s') h = units (of_nat n)"
    "unat base + 8 < unat h" "unat h + 8 * unat (units (of_nat n)) \<le> brk (kstate s')"
    "bytes (umem s') h \<subseteq> G" "free_bytes (umem s') L' = G - bytes (umem s') h"
    "\<forall>x. x \<notin> {unat base ..< unat base + 8} \<union> G \<longrightarrow> umem s' x = umem s x"
    using A by (auto simp: allocated_def Let_def G_def)
  have hi: "brk (kstate s) \<le> 2147483648" "brk (kstate s') \<le> 2147483648"
    using L(1) L'(1) by (auto simp: heap_ok_def flist_ok_def)
  note U = units_eq [OF n]
  have UG: "used_bytes (umem s) live \<inter> G = {}"
    using live_disjoint_free [OF L(2)] live_above_base [OF L(2)] by (fastforce simp: G_def)
  have "\<forall>x. x \<in> used_bytes (umem s) live \<longrightarrow> umem s' x = umem s x"
  proof (intro allI impI)
    fix x assume x: "x \<in> used_bytes (umem s) live"
    then have "x \<notin> G" "x \<notin> {unat base ..< unat base + 8}" using UG live_above_base [OF L(2) x] by auto
    then show "umem s' x = umem s x" using L'(8) by blast
  qed
  note kept = live_headers_kept [OF L(2) hi(1) this]
  note C = live_cong [OF kept]
  have h8: "unat (h + 8) = unat h + 8" using L'(5) U(1) hi by (subst unat_plus_if') auto
  have hb: "unat h \<in> bytes (umem s') h" using L'(3) U by (auto simp: bytes_def)
  have new: "h + 8 \<notin> dom live"
  proof
    assume "h + 8 \<in> dom live"
    then obtain k where k: "live (h + 8) = Some k" by auto
    have "unat h \<in> bytes (umem s) (h + 8 - 8)" using live_header(3) [OF L(2) k hi(1)] by auto
    then have "unat h \<in> used_bytes (umem s) live" using k unfolding used_bytes_def by blast
    then show False using UG hb L'(6) by auto
  qed
  have M: "live_ok base (umem s') live (brk (kstate s)) (free_bytes (umem s) L)" "used_bytes (umem s') live = used_bytes (umem s) live"
    using C L(2) by auto
  have "live_ok base (umem s') (live(h + 8 \<mapsto> n)) (brk (kstate s')) (free_bytes (umem s') L')"
  proof (rule live_add [OF M(1) L'(2)])
    show "bytes (umem s') h \<inter> used_bytes (umem s') live = {}" "used_bytes (umem s') live \<inter> free_bytes (umem s') L' = {}"
      "bytes (umem s') h \<inter> free_bytes (umem s') L' = {}" using M(2) UG L'(6,7) by auto
    show "n + 8 \<le> 8 * unat (hsize (umem s') h)" unfolding L'(3) U(1) by presburger
  qed (use L'(3-5) U(2) h8 in simp_all)
  moreover have "used_bytes (umem s') (live(h + 8 \<mapsto> n)) = used_bytes (umem s) live \<union> bytes (umem s') h"
    using M(2) by (auto simp: used_bytes_def)
  moreover have "h + 8 \<noteq> 0" using h8 by auto
  moreover have "free_bytes (umem s') L' \<union> (used_bytes (umem s) live \<union> bytes (umem s') h) = {lo ..< brk (kstate s')}"
  proof -
    have "free_bytes (umem s') L' \<union> (used_bytes (umem s) live \<union> bytes (umem s') h) = G \<union> used_bytes (umem s) live"
      using L'(6,7) by blast
    also have "\<dots> = {lo ..< brk (kstate s)} \<union> {brk (kstate s) ..< brk (kstate s')}" unfolding G_def using L(3) by blast
    also have "\<dots> = {lo ..< brk (kstate s')}" using L(4) L'(2) by (rule ivl_disj_un_two)
    finally show ?thesis .
  qed
  ultimately show ?thesis using L(4) L'(1,2) by (intro conjI heap_invI [of _ _ _ L']) simp_all
qed

lemma live_block_fits:
  assumes L: "heap_ok brk base s L" and live: "live_ok base (umem s) live (brk (kstate s)) (free_bytes (umem s) L)" "live p = Some n"
  shows "block_fits base (umem s) L (p - 8) (brk (kstate s))"
proof -
  have f: "flist_ok base (umem s) L (brk (kstate s))" using L by (simp add: heap_ok_def)
  have p: "unat base + 8 < unat (p - 8)" "hsize (umem s) (p - 8) \<noteq> 0"
    "unat (p - 8) + 8 * unat (hsize (umem s) (p - 8)) \<le> brk (kstate s)" "bytes (umem s) (p - 8) \<inter> free_bytes (umem s) L = {}"
    using live by (auto simp: live_ok_def)
  have "unat (p - 8) + 8 * unat (hsize (umem s) (p - 8)) \<le> unat a \<or> stop_of (umem s) a \<le> unat (p - 8)" if a: "a \<in> set L" for a
  proof (cases "a = base")
    case True
    then show ?thesis using p(1) f by (simp add: stop_of_def flist_ok_def)
  next
    case False
    then have z: "hsize (umem s) a \<noteq> 0" using f a by (simp add: flist_ok_def)
    then have pos: "0 < unat (hsize (umem s) a)" "0 < unat (hsize (umem s) (p - 8))" using p(2) by (auto simp: unat_gt_0)
    have d: "bytes (umem s) (p - 8) \<inter> bytes (umem s) a = {}" using p(4) a by (auto simp: free_bytes_def)
    then have "unat a \<notin> bytes (umem s) (p - 8)" "unat (p - 8) \<notin> bytes (umem s) a"
      using pos by (auto simp: bytes_def)
    then show ?thesis using z by (auto simp: bytes_def stop_of_eq)
  qed
  then show ?thesis using p by (simp add: block_fits_def)
qed

lemma live_pair:
  "live_ok base m live hi F \<Longrightarrow> live p = Some n \<Longrightarrow> live q = Some k \<Longrightarrow> p \<noteq> q \<Longrightarrow> bytes m (p - 8) \<inter> bytes m (q - 8) = {}"
  unfolding live_ok_def by (meson domI)

lemma used_drop:
  assumes "live_ok base m live hi F" "live p = Some n"
  shows "used_bytes m live = bytes m (p - 8) \<union> used_bytes m (live(p := None))"
    "bytes m (p - 8) \<inter> used_bytes m (live(p := None)) = {}"
proof -
  show "used_bytes m live = bytes m (p - 8) \<union> used_bytes m (live(p := None))"
    using assms(2) by (auto simp: used_bytes_def)
  have "bytes m (p - 8) \<inter> bytes m (q - 8) = {}" if "q \<in> dom live" "q \<noteq> p" for q
    using live_pair [OF assms, of q] that by auto
  then show "bytes m (p - 8) \<inter> used_bytes m (live(p := None)) = {}" by (auto simp: used_bytes_def)
qed

lemma live_drop:
  assumes "live_ok base m live hi F" "live p = Some n" "F' \<subseteq> F \<union> bytes m (p - 8)"
  shows "live_ok base m (live(p := None)) hi F'"
proof -
  have "bytes m (q - 8) \<inter> F' = {}" if "live q = Some k" "q \<noteq> p" for q k
  proof -
    have "bytes m (q - 8) \<inter> F = {}" using assms(1) that(1) by (simp add: live_ok_def)
    then show ?thesis using live_pair [OF assms(1) that(1) assms(2) that(2)] assms(3) by blast
  qed
  moreover have "q \<in> dom live" if "q \<in> dom (live(p := None))" for q using that by auto
  ultimately show ?thesis
    using assms(1) unfolding live_ok_def by (simp split: if_splits)
qed

context sbrk_law
begin

lemma free_inv:
  assumes I: "heap_inv brk base lo s live" and p: "live p = Some n"
  shows "\<exists>s'. free p s = Some s' \<and> heap_inv brk base lo s' (live(p := None))"
proof -
  obtain L where L: "heap_ok brk base s L" "live_ok base (umem s) live (brk (kstate s)) (free_bytes (umem s) L)"
    "free_bytes (umem s) L \<union> used_bytes (umem s) live = {lo ..< brk (kstate s)}"
    using I by (auto simp: heap_inv_def)
  let ?live = "live(p := None)"
  obtain s' L' where s': "free (p - 8 + 8) s = Some s'" "heap_ok brk base s' L'" "kstate s' = kstate s"
    "free_bytes (umem s') L' = free_bytes (umem s) L \<union> bytes (umem s) (p - 8)"
    "\<forall>x. x \<notin> {unat base ..< unat base + 8} \<union> free_bytes (umem s) L \<union> bytes (umem s) (p - 8) \<longrightarrow> umem s' x = umem s x"
    using free_heap [OF L(1) live_block_fits [OF L(1,2) p]] by metis
  have hi: "brk (kstate s) \<le> 2147483648" using L(1) by (simp add: heap_ok_def flist_ok_def)
  have ok: "live_ok base (umem s) ?live (brk (kstate s)) (free_bytes (umem s') L')"
    using live_drop [OF L(2) p] s'(4) by simp
  have "\<forall>x. x \<in> used_bytes (umem s) ?live \<longrightarrow> umem s' x = umem s x"
  proof (intro allI impI)
    fix x assume x: "x \<in> used_bytes (umem s) ?live"
    then have "x \<notin> free_bytes (umem s') L'" "x \<notin> {unat base ..< unat base + 8}"
      using live_disjoint_free [OF ok] live_above_base [OF ok x] by auto
    then show "umem s' x = umem s x" using s'(4,5) by blast
  qed
  note C = live_cong [OF live_headers_kept [OF ok hi this]]
  have "free_bytes (umem s') L' \<union> used_bytes (umem s') ?live = {lo ..< brk (kstate s')}"
    using used_drop(1) [OF L(2) p] L(3) s'(3,4) C(2) by auto
  then have "heap_inv brk base lo s' ?live"
    using s'(2,3) ok C(1) I by (intro heap_invI [of _ _ _ L']) (simp_all add: heap_inv_def)
  then show ?thesis using s'(1) by simp
qed

lemma store_inv:
  assumes I: "heap_inv brk base lo s live" and p: "live p = Some n" "unat p \<le> x" "x < unat p + n"
  shows "heap_inv brk base lo (s\<lparr>umem := (umem s)(x := v)\<rparr>) live"
proof -
  obtain L where L: "heap_ok brk base s L" "live_ok base (umem s) live (brk (kstate s)) (free_bytes (umem s) L)"
    "free_bytes (umem s) L \<union> used_bytes (umem s) live = {lo ..< brk (kstate s)}"
    using I by (auto simp: heap_inv_def)
  let ?m = "(umem s)(x := v)"
  have f: "flist_ok base (umem s) L (brk (kstate s))" and hi: "brk (kstate s) \<le> 2147483648"
    using L(1) by (auto simp: heap_ok_def flist_ok_def)
  note h = live_header [OF L(2) p(1) hi]
  have x: "x \<in> bytes (umem s) (p - 8)" using h(4) p(2,3) by auto
  then have xu: "x \<in> used_bytes (umem s) live" using p(1) by (auto simp: used_bytes_def)
  have nx: "x \<notin> {unat base ..< unat base + 8} \<union> free_bytes (umem s) L"
    using live_disjoint_free [OF L(2)] live_above_base [OF L(2) xu] xu by auto
  have same: "\<forall>a\<in>set L. hptr ?m a = hptr (umem s) a \<and> hsize ?m a = hsize (umem s) a"
  proof
    fix a assume a: "a \<in> set L"
    have "?m y = umem s y" if "unat a \<le> y" "y < unat a + 8" for y
      using header_bytes [OF f a nx] that by auto
    then show "hptr ?m a = hptr (umem s) a \<and> hsize ?m a = hsize (umem s) a"
      using header_cong [OF flist_below [OF f a], of ?m "umem s"] by blast
  qed
  have live: "\<forall>q\<in>dom live. hsize ?m (q - 8) = hsize (umem s) (q - 8)"
  proof
    fix q assume "q \<in> dom live"
    then obtain k where k: "live q = Some k" by auto
    note hq = live_header [OF L(2) k hi]
    have "x \<notin> {unat (q - 8) ..< unat (q - 8) + 8}"
    proof (cases "q = p")
      case True
      then show ?thesis using h(2) p(2) by simp
    next
      case False
      then show ?thesis using live_pair [OF L(2) p(1) k] x hq(3) by auto
    qed
    then show "hsize ?m (q - 8) = hsize (umem s) (q - 8)" by (intro header_cong(2) hq(1)) auto
  qed
  have "free_bytes ?m L = free_bytes (umem s) L" using same by (intro free_bytes_cong) simp
  moreover have "heap_ok brk base (s\<lparr>umem := ?m\<rparr>) L"
    using L(1) flist_ok_cong [OF f same order_refl hi] by (simp add: heap_ok_def)
  ultimately show ?thesis
    using L(2,3) I live_cong [OF live] by (intro heap_invI [of _ _ _ L]) (simp_all add: heap_inv_def)
qed

text \<open>
  Before the first call the heap is empty; the call sets up the static header as a list of its own.
\<close>

definition run_inv :: "u32 \<Rightarrow> nat \<Rightarrow> 'k uheap \<Rightarrow> (u32 \<Rightarrow> nat option) \<Rightarrow> bool" where
  "run_inv base lo s live \<longleftrightarrow>
     base \<noteq> 0 \<and> unat base + 8 < lo \<and> lo \<le> 2147483648 \<and>
     (if freep s = 0 then live = (\<lambda>_. None) \<and> brk (kstate s) = lo else heap_inv brk base lo s live)"

lemma malloc_ready:
  assumes "run_inv base lo s live"
  obtains s1 where "\<And>w. malloc sbrk base w s = malloc_loop sbrk (units w) (freep s1) (hptr (umem s1) (freep s1)) s1"
    "kstate s1 = kstate s" "heap_inv brk base lo s1 live"
proof (cases "freep s = 0")
  case True
  let ?m = "set_hsize base 0 (set_hptr base base (umem s))" and ?s = "s\<lparr>umem := set_hsize base 0 (set_hptr base base (umem s)), freep := base\<rparr>"
  have i: "base \<noteq> 0" "unat base + 8 < lo" "lo \<le> 2147483648" "live = (\<lambda>_. None)" "brk (kstate s) = lo"
    using assms True by (auto simp: run_inv_def)
  have b: "below base" using i by simp
  then have "hptr ?m base = base" "hsize ?m base = 0" by (simp_all add: header_other_field)
  then have "heap_ok brk base ?s [base]" "free_bytes ?m [base] = {}"
    using i by (simp_all add: heap_ok_def flist_ok_def free_bytes_def bytes_def stop_of_def)
  then have "heap_inv brk base lo ?s live"
    using i by (intro heap_invI [of _ _ _ "[base]"]) (simp_all add: live_ok_def used_bytes_def)
  then show ?thesis using True by (intro that [of ?s]) (simp_all add: malloc_def)
next
  case False
  then show ?thesis using assms by (intro that [of s]) (simp_all add: malloc_def run_inv_def)
qed

lemma heap_inv_freep: "heap_inv brk base lo s live \<Longrightarrow> freep s \<noteq> 0"
proof -
  assume "heap_inv brk base lo s live"
  then obtain L where "flist_ok base (umem s) L (brk (kstate s))" "freep s \<in> set L"
    by (auto simp: heap_inv_def heap_ok_def)
  then show ?thesis using flist_base_least [of base "umem s" L "brk (kstate s)" "freep s"] by (auto simp: flist_ok_def)
qed

lemma heap_inv_unchanged:
  assumes "heap_inv brk base lo s live" "unchanged brk s s'"
  shows "heap_inv brk base lo s' live"
  using assms by (simp add: heap_inv_def heap_ok_def unchanged_def)

lemma malloc_step:
  assumes I: "run_inv base lo s live" and n: "n \<le> 2147483632"
  shows "case malloc sbrk base (of_nat n) s of
      None \<Rightarrow> \<exists>w. sbrk w (kstate s) = None
    | Some (p, s') \<Rightarrow> run_inv base lo s' (if p = 0 then live else live(p \<mapsto> n))"
proof -
  obtain s1 where s1: "\<And>w. malloc sbrk base w s = malloc_loop sbrk (units w) (freep s1) (hptr (umem s1) (freep s1)) s1"
    "kstate s1 = kstate s" "heap_inv brk base lo s1 live" using malloc_ready [OF I] by metis
  have c: "base \<noteq> 0" "unat base + 8 < lo" "lo \<le> 2147483648" using I by (auto simp: run_inv_def)
  obtain L where L: "heap_ok brk base s1 L" "live_ok base (umem s1) live (brk (kstate s1)) (free_bytes (umem s1) L)"
    "free_bytes (umem s1) L \<union> used_bytes (umem s1) live = {lo ..< brk (kstate s1)}" "lo \<le> brk (kstate s1)"
    using s1(3) by (auto simp: heap_inv_def)
  note M = malloc_heap [OF L(1) units_eq(2,3) [OF n], folded s1(1)]
  show ?thesis
  proof (cases "malloc sbrk base (of_nat n) s")
    case None
    then show ?thesis using M s1(2) by simp
  next
    case (Some r)
    obtain p s' where r: "r = (p, s')" by fastforce
    with M Some consider "p = 0" "unchanged brk s1 s'"
      | h L' where "p = h + 8" "allocated brk base (units (of_nat n)) s1 L h s' L'" by auto
    then have "heap_inv brk base lo s' (if p = 0 then live else live(p \<mapsto> n))"
    proof cases
      case 1
      then show ?thesis using heap_inv_unchanged [OF s1(3)] by simp
    next
      case 2
      then show ?thesis using malloc_inv [OF L n] by simp
    qed
    then show ?thesis using Some r c heap_inv_freep by (simp add: run_inv_def)
  qed
qed

lemma free_step:
  assumes "run_inv base lo s live" "live p = Some n"
  shows "\<exists>s'. free p s = Some s' \<and> run_inv base lo s' (live(p := None))"
proof -
  have c: "base \<noteq> 0" "unat base + 8 < lo" "lo \<le> 2147483648" and "heap_inv brk base lo s live"
    using assms by (auto simp: run_inv_def split: if_splits)
  from free_inv [OF this(4) assms(2)] obtain s' where "free p s = Some s'" "heap_inv brk base lo s' (live(p := None))" by blast
  then show ?thesis using heap_inv_freep c by (simp add: run_inv_def)
qed

lemma heap_run_inv:
  assumes "heap_run sbrk base s0 s live" "base \<noteq> 0" "unat base + 8 < brk (kstate s0)" "brk (kstate s0) \<le> 2147483648"
  shows "run_inv base (brk (kstate s0)) s live"
  using assms
proof (induction rule: heap_run.induct)
  case run_start
  then show ?case by (simp add: run_inv_def)
next
  case (run_malloc s live n p s')
  then show ?case using malloc_step [of base "brk (kstate s0)" s live n] by simp
next
  case (run_free s live p n s')
  then show ?case using free_step [of base "brk (kstate s0)" s live p n] by (metis option.inject)
next
  case (run_store s live p n x v)
  then have I: "run_inv base (brk (kstate s0)) s live" by simp
  then have H: "freep s \<noteq> 0" "heap_inv brk base (brk (kstate s0)) s live"
    using run_store(2) by (auto simp: run_inv_def split: if_splits)
  then show ?case using store_inv [OF H(2) run_store(2-4)] I by (simp add: run_inv_def)
qed

end

section \<open>A program\<close>

text \<open>
  A heap that starts at 0x4000 and may grow to 2 GB, and a static header at 0x1000: the first
  \<open>malloc\<close> asks for 4096 headers and takes the end of them.
\<close>

definition sbrk0 :: "nat sbrk" where
  "sbrk0 n k = (if k + unat n \<le> 2147483648 then Some (of_nat k, k + unat n) else Some (- 1, k))"

definition program0 :: "nat uheap" where
  "program0 = \<lparr> umem = (\<lambda>_. 0), freep = 0, kstate = 0x4000 \<rparr>"

lemma sbrk0_law: "sbrk_law sbrk0 (\<lambda>k. k)"
proof
  fix n p :: u32 and k k' :: nat
  assume "sbrk0 n k = Some (p, k')" "p \<noteq> - 1" "k \<le> 2147483648"
  then show "unat p = k \<and> k' = k + unat n \<and> k' \<le> 2147483648"
    by (auto simp: sbrk0_def unat_of_nat split: if_splits)
next
  fix n :: u32 and k k' :: nat
  assume s: "sbrk0 n k = Some (- 1, k')" and k: "k \<le> 2147483648"
  have "of_nat k \<noteq> (- 1 :: u32)"
  proof
    assume "of_nat k = (- 1 :: u32)"
    then have "unat (of_nat k :: u32) = unat (- 1 :: u32)" by simp
    then show False using k by (simp add: unat_of_nat unsigned_minus_1_eq_mask mask_eq_exp_minus_1)
  qed
  then show "k' = k" using s by (auto simp: sbrk0_def split: if_splits)
qed

lemmas program0_simps = header_other_field header_apart apart_def hadd_def sizeof_Header_def Let_def

definition program1 :: "nat uheap" where
  "program1 = program0\<lparr>umem := set_hsize 0x1000 0 (set_hptr 0x1000 0x1000 (umem program0)), freep := 0x1000\<rparr>"

lemma program1_header: "hptr (umem program1) 0x1000 = 0x1000" "hsize (umem program1) 0x1000 = 0" "kstate program1 = 0x4000" "freep program1 = 0x1000"
  by (simp_all add: program1_def program0_def program0_simps)

definition program2 :: "nat uheap" where
  "program2 = program1\<lparr>umem := set_hptr 0x1000 0x4000 (set_hptr 0x4000 0x1000 (set_hsize 0x4000 4096 (umem program1))), kstate := 0xC000\<rparr>"

lemma program1_morecore: "morecore sbrk0 3 program1 = Some (0x1000, program2)"
  by (simp add: morecore_def program1_header sbrk0_def free_def join_next_def join_prev_def program2_def
      free_search.simps [of _ _ "0x1000"] program0_simps)

lemma program0_malloc:
  obtains s where "malloc sbrk0 0x1000 10 program0 = Some (0xBFF0, s)" "kstate s = 0xC000" "freep s = 0x1000"
proof -
  have h: "hptr (umem program2) 0x1000 = 0x4000" "hsize (umem program2) 0x4000 = 4096"
    by (simp_all add: program2_def program0_simps)
  have u: "units 10 = 3" by (simp add: units_def sizeof_Header_def)
  have "malloc sbrk0 0x1000 10 program0 = malloc_loop sbrk0 3 0x1000 0x1000 program1"
    using program1_header(1,4) by (simp add: malloc_def u Let_def program1_def program0_def)
  also have "\<dots> = malloc_loop sbrk0 3 0x1000 0x4000 program2"
    by (subst malloc_loop.simps) (simp add: program1_header program1_morecore h)
  also have "\<dots> = Some (take_block 3 0x1000 0x4000 program2)"
    by (subst malloc_loop.simps) (simp add: h)
  finally show ?thesis
    by (intro that [of "snd (take_block 3 0x1000 0x4000 program2)"])
      (simp_all add: take_block_def h program0_simps program2_def)
qed

lemma program0_start: "heap_run sbrk0 0x1000 program0 program0 (\<lambda>_. None)"
  by (rule run_start) (simp add: program0_def)

lemma program0_ok: "(0x1000 :: u32) \<noteq> 0" "unat (0x1000 :: u32) + 8 < kstate program0" "kstate program0 \<le> 2147483648"
  by (simp_all add: program0_def)

lemma program0_allocates:
  obtains s where "heap_run sbrk0 0x1000 program0 s [0xBFF0 \<mapsto> 10]" "kstate s = 0xC000"
proof -
  obtain s where s: "malloc sbrk0 0x1000 10 program0 = Some (0xBFF0, s)" "kstate s = 0xC000"
    by (rule program0_malloc)
  then have "heap_run sbrk0 0x1000 program0 s [0xBFF0 \<mapsto> 10]"
    using run_malloc [OF program0_start, of 10 "0xBFF0" s] by simp
  then show ?thesis using that s(2) by blast
qed

lemma free_kstate: "free p s = Some s' \<Longrightarrow> kstate s' = kstate s"
  by (auto simp: free_def Let_def split: option.splits)


section \<open>What programs can rely on\<close>

text \<open>
  C22: whatever a program allocates, frees and stores inside its blocks, two blocks that it holds
  never overlap, headers included, each is as long as was asked for, and all of them lie in
  the memory that \<open>sbrk\<close> has given.
\<close>

theorem malloc_blocks_disjoint:
  assumes "sbrk_law sbrk brk" "base \<noteq> 0" "unat base + 8 < brk (kstate s0)" "brk (kstate s0) \<le> 2147483648"
    and "heap_run sbrk base s0 s live" "live p = Some n"
  shows "{unat p - 8 ..< unat p + n} \<subseteq> {brk (kstate s0) ..< brk (kstate s)} \<and>
    (\<forall>q k. live q = Some k \<longrightarrow> q \<noteq> p \<longrightarrow> {unat p - 8 ..< unat p + n} \<inter> {unat q - 8 ..< unat q + k} = {})"
proof -
  have "heap_inv brk base (brk (kstate s0)) s live"
    using sbrk_law.heap_run_inv [OF assms(1,5,2-4)] assms(6) by (auto simp: sbrk_law.run_inv_def [OF assms(1)] split: if_splits)
  then obtain L where L: "live_ok base (umem s) live (brk (kstate s)) (free_bytes (umem s) L)"
    "free_bytes (umem s) L \<union> used_bytes (umem s) live = {brk (kstate s0) ..< brk (kstate s)}" "brk (kstate s) \<le> 2147483648"
    by (auto simp: heap_inv_def heap_ok_def flist_ok_def)
  have sub: "{unat q - 8 ..< unat q + k} \<subseteq> bytes (umem s) (q - 8)" if "live q = Some k" for q k
    using live_header(2-4) [OF L(1) that L(3)] by (auto simp: bytes_def)
  have "bytes (umem s) (p - 8) \<subseteq> used_bytes (umem s) live" using assms(6) by (auto simp: used_bytes_def)
  then show ?thesis
    using sub live_pair [OF L(1) assms(6)] assms(6) L(2) by blast
qed

lemma malloc_blocks_disjoint_witness:
  "\<exists>s. heap_run sbrk0 0x1000 program0 s [0xBFF0 \<mapsto> 10] \<and> {0xBFE8 ..< 0xBFFA} \<subseteq> {0x4000 ..< kstate s}"
proof -
  obtain s where s: "heap_run sbrk0 0x1000 program0 s [0xBFF0 \<mapsto> 10]" by (rule program0_allocates)
  with malloc_blocks_disjoint [OF sbrk0_law program0_ok s, of "0xBFF0" 10] show ?thesis
    by (intro exI [of _ s]) (simp add: program0_def)
qed

text \<open>
  C23: the loops of \<open>malloc\<close> and \<open>free\<close> end, in every state a program can bring the allocator to:
  \<open>free\<close> of a pointer it holds returns, and \<open>malloc\<close> of any size below 2 GB does, when the call of
  \<open>sbrk\<close> does.
\<close>

theorem malloc_and_free_return:
  assumes "sbrk_law sbrk brk" "base \<noteq> 0" "unat base + 8 < brk (kstate s0)" "brk (kstate s0) \<le> 2147483648"
    and "heap_run sbrk base s0 s live" "\<forall>w. sbrk w (kstate s) \<noteq> None"
  shows "(\<forall>n \<le> 2147483632. \<exists>p s'. malloc sbrk base (of_nat n) s = Some (p, s')) \<and>
    (\<forall>p n. live p = Some n \<longrightarrow> (\<exists>s'. free p s = Some s'))"
proof -
  note I = sbrk_law.heap_run_inv [OF assms(1,5,2-4)]
  have "\<exists>p s'. malloc sbrk base (of_nat n) s = Some (p, s')" if "n \<le> 2147483632" for n
    using sbrk_law.malloc_step [OF assms(1) I that] assms(6) by (cases "malloc sbrk base (of_nat n) s") auto
  then show ?thesis using sbrk_law.free_step [OF assms(1) I] by blast
qed

lemma malloc_and_free_return_witness:
  "\<exists>s. heap_run sbrk0 0x1000 program0 s [0xBFF0 \<mapsto> 10] \<and>
     (\<exists>p s'. malloc sbrk0 0x1000 100000 s = Some (p, s')) \<and> (\<exists>s'. free 0xBFF0 s = Some s')"
proof -
  obtain s where s: "heap_run sbrk0 0x1000 program0 s [0xBFF0 \<mapsto> 10]" by (rule program0_allocates)
  have "\<forall>w. sbrk0 w (kstate s) \<noteq> None" by (simp add: sbrk0_def)
  note R = malloc_and_free_return [OF sbrk0_law program0_ok s this]
  have "\<exists>p s'. malloc sbrk0 0x1000 (of_nat 100000) s = Some (p, s')"
    by (rule R [THEN conjunct1, rule_format]) simp
  moreover have "\<exists>s'. free 0xBFF0 s = Some s'" by (rule R [THEN conjunct2, rule_format, of _ 10]) simp
  ultimately show ?thesis using s by auto
qed

lemma flist_one_block:
  assumes L: "flist_ok base m L hi" and F: "free_bytes m L = {lo ..< hi'}" and "lo < hi'"
  obtains a where "L = [base, a]" "unat a = lo" "unat a + 8 * unat (hsize m a) = hi'"
proof -
  obtain ys where ys: "L = base # ys" by (rule flist_base [OF L])
  have b: "bytes m base = {}" using L by (simp add: flist_ok_def bytes_def)
  then obtain a zs where a: "ys = a # zs" using F assms(3) ys by (cases ys) (auto simp: free_bytes_def)
  have L': "flist_ok base m ([base] @ a # zs) hi" using L ys a by simp
  note nz = flist_rest(2) [of base m "[]" base ys hi] 
  have za: "hsize m c \<noteq> 0" if "c \<in> set ys" for c using nz L ys that by simp
  have pos: "0 < unat (hsize m c)" if "c \<in> set ys" for c using za [OF that] by (simp add: unat_gt_0)
  have "zs = []"
  proof (rule ccontr)
    assume "zs \<noteq> []"
    then obtain c ws where c: "zs = c # ws" by (cases zs) auto
    have "unat a \<in> {lo ..< hi'}" "unat c \<in> {lo ..< hi'}"
      using pos [of a] pos [of c] a c ys unfolding F [symmetric] free_bytes_def bytes_def by fastforce+
    moreover have lt: "stop_of m a < unat d" if "d \<in> set zs" for d using flist_ordered(2) [OF L' that] .
    moreover have "stop_of m a < unat c" using lt c by simp
    ultimately have "stop_of m a \<in> free_bytes m L"
      unfolding F using stop_of_ge(1) [of a m] by auto
    then obtain d where d: "d \<in> set L" "stop_of m a \<in> bytes m d" by (auto simp: free_bytes_def)
    then have "d = a \<or> d \<in> set zs" using b ys a by auto
    then show False using d(2) lt [of d] stop_of_ge(2) [of a m] by (auto simp: bytes_def)
  qed
  then have "{unat a ..< unat a + 8 * unat (hsize m a)} = {lo ..< hi'}"
    using F b ys a by (simp add: free_bytes_def bytes_def)
  then have "unat a = lo \<and> unat a + 8 * unat (hsize m a) = hi'"
    using assms(3) pos [of a] a by (simp add: atLeastLessThan_eq_iff)
  then show ?thesis using that ys a \<open>zs = []\<close> by simp
qed

text \<open>
  C24: nothing is lost and the blocks grow together again: when a program has freed all it
  allocated, the free list is one block, all the memory that \<open>sbrk\<close> has given.
\<close>

theorem all_freed_is_one_block:
  assumes "sbrk_law sbrk brk" "base \<noteq> 0" "unat base + 8 < brk (kstate s0)" "brk (kstate s0) \<le> 2147483648"
    and "heap_run sbrk base s0 s (\<lambda>_. None)" "brk (kstate s0) < brk (kstate s)"
  shows "let a = hptr (umem s) base in
    unat a = brk (kstate s0) \<and> unat a + 8 * unat (hsize (umem s) a) = brk (kstate s) \<and> hptr (umem s) a = base"
proof -
  have "heap_inv brk base (brk (kstate s0)) s (\<lambda>_. None)"
    using sbrk_law.heap_run_inv [OF assms(1,5,2-4)] assms(6) by (auto simp: sbrk_law.run_inv_def [OF assms(1)] split: if_splits)
  then obtain L where L: "flist_ok base (umem s) L (brk (kstate s))"
    "free_bytes (umem s) L = {brk (kstate s0) ..< brk (kstate s)}"
    by (auto simp: heap_inv_def heap_ok_def used_bytes_def)
  obtain a where a: "L = [base, a]" "unat a = brk (kstate s0)" "unat a + 8 * unat (hsize (umem s) a) = brk (kstate s)"
    by (rule flist_one_block [OF L assms(6)])
  then have "hptr (umem s) base = a" "hptr (umem s) a = base" using L(1) by (auto simp: flist_ok_def)
  then show ?thesis using a by (simp add: Let_def)
qed

lemma all_freed_is_one_block_witness:
  "\<exists>s. heap_run sbrk0 0x1000 program0 s (\<lambda>_. None) \<and> unat (hsize (umem s) 0x4000) = 4096"
proof -
  obtain s where s: "heap_run sbrk0 0x1000 program0 s [0xBFF0 \<mapsto> 10]" "kstate s = 0xC000" by (rule program0_allocates)
  have "sbrk_law.run_inv (\<lambda>k. k) 0x1000 0x4000 s [0xBFF0 \<mapsto> 10]"
    using sbrk_law.heap_run_inv [OF sbrk0_law s(1)] by (simp add: program0_def)
  from sbrk_law.free_step [OF sbrk0_law this, of "0xBFF0" 10] obtain t where t: "free 0xBFF0 s = Some t" by auto
  have e: "[0xBFF0 \<mapsto> 10](0xBFF0 := None) = (\<lambda>_. None :: nat option)" by auto
  have run: "heap_run sbrk0 0x1000 program0 t (\<lambda>_. None)"
    using run_free [OF s(1) _ t, of 10] e by simp
  have "kstate t = 0xC000" using free_kstate [OF t] s(2) by simp
  with all_freed_is_one_block [OF sbrk0_law program0_ok run] have
    a: "let a = hptr (umem t) 0x1000 in unat a = 0x4000 \<and> unat a + 8 * unat (hsize (umem t) a) = 0xC000 \<and> hptr (umem t) a = 0x1000"
    by (simp add: program0_def)
  then have "hptr (umem t) 0x1000 = 0x4000" by (simp add: Let_def word_unat_eq_iff)
  then show ?thesis using a run by (intro exI [of _ t]) (simp add: Let_def)
qed

text \<open>
  The number of headers is computed modulo \<open>2 ^ 32\<close>: for the seven largest sizes it is 1, a block
  with no byte for the program.
\<close>

lemma units_wrap: "4294967289 \<le> unat w \<Longrightarrow> units w = 1"
proof -
  assume w: "4294967289 \<le> unat w"
  have b: "unat w < 4294967296" using unsigned_less [of w, where 'a = nat] by simp
  have "unat (w + 7) = unat w + 7 - 4294967296" using w b by (subst unat_plus_if') simp
  then have "unat (w + 7) < 8" using b by simp
  then have "(w + 7) div 8 = 0" by (simp add: word_unat_eq_iff unat_div)
  then show ?thesis by (simp add: units_def sizeof_Header_def add.commute)
qed

end
