(* ===== verification/Umalloc_Kernel.thy ===== *)
theory Umalloc_Kernel
  imports Umalloc_Spec Proc
begin

text \<open>
  The system call \<open>sbrk\<close> of the kernel gives user programs what the allocator relies on: the
  locale of \<open>Umalloc_Spec\<close> is interpreted on \<open>sys_sbrk\<close> of \<open>Proc\<close>.
\<close>

section \<open>Growing a process\<close>

text \<open>What locking keeps: the process table and the process that a processor runs.\<close>

definition keeps_procs :: "'f kernel \<Rightarrow> 'f kernel \<Rightarrow> bool" where
  "keeps_procs k k' \<longleftrightarrow> ptable k' = ptable k \<and> (\<forall>c. myproc c k' = myproc c k)"

lemma keeps_procs_trans: "keeps_procs k1 k2 \<Longrightarrow> keeps_procs k2 k3 \<Longrightarrow> keeps_procs k1 k3"
  by (simp add: keeps_procs_def)

lemma pushcli_keeps: "keeps_procs k (pushcli c k)"
  by (simp add: keeps_procs_def pushcli_def upd_cpu_def myproc_def)

lemma set_lock_keeps: "keeps_procs k (set_lock l v k)"
  by (simp add: keeps_procs_def set_lock_def myproc_def)

lemma popcli_keeps: "popcli c k = Inr k' \<Longrightarrow> keeps_procs k k'"
  by (auto simp: keeps_procs_def popcli_def upd_cpu_def myproc_def Let_def split: if_splits)

lemma holding_keeps: "holding c l k = Inr (r, k') \<Longrightarrow> keeps_procs k k'"
  using popcli_keeps pushcli_keeps keeps_procs_trans by (fastforce simp: holding_def Let_def bindE_Inr_iff)

lemma acquire_keeps: "acquire c l k = Inr k' \<Longrightarrow> keeps_procs k k'"
proof -
  assume "acquire c l k = Inr k'"
  then obtain k2 where "holding c l (pushcli c k) = Inr (False, k2)" "k' = set_lock l \<lparr>locked = True, lcpu = Some c\<rparr> k2"
    by (auto simp: acquire_def bindE_Inr_iff split: if_splits)
  then show ?thesis
    using holding_keeps [of c l "pushcli c k" False k2] pushcli_keeps [of k c] set_lock_keeps keeps_procs_trans by metis
qed

lemma release_keeps: "release c l k = Inr k' \<Longrightarrow> keeps_procs k k'"
proof -
  assume "release c l k = Inr k'"
  then obtain k2 where "holding c l k = Inr (True, k2)" "popcli c (set_lock l \<lparr>locked = False, lcpu = None\<rparr> k2) = Inr k'"
    by (auto simp: release_def bindE_Inr_iff split: if_splits)
  then show ?thesis using holding_keeps popcli_keeps set_lock_keeps keeps_procs_trans by metis
qed

lemma switchuvm_keeps: "switchuvm c i k = Inr k' \<Longrightarrow> keeps_procs k k'"
  using popcli_keeps [of c "pushcli c k" k'] pushcli_keeps [of k c] keeps_procs_trans
  by (auto simp: switchuvm_def split: if_splits)

text \<open>\<open>allocuvm\<close> gives the new size or 0.\<close>

lemma allocuvm_loop_size: "allocuvm_loop kend pgdir a oldsz newsz s = Inr (sz, s') \<Longrightarrow> sz = newsz \<or> sz = 0"
  by (induction kend pgdir a oldsz newsz s rule: allocuvm_loop.induct)
    (subst (asm) allocuvm_loop.simps, auto simp: Let_def bindE_Inr_iff split: if_splits prod.splits)

lemma allocuvm_size:
  "allocuvm kend pgdir oldsz newsz s = Inr (sz, s') \<Longrightarrow> oldsz \<le> newsz \<Longrightarrow> sz \<noteq> 0 \<Longrightarrow> sz = newsz \<and> newsz < KERNBASE"
  by (auto simp: allocuvm_def not_le split: if_splits dest: allocuvm_loop_size)

lemma growproc_grows:
  assumes g: "growproc E c n k = Inr (r, k')" and cur: "myproc c k = Some cur" "cur < length (ptable k)"
    and n: "0 < n" and no_wrap: "p_sz (ptable k ! cur) \<le> p_sz (ptable k ! cur) + of_int n"
  shows "r = -1 \<and> keeps_procs k k' \<or>
    r = 0 \<and> myproc c k' = Some cur \<and> cur < length (ptable k') \<and>
      p_sz (ptable k' ! cur) = p_sz (ptable k ! cur) + of_int n \<and> p_sz (ptable k ! cur) + of_int n < KERNBASE"
proof -
  let ?sz = "p_sz (ptable k ! cur)" and ?pg = "p_pgdir (ptable k ! cur)"
  obtain sz m where a: "allocuvm (s_end E) ?pg ?sz (?sz + of_int n) (mach k) = Inr (sz, m)"
    and b: "(if sz = 0 then Inr (-1, k\<lparr>mach := m\<rparr>)
     else bindE (acquire c ptable_lock (k\<lparr>mach := m\<rparr>)) (\<lambda>k.
          bindE (release c ptable_lock (k\<lparr>ptable := set_sz ?pg sz (ptable k)\<rparr>)) (\<lambda>k.
          bindE (switchuvm c cur k) (\<lambda>k. Inr (0, k))))) = Inr (r, k')"
    using g cur n by (auto simp: growproc_def with_cur_def Let_def bindE_Inr_iff)
  show ?thesis
  proof (cases "sz = 0")
    case True
    then show ?thesis using b by (auto simp: keeps_procs_def myproc_def)
  next
    case False
    with b obtain k2 k3 where k: "acquire c ptable_lock (k\<lparr>mach := m\<rparr>) = Inr k2"
      "release c ptable_lock (k2\<lparr>ptable := set_sz ?pg sz (ptable k2)\<rparr>) = Inr k3" "switchuvm c cur k3 = Inr k'" "r = 0"
      by (auto simp: bindE_Inr_iff)
    have "ptable k2 = ptable k" "myproc c k2 = Some cur"
      using acquire_keeps [OF k(1)] cur by (auto simp: keeps_procs_def myproc_def)
    then have "ptable k' = set_sz ?pg sz (ptable k)" "myproc c k' = Some cur"
      using release_keeps [OF k(2)] switchuvm_keeps [OF k(3)] by (auto simp: keeps_procs_def myproc_def)
    then show ?thesis
      using allocuvm_size [OF a no_wrap False] cur k(4) by (simp add: set_sz_def)
  qed
qed

section \<open>The system call\<close>

text \<open>
  \<open>sbrk\<close> as a program calls it on processor \<open>c\<close>: a call in which the kernel stops does not
  return.  The end of the heap is the size of the process.
\<close>

definition user_sbrk :: "'f kenv \<Rightarrow> nat \<Rightarrow> 'f kernel sbrk" where
  "user_sbrk E c n k =
     (case myproc c k of
        None \<Rightarrow> None
      | Some cur \<Rightarrow>
          if cur < length (ptable k) then
            (case sys_sbrk E c (sint n) k of Inl _ \<Rightarrow> None | Inr (r, k') \<Rightarrow> Some (of_int r, k'))
          else None)"

definition user_brk :: "nat \<Rightarrow> 'f kernel \<Rightarrow> nat" where
  "user_brk c k = (case myproc c k of None \<Rightarrow> 0 | Some cur \<Rightarrow> unat (p_sz (ptable k ! cur)))"

lemma user_sbrk_cases:
  assumes s: "user_sbrk E c n k = Some (p, k')" and n: "0 < n" "unat n < 2147483648" and b: "user_brk c k \<le> 2147483648"
  shows "p = - 1 \<and> user_brk c k' = user_brk c k \<or>
    p \<noteq> - 1 \<and> unat p = user_brk c k \<and> user_brk c k' = user_brk c k + unat n \<and> user_brk c k' \<le> 2147483648"
proof -
  obtain cur where cur: "myproc c k = Some cur" "cur < length (ptable k)"
    using s by (auto simp: user_sbrk_def split: option.splits if_splits)
  define sz where "sz = p_sz (ptable k ! cur)"
  have b0: "user_brk c k = unat sz" "unat sz \<le> 2147483648" using b cur by (auto simp: user_brk_def sz_def)
  have sn: "0 < sint n"
  proof -
    have u: "uint n = int (unat n)" by simp
    have "0 < unat n" using n(1) by (simp add: word_less_nat_alt)
    have "- 2147483648 \<le> uint n" unfolding u by linarith
    moreover have "uint n < 2147483648" unfolding u using n(2) by linarith
    ultimately have "sint n = uint n" unfolding sint_uint by (intro signed_take_bit_int_eq_self) simp_all
    then show ?thesis using \<open>0 < unat n\<close> u by linarith
  qed
  have sum: "unat (sz + n) = unat sz + unat n" using b0 n(2) by (subst unat_plus_if') simp
  have wrap: "p_sz (ptable k ! cur) \<le> p_sz (ptable k ! cur) + of_int (sint n)"
    using sum by (simp add: sz_def [symmetric] word_le_nat_alt)
  have m1: "sz \<noteq> - 1"
  proof
    assume "sz = - 1"
    then show False using b0(2) by (simp add: unsigned_minus_1_eq_mask mask_eq_exp_minus_1)
  qed
  obtain q where q: "sys_sbrk E c (sint n) k = Inr (q, k')" "p = of_int q"
    using s cur by (auto simp: user_sbrk_def split: sum.splits)
  obtain r k1 where r: "growproc E c (sint n) k = Inr (r, k1)"
    using q(1) cur(1) by (auto simp: sys_sbrk_def with_cur_def Let_def bindE_Inr_iff)
  with q(1) have "q = (if r < 0 then -1 else sint sz)" "k1 = k'"
    using cur(1) by (simp_all add: sys_sbrk_def with_cur_def Let_def sz_def split: if_splits)
  then have g: "growproc E c (sint n) k = Inr (r, k')" "p = (if r < 0 then - 1 else sz)" using q(2) r by simp_all
  from growproc_grows [OF g(1) cur sn wrap] show ?thesis
  proof (elim disjE conjE)
    assume "r = -1" "keeps_procs k k'"
    then show ?thesis using g(2) cur by (auto simp: keeps_procs_def user_brk_def)
  next
    assume "r = 0" "myproc c k' = Some cur" "p_sz (ptable k' ! cur) = p_sz (ptable k ! cur) + of_int (sint n)"
      "p_sz (ptable k ! cur) + of_int (sint n) < KERNBASE"
    then show ?thesis
      using g(2) b0 sum m1 by (simp add: user_brk_def sz_def [symmetric] KERNBASE_def word_less_nat_alt)
  qed
qed

interpretation kernel_sbrk: sbrk_law "user_sbrk E c" "user_brk c" for E c
proof
  fix n p k k'
  assume "user_sbrk E c n k = Some (p, k')" "p \<noteq> - 1" "0 < n" "unat n < 2147483648" "user_brk c k \<le> 2147483648"
  then show "unat p = user_brk c k \<and> user_brk c k' = user_brk c k + unat n \<and> user_brk c k' \<le> 2147483648"
    using user_sbrk_cases by blast
next
  fix n k k'
  assume "user_sbrk E c n k = Some (- 1, k')" "0 < n" "unat n < 2147483648" "user_brk c k \<le> 2147483648"
  then show "user_brk c k' = user_brk c k" using user_sbrk_cases by blast
qed

text \<open>
  On the kernel: a program whose heap starts at the size of its process keeps the free list
  and its blocks apart through every run.
\<close>

lemma malloc_on_kernel:
  assumes "heap_run (user_sbrk E c) base s0 s live" "base \<noteq> 0"
    "unat base + 8 < user_brk c (kstate s0)" "user_brk c (kstate s0) \<le> 2147483648"
  shows "kernel_sbrk.run_inv c base (user_brk c (kstate s0)) s live"
  by (rule kernel_sbrk.heap_run_inv [OF assms])

end
