(* ===== verification/Tickets.thy ===== *)
theory Tickets
  imports Proc
begin

text \<open>
  The priority scheduler of \<open>p2b/xv6-public\<close>: every process has tickets (1 for high, 0 for low
  priority) and counts the times it was scheduled.  \<open>proc.c\<close> is otherwise the one of theory
  \<open>Proc\<close> without threads; modelled here is what \<open>p2b\<close> adds to it.
\<close>

section \<open>Processes with tickets\<close>

record tproc = proc +
  p_tickets :: int
  p_ticks :: int

text \<open>The new fields in \<open>allocproc\<close> and at the end of \<open>fork\<close>.\<close>

definition found_proc :: "int \<Rightarrow> tproc \<Rightarrow> tproc" where
  "found_proc pid p = p\<lparr>p_state := EMBRYO, p_pid := pid, p_tickets := 1, p_ticks := 0\<rparr>"

definition fork_ready :: "tproc \<Rightarrow> tproc \<Rightarrow> tproc" where
  "fork_ready curproc np = np\<lparr>p_state := RUNNABLE, p_tickets := p_tickets curproc, p_ticks := 0\<rparr>"

definition settickets :: "int \<Rightarrow> tproc \<Rightarrow> int \<times> tproc" where
  "settickets number p =
     (if number \<noteq> 1 \<and> number \<noteq> 0 then (- 1, p) else (0, p\<lparr>p_tickets := number\<rparr>))"

section \<open>One pass of the scheduler\<close>

fun max_tickets :: "int \<Rightarrow> tproc list \<Rightarrow> int" where
  "max_tickets maxtickets [] = maxtickets"
| "max_tickets maxtickets (p # ps) =
     max_tickets (if p_state p = RUNNABLE \<and> p_tickets p > maxtickets then p_tickets p else maxtickets) ps"

text \<open>
  \<open>run i ps\<close> is the table when process \<open>i\<close> has given the processor back with \<open>swtch\<close>: while
  it runs, it and the processes on other processors may change the table.  The pass returns the
  processes it ran.
\<close>

fun pass_loop :: "(nat \<Rightarrow> tproc list \<Rightarrow> tproc list) \<Rightarrow> int \<Rightarrow> nat list \<Rightarrow> tproc list \<Rightarrow> nat list \<times> tproc list" where
  "pass_loop run maxtickets [] ps = ([], ps)"
| "pass_loop run maxtickets (i # is) ps =
     (if p_state (ps ! i) \<noteq> RUNNABLE then pass_loop run maxtickets is ps
      else if p_tickets (ps ! i) = maxtickets then
        let ps = ps[i := (ps ! i)\<lparr>p_state := RUNNING\<rparr>];
            ps = run i ps;
            ps = ps[i := (ps ! i)\<lparr>p_ticks := p_ticks (ps ! i) + 1\<rparr>];
            (ran, ps) = pass_loop run maxtickets is ps
        in (i # ran, ps)
      else pass_loop run maxtickets is ps)"

definition scheduler_pass :: "(nat \<Rightarrow> tproc list \<Rightarrow> tproc list) \<Rightarrow> tproc list \<Rightarrow> nat list \<times> tproc list" where
  "scheduler_pass run ps = pass_loop run (max_tickets (- 1) ps) [0..<length ps] ps"

section \<open>Process information\<close>

record pstat =
  inuse :: "int list"
  ps_tickets :: "int list"
  ps_pid :: "int list"
  ps_ticks :: "int list"

fun pinfo_loop :: "tproc list \<Rightarrow> nat \<Rightarrow> pstat \<Rightarrow> pstat" where
  "pinfo_loop [] i p = p"
| "pinfo_loop (pr # prs) i p =
     (if p_state pr = UNUSED then pinfo_loop prs i p
      else pinfo_loop prs (i + 1)
             (p\<lparr>inuse := (inuse p)[i := 1], ps_tickets := (ps_tickets p)[i := p_tickets pr],
                ps_pid := (ps_pid p)[i := p_pid pr], ps_ticks := (ps_ticks p)[i := p_ticks pr]\<rparr>))"

definition getpinfo :: "tproc list \<Rightarrow> pstat option \<Rightarrow> int \<times> pstat option" where
  "getpinfo table p = (case p of None \<Rightarrow> (- 1, None) | Some p \<Rightarrow> (0, Some (pinfo_loop table 0 p)))"

section \<open>The processes that a pass runs\<close>

definition runnable :: "tproc \<Rightarrow> bool" where
  "runnable p \<longleftrightarrow> p_state p = RUNNABLE"

definition top_priority :: "tproc list \<Rightarrow> nat \<Rightarrow> bool" where
  "top_priority ps i \<longleftrightarrow> runnable (ps ! i) \<and> (\<forall>p\<in>set ps. runnable p \<longrightarrow> p_tickets p \<le> p_tickets (ps ! i))"

lemma max_tickets_bounds:
  "a \<le> max_tickets a ps \<and> (\<forall>p\<in>set ps. runnable p \<longrightarrow> p_tickets p \<le> max_tickets a ps) \<and>
   (max_tickets a ps = a \<or> (\<exists>p\<in>set ps. runnable p \<and> p_tickets p = max_tickets a ps))"
proof (induction ps arbitrary: a)
  case Nil
  then show ?case by simp
next
  case (Cons p ps)
  let ?b = "if p_state p = RUNNABLE \<and> p_tickets p > a then p_tickets p else a"
  have "a \<le> ?b" "runnable p \<Longrightarrow> p_tickets p \<le> ?b" "?b = a \<or> runnable p \<and> p_tickets p = ?b"
    by (auto simp: runnable_def)
  with Cons.IH [of ?b] show ?case by (simp only: max_tickets.simps list.set ball_simps bex_simps) linarith
qed

lemma top_priority_iff:
  assumes "\<forall>p\<in>set ps. 0 \<le> p_tickets p" and "i < length ps"
  shows "top_priority ps i \<longleftrightarrow> runnable (ps ! i) \<and> p_tickets (ps ! i) = max_tickets (- 1) ps"
proof -
  note B = max_tickets_bounds [of "- 1" ps]
  have i: "ps ! i \<in> set ps" using assms(2) by simp
  show ?thesis
  proof
    assume t: "top_priority ps i"
    then have "0 \<le> max_tickets (- 1) ps" using B i assms(1) by (force simp: top_priority_def)
    then obtain p where "p \<in> set ps" "runnable p" "p_tickets p = max_tickets (- 1) ps" using B by auto
    with t B i show "runnable (ps ! i) \<and> p_tickets (ps ! i) = max_tickets (- 1) ps"
      by (auto simp: top_priority_def intro!: antisym)
  next
    assume "runnable (ps ! i) \<and> p_tickets (ps ! i) = max_tickets (- 1) ps"
    with B show "top_priority ps i" by (auto simp: top_priority_def)
  qed
qed

lemma pass_loop_filter:
  assumes len: "\<And>i ps. length (run i ps) = length ps" and other: "\<And>i j ps. j \<noteq> i \<Longrightarrow> run i ps ! j = ps ! j"
    and "distinct js" and "\<And>j. j \<in> set js \<Longrightarrow> qs ! j = ps ! j" and "length qs = length ps" and "\<forall>j\<in>set js. j < length ps"
  shows "fst (pass_loop run M js qs) = filter (\<lambda>i. runnable (ps ! i) \<and> p_tickets (ps ! i) = M) js \<and>
     length (snd (pass_loop run M js qs)) = length qs \<and>
     (\<forall>j. j \<notin> set (fst (pass_loop run M js qs)) \<longrightarrow> snd (pass_loop run M js qs) ! j = qs ! j)"
  using assms(3-6)
proof (induction js arbitrary: qs)
  case Nil
  then show ?case by simp
next
  case (Cons i js)
  show ?case
  proof (cases "runnable (ps ! i) \<and> p_tickets (ps ! i) = M")
    case False
    with Cons Cons.prems(2) [of i] show ?thesis by (auto simp: runnable_def)
  next
    case True
    define r1 where "r1 = run i (qs[i := (qs ! i)\<lparr>p_state := RUNNING\<rparr>])"
    define r2 where "r2 = r1[i := (r1 ! i)\<lparr>p_ticks := p_ticks (r1 ! i) + 1\<rparr>]"
    have k: "r2 ! j = qs ! j" if "j \<noteq> i" for j using that by (simp add: r2_def r1_def other)
    have l: "length r2 = length qs" by (simp add: r2_def r1_def len)
    have IH: "fst (pass_loop run M js r2) = filter (\<lambda>i. runnable (ps ! i) \<and> p_tickets (ps ! i) = M) js \<and>
     length (snd (pass_loop run M js r2)) = length r2 \<and>
     (\<forall>j. j \<notin> set (fst (pass_loop run M js r2)) \<longrightarrow> snd (pass_loop run M js r2) ! j = r2 ! j)"
    proof (rule Cons.IH)
      show "r2 ! j = ps ! j" if "j \<in> set js" for j
      proof -
        have "j \<noteq> i" using that Cons.prems(1) by auto
        then show ?thesis using k Cons.prems(2) that by simp
      qed
    qed (use Cons.prems l in auto)
    have s: "pass_loop run M (i # js) qs = (i # fst (pass_loop run M js r2), snd (pass_loop run M js r2))"
      using True Cons.prems(2) [of i] by (simp add: runnable_def r1_def r2_def Let_def split: prod.split)
    show ?thesis unfolding s using IH True k l by auto
  qed
qed


text \<open>A table of two runnable processes with different tickets, and a process that yields at once.\<close>

definition yields :: "nat \<Rightarrow> tproc list \<Rightarrow> tproc list" where
  "yields i ps = ps[i := (ps ! i)\<lparr>p_state := RUNNABLE\<rparr>]"


section \<open>What getpinfo reports\<close>

lemma upd_overlay: "i < length xs \<Longrightarrow> take (Suc i) (xs[i := v]) = take i xs @ [v]" "i < k \<Longrightarrow> drop k (xs[i := v]) = drop k xs"
  by (simp_all add: take_Suc_conv_app_nth)

lemma pinfo_loop_eq:
  assumes "i + length (filter (\<lambda>p. p_state p \<noteq> UNUSED) prs) \<le> n"
    and "length (inuse p) = n" "length (ps_tickets p) = n" "length (ps_pid p) = n" "length (ps_ticks p) = n"
  shows "pinfo_loop prs i p =
    (let used = filter (\<lambda>p. p_state p \<noteq> UNUSED) prs; k = i + length used in
     p\<lparr>inuse := take i (inuse p) @ replicate (length used) 1 @ drop k (inuse p),
       ps_tickets := take i (ps_tickets p) @ map p_tickets used @ drop k (ps_tickets p),
       ps_pid := take i (ps_pid p) @ map p_pid used @ drop k (ps_pid p),
       ps_ticks := take i (ps_ticks p) @ map p_ticks used @ drop k (ps_ticks p)\<rparr>)"
  using assms
proof (induction prs arbitrary: i p)
  case Nil
  then show ?case by (simp add: Let_def)
next
  case (Cons pr prs)
  show ?case
  proof (cases "p_state pr = UNUSED")
    case True
    with Cons show ?thesis by simp
  next
    case False
    with Cons.prems have "i < n" by simp
    with False Cons.prems Cons.IH [of "i + 1" "p\<lparr>inuse := (inuse p)[i := 1], ps_tickets := (ps_tickets p)[i := p_tickets pr],
                ps_pid := (ps_pid p)[i := p_pid pr], ps_ticks := (ps_ticks p)[i := p_ticks pr]\<rparr>"]
    show ?thesis by (simp add: Let_def upd_overlay)
  qed
qed

text \<open>
  \<open>getpinfo\<close> fills the arrays from the front with the processes in use, in the order of the
  table, and leaves the rest of the caller's arrays as it was.  So entry \<open>i\<close> is not entry \<open>i\<close>
  of the process table, and \<open>inuse\<close> is never set to 0.
\<close>

theorem getpinfo_compacts:
  assumes "length table \<le> n" and "length (inuse p) = n" "length (ps_tickets p) = n" "length (ps_pid p) = n" "length (ps_ticks p) = n"
  shows "\<exists>q. getpinfo table (Some p) = (0, Some q) \<and>
    (let used = filter (\<lambda>p. p_state p \<noteq> UNUSED) table; k = length used in
       inuse q = replicate k 1 @ drop k (inuse p) \<and>
       ps_tickets q = map p_tickets used @ drop k (ps_tickets p) \<and>
       ps_pid q = map p_pid used @ drop k (ps_pid p) \<and>
       ps_ticks q = map p_ticks used @ drop k (ps_ticks p))"
proof -
  have "0 + length (filter (\<lambda>p. p_state p \<noteq> UNUSED) table) \<le> n"
    using assms(1) length_filter_le [of "\<lambda>p. p_state p \<noteq> UNUSED" table] by (simp only: add_0)
  from pinfo_loop_eq [OF this assms(2-5)] show ?thesis
    by (simp add: getpinfo_def Let_def)
qed

theorem getpinfo_compacts_witness:
  "\<forall>p. \<exists>q. getpinfo [p\<lparr>p_state := UNUSED\<rparr>, p\<lparr>p_state := RUNNING, p_pid := 7\<rparr>]
       (Some \<lparr> inuse = [5, 5], ps_tickets = [5, 5], ps_pid = [5, 5], ps_ticks = [5, 5] \<rparr>) = (0, Some q) \<and>
     inuse q = [1, 5] \<and> ps_pid q = [7, 5]"
proof
  fix p :: tproc
  show "\<exists>q. getpinfo [p\<lparr>p_state := UNUSED\<rparr>, p\<lparr>p_state := RUNNING, p_pid := 7\<rparr>]
       (Some \<lparr> inuse = [5, 5], ps_tickets = [5, 5], ps_pid = [5, 5], ps_ticks = [5, 5] \<rparr>) = (0, Some q) \<and>
     inuse q = [1, 5] \<and> ps_pid q = [7, 5]"
    using getpinfo_compacts [of "[p\<lparr>p_state := UNUSED\<rparr>, p\<lparr>p_state := RUNNING, p_pid := 7\<rparr>]" 2
      "\<lparr> inuse = [5, 5], ps_tickets = [5, 5], ps_pid = [5, 5], ps_ticks = [5, 5] \<rparr>"]
    by (auto simp: Let_def)
qed

end
