(* ===== verification/Ufs.thy ===== *)
theory Ufs
  imports Prelude "HOL-Library.Signed_Division"
begin

text \<open>
  The file server of the distributed file system (\<open>p4/Distributed-File-System\<close>): the
  on-disk structures of \<open>ufs.h\<close> and every operation of \<open>fs.c\<close>, over the mapped image as
  bytes.  All structures live in one image and are reached by address arithmetic, so that a
  pointer into the wrong region, an array index past its end or a string copied past its field
  hits the bytes the program would hit.
\<close>

section \<open>The mapped image\<close>

text \<open>
  \<open>BadAccess\<close> is an access outside the mapped image, \<open>BadShift\<close> a shift by a negative
  count or by the width of the type; C leaves both undefined.  \<open>Abort\<close> is a failed assertion.
\<close>

datatype ufs_fault = BadAccess | BadShift | Abort

record image =
  bytes :: "nat \<Rightarrow> byte"
  img_len :: nat

definition in_img :: "image \<Rightarrow> int \<Rightarrow> nat \<Rightarrow> bool" where
  "in_img m a n \<longleftrightarrow> 0 \<le> a \<and> a + int n \<le> int (img_len m)"

definition get_bytes :: "image \<Rightarrow> int \<Rightarrow> nat \<Rightarrow> byte list" where
  "get_bytes m a n = map (\<lambda>k. bytes m (nat a + k)) [0..<n]"

definition put_bytes :: "image \<Rightarrow> int \<Rightarrow> byte list \<Rightarrow> image" where
  "put_bytes m a bs =
     m\<lparr>bytes := \<lambda>b. if nat a \<le> b \<and> b < nat a + length bs then bs ! (b - nat a) else bytes m b\<rparr>"

definition int_at :: "image \<Rightarrow> int \<Rightarrow> int" where
  "int_at m a = signed 32 (le_nat (get_bytes m a 4))"

definition put_int :: "image \<Rightarrow> int \<Rightarrow> int \<Rightarrow> image" where
  "put_int m a v = put_bytes m a (le_bytes 4 (wrap 32 v))"

definition ld32 :: "image \<Rightarrow> int \<Rightarrow> ufs_fault + int" where
  "ld32 m a = (if in_img m a 4 then Inr (int_at m a) else Inl BadAccess)"

definition st32 :: "int \<Rightarrow> int \<Rightarrow> image \<Rightarrow> ufs_fault + image" where
  "st32 a v m = (if in_img m a 4 then Inr (put_int m a v) else Inl BadAccess)"

definition ld_bytes :: "image \<Rightarrow> int \<Rightarrow> nat \<Rightarrow> ufs_fault + byte list" where
  "ld_bytes m a n = (if in_img m a n then Inr (get_bytes m a n) else Inl BadAccess)"

definition st_bytes :: "int \<Rightarrow> byte list \<Rightarrow> image \<Rightarrow> ufs_fault + image" where
  "st_bytes a bs m = (if in_img m a (length bs) then Inr (put_bytes m a bs) else Inl BadAccess)"

text \<open>Arithmetic of a C \<open>int\<close>, with two's complement wrap-around.\<close>

definition w32 :: "int \<Rightarrow> int" where
  "w32 i = signed 32 (wrap 32 i)"

text \<open>
  \<open>strcmp(name, p) == 0\<close> for a string \<open>name\<close> (without its terminating zero) and a
  pointer \<open>p\<close> into the image; the comparison stops at the first difference.
\<close>

fun str_eq :: "image \<Rightarrow> byte list \<Rightarrow> int \<Rightarrow> ufs_fault + bool" where
  "str_eq m [] p = (if in_img m p 1 then Inr (bytes m (nat p) = 0) else Inl BadAccess)"
| "str_eq m (c # cs) p =
     (if \<not> in_img m p 1 then Inl BadAccess
      else if bytes m (nat p) = c then str_eq m cs (p + 1) else Inr False)"

section \<open>On-disk structures\<close>

definition UFS_DIRECTORY :: int where "UFS_DIRECTORY = 0"
definition UFS_REGULAR_FILE :: int where "UFS_REGULAR_FILE = 1"
definition UFS_BLOCK_SIZE :: int where "UFS_BLOCK_SIZE = 4096"
definition DIRECT_PTRS :: nat where "DIRECT_PTRS = 30"

text \<open>
  The layout of \<open>inode_t\<close> (128 bytes), \<open>dir_ent_t\<close> (32 bytes) and \<open>super_t\<close>:
  the address of each field from the address of the structure.
\<close>

definition sizeof_inode :: int where "sizeof_inode = 128"
definition sizeof_dir_ent :: int where "sizeof_dir_ent = 32"

definition i_type :: "int \<Rightarrow> int" where "i_type p = p"
definition i_size :: "int \<Rightarrow> int" where "i_size p = p + 4"
definition i_direct :: "int \<Rightarrow> int \<Rightarrow> int" where "i_direct p k = p + 8 + 4 * k"

definition d_name :: "int \<Rightarrow> int" where "d_name p = p"
definition d_inum :: "int \<Rightarrow> int" where "d_inum p = p + 28"

definition dirents_per_block :: nat where
  "dirents_per_block = nat (UFS_BLOCK_SIZE div sizeof_dir_ent)"

record super_t =
  inode_bitmap_addr :: int
  s_inode_bitmap_len :: int
  data_bitmap_addr :: int
  s_data_bitmap_len :: int
  inode_region_addr :: int
  s_inode_region_len :: int
  data_region_addr :: int
  s_data_region_len :: int
  num_inodes :: int
  num_data :: int

definition super_at :: "image \<Rightarrow> int \<Rightarrow> ufs_fault + super_t" where
  "super_at m p =
     (if in_img m p 40
      then Inr \<lparr> inode_bitmap_addr = int_at m p, s_inode_bitmap_len = int_at m (p + 4),
                 data_bitmap_addr = int_at m (p + 8), s_data_bitmap_len = int_at m (p + 12),
                 inode_region_addr = int_at m (p + 16), s_inode_region_len = int_at m (p + 20),
                 data_region_addr = int_at m (p + 24), s_data_region_len = int_at m (p + 28),
                 num_inodes = int_at m (p + 32), num_data = int_at m (p + 36) \<rparr>
      else Inl BadAccess)"

text \<open>\<open>disk_t\<close>: pointers are byte offsets into the image.\<close>

record disk_t =
  super_ptr :: int
  inode_bitmap_ptr :: int
  inode_bitmap_len :: int
  data_bitmap_ptr :: int
  data_bitmap_len :: int
  inode_region_ptr :: int
  inode_region_len :: int
  data_region_ptr :: int
  data_region_len :: int
  disk_len :: int

definition init_disk :: "image \<Rightarrow> ufs_fault + disk_t" where
  "init_disk m =
     bindE (super_at m 0) (\<lambda>s.
       Inr \<lparr> super_ptr = 0,
             inode_bitmap_ptr = UFS_BLOCK_SIZE * inode_bitmap_addr s,
             inode_bitmap_len = s_inode_bitmap_len s,
             data_bitmap_ptr = UFS_BLOCK_SIZE * data_bitmap_addr s,
             data_bitmap_len = s_data_bitmap_len s,
             inode_region_ptr = UFS_BLOCK_SIZE * inode_region_addr s,
             inode_region_len = s_inode_region_len s,
             data_region_ptr = UFS_BLOCK_SIZE * data_region_addr s,
             data_region_len = s_data_region_len s,
             disk_len = int (img_len m) sdiv UFS_BLOCK_SIZE \<rparr>)"

text \<open>\<open>(block_t *)disk->super_ptr + n\<close>\<close>

definition block_ptr :: "disk_t \<Rightarrow> int \<Rightarrow> int" where
  "block_ptr d n = super_ptr d + UFS_BLOCK_SIZE * n"

section \<open>Bitmaps\<close>

text \<open>
  \<open>bitint = ((int *)bitmap)[i/32]; bitint >>= (31 - i%32); bitint &= 0x1\<close>: the test
  that the three bitmap functions share.
\<close>

definition test_bitint :: "image \<Rightarrow> int \<Rightarrow> int \<Rightarrow> ufs_fault + bool" where
  "test_bitint m bitmap i =
     bindE (ld32 m (bitmap + 4 * (i sdiv 32))) (\<lambda>v.
       if i smod 32 < 0 then Inl BadShift
       else Inr (and (signed_drop_bit (nat (31 - i smod 32)) (word_of_int v :: u32)) 1 \<noteq> 0))"

definition get_inode_ptr :: "disk_t \<Rightarrow> image \<Rightarrow> int \<Rightarrow> ufs_fault + int option" where
  "get_inode_ptr d m inum =
     bindE (test_bitint m (inode_bitmap_ptr d) inum) (\<lambda>b.
       Inr (if b then Some (inode_region_ptr d + sizeof_inode * inum) else None))"

function find_free_loop :: "image \<Rightarrow> int \<Rightarrow> int \<Rightarrow> int \<Rightarrow> ufs_fault + int" where
  "find_free_loop m bitmap bound i =
     (if i < bound
      then bindE (test_bitint m bitmap i) (\<lambda>b.
             if b then find_free_loop m bitmap bound (i + 1) else Inr i)
      else Inr (- 1))"
  by pat_completeness auto
termination
  by (relation "measure (\<lambda>(m, bitmap, bound, i). nat (bound - i))") auto

declare find_free_loop.simps [simp del]

definition find_free_block :: "image \<Rightarrow> int \<Rightarrow> int \<Rightarrow> ufs_fault + int" where
  "find_free_block m bitmap bitmap_len =
     find_free_loop m bitmap (((w32 (32 * bitmap_len)) mod 2 ^ 64 * (UFS_BLOCK_SIZE div 4)) mod 2 ^ 64) 0"

definition flip_bit :: "int \<Rightarrow> int \<Rightarrow> image \<Rightarrow> ufs_fault + image" where
  "flip_bit bitmap i m =
     bindE (test_bitint m bitmap i) (\<lambda>b.
     bindE (ld32 m (bitmap + 4 * (i sdiv 32))) (\<lambda>v.
       let mask = push_bit (nat (31 - i smod 32)) (1 :: u32);
           w = (word_of_int v :: u32)
       in st32 (bitmap + 4 * (i sdiv 32)) (uint (if b then and w (not mask) else or w mask)) m))"

section \<open>Directories: lookup and stat\<close>

text \<open>
  The loops over the direct pointers of a directory and the entries of each block, shared by
  \<open>fs_lookup\<close>, \<open>fs_creat\<close> and \<open>fs_unlink\<close>: the address of the first used entry with the
  given name.  \<open>continue\<close> is the next entry, \<open>break\<close> the end of the list of blocks.
\<close>

fun match_entry :: "image \<Rightarrow> int \<Rightarrow> byte list \<Rightarrow> nat list \<Rightarrow> ufs_fault + int option" where
  "match_entry m ptr name [] = Inr None"
| "match_entry m ptr name (j # js) =
     (let e = ptr + sizeof_dir_ent * int j in
      bindE (ld32 m (d_inum e)) (\<lambda>inum.
        if inum = - 1 then match_entry m ptr name js
        else bindE (str_eq m name (d_name e)) (\<lambda>eq.
               if eq then Inr (Some e) else match_entry m ptr name js)))"

fun match_block :: "disk_t \<Rightarrow> image \<Rightarrow> int \<Rightarrow> byte list \<Rightarrow> nat list \<Rightarrow> ufs_fault + int option" where
  "match_block d m inode name [] = Inr None"
| "match_block d m inode name (i # is) =
     bindE (ld32 m (i_direct inode (int i))) (\<lambda>b.
       if b = - 1 then Inr None
       else bindE (match_entry m (block_ptr d b) name [0..<dirents_per_block]) (\<lambda>r.
              case r of Some e \<Rightarrow> Inr (Some e) | None \<Rightarrow> match_block d m inode name is))"

definition dir_find :: "disk_t \<Rightarrow> image \<Rightarrow> int \<Rightarrow> byte list \<Rightarrow> ufs_fault + int option" where
  "dir_find d m inode name = match_block d m inode name [0..<DIRECT_PTRS]"

definition fs_lookup :: "disk_t \<Rightarrow> image \<Rightarrow> int \<Rightarrow> byte list \<Rightarrow> ufs_fault + int" where
  "fs_lookup d m pinum name =
     bindE (get_inode_ptr d m pinum) (\<lambda>r.
       case r of None \<Rightarrow> Inr (- 1)
       | Some inode \<Rightarrow>
           bindE (dir_find d m inode name) (\<lambda>f.
             case f of None \<Rightarrow> Inr (- 1) | Some e \<Rightarrow> ld32 m (d_inum e)))"

record MFS_Stat_t =
  m_type :: int
  m_size :: int

definition fs_stat :: "disk_t \<Rightarrow> image \<Rightarrow> int \<Rightarrow> MFS_Stat_t \<Rightarrow> ufs_fault + int \<times> MFS_Stat_t" where
  "fs_stat d m inum st =
     bindE (get_inode_ptr d m inum) (\<lambda>r.
       case r of None \<Rightarrow> Inr (- 1, st)
       | Some inode \<Rightarrow>
           bindE (ld32 m (i_size inode)) (\<lambda>sz.
           bindE (ld32 m (i_type inode)) (\<lambda>ty.
             Inr (0, st\<lparr>m_size := sz, m_type := ty\<rparr>))))"

section \<open>File contents: write and read\<close>

text \<open>
  The block of direct pointer \<open>k\<close>, allocated when the pointer is -1.  The pointer that is
  stored is the index in the data bitmap.
\<close>

definition assign_block :: "disk_t \<Rightarrow> int \<Rightarrow> int \<Rightarrow> image \<Rightarrow> ufs_fault + int \<times> image" where
  "assign_block d inode k m =
     bindE (ld32 m (i_direct inode k)) (\<lambda>block_addr.
       if block_addr = - 1 then
         bindE (find_free_block m (data_bitmap_ptr d) (data_bitmap_len d)) (\<lambda>dnum.
         bindE (flip_bit (data_bitmap_ptr d) dnum m) (\<lambda>m.
         bindE (st32 (i_direct inode k) dnum m) (\<lambda>m.
         bindE (ld32 m (i_size inode)) (\<lambda>sz.
         bindE (st32 (i_size inode) (sz + sizeof_dir_ent) m) (\<lambda>m.
           Inr (dnum, m))))))
       else Inr (block_addr, m))"

text \<open>\<open>memcpy(p, buffer, n)\<close> from a buffer of the program to the image, and back.\<close>

definition copy_in :: "int \<Rightarrow> byte list \<Rightarrow> int \<Rightarrow> image \<Rightarrow> ufs_fault + image" where
  "copy_in p buffer n m =
     (if 0 \<le> n \<and> nat n \<le> length buffer then st_bytes p (take (nat n) buffer) m else Inl BadAccess)"

definition copy_out :: "image \<Rightarrow> byte list \<Rightarrow> int \<Rightarrow> int \<Rightarrow> ufs_fault + byte list" where
  "copy_out m buffer p n =
     (if 0 \<le> n \<and> nat n \<le> length buffer
      then bindE (ld_bytes m p (nat n)) (\<lambda>bs. Inr (put_at 0 bs buffer)) else Inl BadAccess)"

definition fs_write :: "disk_t \<Rightarrow> image \<Rightarrow> int \<Rightarrow> byte list \<Rightarrow> int \<Rightarrow> int \<Rightarrow> ufs_fault + int \<times> image" where
  "fs_write d m inum buffer offset nbytes =
     bindE (get_inode_ptr d m inum) (\<lambda>r.
       case r of None \<Rightarrow> Inr (- 1, m)
       | Some inode \<Rightarrow>
         if nbytes > UFS_BLOCK_SIZE \<or> nbytes < 0 then Inr (- 1, m)
         else bindE (ld32 m (i_type inode)) (\<lambda>ty.
         if ty = UFS_DIRECTORY then Inr (- 1, m)
         else bindE (ld32 m (i_size inode)) (\<lambda>sz.
         if offset > w32 (sz * UFS_BLOCK_SIZE) \<or> offset < 0 then Inr (- 1, m)
         else
           let block_num = offset sdiv UFS_BLOCK_SIZE;
               rest = UFS_BLOCK_SIZE - offset smod UFS_BLOCK_SIZE
           in bindE (assign_block d inode block_num m) (\<lambda>(block_addr, m).
              let p = block_ptr d block_addr + offset smod UFS_BLOCK_SIZE in
              if w32 (offset + nbytes) sdiv UFS_BLOCK_SIZE = block_num
              then bindE (copy_in p buffer nbytes m) (\<lambda>m. Inr (0, m))
              else bindE (copy_in p buffer rest m) (\<lambda>m.
                   if block_num + 1 \<ge> int DIRECT_PTRS then Inr (- 1, m)
                   else bindE (assign_block d inode (block_num + 1) m) (\<lambda>(block_addr, m).
                        bindE (copy_in (block_ptr d block_addr) buffer (nbytes - rest) m) (\<lambda>m.
                          Inr (0, m))))))))"

definition fs_read :: "disk_t \<Rightarrow> image \<Rightarrow> int \<Rightarrow> byte list \<Rightarrow> int \<Rightarrow> int \<Rightarrow> ufs_fault + int \<times> byte list" where
  "fs_read d m inum buffer offset nbytes =
     bindE (get_inode_ptr d m inum) (\<lambda>r.
       case r of None \<Rightarrow> Inr (- 1, buffer)
       | Some inode \<Rightarrow>
         if nbytes > UFS_BLOCK_SIZE \<or> nbytes < 0 then Inr (- 1, buffer)
         else bindE (ld32 m (i_size inode)) (\<lambda>sz.
         if offset > w32 (sz * UFS_BLOCK_SIZE) \<or> offset < 0 then Inr (- 1, buffer)
         else if offset mod sizeof_dir_ent \<noteq> 0 \<or> nbytes mod sizeof_dir_ent \<noteq> 0 then Inr (- 1, buffer)
         else
           let block_num = offset sdiv UFS_BLOCK_SIZE;
               rest = UFS_BLOCK_SIZE - offset smod UFS_BLOCK_SIZE
           in bindE (ld32 m (i_direct inode block_num)) (\<lambda>block_addr.
              let p = block_ptr d block_addr + offset smod UFS_BLOCK_SIZE in
              if w32 (offset + nbytes) sdiv UFS_BLOCK_SIZE = block_num
              then bindE (copy_out m buffer p nbytes) (\<lambda>buffer. Inr (0, buffer))
              else bindE (copy_out m buffer p rest) (\<lambda>buffer.
                   if block_num + 1 \<ge> int DIRECT_PTRS then Inr (- 1, buffer)
                   else bindE (ld32 m (i_direct inode (block_num + 1))) (\<lambda>block_addr.
                        if block_addr = - 1 then Inr (- 1, buffer)
                        else bindE (copy_out m buffer (block_ptr d block_addr) (nbytes - rest)) (\<lambda>buffer.
                               Inr (0, buffer)))))))"

section \<open>Creation\<close>

text \<open>The first unused entry of a block that is not named \<open>..\<close>\<close>

definition dot :: "byte list" where "dot = [46]"
definition dotdot :: "byte list" where "dotdot = [46, 46]"

fun unused_entry :: "image \<Rightarrow> int \<Rightarrow> nat list \<Rightarrow> ufs_fault + int option" where
  "unused_entry m ptr [] = Inr None"
| "unused_entry m ptr (j # js) =
     (let e = ptr + sizeof_dir_ent * int j in
      bindE (ld32 m (d_inum e)) (\<lambda>inum.
        if inum = - 1
        then bindE (str_eq m dotdot (d_name e)) (\<lambda>eq.
               if eq then unused_entry m ptr js else Inr (Some e))
        else unused_entry m ptr js))"

text \<open>\<open>strcpy(p, name)\<close> into the image\<close>

definition strcpy_to :: "int \<Rightarrow> byte list \<Rightarrow> image \<Rightarrow> ufs_fault + image" where
  "strcpy_to p name m = st_bytes p (name @ [0]) m"

definition init_inode :: "int \<Rightarrow> int \<Rightarrow> image \<Rightarrow> ufs_fault + image" where
  "init_inode p ty m =
     bindE (st32 (i_type p) ty m) (\<lambda>m.
     bindE (st32 (i_size p) 0 m) (\<lambda>m.
       forE (\<lambda>k. st32 (i_direct p (int k)) (- 1)) [0..<DIRECT_PTRS] m))"

definition init_dir_block :: "int \<Rightarrow> int \<Rightarrow> int \<Rightarrow> image \<Rightarrow> ufs_fault + image" where
  "init_dir_block entry_ptr self pinum m =
     bindE (strcpy_to (d_name entry_ptr) dot m) (\<lambda>m.
     bindE (st32 (d_inum entry_ptr) self m) (\<lambda>m.
     bindE (strcpy_to (d_name (entry_ptr + sizeof_dir_ent)) dotdot m) (\<lambda>m.
     bindE (st32 (d_inum (entry_ptr + sizeof_dir_ent)) pinum m) (\<lambda>m.
       forE (\<lambda>t. st32 (d_inum (entry_ptr + sizeof_dir_ent * int t)) (- 1)) [2..<dirents_per_block] m))))"

definition make_dir :: "disk_t \<Rightarrow> int \<Rightarrow> int \<Rightarrow> int \<Rightarrow> image \<Rightarrow> ufs_fault + bool \<times> image" where
  "make_dir d new_inode new_inum pinum m =
     bindE (find_free_block m (data_bitmap_ptr d) (data_bitmap_len d)) (\<lambda>new_dnum.
       if new_dnum = - 1 then Inr (False, m)
       else
         bindE (flip_bit (data_bitmap_ptr d) new_dnum m) (\<lambda>m.
         bindE (st32 (i_size new_inode) (2 * sizeof_dir_ent) m) (\<lambda>m.
         bindE (super_at m (super_ptr d)) (\<lambda>s.
         bindE (st32 (i_direct new_inode 0) (new_dnum + data_region_addr s) m) (\<lambda>m.
         bindE (ld32 m (i_direct new_inode 0)) (\<lambda>b.
         bindE (init_dir_block (block_ptr d b) new_inum pinum m) (\<lambda>m.
           Inr (True, m))))))))"

definition creat_entry :: "disk_t \<Rightarrow> int \<Rightarrow> int \<Rightarrow> byte list \<Rightarrow> int \<Rightarrow> int \<Rightarrow> image \<Rightarrow> ufs_fault + int \<times> image" where
  "creat_entry d pinum ty name inode e m =
     bindE (find_free_block m (inode_bitmap_ptr d) (inode_bitmap_len d)) (\<lambda>new_inum.
       if new_inum = - 1 then Inr (- 1, m)
       else
         bindE (flip_bit (inode_bitmap_ptr d) new_inum m) (\<lambda>m.
         bindE (st32 (d_inum e) new_inum m) (\<lambda>m.
         bindE (strcpy_to (d_name e) name m) (\<lambda>m.
         bindE (ld32 m (d_inum e)) (\<lambda>n.
         bindE (get_inode_ptr d m n) (\<lambda>r.
           case r of None \<Rightarrow> Inr (- 1, m)
           | Some new_inode \<Rightarrow>
             bindE (init_inode new_inode ty m) (\<lambda>m.
             bindE (ld32 m (i_type new_inode)) (\<lambda>t.
             bindE (if t = UFS_DIRECTORY then make_dir d new_inode new_inum pinum m else Inr (True, m)) (\<lambda>(ok, m).
               if \<not> ok then Inr (- 1, m)
               else bindE (ld32 m (i_size inode)) (\<lambda>sz.
                    bindE (st32 (i_size inode) (sz + sizeof_dir_ent) m) (\<lambda>m.
                      Inr (0, m))))))))))))"

fun creat_blocks :: "disk_t \<Rightarrow> int \<Rightarrow> int \<Rightarrow> byte list \<Rightarrow> int \<Rightarrow> nat list \<Rightarrow> image \<Rightarrow> ufs_fault + int \<times> image" where
  "creat_blocks d pinum ty name inode [] m = Inr (- 1, m)"
| "creat_blocks d pinum ty name inode (i # is) m =
     bindE (ld32 m (i_direct inode (int i))) (\<lambda>b.
     bindE (if b = - 1
            then bindE (find_free_block m (data_bitmap_ptr d) (data_bitmap_len d)) (\<lambda>dnum.
                 bindE (flip_bit (data_bitmap_ptr d) dnum m) (\<lambda>m.
                   st32 (i_direct inode (int i)) dnum m))
            else Inr m) (\<lambda>m.
     bindE (ld32 m (i_direct inode (int i))) (\<lambda>b.
     bindE (unused_entry m (block_ptr d b) [0..<dirents_per_block]) (\<lambda>r.
       case r of Some e \<Rightarrow> creat_entry d pinum ty name inode e m
       | None \<Rightarrow> creat_blocks d pinum ty name inode is m))))"

definition fs_creat :: "disk_t \<Rightarrow> image \<Rightarrow> int \<Rightarrow> int \<Rightarrow> byte list \<Rightarrow> ufs_fault + int \<times> image" where
  "fs_creat d m pinum ty name =
     bindE (get_inode_ptr d m pinum) (\<lambda>r.
       case r of None \<Rightarrow> Inr (- 1, m)
       | Some inode \<Rightarrow>
         if length name > 28 then Inr (- 1, m)
         else bindE (dir_find d m inode name) (\<lambda>f.
           case f of Some e \<Rightarrow> Inr (0, m)
           | None \<Rightarrow> creat_blocks d pinum ty name inode [0..<DIRECT_PTRS] m))"

section \<open>Removal\<close>

fun entries_unused :: "image \<Rightarrow> int \<Rightarrow> nat list \<Rightarrow> ufs_fault + bool" where
  "entries_unused m ptr [] = Inr True"
| "entries_unused m ptr (t # ts) =
     bindE (ld32 m (d_inum (ptr + sizeof_dir_ent * int t))) (\<lambda>inum.
       if inum \<noteq> - 1 then Inr False else entries_unused m ptr ts)"

fun dir_unused :: "disk_t \<Rightarrow> image \<Rightarrow> int \<Rightarrow> nat list \<Rightarrow> ufs_fault + bool" where
  "dir_unused d m cinode [] = Inr True"
| "dir_unused d m cinode (k # ks) =
     bindE (ld32 m (i_direct cinode (int k))) (\<lambda>b.
       if b \<noteq> - 1
       then bindE (entries_unused m (block_ptr d b) [0..<dirents_per_block]) (\<lambda>ok.
              if ok then dir_unused d m cinode ks else Inr False)
       else dir_unused d m cinode ks)"

definition free_block :: "disk_t \<Rightarrow> int \<Rightarrow> nat \<Rightarrow> image \<Rightarrow> ufs_fault + image" where
  "free_block d cinode k m =
     bindE (ld32 m (i_direct cinode (int k))) (\<lambda>b.
       if b \<noteq> - 1
       then bindE (super_at m (super_ptr d)) (\<lambda>s.
              flip_bit (data_bitmap_ptr d) (w32 (b - data_region_addr s)) m)
       else Inr m)"

definition fs_unlink :: "disk_t \<Rightarrow> image \<Rightarrow> int \<Rightarrow> byte list \<Rightarrow> ufs_fault + int \<times> image" where
  "fs_unlink d m pinum name =
     bindE (get_inode_ptr d m pinum) (\<lambda>r.
       case r of None \<Rightarrow> Inr (- 1, m)
       | Some inode \<Rightarrow>
         bindE (dir_find d m inode name) (\<lambda>f.
           case f of None \<Rightarrow> Inr (- 1, m)
           | Some e \<Rightarrow>
             bindE (ld32 m (d_inum e)) (\<lambda>cinum.
             bindE (get_inode_ptr d m cinum) (\<lambda>c.
               case c of None \<Rightarrow> Inr (- 1, m)
               | Some cinode \<Rightarrow>
                 bindE (ld32 m (i_type cinode)) (\<lambda>ty.
                 bindE (if ty = UFS_DIRECTORY then dir_unused d m cinode [0..<DIRECT_PTRS] else Inr True) (\<lambda>ok.
                   if \<not> ok then Inr (- 1, m)
                   else
                     bindE (forE (free_block d cinode) [0..<DIRECT_PTRS] m) (\<lambda>m.
                     bindE (flip_bit (inode_bitmap_ptr d) cinum m) (\<lambda>m.
                     bindE (st32 (d_inum e) (- 1) m) (\<lambda>m.
                     bindE (ld32 m (i_size inode)) (\<lambda>sz.
                     bindE (st32 (i_size inode) (sz - sizeof_dir_ent) m) (\<lambda>m.
                       Inr (0, m))))))))))))"

end
