(* ===== verification/Mfs.thy ===== *)
theory Mfs
  imports Ufs
begin

text \<open>
  The rest of the distributed file system: the program that makes an image (\<open>mkfs.c\<close>), the
  message and the server loop (\<open>mfs.h\<close>, \<open>server.c\<close>), the socket wrappers (\<open>udp.c\<close>) and
  the client library (\<open>libmfs.c\<close>).  The results of the system calls are arguments.
\<close>

section \<open>Making an image\<close>

definition div_up :: "int \<Rightarrow> int \<Rightarrow> int" where
  "div_up n k = n sdiv k + (if n smod k \<noteq> 0 then 1 else 0)"

definition bits_per_block :: int where
  "bits_per_block = 8 * UFS_BLOCK_SIZE"

definition mkfs_super :: "int \<Rightarrow> int \<Rightarrow> super_t" where
  "mkfs_super ni nd =
     (let ibl = div_up ni bits_per_block;
          dba = 1 + ibl;
          dbl = div_up nd bits_per_block;
          ira = dba + dbl;
          irl = div_up (w32 (ni * sizeof_inode)) UFS_BLOCK_SIZE
      in \<lparr> inode_bitmap_addr = 1, s_inode_bitmap_len = ibl,
           data_bitmap_addr = dba, s_data_bitmap_len = dbl,
           inode_region_addr = ira, s_inode_region_len = irl,
           data_region_addr = ira + irl, s_data_region_len = nd,
           num_inodes = ni, num_data = nd \<rparr>)"

definition total_blocks :: "super_t \<Rightarrow> int" where
  "total_blocks s = 1 + s_inode_bitmap_len s + s_data_bitmap_len s + s_inode_region_len s + s_data_region_len s"

definition super_bytes :: "super_t \<Rightarrow> byte list" where
  "super_bytes s =
     concat (map (\<lambda>v. le_bytes 4 (wrap 32 v))
       [inode_bitmap_addr s, s_inode_bitmap_len s, data_bitmap_addr s, s_data_bitmap_len s,
        inode_region_addr s, s_inode_region_len s, data_region_addr s, s_data_region_len s,
        num_inodes s, num_data s])"

text \<open>
  \<open>pwrite(fd, bs, n, off)\<close>: it extends the file, and fails for a negative offset.
\<close>

definition pwrite :: "byte list \<Rightarrow> int \<Rightarrow> image \<Rightarrow> ufs_fault + image" where
  "pwrite bs off f =
     (if off < 0 then Inl Abort
      else Inr (put_bytes (f\<lparr>img_len := max (img_len f) (nat off + length bs)\<rparr>) off bs))"

definition empty_buffer :: "byte list" where
  "empty_buffer = replicate 4096 0"

definition first_bitmap :: "byte list" where
  "first_bitmap = le_bytes 4 (2 ^ 31) @ replicate 4092 0"

text \<open>
  The inode block and the root directory are local variables of which the program sets only
  some fields: \<open>itable\<close> and \<open>parent\<close> are the bytes they hold before.
\<close>

definition root_inode_block :: "super_t \<Rightarrow> byte list \<Rightarrow> byte list" where
  "root_inode_block s itable =
     put_at 0 (concat (map (\<lambda>v. le_bytes 4 (wrap 32 v))
       (UFS_DIRECTORY # 2 * sizeof_dir_ent # data_region_addr s # replicate (DIRECT_PTRS - 1) (- 1)))) itable"

definition root_dir_block :: "byte list \<Rightarrow> byte list" where
  "root_dir_block parent =
     fold (\<lambda>i. put_le (32 * i + 28) 4 (wrap 32 (- 1))) [2..<128]
       (put_le 60 4 0 (put_at 32 (dotdot @ [0]) (put_le 28 4 0 (put_at 0 (dot @ [0]) parent))))"

definition mkfs :: "byte list \<Rightarrow> byte list \<Rightarrow> int \<Rightarrow> int \<Rightarrow> ufs_fault + image" where
  "mkfs itable parent ni nd =
     (if ni < 32 \<or> nd < 32 then Inl Abort
      else
        let s = mkfs_super ni nd in
        bindE (pwrite (super_bytes s) 0 \<lparr> bytes = (\<lambda>_. 0), img_len = 0 \<rparr>) (\<lambda>f.
        bindE (forE (\<lambda>i. pwrite empty_buffer (w32 (i * UFS_BLOCK_SIZE))) [1..total_blocks s - 1] f) (\<lambda>f.
        bindE (pwrite first_bitmap (w32 (inode_bitmap_addr s * UFS_BLOCK_SIZE)) f) (\<lambda>f.
        bindE (pwrite first_bitmap (w32 (data_bitmap_addr s * UFS_BLOCK_SIZE)) f) (\<lambda>f.
        bindE (pwrite (root_inode_block s itable) (w32 (inode_region_addr s * UFS_BLOCK_SIZE)) f) (\<lambda>f.
          pwrite (root_dir_block parent) (w32 (data_region_addr s * UFS_BLOCK_SIZE)) f))))))"

section \<open>Messages and the server\<close>

definition MFS_INIT :: int where "MFS_INIT = 1"
definition MFS_LOOKUP :: int where "MFS_LOOKUP = 2"
definition MFS_STAT :: int where "MFS_STAT = 3"
definition MFS_WRITE :: int where "MFS_WRITE = 4"
definition MFS_READ :: int where "MFS_READ = 5"
definition MFS_CREAT :: int where "MFS_CREAT = 6"
definition MFS_UNLINK :: int where "MFS_UNLINK = 7"
definition MFS_SHUTDOWN :: int where "MFS_SHUTDOWN = 8"

record message_t =
  msg_type :: int
  msg_inum :: int
  msg_offset :: int
  msg_nbytes :: int
  msg_ftype :: int
  msg_result :: int
  msg_name :: "byte list"
  msg_buffer :: "byte list"
  msg_m :: MFS_Stat_t

text \<open>
  The fields \<open>name\<close>, \<open>buffer\<close> and \<open>m\<close> are adjacent: a name without a zero in its 28
  bytes goes on in \<open>buffer\<close>.
\<close>

definition stat_bytes :: "MFS_Stat_t \<Rightarrow> byte list" where
  "stat_bytes st = le_bytes 4 (wrap 32 (m_type st)) @ le_bytes 4 (wrap 32 (m_size st))"

definition name_of :: "message_t \<Rightarrow> ufs_fault + byte list" where
  "name_of msg =
     (let bs = msg_name msg @ msg_buffer msg @ stat_bytes (msg_m msg) in
      if 0 \<in> set bs then Inr (takeWhile (\<lambda>c. c \<noteq> 0) bs) else Inl BadAccess)"

definition serve :: "disk_t \<Rightarrow> message_t \<Rightarrow> image \<Rightarrow> ufs_fault + message_t \<times> image" where
  "serve d msg m =
     (if msg_type msg = MFS_INIT then Inr (msg, m)
      else if msg_type msg = MFS_LOOKUP then
        bindE (name_of msg) (\<lambda>name.
        bindE (fs_lookup d m (msg_inum msg) name) (\<lambda>r. Inr (msg\<lparr>msg_result := r\<rparr>, m)))
      else if msg_type msg = MFS_STAT then
        bindE (fs_stat d m (msg_inum msg) (msg_m msg)) (\<lambda>(r, st).
          Inr (msg\<lparr>msg_m := st, msg_result := r\<rparr>, m))
      else if msg_type msg = MFS_WRITE then
        bindE (fs_write d m (msg_inum msg) (msg_buffer msg) (msg_offset msg) (msg_nbytes msg)) (\<lambda>(r, m).
          Inr (msg\<lparr>msg_result := r\<rparr>, m))
      else if msg_type msg = MFS_READ then
        bindE (fs_read d m (msg_inum msg) (msg_buffer msg) (msg_offset msg) (msg_nbytes msg)) (\<lambda>(r, buf).
          Inr (msg\<lparr>msg_buffer := buf, msg_result := r\<rparr>, m))
      else if msg_type msg = MFS_CREAT then
        bindE (name_of msg) (\<lambda>name.
        bindE (fs_creat d m (msg_inum msg) (msg_type msg) name) (\<lambda>(r, m).
          Inr (msg\<lparr>msg_result := r\<rparr>, m)))
      else if msg_type msg = MFS_UNLINK then
        bindE (name_of msg) (\<lambda>name.
        bindE (fs_unlink d m (msg_inum msg) name) (\<lambda>(r, m).
          Inr (msg\<lparr>msg_result := r\<rparr>, m)))
      else if msg_type msg = MFS_SHUTDOWN then Inr (msg\<lparr>msg_result := 0\<rparr>, m)
      else Inr (msg, m))"

text \<open>
  The loop of \<open>main\<close>.  An event is one turn: the result of \<open>UDP_Read\<close>, the message it left
  in \<open>msg\<close> and the result of the \<open>UDP_Write\<close> of the reply.  The outcome says whether the
  server waits for the next datagram, or with which status it ended.
\<close>

datatype server_end = Waiting | Ended int

fun server_loop :: "disk_t \<Rightarrow> (int \<times> message_t \<times> int) list \<Rightarrow> image \<Rightarrow> ufs_fault + message_t list \<times> image \<times> server_end" where
  "server_loop d [] m = Inr ([], m, Waiting)"
| "server_loop d ((rc, msg, wrc) # evs) m =
     (if rc \<le> 0 then server_loop d evs m
      else bindE (serve d msg m) (\<lambda>(reply, m).
        if msg_type msg = MFS_SHUTDOWN then Inr ([reply], m, Ended 0)
        else if wrc < 0 then Inr ([reply], m, Ended (- 1))
        else bindE (server_loop d evs m) (\<lambda>(replies, m, oc). Inr (reply # replies, m, oc))))"

definition server_main :: "int \<Rightarrow> int \<Rightarrow> int \<Rightarrow> image option \<Rightarrow> (int \<times> message_t \<times> int) list \<Rightarrow> ufs_fault + message_t list \<times> server_end" where
  "server_main argc sd fd mapped evs =
     (if argc < 3 then Inr ([], Ended (- 1))
      else if \<not> sd > - 1 then Inl Abort
      else if fd = 0 then Inr ([], Ended (- 1))
      else case mapped of
        None \<Rightarrow> Inr ([], Ended (- 1))
      | Some m \<Rightarrow> bindE (init_disk m) (\<lambda>d.
                  bindE (server_loop d evs m) (\<lambda>(replies, m, oc). Inr (replies, oc))))"

section \<open>Sockets\<close>

definition UDP_Open :: "int \<Rightarrow> int \<Rightarrow> int" where
  "UDP_Open socket_rc bind_rc =
     (if socket_rc = - 1 then 0 else if bind_rc = - 1 then - 1 else socket_rc)"

definition UDP_FillSockAddr :: "string option \<Rightarrow> 'h option \<Rightarrow> int" where
  "UDP_FillSockAddr hostname host_entry =
     (case hostname of None \<Rightarrow> 0
      | Some _ \<Rightarrow> (case host_entry of None \<Rightarrow> - 1 | Some _ \<Rightarrow> 0))"

section \<open>The client library\<close>

text \<open>
  \<open>UDP_Write\<close> and \<open>UDP_Read\<close> act on a network state \<open>'w\<close>; they are arguments \<open>wr\<close> and
  \<open>rd\<close> of the calls, and \<open>msg\<close> is the message as \<open>malloc\<close> returns it.
\<close>

definition get_port_num :: "int \<Rightarrow> int" where
  "get_port_num rand = rand smod (40000 - 20000) + 20000"

definition MFS_Init :: "int \<Rightarrow> int \<Rightarrow> int" where
  "MFS_Init sd rc = (if sd < 0 then - 1 else if rc < 0 then - 1 else rc)"

type_synonym 'w udp_write = "message_t \<Rightarrow> 'w \<Rightarrow> int \<times> 'w"
type_synonym 'w udp_read = "message_t \<Rightarrow> 'w \<Rightarrow> int \<times> message_t \<times> 'w"

text \<open>\<open>strcpy(msg->name, name)\<close>: a long name runs over into \<open>buffer\<close>.\<close>

definition copy_name :: "byte list \<Rightarrow> message_t \<Rightarrow> ufs_fault + message_t" where
  "copy_name name msg =
     (let bs = put_at 0 (name @ [0]) (msg_name msg @ msg_buffer msg) in
      if length (name @ [0]) \<le> length (msg_name msg @ msg_buffer msg)
      then Inr (msg\<lparr>msg_name := take (length (msg_name msg)) bs,
                    msg_buffer := drop (length (msg_name msg)) bs\<rparr>)
      else Inl BadAccess)"

definition exchange :: "'w udp_write \<Rightarrow> 'w udp_read \<Rightarrow> message_t \<Rightarrow> 'w \<Rightarrow> message_t option \<times> 'w" where
  "exchange wr rd msg w =
     (let (rc, w) = wr msg w in
      if rc < 0 then (None, w)
      else let (rc, msg, w) = rd msg w in
           if rc < 0 then (None, w) else (Some msg, w))"

definition result_of :: "message_t option \<Rightarrow> int" where
  "result_of r = (case r of None \<Rightarrow> - 1 | Some msg \<Rightarrow> msg_result msg)"

definition MFS_Lookup :: "'w udp_write \<Rightarrow> 'w udp_read \<Rightarrow> message_t \<Rightarrow> int \<Rightarrow> byte list \<Rightarrow> 'w \<Rightarrow> ufs_fault + int \<times> 'w" where
  "MFS_Lookup wr rd msg pinum name w =
     bindE (copy_name name (msg\<lparr>msg_type := MFS_LOOKUP, msg_inum := pinum\<rparr>)) (\<lambda>msg.
       Inr (apfst result_of (exchange wr rd msg w)))"

definition MFS_Stat :: "'w udp_write \<Rightarrow> 'w udp_read \<Rightarrow> message_t \<Rightarrow> int \<Rightarrow> MFS_Stat_t \<Rightarrow> 'w \<Rightarrow> int \<times> MFS_Stat_t \<times> 'w" where
  "MFS_Stat wr rd msg inum m w =
     (case exchange wr rd (msg\<lparr>msg_type := MFS_STAT, msg_inum := inum\<rparr>) w of
        (None, w) \<Rightarrow> (- 1, m, w)
      | (Some msg, w) \<Rightarrow>
          (msg_result msg, m\<lparr>m_type := m_type (msg_m msg), m_size := m_size (msg_m msg)\<rparr>, w))"

definition MFS_Write :: "'w udp_write \<Rightarrow> 'w udp_read \<Rightarrow> message_t \<Rightarrow> int \<Rightarrow> byte list option \<Rightarrow> int \<Rightarrow> int \<Rightarrow> 'w \<Rightarrow> ufs_fault + int \<times> 'w" where
  "MFS_Write wr rd msg inum buffer offset nbytes w =
     (case buffer of
        None \<Rightarrow> Inr (- 1, w)
      | Some buf \<Rightarrow>
        if inum < 0 \<or> nbytes < 0 \<or> nbytes > 4096 \<or> offset < 0 then Inr (- 1, w)
        else if length buf < nat nbytes then Inl BadAccess
        else Inr (apfst result_of (exchange wr rd
               (msg\<lparr>msg_type := MFS_WRITE, msg_inum := inum, msg_offset := offset, msg_nbytes := nbytes,
                    msg_buffer := put_at 0 (take (nat nbytes) buf) (msg_buffer msg)\<rparr>) w)))"

definition MFS_Read :: "'w udp_write \<Rightarrow> 'w udp_read \<Rightarrow> message_t \<Rightarrow> int \<Rightarrow> byte list option \<Rightarrow> int \<Rightarrow> int \<Rightarrow> 'w \<Rightarrow> ufs_fault + int \<times> byte list option \<times> 'w" where
  "MFS_Read wr rd msg inum buffer offset nbytes w =
     (case buffer of
        None \<Rightarrow> Inr (- 1, buffer, w)
      | Some buf \<Rightarrow>
        if inum < 0 \<or> nbytes < 0 \<or> nbytes > 4096 \<or> offset < 0 then Inr (- 1, buffer, w)
        else case exchange wr rd
               (msg\<lparr>msg_type := MFS_READ, msg_inum := inum, msg_offset := offset, msg_nbytes := nbytes\<rparr>) w of
            (None, w) \<Rightarrow> Inr (- 1, buffer, w)
          | (Some msg, w) \<Rightarrow>
              if length buf < nat nbytes then Inl BadAccess
              else Inr (msg_result msg, Some (put_at 0 (take (nat nbytes) (msg_buffer msg)) buf), w))"

definition MFS_Creat :: "'w udp_write \<Rightarrow> 'w udp_read \<Rightarrow> message_t \<Rightarrow> int \<Rightarrow> int \<Rightarrow> byte list \<Rightarrow> 'w \<Rightarrow> ufs_fault + int \<times> 'w" where
  "MFS_Creat wr rd msg pinum ty name w =
     (if pinum < 0 \<or> length name > 28 then Inr (- 1, w)
      else bindE (copy_name name (msg\<lparr>msg_type := MFS_CREAT, msg_inum := pinum, msg_ftype := ty\<rparr>)) (\<lambda>msg.
             Inr (apfst result_of (exchange wr rd msg w))))"

definition MFS_Unlink :: "'w udp_write \<Rightarrow> 'w udp_read \<Rightarrow> message_t \<Rightarrow> int \<Rightarrow> byte list \<Rightarrow> 'w \<Rightarrow> ufs_fault + int \<times> 'w" where
  "MFS_Unlink wr rd msg pinum name w =
     (if pinum < 0 then Inr (- 1, w)
      else bindE (copy_name name (msg\<lparr>msg_type := MFS_UNLINK, msg_inum := pinum\<rparr>)) (\<lambda>msg.
             Inr (apfst result_of (exchange wr rd msg w))))"

definition MFS_Shutdown :: "'w udp_write \<Rightarrow> 'w udp_read \<Rightarrow> message_t \<Rightarrow> 'w \<Rightarrow> ufs_fault + int \<times> 'w" where
  "MFS_Shutdown wr rd msg w =
     (case exchange wr rd (msg\<lparr>msg_type := MFS_SHUTDOWN\<rparr>) w of
        (None, w) \<Rightarrow> Inl Abort
      | (Some msg, w) \<Rightarrow> if msg_result msg = 0 then Inr (0, w) else Inl Abort)"

end
