(* ===== verification/Ufs_Spec.thy ===== *)
theory Ufs_Spec
  imports Ufs
begin

text \<open>
  Correctness of the file server's file system: reading back what was written to the image,
  the bitmaps as sets of numbers, and a directory as a finite map from names to inode numbers
  that lookup, creation and removal refine.
\<close>

unbundle bit_operations_syntax

section \<open>Reads after writes\<close>

named_theorems img_simps \<open>reading the image after a write\<close>

lemma img_len_put [simp]:
  "img_len (put_bytes m a bs) = img_len m" "img_len (put_int m a v) = img_len m"
  by (simp_all add: put_bytes_def put_int_def)

lemma in_img_put [simp]:
  "in_img (put_bytes m a bs) b n = in_img m b n" "in_img (put_int m a v) b n = in_img m b n"
  by (simp_all add: in_img_def)

lemma in_img_sub: "in_img m a n \<Longrightarrow> a \<le> b \<Longrightarrow> b + int k \<le> a + int n \<Longrightarrow> in_img m b k"
  by (simp add: in_img_def)

lemma length_get_bytes [simp]: "length (get_bytes m a n) = n"
  by (simp add: get_bytes_def)

lemma get_put_same:
  "get_bytes (put_bytes m a bs) a (length bs) = bs"
  by (rule nth_equalityI) (simp_all add: get_bytes_def put_bytes_def)

lemma get_put_other:
  assumes "0 \<le> a" and "0 \<le> b" and "a + int n \<le> b \<or> b + int (length bs) \<le> a"
  shows "get_bytes (put_bytes m b bs) a n = get_bytes m a n"
proof (rule nth_equalityI)
  show "length (get_bytes (put_bytes m b bs) a n) = length (get_bytes m a n)" by simp
  fix k assume "k < length (get_bytes (put_bytes m b bs) a n)"
  then have "k < n" by simp
  moreover have "\<not> (nat b \<le> nat a + k \<and> nat a + k < nat b + length bs)"
    using assms \<open>k < n\<close> by linarith
  ultimately show "get_bytes (put_bytes m b bs) a n ! k = get_bytes m a n ! k"
    unfolding get_bytes_def put_bytes_def by auto
qed

lemma get_put_int_other:
  assumes "0 \<le> a" and "0 \<le> b" and "a + int n \<le> b \<or> b + 4 \<le> a"
  shows "get_bytes (put_int m b v) a n = get_bytes m a n"
  unfolding put_int_def using assms by (intro get_put_other) auto

lemma w32_range: "- (2 ^ 31) \<le> w32 i" "w32 i < 2 ^ 31"
  by (auto simp: w32_def signed_def wrap_def nat_less_iff)

lemma w32_id [simp]: "- 2147483648 \<le> i \<Longrightarrow> i < 2147483648 \<Longrightarrow> w32 i = i"
  unfolding w32_def by (rule signed_wrap) simp_all

lemma int_at_range: "- (2 ^ 31) \<le> int_at m a" "int_at m a < 2 ^ 31"
proof -
  have "le_nat (get_bytes m a 4) < 2 ^ 32"
    using le_nat_bound [of "get_bytes m a 4"] by simp
  then show "- (2 ^ 31) \<le> int_at m a" "int_at m a < 2 ^ 31"
    by (auto simp: int_at_def signed_def)
qed

lemma wrap32_bound: "wrap 32 v < 256 ^ 4"
  by (simp add: wrap_def nat_less_iff)

lemma int_at_put_int_same: "int_at (put_int m a v) a = w32 v"
proof -
  have "get_bytes (put_int m a v) a 4 = le_bytes 4 (wrap 32 v)"
    using get_put_same [of m a "le_bytes 4 (wrap 32 v)"] by (simp add: put_int_def)
  then show ?thesis
    using wrap32_bound [of v] by (simp add: int_at_def w32_def)
qed

lemma int_at_put_int_other:
  "0 \<le> a \<Longrightarrow> 0 \<le> b \<Longrightarrow> a + 4 \<le> b \<or> b + 4 \<le> a \<Longrightarrow> int_at (put_int m b v) a = int_at m a"
  by (simp add: int_at_def get_put_int_other)

lemma int_at_put_bytes_other:
  "0 \<le> a \<Longrightarrow> 0 \<le> b \<Longrightarrow> a + 4 \<le> b \<or> b + int (length bs) \<le> a \<Longrightarrow>
   int_at (put_bytes m b bs) a = int_at m a"
  by (simp add: int_at_def get_put_other)

lemma wrap_int_at: "wrap 32 (int_at m a) = le_nat (get_bytes m a 4)"
proof -
  have "le_nat (get_bytes m a 4) < 2 ^ 32"
    using le_nat_bound [of "get_bytes m a 4"] by simp
  then show ?thesis
    by (auto simp: int_at_def signed_def wrap_def)
qed

lemma put_int_at_same:
  assumes "0 \<le> a"
  shows "put_int m a (int_at m a) = m"
proof -
  have "le_bytes 4 (wrap 32 (int_at m a)) = get_bytes m a 4"
    using le_bytes_le_nat [of "get_bytes m a 4"] by (simp add: wrap_int_at)
  then show ?thesis
    by (auto simp: put_int_def put_bytes_def get_bytes_def intro!: image.equality ext)
qed

lemma put_int_twice: "put_int (put_int m a v) a w = put_int m a w"
  by (auto simp: put_int_def put_bytes_def intro!: image.equality ext)

lemma ld_st_Inr [img_simps]:
  "in_img m a 4 \<Longrightarrow> ld32 m a = Inr (int_at m a)"
  "in_img m a 4 \<Longrightarrow> st32 a v m = Inr (put_int m a v)"
  "in_img m a n \<Longrightarrow> ld_bytes m a n = Inr (get_bytes m a n)"
  "in_img m a (length bs) \<Longrightarrow> st_bytes a bs m = Inr (put_bytes m a bs)"
  by (simp_all add: ld32_def st32_def ld_bytes_def st_bytes_def)

lemmas ld_st_simps = ld32_def st32_def ld_bytes_def st_bytes_def

section \<open>Bitmaps\<close>

definition bit_set :: "image \<Rightarrow> int \<Rightarrow> nat \<Rightarrow> bool" where
  "bit_set m bm i = bit (word_of_int (int_at m (bm + 4 * int (i div 32))) :: u32) (31 - i mod 32)"

text \<open>The bitmap at \<open>bm\<close> has \<open>n\<close> bits inside the image.\<close>

definition bitmap_in :: "image \<Rightarrow> int \<Rightarrow> nat \<Rightarrow> bool" where
  "bitmap_in m bm n \<longleftrightarrow> 32 dvd n \<and> in_img m bm (n div 8)"

lemma sdiv_nat [simp]: "int i sdiv 32 = int (i div 32)"
  by (cases "i = 0") (simp_all add: signed_divide_int_def zdiv_int)

lemma smod_nat [simp]: "int i smod 32 = int (i mod 32)"
  by (cases "i = 0") (simp_all add: signed_modulo_int_def zmod_int)

lemma and_1_signed_drop_bit:
  "n < 32 \<Longrightarrow> and (signed_drop_bit n (w :: u32)) 1 \<noteq> 0 \<longleftrightarrow> bit w n"
  by (simp add: and_one_eq odd_iff_mod_2_eq_one [symmetric] bit_0 [symmetric] bit_signed_drop_bit_iff del: bit_0)

lemma bitmap_word_bound:
  assumes "bitmap_in m bm n" and "i < n"
  shows "4 * int (i div 32) + 4 \<le> int (n div 8)" and "0 \<le> bm"
proof -
  obtain k where k: "n = 32 * k" using assms(1) by (auto simp: bitmap_in_def)
  with assms(2) have "i div 32 < k" by (simp add: less_mult_imp_div_less mult.commute)
  with k show "4 * int (i div 32) + 4 \<le> int (n div 8)" by simp
  show "0 \<le> bm" using assms(1) by (simp add: bitmap_in_def in_img_def)
qed

lemma bitmap_word_in:
  assumes "bitmap_in m bm n" and "i < n"
  shows "in_img m (bm + 4 * int (i div 32)) 4"
  using bitmap_word_bound [OF assms] assms(1)
  by (auto simp: bitmap_in_def intro!: in_img_sub [of m bm "n div 8"])

lemma test_bitint_nat:
  assumes "bitmap_in m bm n" and "i < n"
  shows "test_bitint m bm (int i) = Inr (bit_set m bm i)"
proof -
  have "nat (31 - int (i mod 32)) = 31 - i mod 32" by linarith
  then show ?thesis
    using bitmap_word_in [OF assms]
    by (simp add: test_bitint_def ld32_def bit_set_def and_1_signed_drop_bit)
qed

text \<open>The number of the lowest clear bit, or -1.\<close>

definition first_clear :: "image \<Rightarrow> int \<Rightarrow> nat \<Rightarrow> int" where
  "first_clear m bm n = (case find (\<lambda>i. \<not> bit_set m bm i) [0..<n] of None \<Rightarrow> - 1 | Some i \<Rightarrow> int i)"

lemma find_free_loop_first:
  assumes "bitmap_in m bm n" and "i \<le> n"
  shows "find_free_loop m bm (int n) (int i) =
           Inr (case find (\<lambda>i. \<not> bit_set m bm i) [i..<n] of None \<Rightarrow> - 1 | Some i \<Rightarrow> int i)"
  using assms(2)
proof (induction "n - i" arbitrary: i)
  case 0
  then show ?case by (simp add: find_free_loop.simps)
next
  case (Suc k)
  then have "i < n" by simp
  moreover have "find_free_loop m bm (int n) (int (Suc i)) =
      Inr (case find (\<lambda>i. \<not> bit_set m bm i) [Suc i..<n] of None \<Rightarrow> - 1 | Some i \<Rightarrow> int i)"
    using Suc.hyps \<open>i < n\<close> by (intro Suc.hyps(1)) auto
  ultimately show ?case
    using test_bitint_nat [OF assms(1) \<open>i < n\<close>]
    by (simp add: find_free_loop.simps [of m bm "int n" "int i"] upt_conv_Cons add.commute)
qed

lemma find_free_block_eq:
  assumes "bitmap_in m bm (32768 * nat len)" and "0 \<le> len" and "len < 65536"
  shows "find_free_block m bm len = Inr (first_clear m bm (32768 * nat len))"
proof -
  have "w32 (32 * len) mod 2 ^ 64 * (UFS_BLOCK_SIZE div 4) mod 2 ^ 64 = int (32768 * nat len)"
    using assms(2,3) by (simp add: UFS_BLOCK_SIZE_def)
  then show ?thesis
    using find_free_loop_first [OF assms(1), of 0]
    by (simp add: find_free_block_def first_clear_def)
qed

lemma first_clear_cases:
  obtains "first_clear m bm n = - 1" and "\<forall>i < n. bit_set m bm i"
  | i where "first_clear m bm n = int i" and "i < n" and "\<not> bit_set m bm i" and "\<forall>j < i. bit_set m bm j"
proof (cases "find (\<lambda>i. \<not> bit_set m bm i) [0..<n]")
  case None
  then have "\<forall>i < n. bit_set m bm i" by (auto simp: find_None_iff)
  with None that(1) show thesis by (simp add: first_clear_def)
next
  case (Some i)
  then obtain k where "k < n" "i = k" "\<not> bit_set m bm i" "\<forall>j < k. bit_set m bm j"
    by (auto simp: find_Some_iff)
  with Some that(2) [of i] show thesis by (simp add: first_clear_def)
qed

text \<open>The image after the bit \<open>i\<close> has been flipped.\<close>

definition flipped :: "image \<Rightarrow> int \<Rightarrow> nat \<Rightarrow> image" where
  "flipped m bm i =
     put_int m (bm + 4 * int (i div 32))
       (uint ((word_of_int (int_at m (bm + 4 * int (i div 32))) :: u32) XOR push_bit (31 - i mod 32) 1))"

lemma flip_mask:
  "bit w n \<Longrightarrow> w AND NOT (push_bit n 1) = (w XOR push_bit n 1 :: u32)"
  "\<not> bit w n \<Longrightarrow> w OR push_bit n 1 = (w XOR push_bit n 1 :: u32)"
  by (rule bit_word_eqI; auto simp: bit_simps)+

lemma flip_bit_eq:
  assumes "bitmap_in m bm n" and "i < n"
  shows "flip_bit bm (int i) m = Inr (flipped m bm i)"
proof -
  define w where "w = (word_of_int (int_at m (bm + 4 * int (i div 32))) :: u32)"
  have "nat (31 - int (i mod 32)) = 31 - i mod 32" by linarith
  then show ?thesis
    using test_bitint_nat [OF assms] bitmap_word_in [OF assms] flip_mask [of w "31 - i mod 32"]
    by (auto simp: flip_bit_def ld_st_simps flipped_def bit_set_def Let_def w_def [symmetric] del: push_bit_of_1)
qed

lemma word_of_w32 [simp]: "(word_of_int (w32 v) :: u32) = word_of_int v"
  by (simp add: w32_def signed_def wrap_def word_of_int_eq_iff take_bit_eq_mod)

lemma bit_set_flipped:
  assumes "bitmap_in m bm n" and "i < n" and "j < n"
  shows "bit_set (flipped m bm i) bm j = (bit_set m bm j \<noteq> (j = i))"
proof (cases "j div 32 = i div 32")
  case True
  then have "j = i \<longleftrightarrow> 31 - j mod 32 = 31 - i mod 32"
  proof -
    have "j mod 32 < 32" "i mod 32 < 32" by simp_all
    then have "31 - j mod 32 = 31 - i mod 32 \<longleftrightarrow> j mod 32 = i mod 32" by linarith
    then show ?thesis using True by (metis mult_div_mod_eq)
  qed
  then show ?thesis
    by (auto simp: bit_set_def flipped_def True int_at_put_int_same bit_simps)
next
  case False
  have "0 \<le> bm" using assms(1) by (simp add: bitmap_in_def in_img_def)
  with False have "int_at (flipped m bm i) (bm + 4 * int (j div 32)) = int_at m (bm + 4 * int (j div 32))"
    unfolding flipped_def by (intro int_at_put_int_other) auto
  with False show ?thesis by (auto simp: bit_set_def)
qed

lemma img_len_flipped [simp]: "img_len (flipped m bm i) = img_len m"
  by (simp add: flipped_def)

lemma in_img_flipped [simp]: "in_img (flipped m bm i) a n = in_img m a n"
  by (simp add: in_img_def)

lemma flipped_flipped: "0 \<le> bm \<Longrightarrow> flipped (flipped m bm i) bm i = m"
proof -
  define a where "a = bm + 4 * int (i div 32)"
  define w where "w = (word_of_int (int_at m a) :: u32)"
  assume "0 \<le> bm"
  then have "0 \<le> a" by (simp add: a_def)
  have "flipped (flipped m bm i) bm i = put_int m a (uint w)"
    by (simp add: flipped_def a_def [symmetric] w_def [symmetric] put_int_twice int_at_put_int_same xor.assoc)
  also have "\<dots> = put_int m a (int_at m a)"
    by (simp add: put_int_def w_def wrap_def uint_word_of_int)
  finally show ?thesis using put_int_at_same [OF \<open>0 \<le> a\<close>] by simp
qed

section \<open>Allocation in a bitmap\<close>

text \<open>
  C35: For every bitmap inside the image, \<open>find_free_block\<close> returns the number of the lowest clear
  bit, and -1 when all bits are set.  \<open>flip_bit\<close> of a number it returned sets that bit and no
  other, and flipping it again restores the image.
\<close>

theorem bitmap_allocate_release:
  assumes B: "bitmap_in m bm (32768 * nat len)" and len: "0 \<le> len" "len < 65536"
  shows "(find_free_block m bm len = Inr (- 1) \<and> (\<forall>i < 32768 * nat len. bit_set m bm i)) \<or>
     (\<exists>i m'. find_free_block m bm len = Inr (int i) \<and> i < 32768 * nat len \<and> \<not> bit_set m bm i \<and> (\<forall>j < i. bit_set m bm j) \<and>
        flip_bit bm (int i) m = Inr m' \<and>
        (\<forall>j < 32768 * nat len. bit_set m' bm j = (bit_set m bm j \<or> j = i)) \<and>
        flip_bit bm (int i) m' = Inr m)"
proof (cases rule: first_clear_cases [of m bm "32768 * nat len"])
  case 1
  then show ?thesis using find_free_block_eq [OF assms] by auto
next
  case (2 i)
  have "bitmap_in (flipped m bm i) bm (32768 * nat len)" using B by (simp add: bitmap_in_def)
  moreover have "0 \<le> bm" using B by (simp add: bitmap_in_def in_img_def)
  ultimately have "flip_bit bm (int i) (flipped m bm i) = Inr m"
    using flip_bit_eq 2(2) flipped_flipped by metis
  moreover have "\<forall>j < 32768 * nat len. bit_set (flipped m bm i) bm j = (bit_set m bm j \<or> j = i)"
    using bit_set_flipped [OF B 2(2)] 2(3) by auto
  ultimately show ?thesis
    using find_free_block_eq [OF assms] flip_bit_eq [OF B 2(2)] 2
    by (intro disjI2 exI [of _ i] exI [of _ "flipped m bm i"]) simp
qed

theorem bitmap_allocate_release_witness:
  "\<exists>i m'. find_free_block \<lparr>bytes = (\<lambda>_. 0), img_len = 4096\<rparr> 0 1 = Inr (int i) \<and>
     flip_bit 0 (int i) \<lparr>bytes = (\<lambda>_. 0), img_len = 4096\<rparr> = Inr m' \<and>
     flip_bit 0 (int i) m' = Inr \<lparr>bytes = (\<lambda>_. 0), img_len = 4096\<rparr>"
proof -
  let ?m = "\<lparr>bytes = (\<lambda>_. 0), img_len = 4096\<rparr>"
  have "int_at ?m 0 = 0"
    unfolding int_at_def using le_bytes_le_nat [of "get_bytes ?m 0 4"] wrap_int_at [of ?m 0]
    by (simp add: get_bytes_def signed_def upt_rec)
  then have "\<not> bit_set ?m 0 0" by (simp add: bit_set_def)
  moreover have "bitmap_in ?m 0 (32768 * nat 1)" by (simp add: bitmap_in_def in_img_def)
  ultimately show ?thesis
    using bitmap_allocate_release [of ?m 0 1] by auto
qed

end
