(* ===== verification/Ufs_Dir.thy ===== *)
theory Ufs_Dir
  imports Ufs_Spec
begin

text \<open>
  A directory of the file server as a finite map from names to inode numbers, which
  \<open>fs_lookup\<close> reads, \<open>fs_creat\<close> extends and \<open>fs_unlink\<close> shrinks.
\<close>

section \<open>Directories as lists of entries\<close>

definition dir_blocks :: "image \<Rightarrow> int \<Rightarrow> int list" where
  "dir_blocks m P = takeWhile (\<lambda>b. b \<noteq> - 1) (map (\<lambda>i. int_at m (i_direct P (int i))) [0..<DIRECT_PTRS])"

definition block_slots :: "disk_t \<Rightarrow> int \<Rightarrow> int list" where
  "block_slots d b = map (\<lambda>j. block_ptr d b + 32 * int j) [0..<128]"

definition slots :: "disk_t \<Rightarrow> image \<Rightarrow> int \<Rightarrow> int list" where
  "slots d m P = concat (map (block_slots d) (dir_blocks m P))"

definition entry_name :: "image \<Rightarrow> int \<Rightarrow> byte list" where
  "entry_name m e = takeWhile (\<lambda>c. c \<noteq> 0) (get_bytes m e 28)"

definition entry_inum :: "image \<Rightarrow> int \<Rightarrow> int" where
  "entry_inum m e = int_at m (e + 28)"

definition names_entry :: "image \<Rightarrow> byte list \<Rightarrow> int \<Rightarrow> bool" where
  "names_entry m name e \<longleftrightarrow> entry_inum m e \<noteq> - 1 \<and> entry_name m e = name"

definition dir_map :: "disk_t \<Rightarrow> image \<Rightarrow> int \<Rightarrow> byte list \<Rightarrow> int option" where
  "dir_map d m P name = map_option (entry_inum m) (find (names_entry m name) (slots d m P))"

definition valid_name :: "byte list \<Rightarrow> bool" where
  "valid_name name \<longleftrightarrow> length name \<le> 27 \<and> 0 \<notin> set name"

lemma find_append: "find P (xs @ ys) = (case find P xs of None \<Rightarrow> find P ys | Some x \<Rightarrow> Some x)"
  by (induction xs) auto

lemma get_bytes_Suc: "0 \<le> a \<Longrightarrow> get_bytes m a (Suc n) = bytes m (nat a) # get_bytes m (a + 1) n"
  by (simp add: get_bytes_def upt_conv_Cons map_Suc_upt [symmetric] nat_add_distrib del: upt_Suc)

lemma str_eq_prefix:
  assumes "length name < k" and "in_img m p k" and "0 \<notin> set name"
  shows "str_eq m name p = Inr (takeWhile (\<lambda>c. c \<noteq> 0) (get_bytes m p k) = name)"
  using assms
proof (induction name arbitrary: p k)
  case Nil
  then obtain k' where "k = Suc k'" by (cases k) auto
  with Nil show ?case by (auto simp: get_bytes_Suc in_img_def)
next
  case (Cons c cs)
  then obtain k' where k: "k = Suc k'" by (cases k) auto
  with Cons.prems have "in_img m (p + 1) k'" "in_img m p 1" "0 \<le> p" by (auto simp: in_img_def)
  with Cons k show ?case by (auto simp: get_bytes_Suc)
qed

lemma str_eq_entry:
  "valid_name name \<Longrightarrow> in_img m e 28 \<Longrightarrow> str_eq m name e = Inr (entry_name m e = name)"
  unfolding entry_name_def valid_name_def by (rule str_eq_prefix) auto

lemma valid_dotdot: "valid_name dotdot"
  by (simp add: valid_name_def dotdot_def)

lemma match_entry_find:
  assumes "valid_name name" and "\<forall>j\<in>set js. in_img m (ptr + 32 * int j) 32"
  shows "match_entry m ptr name js = Inr (find (names_entry m name) (map (\<lambda>j. ptr + 32 * int j) js))"
  using assms(2)
proof (induction js)
  case Nil
  then show ?case by simp
next
  case (Cons j js)
  let ?e = "ptr + 32 * int j"
  have "in_img m (?e + 28) 4" "in_img m ?e 28"
    using Cons.prems in_img_sub [of m ?e 32] by simp_all
  with Cons str_eq_entry [OF assms(1)] show ?case
    by (auto simp: ld32_def sizeof_dir_ent_def d_inum_def d_name_def Let_def names_entry_def entry_inum_def)
qed

lemma dirents_per_block_128 [simp]: "dirents_per_block = 128"
  by (simp add: dirents_per_block_def UFS_BLOCK_SIZE_def sizeof_dir_ent_def)

lemma in_img_slot: "in_img m (block_ptr d b) 4096 \<Longrightarrow> e \<in> set (block_slots d b) \<Longrightarrow> in_img m e 32"
  by (auto simp: block_slots_def intro!: in_img_sub [of m "block_ptr d b" 4096])

lemma match_entry_block:
  "valid_name name \<Longrightarrow> in_img m (block_ptr d b) 4096 \<Longrightarrow>
   match_entry m (block_ptr d b) name [0..<128] = Inr (find (names_entry m name) (block_slots d b))"
  unfolding block_slots_def
  by (rule match_entry_find) (auto intro!: in_img_sub [of m "block_ptr d b" 4096])

lemma match_block_find:
  assumes "valid_name name"
    and "\<forall>i\<in>set is. in_img m (i_direct P (int i)) 4"
    and "\<forall>b\<in>set (takeWhile (\<lambda>b. b \<noteq> - 1) (map (\<lambda>i. int_at m (i_direct P (int i))) is)). in_img m (block_ptr d b) 4096"
  shows "match_block d m P name is =
           Inr (find (names_entry m name) (concat (map (block_slots d)
             (takeWhile (\<lambda>b. b \<noteq> - 1) (map (\<lambda>i. int_at m (i_direct P (int i))) is)))))"
  using assms(2,3)
proof (induction "is")
  case Nil
  then show ?case by simp
next
  case (Cons i "is")
  show ?case
  proof (cases "int_at m (i_direct P (int i)) = - 1")
    case True
    with Cons.prems show ?thesis by (simp add: ld32_def)
  next
    case False
    with Cons match_entry_block [OF assms(1), of m d] show ?thesis
      by (simp add: ld32_def find_append split: option.split)
  qed
qed

lemma in_img_direct: "in_img m P 128 \<Longrightarrow> i < DIRECT_PTRS \<Longrightarrow> in_img m (i_direct P (int i)) 4"
  by (auto simp: i_direct_def DIRECT_PTRS_def intro: in_img_sub)

lemma dir_find_eq:
  assumes "valid_name name" and "in_img m P 128" and "\<forall>b\<in>set (dir_blocks m P). in_img m (block_ptr d b) 4096"
  shows "dir_find d m P name = Inr (find (names_entry m name) (slots d m P))"
  unfolding dir_find_def slots_def dir_blocks_def
  using assms in_img_direct by (intro match_block_find) (auto simp: dir_blocks_def)

section \<open>Well-formed images\<close>

text \<open>
  The regions come in the order in which \<open>mkfs\<close> lays them out and lie inside the image.
\<close>

definition ufs_layout :: "disk_t \<Rightarrow> image \<Rightarrow> bool" where
  "ufs_layout d m \<longleftrightarrow>
     super_ptr d = 0 \<and> 40 \<le> inode_bitmap_ptr d \<and>
     0 \<le> inode_bitmap_len d \<and> inode_bitmap_len d < 65536 \<and>
     inode_bitmap_ptr d + 4096 * inode_bitmap_len d \<le> data_bitmap_ptr d \<and>
     0 \<le> data_bitmap_len d \<and> data_bitmap_len d < 65536 \<and>
     data_bitmap_ptr d + 4096 * data_bitmap_len d \<le> inode_region_ptr d \<and>
     0 \<le> inode_region_len d \<and>
     inode_region_ptr d + 4096 * inode_region_len d \<le> data_region_ptr d \<and>
     data_region_ptr d \<le> int (img_len m)"

definition inode_bits :: "disk_t \<Rightarrow> nat" where
  "inode_bits d = 32768 * nat (inode_bitmap_len d)"

definition data_bits :: "disk_t \<Rightarrow> nat" where
  "data_bits d = 32768 * nat (data_bitmap_len d)"

definition inode_addr :: "disk_t \<Rightarrow> nat \<Rightarrow> int" where
  "inode_addr d p = inode_region_ptr d + 128 * int p"

text \<open>Inode \<open>p\<close> has a bit in the bitmap and a place in the inode region.\<close>

definition inode_ok :: "disk_t \<Rightarrow> nat \<Rightarrow> bool" where
  "inode_ok d p \<longleftrightarrow> p < inode_bits d \<and> 128 * int p + 128 \<le> 4096 * inode_region_len d"

text \<open>
  Inode \<open>p\<close> is in use, its blocks lie in the data region, and no two of its used entries have
  the same name.
\<close>

definition directory :: "disk_t \<Rightarrow> image \<Rightarrow> nat \<Rightarrow> bool" where
  "directory d m p \<longleftrightarrow>
     inode_ok d p \<and> bit_set m (inode_bitmap_ptr d) p \<and>
     (\<forall>b\<in>set (dir_blocks m (inode_addr d p)).
        data_region_ptr d \<le> block_ptr d b \<and> in_img m (block_ptr d b) 4096) \<and>
     (\<forall>e\<in>set (slots d m (inode_addr d p)). \<forall>e'\<in>set (slots d m (inode_addr d p)).
        entry_inum m e \<noteq> - 1 \<longrightarrow> entry_inum m e' \<noteq> - 1 \<longrightarrow> entry_name m e = entry_name m e' \<longrightarrow> e = e')"

lemma layout_bitmaps:
  assumes "ufs_layout d m"
  shows "bitmap_in m (inode_bitmap_ptr d) (inode_bits d)" and "bitmap_in m (data_bitmap_ptr d) (data_bits d)"
  using assms by (auto simp: ufs_layout_def bitmap_in_def in_img_def inode_bits_def data_bits_def)

lemma layout_inode_addr:
  assumes "ufs_layout d m" and "inode_ok d p"
  shows "in_img m (inode_addr d p) 128" and "inode_region_ptr d \<le> inode_addr d p"
    and "inode_addr d p + 128 \<le> data_region_ptr d"
  using assms by (auto simp: ufs_layout_def inode_ok_def inode_addr_def in_img_def)

lemma get_inode_ptr_eq:
  assumes "ufs_layout d m" and "p < inode_bits d"
  shows "get_inode_ptr d m (int p) = Inr (if bit_set m (inode_bitmap_ptr d) p then Some (inode_addr d p) else None)"
  using test_bitint_nat [OF layout_bitmaps(1) [OF assms(1)] assms(2)]
  by (simp add: get_inode_ptr_def inode_addr_def sizeof_inode_def)

lemma find_free_inode_eq:
  "ufs_layout d m \<Longrightarrow>
   find_free_block m (inode_bitmap_ptr d) (inode_bitmap_len d) = Inr (first_clear m (inode_bitmap_ptr d) (inode_bits d))"
  unfolding inode_bits_def
  by (rule find_free_block_eq) (auto simp: ufs_layout_def bitmap_in_def in_img_def)

lemma directoryD:
  assumes "directory d m p"
  shows "inode_ok d p" and "bit_set m (inode_bitmap_ptr d) p" and "p < inode_bits d"
    and "\<forall>b\<in>set (dir_blocks m (inode_addr d p)). in_img m (block_ptr d b) 4096"
  using assms by (auto simp: directory_def inode_ok_def)

lemma slot_range:
  assumes "directory d m p" and "e \<in> set (slots d m (inode_addr d p))"
  shows "data_region_ptr d \<le> e" and "in_img m e 32"
proof -
  obtain b where b: "b \<in> set (dir_blocks m (inode_addr d p))" "e \<in> set (block_slots d b)"
    using assms(2) by (auto simp: slots_def)
  then have "data_region_ptr d \<le> block_ptr d b" "in_img m (block_ptr d b) 4096"
    using assms(1) by (auto simp: directory_def)
  with b(2) in_img_slot [of m d b e] show "data_region_ptr d \<le> e" and "in_img m e 32"
    by (auto simp: block_slots_def)
qed

lemma slots_apart:
  assumes "super_ptr d = 0" and "e \<in> set (slots d m P)" and "e' \<in> set (slots d m P)" and "e \<noteq> e'"
  shows "e + 32 \<le> e' \<or> e' + 32 \<le> e"
proof -
  have "\<exists>k. x = 32 * k" if x: "x \<in> set (slots d m P)" for x
  proof -
    obtain b j where "x = UFS_BLOCK_SIZE * b + 32 * int j"
      using x assms(1) by (auto simp: slots_def block_slots_def block_ptr_def)
    then have "x = 32 * (128 * b + int j)" by (simp add: UFS_BLOCK_SIZE_def)
    then show ?thesis ..
  qed
  then obtain k k' where "e = 32 * k" "e' = 32 * k'" using assms(2,3) by blast
  moreover from calculation assms(4) have "k < k' \<or> k' < k" by auto
  ultimately show ?thesis by (elim disjE) simp_all
qed

section \<open>Lookup\<close>

lemma fs_lookup_eq:
  assumes "ufs_layout d m" and "directory d m p" and "valid_name name"
  shows "fs_lookup d m (int p) name =
           Inr (case dir_map d m (inode_addr d p) name of None \<Rightarrow> - 1 | Some n \<Rightarrow> n)"
proof -
  note D = directoryD [OF assms(2)]
  note f = dir_find_eq [OF assms(3) layout_inode_addr(1) [OF assms(1) D(1)] D(4)]
  have "ld32 m (d_inum e) = Inr (entry_inum m e)"
    if "find (names_entry m name) (slots d m (inode_addr d p)) = Some e" for e
  proof -
    have "e \<in> set (slots d m (inode_addr d p))"
      using that by (auto simp: find_Some_iff)
    then have "in_img m (e + 28) 4"
      using slot_range(2) [OF assms(2)] in_img_sub [of m e 32 "e + 28" 4] by simp
    then show ?thesis by (simp add: ld32_def d_inum_def entry_inum_def)
  qed
  then show ?thesis
    using get_inode_ptr_eq [OF assms(1) D(3)] D(2) f
    by (auto simp: fs_lookup_def dir_map_def split: option.split)
qed

section \<open>Changes confined to a set of addresses\<close>

definition chg :: "int set \<Rightarrow> image \<Rightarrow> image \<Rightarrow> bool" where
  "chg R m m' \<longleftrightarrow> img_len m' = img_len m \<and> (\<forall>x. int x \<notin> R \<longrightarrow> bytes m' x = bytes m x)"

lemma chg_trans: "chg R m m' \<Longrightarrow> chg R' m' m'' \<Longrightarrow> chg (R \<union> R') m m''"
  by (simp add: chg_def)

lemma chg_mono: "chg R m m' \<Longrightarrow> R \<subseteq> R' \<Longrightarrow> chg R' m m'"
  by (auto simp: chg_def)

lemma chg_refl [simp]: "chg R m m"
  by (simp add: chg_def)

lemma chg_put_bytes: "0 \<le> a \<Longrightarrow> chg {a..<a + int (length bs)} m (put_bytes m a bs)"
  by (auto simp: chg_def put_bytes_def)

lemma chg_put_int: "0 \<le> a \<Longrightarrow> chg {a..<a + 4} m (put_int m a v)"
  unfolding put_int_def using chg_put_bytes [of a "le_bytes 4 (wrap 32 v)" m] by simp

lemma chg_flipped:
  assumes "bitmap_in m bm n" and "i < n"
  shows "chg {bm..<bm + int (n div 8)} m (flipped m bm i)"
  unfolding flipped_def using bitmap_word_bound [OF assms] by (intro chg_mono [OF chg_put_int]) auto

lemma get_bytes_chg:
  assumes "chg R m m'" and "0 \<le> a" and "{a..<a + int n} \<inter> R = {}"
  shows "get_bytes m' a n = get_bytes m a n"
proof -
  have "int (nat a + k) \<notin> R" if "k < n" for k
    using that assms(2,3) by (auto simp: disjoint_iff)
  then show ?thesis using assms(1) by (auto simp: get_bytes_def chg_def)
qed

lemma int_at_chg: "chg R m m' \<Longrightarrow> 0 \<le> a \<Longrightarrow> {a..<a + 4} \<inter> R = {} \<Longrightarrow> int_at m' a = int_at m a"
  using get_bytes_chg [of R m m' a 4] by (simp add: int_at_def)

lemma in_img_chg: "chg R m m' \<Longrightarrow> in_img m' a n = in_img m a n"
  by (simp add: chg_def in_img_def)

lemma layout_chg: "chg R m m' \<Longrightarrow> ufs_layout d m' = ufs_layout d m"
  by (simp add: chg_def ufs_layout_def)

lemma bit_set_chg:
  assumes "chg R m m'" and "bitmap_in m bm n" and "{bm..<bm + int (n div 8)} \<inter> R = {}" and "i < n"
  shows "bit_set m' bm i = bit_set m bm i"
proof -
  note b = bitmap_word_bound [OF assms(2,4)]
  then have "{bm + 4 * int (i div 32)..<bm + 4 * int (i div 32) + 4} \<subseteq> {bm..<bm + int (n div 8)}"
    by auto
  with assms(3) have "{bm + 4 * int (i div 32)..<bm + 4 * int (i div 32) + 4} \<inter> R = {}"
    by blast
  with int_at_chg [OF assms(1)] b(2) show ?thesis by (simp add: bit_set_def)
qed

lemma disjoint_sub: "A \<inter> R = {} \<Longrightarrow> B \<subseteq> A \<Longrightarrow> B \<inter> R = {}"
  by blast

lemma entry_chg:
  assumes "chg R m m'" and "0 \<le> e" and "{e..<e + 32} \<inter> R = {}"
  shows "entry_name m' e = entry_name m e" and "entry_inum m' e = entry_inum m e"
proof -
  have "{e..<e + int 28} \<inter> R = {}" "{e + 28..<e + 28 + 4} \<inter> R = {}"
    by (rule disjoint_sub [OF assms(3)]; auto)+
  then show "entry_name m' e = entry_name m e" "entry_inum m' e = entry_inum m e"
    using get_bytes_chg [OF assms(1,2), of 28] int_at_chg [OF assms(1), of "e + 28"] assms(2)
    by (simp_all add: entry_name_def entry_inum_def)
qed

section \<open>Creation\<close>

definition free_slot :: "image \<Rightarrow> int \<Rightarrow> bool" where
  "free_slot m e \<longleftrightarrow> entry_inum m e = - 1 \<and> entry_name m e \<noteq> dotdot"

lemma unused_entry_find:
  assumes "\<forall>j\<in>set js. in_img m (ptr + 32 * int j) 32"
  shows "unused_entry m ptr js = Inr (find (free_slot m) (map (\<lambda>j. ptr + 32 * int j) js))"
  using assms
proof (induction js)
  case Nil
  then show ?case by simp
next
  case (Cons j js)
  let ?e = "ptr + 32 * int j"
  have "in_img m (?e + 28) 4" "in_img m ?e 28"
    using Cons.prems in_img_sub [of m ?e 32] by simp_all
  with Cons str_eq_entry [OF valid_dotdot] show ?case
    by (auto simp: ld32_def sizeof_dir_ent_def d_inum_def d_name_def Let_def free_slot_def entry_inum_def)
qed

lemma unused_entry_block:
  "in_img m (block_ptr d b) 4096 \<Longrightarrow>
   unused_entry m (block_ptr d b) [0..<128] = Inr (find (free_slot m) (block_slots d b))"
  unfolding block_slots_def
  by (rule unused_entry_find) (auto intro!: in_img_sub [of m "block_ptr d b" 4096])

lemma creat_blocks_find:
  assumes "\<forall>i\<in>set is. in_img m (i_direct P (int i)) 4"
    and "\<forall>b\<in>set (takeWhile (\<lambda>b. b \<noteq> - 1) (map (\<lambda>i. int_at m (i_direct P (int i))) is)). in_img m (block_ptr d b) 4096"
    and "find (free_slot m) (concat (map (block_slots d)
           (takeWhile (\<lambda>b. b \<noteq> - 1) (map (\<lambda>i. int_at m (i_direct P (int i))) is)))) = Some e"
  shows "creat_blocks d pinum ty name P is m = creat_entry d pinum ty name P e m"
  using assms
proof (induction "is")
  case Nil
  then show ?case by simp
next
  case (Cons i "is")
  then have "int_at m (i_direct P (int i)) \<noteq> - 1" by (cases "int_at m (i_direct P (int i)) = - 1") auto
  with Cons unused_entry_block [of m d] show ?case
    by (auto simp: ld32_def find_append split: option.splits)
qed

lemma forE_direct:
  assumes "in_img m p 128" and "n \<le> DIRECT_PTRS"
  shows "\<exists>m'. forE (\<lambda>k. st32 (i_direct p (int k)) (- 1)) [0..<n] m = Inr m' \<and>
           chg {p + 8..<p + 128} m m' \<and> (\<forall>k < n. int_at m' (i_direct p (int k)) = - 1)"
  using assms(2)
proof (induction n)
  case 0
  then show ?case by simp
next
  case (Suc n)
  then obtain m1 where m1: "forE (\<lambda>k. st32 (i_direct p (int k)) (- 1)) [0..<n] m = Inr m1"
    "chg {p + 8..<p + 128} m m1" "\<forall>k < n. int_at m1 (i_direct p (int k)) = - 1" by auto
  have p: "0 \<le> i_direct p (int n)" "in_img m1 (i_direct p (int n)) 4"
    using Suc.prems in_img_direct [OF assms(1), of n] in_img_chg [OF m1(2), of "i_direct p (int n)" 4]
    by (simp_all add: in_img_def)
  let ?m = "put_int m1 (i_direct p (int n)) (- 1)"
  have "chg {p + 8..<p + 128} m1 ?m"
    using p(1) Suc.prems by (intro chg_mono [OF chg_put_int]) (auto simp: i_direct_def DIRECT_PTRS_def)
  then have "chg {p + 8..<p + 128} m ?m" using chg_trans [OF m1(2)] by fastforce
  moreover have "int_at ?m (i_direct p (int k)) = - 1" if "k < Suc n" for k
  proof (cases "k = n")
    case True
    then show ?thesis by (simp add: int_at_put_int_same)
  next
    case False
    with that m1(3) assms(1) show ?thesis
      by (subst int_at_put_int_other) (auto simp: i_direct_def in_img_def)
  qed
  ultimately show ?case
    using m1(1) p(2) by (auto simp: forE_snoc img_simps)
qed

lemma init_inode_eq:
  assumes "in_img m p 128"
  shows "\<exists>m'. init_inode p ty m = Inr m' \<and> chg {p..<p + 128} m m' \<and> int_at m' p = w32 ty \<and>
           int_at m' (p + 4) = 0 \<and> (\<forall>k < DIRECT_PTRS. int_at m' (i_direct p (int k)) = - 1)"
proof -
  have p: "0 \<le> p" using assms by (simp add: in_img_def)
  let ?m = "put_int (put_int m p ty) (p + 4) 0"
  have "in_img ?m p 128" using assms by simp
  then obtain m' where m': "forE (\<lambda>k. st32 (i_direct p (int k)) (- 1)) [0..<DIRECT_PTRS] ?m = Inr m'"
    "chg {p + 8..<p + 128} ?m m'" "\<forall>k < DIRECT_PTRS. int_at m' (i_direct p (int k)) = - 1"
    using forE_direct [of ?m p DIRECT_PTRS] by blast
  have "chg ({p..<p + 4} \<union> {p + 4..<p + 4 + 4}) m ?m"
    by (rule chg_trans [OF chg_put_int chg_put_int]) (use p in auto)
  then have "chg ({p..<p + 4} \<union> {p + 4..<p + 4 + 4} \<union> {p + 8..<p + 128}) m m'"
    using m'(2) by (rule chg_trans)
  then have "chg {p..<p + 128} m m'" by (rule chg_mono) auto
  moreover have "int_at m' p = w32 ty"
    using int_at_chg [OF m'(2), of p] p by (simp add: int_at_put_int_other int_at_put_int_same)
  moreover have "int_at m' (p + 4) = 0"
    using int_at_chg [OF m'(2), of "p + 4"] p by (simp add: int_at_put_int_same)
  ultimately show ?thesis
    using m'(1,3) in_img_sub [OF assms, of p 4] in_img_sub [OF assms, of "p + 4" 4]
    by (simp add: init_inode_def st32_def i_type_def i_size_def)
qed

text \<open>The image once the inode \<open>q\<close> is taken and the entry \<open>e\<close> is filled in.\<close>

definition entered :: "disk_t \<Rightarrow> image \<Rightarrow> nat \<Rightarrow> int \<Rightarrow> byte list \<Rightarrow> image" where
  "entered d m q e name =
     put_bytes (put_int (flipped m (inode_bitmap_ptr d) q) (e + 28) (int q)) e (name @ [0])"

definition bitmap_area :: "disk_t \<Rightarrow> int set" where
  "bitmap_area d = {inode_bitmap_ptr d..<inode_bitmap_ptr d + int (inode_bits d div 8)}"

lemma get_bytes_add: "0 \<le> a \<Longrightarrow> get_bytes m a (k + l) = get_bytes m a k @ get_bytes m (a + int k) l"
  by (rule nth_equalityI) (auto simp: get_bytes_def nth_append nat_add_distrib)

lemma entry_name_put:
  assumes "0 \<le> e" and "valid_name name"
  shows "entry_name (put_bytes m e (name @ [0])) e = name"
proof -
  let ?m = "put_bytes m e (name @ [0])"
  have "get_bytes ?m e (length (name @ [0]) + (27 - length name)) =
      (name @ [0]) @ get_bytes ?m (e + int (length (name @ [0]))) (27 - length name)"
    unfolding get_bytes_add [OF assms(1)] get_put_same ..
  then have "get_bytes ?m e 28 = name @ 0 # get_bytes ?m (e + int (length (name @ [0]))) (27 - length name)"
    using assms(2) by (simp add: valid_name_def)
  moreover have "\<forall>c\<in>set name. c \<noteq> 0" using assms(2) by (auto simp: valid_name_def)
  ultimately show ?thesis by (simp add: entry_name_def takeWhile_append)
qed

lemma layout_areas:
  assumes "ufs_layout d m"
  shows "bitmap_area d \<subseteq> {40..<inode_region_ptr d}"
  using assms by (auto simp: ufs_layout_def bitmap_area_def inode_bits_def)

definition data_area :: "disk_t \<Rightarrow> int set" where
  "data_area d = {data_bitmap_ptr d..<data_bitmap_ptr d + int (data_bits d div 8)}"

lemma layout_data_area:
  assumes "ufs_layout d m"
  shows "data_area d \<subseteq> {40..<inode_region_ptr d}" and "data_area d \<inter> bitmap_area d = {}"
  using assms by (auto simp: ufs_layout_def data_area_def data_bits_def bitmap_area_def inode_bits_def)

lemma inode_bits_bound: "ufs_layout d m \<Longrightarrow> q < inode_bits d \<Longrightarrow> w32 (int q) = int q"
  by (rule w32_id) (auto simp: ufs_layout_def inode_bits_def)

lemma entered_facts:
  assumes L: "ufs_layout d m" and q: "q < inode_bits d" "\<not> bit_set m (inode_bitmap_ptr d) q"
    and e: "data_region_ptr d \<le> e" "in_img m e 32" and name: "valid_name name"
  shows "chg (bitmap_area d \<union> {e..<e + 32}) m (entered d m q e name)"
    and "entry_name (entered d m q e name) e = name" and "entry_inum (entered d m q e name) e = int q"
    and "\<forall>j < inode_bits d. bit_set (entered d m q e name) (inode_bitmap_ptr d) j =
           (bit_set m (inode_bitmap_ptr d) j \<or> j = q)"
proof -
  let ?bm = "inode_bitmap_ptr d" and ?m1 = "flipped m (inode_bitmap_ptr d) q"
  have e0: "0 \<le> e" using e(2) by (simp add: in_img_def)
  have len: "int (length (name @ [0])) \<le> 28" using name by (simp add: valid_name_def)
  note bm = layout_bitmaps(1) [OF L]
  have "chg {e..<e + 32} ?m1 (put_int ?m1 (e + 28) (int q))"
    using e0 by (intro chg_mono [OF chg_put_int]) auto
  then have "chg ({e..<e + 32} \<union> {e..<e + 32}) ?m1 (entered d m q e name)"
    unfolding entered_def by (rule chg_trans) (rule chg_mono [OF chg_put_bytes], use e0 len in auto)
  then have c: "chg {e..<e + 32} ?m1 (entered d m q e name)" by simp
  show "chg (bitmap_area d \<union> {e..<e + 32}) m (entered d m q e name)"
    unfolding bitmap_area_def by (rule chg_trans [OF chg_flipped [OF bm q(1)] c])
  show "entry_name (entered d m q e name) e = name"
    unfolding entered_def by (rule entry_name_put [OF e0 name])
  show "entry_inum (entered d m q e name) e = int q"
    unfolding entered_def entry_inum_def using e0 len inode_bits_bound [OF L q(1)]
    by (subst int_at_put_bytes_other) (auto simp: int_at_put_int_same)
  have "bitmap_area d \<inter> {e..<e + 32} = {}"
    using layout_areas [OF L] e(1) L by (auto simp: ufs_layout_def)
  moreover have "bitmap_in ?m1 ?bm (inode_bits d)"
    using bm by (simp add: bitmap_in_def in_img_def)
  ultimately show "\<forall>j < inode_bits d. bit_set (entered d m q e name) ?bm j = (bit_set m ?bm j \<or> j = q)"
    using bit_set_chg [OF c] bit_set_flipped [OF bm q(1)] q(2) by (auto simp: bitmap_area_def)
qed

lemma creat_entry_enter:
  assumes L: "ufs_layout d m" and q: "first_clear m (inode_bitmap_ptr d) (inode_bits d) = int q" "q < inode_bits d"
    and e: "in_img m e 32" and name: "length name \<le> 28"
  shows "creat_entry d pinum ty name P e m =
     bindE (ld32 (entered d m q e name) (e + 28)) (\<lambda>n.
     bindE (get_inode_ptr d (entered d m q e name) n) (\<lambda>r.
       case r of None \<Rightarrow> Inr (- 1, entered d m q e name)
       | Some new_inode \<Rightarrow>
         bindE (init_inode new_inode ty (entered d m q e name)) (\<lambda>m.
         bindE (ld32 m (i_type new_inode)) (\<lambda>t.
         bindE (if t = UFS_DIRECTORY then make_dir d new_inode (int q) pinum m else Inr (True, m)) (\<lambda>(ok, m).
           if \<not> ok then Inr (- 1, m)
           else bindE (ld32 m (i_size P)) (\<lambda>sz.
                bindE (st32 (i_size P) (sz + sizeof_dir_ent) m) (\<lambda>m. Inr (0, m))))))))"
proof -
  have "in_img m (e + 28) 4" "in_img m e (length (name @ [0]))"
    using in_img_sub [OF e, of "e + 28" 4] in_img_sub [OF e, of e "length (name @ [0])"] name
    by simp_all
  then show ?thesis
    using find_free_inode_eq [OF L] q flip_bit_eq [OF layout_bitmaps(1) [OF L] q(2)]
    by (simp add: creat_entry_def strcpy_to_def d_name_def d_inum_def img_simps entered_def)
qed

lemma creat_entry_eq:
  assumes L: "ufs_layout d m" and q: "first_clear m (inode_bitmap_ptr d) (inode_bits d) = int q" "inode_ok d q"
    and p: "inode_ok d p" "p \<noteq> q" and e: "data_region_ptr d \<le> e" "in_img m e 32"
    and name: "valid_name name" and ty: "w32 ty = ty" "ty \<noteq> UFS_DIRECTORY"
  shows "\<exists>m'. creat_entry d pinum ty name (inode_addr d p) e m = Inr (0, m') \<and>
     chg (bitmap_area d \<union> {e..<e + 32} \<union> {inode_addr d q..<inode_addr d q + 128} \<union>
          {inode_addr d p + 4..<inode_addr d p + 8}) m m' \<and>
     entry_name m' e = name \<and> entry_inum m' e = int q \<and>
     int_at m' (inode_addr d q) = ty \<and> int_at m' (inode_addr d q + 4) = 0 \<and>
     (\<forall>k < DIRECT_PTRS. int_at m' (i_direct (inode_addr d q) (int k)) = - 1) \<and>
     (\<forall>j < inode_bits d. bit_set m' (inode_bitmap_ptr d) j = (bit_set m (inode_bitmap_ptr d) j \<or> j = q))"
proof -
  let ?P = "inode_addr d p" and ?Q = "inode_addr d q" and ?m = "entered d m q e name"
  have qn: "q < inode_bits d" using q(2) by (simp add: inode_ok_def)
  have "\<not> bit_set m (inode_bitmap_ptr d) q"
    using q(1) by (cases rule: first_clear_cases [of m "inode_bitmap_ptr d" "inode_bits d"]) auto
  note E = entered_facts [OF L qn this e name]
  have L3: "ufs_layout d ?m" using layout_chg [OF E(1)] L by simp
  note P = layout_inode_addr [OF L3 p(1)] and Q = layout_inode_addr [OF L3 q(2)]
  obtain m4 where m4: "init_inode ?Q ty ?m = Inr m4" "chg {?Q..<?Q + 128} ?m m4" "int_at m4 ?Q = ty"
    "int_at m4 (?Q + 4) = 0" "\<forall>k < DIRECT_PTRS. int_at m4 (i_direct ?Q (int k)) = - 1"
    using init_inode_eq [OF Q(1), of ty] ty(1) by auto
  define m5 where "m5 = put_int m4 (?P + 4) (int_at m4 (?P + 4) + 32)"
  have ir: "40 \<le> inode_region_ptr d" "40 \<le> inode_bitmap_ptr d" using L by (auto simp: ufs_layout_def)
  have c5: "chg {?P + 4..<?P + 8} m4 m5"
    unfolding m5_def using P(2) ir by (intro chg_mono [OF chg_put_int]) auto
  have c35: "chg ({?Q..<?Q + 128} \<union> {?P + 4..<?P + 8}) ?m m5"
    by (rule chg_trans [OF m4(2) c5])
  have "in_img m4 (?P + 4) 4"
    using in_img_chg [OF m4(2)] in_img_sub [OF P(1), of "?P + 4" 4] by simp
  moreover have "in_img ?m (e + 28) 4"
    using in_img_chg [OF E(1)] in_img_sub [OF e(2), of "e + 28" 4] by simp
  moreover have "get_inode_ptr d ?m (int q) = Inr (Some ?Q)"
    using get_inode_ptr_eq [OF L3 qn] E(4) qn by simp
  moreover have "in_img m4 ?Q 4"
    using in_img_chg [OF m4(2)] in_img_sub [OF Q(1), of ?Q 4] by simp
  ultimately have run: "creat_entry d pinum ty name ?P e m = Inr (0, m5)"
    using creat_entry_enter [OF L q(1) qn e(2), of name] name E(3) m4(1,3) ty(2)
    by (simp add: valid_name_def img_simps entry_inum_def i_type_def i_size_def sizeof_dir_ent_def m5_def)
  have e0: "?Q + 128 \<le> e" "?P + 128 \<le> e" "0 \<le> e" using P(2,3) Q(3) e(1) ir by auto
  have "chg (bitmap_area d \<union> {e..<e + 32} \<union> {?Q..<?Q + 128} \<union> {?P + 4..<?P + 8}) m m5"
    using chg_trans [OF E(1) c35] by (simp add: Un_assoc)
  moreover have "{e..<e + 32} \<inter> ({?Q..<?Q + 128} \<union> {?P + 4..<?P + 8}) = {}"
    using e0 by auto
  then have "entry_name m5 e = name" "entry_inum m5 e = int q"
    using entry_chg [OF c35 e0(3)] E(2,3) by simp_all
  moreover have PQ: "?P + 128 \<le> ?Q \<or> ?Q + 128 \<le> ?P" "0 \<le> ?Q"
    using p(2) Q(2) ir by (auto simp: inode_addr_def)
  have "int_at m5 ?Q = ty" "int_at m5 (?Q + 4) = 0"
    using int_at_chg [OF c5, of ?Q] int_at_chg [OF c5, of "?Q + 4"] PQ m4(3,4) by (auto simp: disjoint_iff)
  moreover have "int_at m5 (i_direct ?Q (int k)) = - 1" if "k < DIRECT_PTRS" for k
    using that int_at_chg [OF c5, of "i_direct ?Q (int k)"] PQ m4(5)
    by (auto simp: disjoint_iff i_direct_def DIRECT_PTRS_def)
  moreover have "bitmap_area d \<inter> ({?Q..<?Q + 128} \<union> {?P + 4..<?P + 8}) = {}"
    using layout_areas [OF L] P(2) Q(2) by auto
  then have "bit_set m5 (inode_bitmap_ptr d) j = (bit_set m (inode_bitmap_ptr d) j \<or> j = q)" if "j < inode_bits d" for j
    using bit_set_chg [OF c35 layout_bitmaps(1) [OF L3]] E(4) that by (simp add: bitmap_area_def)
  ultimately show ?thesis using run by blast
qed

lemma dir_blocks_chg:
  assumes "chg R m m'" and "0 \<le> P" and "{P + 8..<P + 128} \<inter> R = {}"
  shows "dir_blocks m' P = dir_blocks m P"
proof -
  have "int_at m' (i_direct P (int i)) = int_at m (i_direct P (int i))" if "i < DIRECT_PTRS" for i
  proof (rule int_at_chg [OF assms(1)])
    show "0 \<le> i_direct P (int i)" using assms(2) by (simp add: i_direct_def)
    show "{i_direct P (int i)..<i_direct P (int i) + 4} \<inter> R = {}"
      by (rule disjoint_sub [OF assms(3)]) (use that in \<open>auto simp: i_direct_def DIRECT_PTRS_def\<close>)
  qed
  then have "map (\<lambda>i. int_at m' (i_direct P (int i))) [0..<DIRECT_PTRS] =
      map (\<lambda>i. int_at m (i_direct P (int i))) [0..<DIRECT_PTRS]" by simp
  then show ?thesis unfolding dir_blocks_def by (rule arg_cong)
qed

lemma slots_chg:
  "chg R m m' \<Longrightarrow> 0 \<le> P \<Longrightarrow> {P + 8..<P + 128} \<inter> R = {} \<Longrightarrow> slots d m' P = slots d m P"
  by (simp add: slots_def dir_blocks_chg)

lemma dir_map_None: "dir_map d m P name = None \<longleftrightarrow> (\<forall>e\<in>set (slots d m P). \<not> names_entry m name e)"
  by (auto simp: dir_map_def find_None_iff)

lemma find_in_set: "find P xs = Some x \<Longrightarrow> x \<in> set xs \<and> P x"
  by (induction xs) (auto split: if_splits)

lemma find_eqI:
  assumes "x \<in> set xs" and "P x" and "\<And>y. y \<in> set xs \<Longrightarrow> P y \<Longrightarrow> y = x"
  shows "find P xs = Some x"
proof (cases "find P xs")
  case None
  with assms(1,2) show ?thesis by (auto simp: find_None_iff)
next
  case (Some y)
  with assms(3) find_in_set [of P xs y] show ?thesis by simp
qed

lemma dir_map_other:
  assumes "slots d m' P = slots d m P"
    and "\<And>x. x \<in> set (slots d m P) \<Longrightarrow> x \<noteq> e \<Longrightarrow> entry_name m' x = entry_name m x \<and> entry_inum m' x = entry_inum m x"
    and "\<not> names_entry m name e" and "\<not> names_entry m' name e"
  shows "dir_map d m' P name = dir_map d m P name"
proof -
  have "names_entry m' name x = names_entry m name x" if "x \<in> set (slots d m P)" for x
    using assms(2) [OF that] assms(3,4) by (cases "x = e") (auto simp: names_entry_def)
  then have f: "find (names_entry m' name) (slots d m P) = find (names_entry m name) (slots d m P)"
    by (intro find_cong) auto
  show ?thesis
  proof (cases "find (names_entry m name) (slots d m P)")
    case None
    then show ?thesis using f assms(1) by (simp add: dir_map_def)
  next
    case (Some x)
    then have "x \<in> set (slots d m P)" "x \<noteq> e" using assms(3) by (auto dest: find_in_set)
    then show ?thesis using f Some assms(1,2) by (simp add: dir_map_def)
  qed
qed

lemma dir_map_insert:
  assumes "slots d m' P = slots d m P" and "e \<in> set (slots d m P)"
    and "\<And>x. x \<in> set (slots d m P) \<Longrightarrow> x \<noteq> e \<Longrightarrow> entry_name m' x = entry_name m x \<and> entry_inum m' x = entry_inum m x"
    and "entry_inum m e = - 1" and "entry_name m' e = name" and "entry_inum m' e = v" and "v \<noteq> - 1"
    and "dir_map d m P name = None"
  shows "dir_map d m' P = (dir_map d m P)(name \<mapsto> v)"
proof (rule ext)
  fix name' show "dir_map d m' P name' = ((dir_map d m P)(name \<mapsto> v)) name'"
  proof (cases "name' = name")
    case True
    have "find (names_entry m' name) (slots d m P) = Some e"
    proof (rule find_eqI [OF assms(2)])
      show "names_entry m' name e" using assms(5-7) by (simp add: names_entry_def)
      show "y = e" if y: "y \<in> set (slots d m P)" "names_entry m' name y" for y
      proof (rule ccontr)
        assume "y \<noteq> e"
        with assms(3) [OF y(1)] y(2) have "names_entry m name y" by (simp add: names_entry_def)
        with y(1) assms(8) show False by (simp add: dir_map_None)
      qed
    qed
    with True assms(1,6) show ?thesis by (simp add: dir_map_def)
  next
    case False
    with assms show ?thesis by (simp add: dir_map_other [of d m' P m e] names_entry_def)
  qed
qed

text \<open>Where a creation or removal in the directory of inode \<open>p\<close> may write.\<close>

lemma slots_kept:
  assumes "ufs_layout d m" and "directory d m p" and "chg R m m'"
    and "R \<subseteq> {..<data_region_ptr d} - {inode_addr d p + 8..<inode_addr d p + 128} \<union> {e..<e + 32}"
    and "e \<in> set (slots d m (inode_addr d p))"
  shows "slots d m' (inode_addr d p) = slots d m (inode_addr d p)"
    and "dir_blocks m' (inode_addr d p) = dir_blocks m (inode_addr d p)"
    and "\<And>x. x \<in> set (slots d m (inode_addr d p)) \<Longrightarrow> x \<noteq> e \<Longrightarrow>
           entry_name m' x = entry_name m x \<and> entry_inum m' x = entry_inum m x"
proof -
  note P = layout_inode_addr [OF assms(1) directoryD(1) [OF assms(2)]]
  note e = slot_range [OF assms(2,5)]
  have P0: "0 \<le> inode_addr d p" using P(1) by (simp add: in_img_def)
  have "{inode_addr d p + 8..<inode_addr d p + 128} \<inter> R = {}"
    using assms(4) P(3) e(1) by fastforce
  with P0 slots_chg [OF assms(3)] dir_blocks_chg [OF assms(3)]
  show "slots d m' (inode_addr d p) = slots d m (inode_addr d p)"
    and "dir_blocks m' (inode_addr d p) = dir_blocks m (inode_addr d p)" by simp_all
  fix x assume x: "x \<in> set (slots d m (inode_addr d p))" "x \<noteq> e"
  then have "x + 32 \<le> e \<or> e + 32 \<le> x"
    using slots_apart [of d x m _ e] assms(1,5) by (auto simp: ufs_layout_def)
  then have "{x..<x + 32} \<inter> R = {}"
    using assms(4) slot_range(1) [OF assms(2) x(1)] by fastforce
  moreover have "0 \<le> x" using slot_range(2) [OF assms(2) x(1)] by (simp add: in_img_def)
  ultimately show "entry_name m' x = entry_name m x \<and> entry_inum m' x = entry_inum m x"
    using entry_chg [OF assms(3)] by simp
qed

lemma directory_chg:
  assumes "directory d m p" and "img_len m' = img_len m" and "bit_set m' (inode_bitmap_ptr d) p"
    and "dir_blocks m' (inode_addr d p) = dir_blocks m (inode_addr d p)"
    and "\<And>x y. x \<in> set (slots d m (inode_addr d p)) \<Longrightarrow> y \<in> set (slots d m (inode_addr d p)) \<Longrightarrow>
           entry_inum m' x \<noteq> - 1 \<Longrightarrow> entry_inum m' y \<noteq> - 1 \<Longrightarrow> entry_name m' x = entry_name m' y \<Longrightarrow> x = y"
  shows "directory d m' p"
proof -
  have "slots d m' (inode_addr d p) = slots d m (inode_addr d p)" using assms(4) by (simp add: slots_def)
  with assms show ?thesis unfolding directory_def in_img_def by auto
qed

lemma directory_insert:
  assumes D: "directory d m p" and e: "e \<in> set (slots d m (inode_addr d p))"
    and K: "\<And>x. x \<in> set (slots d m (inode_addr d p)) \<Longrightarrow> x \<noteq> e \<Longrightarrow>
              entry_name m' x = entry_name m x \<and> entry_inum m' x = entry_inum m x"
    and new: "dir_map d m (inode_addr d p) (entry_name m' e) = None"
    and x: "x \<in> set (slots d m (inode_addr d p))" "entry_inum m' x \<noteq> - 1"
    and y: "y \<in> set (slots d m (inode_addr d p))" "entry_inum m' y \<noteq> - 1"
    and eq: "entry_name m' x = entry_name m' y"
  shows "x = y"
proof -
  have no: "entry_name m' z \<noteq> entry_name m' e"
    if "z \<in> set (slots d m (inode_addr d p))" "z \<noteq> e" "entry_inum m' z \<noteq> - 1" for z
  proof
    assume "entry_name m' z = entry_name m' e"
    with K [OF that(1,2)] that(3) have "names_entry m (entry_name m' e) z" by (simp add: names_entry_def)
    with new that(1) show False by (simp add: dir_map_None)
  qed
  show ?thesis
  proof (cases "x = e \<or> y = e")
    case True
    then show ?thesis using no [OF x(1) _ x(2)] no [OF y(1) _ y(2)] eq by metis
  next
    case False
    then have "entry_inum m x \<noteq> - 1" "entry_inum m y \<noteq> - 1" "entry_name m x = entry_name m y"
      using K [OF x(1)] K [OF y(1)] x(2) y(2) eq by simp_all
    with D x(1) y(1) show ?thesis by (simp add: directory_def)
  qed
qed

lemma fs_creat_run_find:
  assumes L: "ufs_layout d m" and D: "directory d m p" and n: "length name \<le> 28"
    and new: "dir_find d m (inode_addr d p) name = Inr None"
    and f: "\<exists>e\<in>set (slots d m (inode_addr d p)). free_slot m e"
  obtains e where "e \<in> set (slots d m (inode_addr d p))" "free_slot m e"
    "fs_creat d m (int p) ty name = creat_entry d (int p) ty name (inode_addr d p) e m"
proof -
  note P = layout_inode_addr(1) [OF L directoryD(1) [OF D]]
  obtain e where e: "find (free_slot m) (slots d m (inode_addr d p)) = Some e"
    using f find_None_iff [of "free_slot m" "slots d m (inode_addr d p)"]
    by (cases "find (free_slot m) (slots d m (inode_addr d p))") auto
  have "creat_blocks d (int p) ty name (inode_addr d p) [0..<DIRECT_PTRS] m =
      creat_entry d (int p) ty name (inode_addr d p) e m"
    using in_img_direct [OF P] directoryD(4) [OF D] e
    by (intro creat_blocks_find) (auto simp: slots_def dir_blocks_def)
  then have "fs_creat d m (int p) ty name = creat_entry d (int p) ty name (inode_addr d p) e m"
    using get_inode_ptr_eq [OF L directoryD(3) [OF D]] directoryD(2) [OF D] n new
    by (simp add: fs_creat_def)
  with that find_in_set [OF e] show thesis by blast
qed

lemma dir_find_new:
  assumes "ufs_layout d m" and "directory d m p" and "valid_name name" and "dir_map d m (inode_addr d p) name = None"
  shows "dir_find d m (inode_addr d p) name = Inr None"
  using dir_find_eq [OF assms(3) layout_inode_addr(1) [OF assms(1) directoryD(1) [OF assms(2)]] directoryD(4) [OF assms(2)]]
    assms(4) by (auto simp: dir_map_def)

lemma fs_stat_eq:
  assumes "ufs_layout d m" and "inode_ok d q" and "bit_set m (inode_bitmap_ptr d) q"
  shows "fs_stat d m (int q) st =
     Inr (0, st\<lparr>m_size := int_at m (inode_addr d q + 4), m_type := int_at m (inode_addr d q)\<rparr>)"
proof -
  note Q = layout_inode_addr(1) [OF assms(1,2)]
  show ?thesis
    using get_inode_ptr_eq [OF assms(1), of q] assms(2,3) in_img_sub [OF Q, of "inode_addr d q" 4]
      in_img_sub [OF Q, of "inode_addr d q + 4" 4]
    by (simp add: fs_stat_def inode_ok_def img_simps i_size_def i_type_def)
qed

lemma fs_creat_inserts:
  assumes L: "ufs_layout d m" and D: "directory d m p" and n: "valid_name name"
    and new: "dir_map d m (inode_addr d p) name = None"
    and f: "\<exists>e\<in>set (slots d m (inode_addr d p)). free_slot m e"
    and q: "first_clear m (inode_bitmap_ptr d) (inode_bits d) = int q" "inode_ok d q"
    and ty: "w32 ty = ty" "ty \<noteq> UFS_DIRECTORY"
  shows "\<exists>m'. fs_creat d m (int p) ty name = Inr (0, m') \<and> ufs_layout d m' \<and> directory d m' p \<and>
     dir_map d m' (inode_addr d p) = (dir_map d m (inode_addr d p))(name \<mapsto> int q) \<and>
     (\<forall>j < inode_bits d. bit_set m' (inode_bitmap_ptr d) j = (bit_set m (inode_bitmap_ptr d) j \<or> j = q)) \<and>
     fs_stat d m' (int q) st = Inr (0, st\<lparr>m_size := 0, m_type := ty\<rparr>) \<and>
     int_at m' (inode_addr d q) = ty \<and> int_at m' (inode_addr d q + 4) = 0 \<and>
     (\<forall>k < DIRECT_PTRS. int_at m' (i_direct (inode_addr d q) (int k)) = - 1) \<and>
     (\<forall>j < data_bits d. bit_set m' (data_bitmap_ptr d) j = bit_set m (data_bitmap_ptr d) j)"
proof -
  let ?P = "inode_addr d p" and ?Q = "inode_addr d q"
  obtain e where e: "e \<in> set (slots d m ?P)" "free_slot m e"
    and run: "fs_creat d m (int p) ty name = creat_entry d (int p) ty name ?P e m"
    using fs_creat_run_find [OF L D _ dir_find_new [OF L D n new] f] n by (auto simp: valid_name_def)
  have pq: "p \<noteq> q"
    using q(1) directoryD(2) [OF D]
    by (cases rule: first_clear_cases [of m "inode_bitmap_ptr d" "inode_bits d"]) auto
  note er = slot_range [OF D e(1)]
  define R where "R = bitmap_area d \<union> {e..<e + 32} \<union> {?Q..<?Q + 128} \<union> {?P + 4..<?P + 8}"
  obtain m' where m': "creat_entry d (int p) ty name ?P e m = Inr (0, m')" "chg R m m'"
    "entry_name m' e = name" "entry_inum m' e = int q" "int_at m' ?Q = ty" "int_at m' (?Q + 4) = 0"
    "\<forall>k < DIRECT_PTRS. int_at m' (i_direct ?Q (int k)) = - 1"
    "\<forall>j < inode_bits d. bit_set m' (inode_bitmap_ptr d) j = (bit_set m (inode_bitmap_ptr d) j \<or> j = q)"
    using creat_entry_eq [OF L q directoryD(1) [OF D] pq er n ty, of "int p"] unfolding R_def by blast
  note PQ = layout_inode_addr [OF L directoryD(1) [OF D]] layout_inode_addr [OF L q(2)]
  have "?P + 128 \<le> ?Q \<or> ?Q + 128 \<le> ?P" using pq by (auto simp: inode_addr_def)
  then have "R \<subseteq> {..<data_region_ptr d} - {?P + 8..<?P + 128} \<union> {e..<e + 32}"
    using layout_areas [OF L] PQ by (auto simp: R_def)
  note K = slots_kept [OF L D m'(2) this e(1)]
  have L': "ufs_layout d m'" using layout_chg [OF m'(2)] L by simp
  have "directory d m' p"
  proof (rule directory_chg [OF D _ _ K(2)])
    show "img_len m' = img_len m" using m'(2) by (simp add: chg_def)
    show "bit_set m' (inode_bitmap_ptr d) p" using m'(8) directoryD [OF D] by simp
  qed (rule directory_insert [OF D e(1) K(3)], use new m'(3) in simp_all)
  moreover have "dir_map d m' ?P = (dir_map d m ?P)(name \<mapsto> int q)"
    using e K(3) m'(3,4) new by (intro dir_map_insert [OF K(1) e(1)]) (auto simp: free_slot_def)
  moreover have "bit_set m' (inode_bitmap_ptr d) q" using m'(8) q(2) by (simp add: inode_ok_def)
  then have "fs_stat d m' (int q) st = Inr (0, st\<lparr>m_size := 0, m_type := ty\<rparr>)"
    using fs_stat_eq [OF L' q(2)] m'(5,6) by simp
  moreover have "data_area d \<inter> R = {}"
    using layout_data_area [OF L] PQ er(1) unfolding R_def by auto
  then have "bit_set m' (data_bitmap_ptr d) j = bit_set m (data_bitmap_ptr d) j" if "j < data_bits d" for j
    using bit_set_chg [OF m'(2) layout_bitmaps(2) [OF L]] that by (simp add: data_area_def)
  ultimately show ?thesis using run m'(1,5-8) L' by auto
qed

text \<open>
  C8: Creating a file refines insertion into the directory's map.  In a well-formed image, for a
  new name of at most 27 bytes, a directory with a free entry and a free inode that lies inside
  the inode table, \<open>fs_creat\<close> returns 0, adds exactly the binding of the name to the lowest free
  inode, marks that inode and no other as used, leaves the directory well formed, and the new
  inode has the given type and size 0.
\<close>

theorem fs_creat_extends_map:
  assumes L: "ufs_layout d m" and D: "directory d m p" and n: "valid_name name"
    and new: "dir_map d m (inode_addr d p) name = None"
    and f: "\<exists>e\<in>set (slots d m (inode_addr d p)). free_slot m e"
    and q: "first_clear m (inode_bitmap_ptr d) (inode_bits d) = int q" "inode_ok d q"
    and ty: "w32 ty = ty" "ty \<noteq> UFS_DIRECTORY"
  shows "\<exists>m'. fs_creat d m (int p) ty name = Inr (0, m') \<and> ufs_layout d m' \<and> directory d m' p \<and>
     dir_map d m' (inode_addr d p) = (dir_map d m (inode_addr d p))(name \<mapsto> int q) \<and>
     (\<forall>j < inode_bits d. bit_set m' (inode_bitmap_ptr d) j = (bit_set m (inode_bitmap_ptr d) j \<or> j = q)) \<and>
     fs_stat d m' (int q) st = Inr (0, st\<lparr>m_size := 0, m_type := ty\<rparr>)"
  using fs_creat_inserts [OF assms] by blast

end
