(* ===== verification/Ufs_Remove.thy ===== *)
theory Ufs_Remove
  imports Ufs_Dir
begin

text \<open>
  Lookup and removal in a directory of the file server against the directory's map.
\<close>

section \<open>Releasing the blocks of a file\<close>

text \<open>
  The bits of the data bitmap that belong to the blocks of an inode, by direct pointer, and the
  condition that they are in use, different, and numbers of blocks of the data region.
\<close>

definition direct_ptr :: "image \<Rightarrow> int \<Rightarrow> nat \<Rightarrow> int" where
  "direct_ptr m C k = int_at m (i_direct C (int k))"

definition region_addr :: "image \<Rightarrow> int" where
  "region_addr m = int_at m 24"

definition owned_bits :: "image \<Rightarrow> int \<Rightarrow> nat \<Rightarrow> nat set" where
  "owned_bits m C n = {nat (direct_ptr m C k - region_addr m) | k. k < n \<and> direct_ptr m C k \<noteq> - 1}"

definition blocks_owned :: "disk_t \<Rightarrow> image \<Rightarrow> int \<Rightarrow> bool" where
  "blocks_owned d m C \<longleftrightarrow>
     (\<forall>k < DIRECT_PTRS. direct_ptr m C k \<noteq> - 1 \<longrightarrow>
        region_addr m \<le> direct_ptr m C k \<and> nat (direct_ptr m C k - region_addr m) < data_bits d \<and>
        bit_set m (data_bitmap_ptr d) (nat (direct_ptr m C k - region_addr m)) \<and>
        (\<forall>l < k. direct_ptr m C l \<noteq> direct_ptr m C k))"

lemma super_region_addr:
  assumes "ufs_layout d m"
  shows "\<exists>s. super_at m (super_ptr d) = Inr s \<and> data_region_addr s = region_addr m"
  using assms by (auto simp: ufs_layout_def super_at_def in_img_def region_addr_def)

lemma free_block_eq:
  assumes "ufs_layout d m" and "in_img m C 128" and "k < DIRECT_PTRS"
    and "direct_ptr m C k \<noteq> - 1 \<Longrightarrow>
      region_addr m \<le> direct_ptr m C k \<and> nat (direct_ptr m C k - region_addr m) < data_bits d"
  shows "free_block d C k m =
    Inr (if direct_ptr m C k = - 1 then m
         else flipped m (data_bitmap_ptr d) (nat (direct_ptr m C k - region_addr m)))"
proof (cases "direct_ptr m C k = - 1")
  case True
  then show ?thesis
    using in_img_direct [OF assms(2,3)] by (simp add: free_block_def img_simps direct_ptr_def)
next
  case False
  let ?i = "nat (direct_ptr m C k - region_addr m)"
  from assms(4) [OF False] have i: "direct_ptr m C k - region_addr m = int ?i" "?i < data_bits d" by auto
  then have "int ?i < 2147483648" using assms(1) by (auto simp: ufs_layout_def data_bits_def)
  then have "w32 (int ?i) = int ?i" by (intro w32_id) linarith+
  then have "w32 (direct_ptr m C k - region_addr m) = int ?i"
    using arg_cong [OF i(1), of w32] by (rule trans [rotated])
  with False super_region_addr [OF assms(1)] flip_bit_eq [OF layout_bitmaps(2) [OF assms(1)] i(2)]
  show ?thesis
    using in_img_direct [OF assms(2,3)]
    by (auto simp: free_block_def img_simps direct_ptr_def [symmetric])
qed

lemma direct_ptr_kept:
  assumes "ufs_layout d m" and "inode_ok d c" and "chg (data_area d) m m'" and "k < DIRECT_PTRS"
  shows "direct_ptr m' (inode_addr d c) k = direct_ptr m (inode_addr d c) k"
    and "region_addr m' = region_addr m"
proof -
  note C = layout_inode_addr [OF assms(1,2)]
  have a: "data_area d \<subseteq> {40..<inode_region_ptr d}" using layout_data_area [OF assms(1)] by simp
  show "direct_ptr m' (inode_addr d c) k = direct_ptr m (inode_addr d c) k"
    unfolding direct_ptr_def using a C(2) C(1)
    by (intro int_at_chg [OF assms(3)]) (auto simp: i_direct_def in_img_def)
  show "region_addr m' = region_addr m"
    unfolding region_addr_def using a by (intro int_at_chg [OF assms(3)]) auto
qed

lemma free_blocks_eq:
  assumes L: "ufs_layout d m" and c: "inode_ok d c" and B: "blocks_owned d m (inode_addr d c)" and "n \<le> DIRECT_PTRS"
  shows "\<exists>m'. forE (free_block d (inode_addr d c)) [0..<n] m = Inr m' \<and> chg (data_area d) m m' \<and>
     (\<forall>j < data_bits d. bit_set m' (data_bitmap_ptr d) j =
        (bit_set m (data_bitmap_ptr d) j \<and> j \<notin> owned_bits m (inode_addr d c) n))"
  using assms(4)
proof (induction n)
  case 0
  then show ?case by (simp add: owned_bits_def)
next
  case (Suc n)
  let ?C = "inode_addr d c" and ?bm = "data_bitmap_ptr d"
  let ?i = "nat (direct_ptr m ?C n - region_addr m)"
  from Suc obtain m1 where m1: "forE (free_block d ?C) [0..<n] m = Inr m1" "chg (data_area d) m m1"
    "\<forall>j < data_bits d. bit_set m1 ?bm j = (bit_set m ?bm j \<and> j \<notin> owned_bits m ?C n)" by auto
  have n: "n < DIRECT_PTRS" using Suc.prems by simp
  have L1: "ufs_layout d m1" using layout_chg [OF m1(2)] L by simp
  note C1 = layout_inode_addr(1) [OF L1 c]
  note same = direct_ptr_kept [OF L c m1(2) n]
  have O: "owned_bits m ?C (Suc n) = owned_bits m ?C n \<union> (if direct_ptr m ?C n = - 1 then {} else {?i})"
    by (auto simp: owned_bits_def less_Suc_eq)
  show ?case
  proof (cases "direct_ptr m ?C n = - 1")
    case True
    then show ?thesis
      using free_block_eq [OF L1 C1 n] same m1 O by (auto simp: forE_snoc)
  next
    case False
    have i: "region_addr m \<le> direct_ptr m ?C n" "?i < data_bits d" "bit_set m ?bm ?i"
      and dif: "\<forall>l < n. direct_ptr m ?C l \<noteq> direct_ptr m ?C n"
      using B n False by (auto simp: blocks_owned_def)
    have "?i \<notin> owned_bits m ?C n"
    proof
      assume "?i \<in> owned_bits m ?C n"
      then obtain l where l: "l < n" "direct_ptr m ?C l \<noteq> - 1" "?i = nat (direct_ptr m ?C l - region_addr m)"
        by (auto simp: owned_bits_def)
      moreover have "region_addr m \<le> direct_ptr m ?C l"
        using B l n by (auto simp: blocks_owned_def)
      ultimately show False using i(1) dif by auto
    qed
    with i(3) have "bit_set m1 ?bm ?i" using m1(3) i(2) by simp
    note bs = bit_set_flipped [OF layout_bitmaps(2) [OF L1] i(2)]
    have "chg (data_area d \<union> data_area d) m (flipped m1 ?bm ?i)"
      using m1(2) chg_flipped [OF layout_bitmaps(2) [OF L1] i(2)]
      unfolding data_area_def [symmetric] by (rule chg_trans)
    moreover have "bit_set (flipped m1 ?bm ?i) ?bm j = (bit_set m ?bm j \<and> j \<notin> owned_bits m ?C (Suc n))"
      if "j < data_bits d" for j
      using bs [OF that] m1(3) that \<open>bit_set m1 ?bm ?i\<close> False O by auto
    ultimately show ?thesis
      using free_block_eq [OF L1 C1 n] same m1(1) False i by (simp add: forE_snoc)
  qed
qed

section \<open>Lookup and removal\<close>

text \<open>
  C10: In a well-formed image, \<open>fs_lookup\<close> of a name of at most 27 bytes returns what the map of
  the directory holds, and -1 for a name that is not there.
\<close>

theorem fs_lookup_reads_map:
  assumes "ufs_layout d m" and "directory d m p" and "valid_name name"
  shows "fs_lookup d m (int p) name =
           Inr (case dir_map d m (inode_addr d p) name of None \<Rightarrow> - 1 | Some n \<Rightarrow> n)"
  using assms by (rule fs_lookup_eq)

lemma dir_map_delete:
  assumes D: "directory d m p" and s: "slots d m' (inode_addr d p) = slots d m (inode_addr d p)"
    and e: "e \<in> set (slots d m (inode_addr d p))" "names_entry m name e"
    and K: "\<And>x. x \<in> set (slots d m (inode_addr d p)) \<Longrightarrow> x \<noteq> e \<Longrightarrow>
              entry_name m' x = entry_name m x \<and> entry_inum m' x = entry_inum m x"
    and "entry_inum m' e = - 1"
  shows "dir_map d m' (inode_addr d p) = (dir_map d m (inode_addr d p))(name := None)"
proof (rule ext)
  let ?P = "inode_addr d p"
  fix name' show "dir_map d m' ?P name' = ((dir_map d m ?P)(name := None)) name'"
  proof (cases "name' = name")
    case True
    have "\<not> names_entry m' name x" if x: "x \<in> set (slots d m ?P)" for x
    proof
      assume nx: "names_entry m' name x"
      then have "x \<noteq> e" using assms(6) by (auto simp: names_entry_def)
      with K [OF x] nx have "names_entry m name x" by (simp add: names_entry_def)
      with D e x have "x = e" unfolding directory_def names_entry_def by metis
      with \<open>x \<noteq> e\<close> show False by simp
    qed
    with True s show ?thesis by (simp add: dir_map_None)
  next
    case False
    then show ?thesis
      using dir_map_other [OF s K] e(2) assms(6) by (simp add: names_entry_def)
  qed
qed

lemma directory_delete:
  assumes D: "directory d m p" and K: "\<And>x. x \<in> set (slots d m (inode_addr d p)) \<Longrightarrow> x \<noteq> e \<Longrightarrow>
              entry_name m' x = entry_name m x \<and> entry_inum m' x = entry_inum m x"
    and "entry_inum m' e = - 1"
    and x: "x \<in> set (slots d m (inode_addr d p))" "entry_inum m' x \<noteq> - 1"
    and y: "y \<in> set (slots d m (inode_addr d p))" "entry_inum m' y \<noteq> - 1"
    and eq: "entry_name m' x = entry_name m' y"
  shows "x = y"
proof -
  have "x \<noteq> e" "y \<noteq> e" using x(2) y(2) assms(3) by auto
  then have "entry_inum m x \<noteq> - 1" "entry_inum m y \<noteq> - 1" "entry_name m x = entry_name m y"
    using K [OF x(1)] K [OF y(1)] x(2) y(2) eq by simp_all
  with D x(1) y(1) show ?thesis by (simp add: directory_def)
qed

text \<open>The image once the entry \<open>e\<close> and the inode \<open>c\<close> it names have been given up.\<close>

definition removed :: "disk_t \<Rightarrow> nat \<Rightarrow> int \<Rightarrow> nat \<Rightarrow> image \<Rightarrow> image" where
  "removed d p e c m =
     (let m3 = put_int (flipped m (inode_bitmap_ptr d) c) (e + 28) (- 1)
      in put_int m3 (inode_addr d p + 4) (int_at m3 (inode_addr d p + 4) - 32))"

lemma fs_unlink_run:
  assumes L: "ufs_layout d m" and D: "directory d m p" and n: "valid_name name"
    and e: "find (names_entry m name) (slots d m (inode_addr d p)) = Some e" "entry_inum m e = int c"
    and c: "inode_ok d c" "bit_set m (inode_bitmap_ptr d) c"
    and ty: "int_at m (inode_addr d c) \<noteq> UFS_DIRECTORY"
    and m1: "forE (free_block d (inode_addr d c)) [0..<DIRECT_PTRS] m = Inr m1" "chg (data_area d) m m1"
  shows "fs_unlink d m (int p) name = Inr (0, removed d p e c m1)"
proof -
  note P = layout_inode_addr [OF L directoryD(1) [OF D]] and C = layout_inode_addr(1) [OF L c(1)]
  have es: "e \<in> set (slots d m (inode_addr d p))" using find_in_set [OF e(1)] by simp
  have L1: "ufs_layout d m1" using layout_chg [OF m1(2)] L by simp
  have cn: "c < inode_bits d" using c(1) by (simp add: inode_ok_def)
  have "in_img m (e + 28) 4" "in_img m (inode_addr d p + 4) 4" "in_img m (inode_addr d c) 4"
    using in_img_sub [OF slot_range(2) [OF D es], of "e + 28" 4] in_img_sub [OF P(1), of "inode_addr d p + 4" 4]
      in_img_sub [OF C, of "inode_addr d c" 4] by simp_all
  then show ?thesis
    using get_inode_ptr_eq [OF L directoryD(3) [OF D]] directoryD(2) [OF D] get_inode_ptr_eq [OF L cn] c(2)
      dir_find_eq [OF n P(1) directoryD(4) [OF D]] e ty m1(1) in_img_chg [OF m1(2)]
      flip_bit_eq [OF layout_bitmaps(1) [OF L1] cn]
    by (simp add: fs_unlink_def img_simps d_inum_def i_type_def i_size_def entry_inum_def sizeof_dir_ent_def
        removed_def Let_def)
qed

lemma removed_facts:
  assumes L: "ufs_layout d m" and D: "directory d m p" and e: "e \<in> set (slots d m (inode_addr d p))"
    and c: "inode_ok d c" "bit_set m (inode_bitmap_ptr d) c"
  shows "chg (bitmap_area d \<union> {e + 28..<e + 32} \<union> {inode_addr d p + 4..<inode_addr d p + 8}) m (removed d p e c m)"
    and "entry_inum (removed d p e c m) e = - 1"
    and "\<forall>j < inode_bits d. bit_set (removed d p e c m) (inode_bitmap_ptr d) j =
           (bit_set m (inode_bitmap_ptr d) j \<and> j \<noteq> c)"
proof -
  let ?bm = "inode_bitmap_ptr d" and ?P = "inode_addr d p"
  note P = layout_inode_addr [OF L directoryD(1) [OF D]] and er = slot_range [OF D e]
  have cn: "c < inode_bits d" using c(1) by (simp add: inode_ok_def)
  have nn: "0 \<le> ?P" "0 \<le> e" using P(1) er(2) by (simp_all add: in_img_def)
  define m2 where "m2 = flipped m ?bm c"
  define m3 where "m3 = put_int m2 (e + 28) (- 1)"
  define m4 where "m4 = put_int m3 (?P + 4) (int_at m3 (?P + 4) - 32)"
  have r: "removed d p e c m = m4" by (simp add: removed_def m4_def m3_def m2_def Let_def)
  have c2: "chg (bitmap_area d) m m2"
    unfolding m2_def bitmap_area_def by (rule chg_flipped [OF layout_bitmaps(1) [OF L] cn])
  have c3: "chg {e + 28..<e + 32} m2 m3"
    unfolding m3_def by (rule chg_mono [OF chg_put_int]) (use nn in auto)
  have c4: "chg {?P + 4..<?P + 8} m3 m4"
    unfolding m4_def by (rule chg_mono [OF chg_put_int]) (use nn in auto)
  show "chg (bitmap_area d \<union> {e + 28..<e + 32} \<union> {?P + 4..<?P + 8}) m (removed d p e c m)"
    unfolding r by (rule chg_trans [OF chg_trans [OF c2 c3] c4])
  have "int_at m4 (e + 28) = int_at m3 (e + 28)"
    by (rule int_at_chg [OF c4]) (use nn P(3) er(1) in auto)
  then show "entry_inum (removed d p e c m) e = - 1"
    by (simp add: r entry_inum_def m3_def int_at_put_int_same)
  have "bitmap_area d \<inter> ({e + 28..<e + 32} \<union> {?P + 4..<?P + 8}) = {}"
    using layout_areas [OF L] P(2,3) er(1) by auto
  moreover have "bitmap_in m2 ?bm (inode_bits d)"
    using layout_bitmaps(1) [OF L] by (simp add: m2_def bitmap_in_def)
  ultimately have "bit_set m4 ?bm j = bit_set m2 ?bm j" if "j < inode_bits d" for j
    using bit_set_chg [OF chg_trans [OF c3 c4]] that by (simp add: bitmap_area_def)
  then show "\<forall>j < inode_bits d. bit_set (removed d p e c m) ?bm j = (bit_set m ?bm j \<and> j \<noteq> c)"
    using bit_set_flipped [OF layout_bitmaps(1) [OF L] cn] c(2) by (auto simp: r m2_def)
qed

lemma dir_map_cong:
  assumes "slots d m' P = slots d m P"
    and "\<And>x. x \<in> set (slots d m P) \<Longrightarrow> entry_name m' x = entry_name m x \<and> entry_inum m' x = entry_inum m x"
  shows "dir_map d m' P = dir_map d m P"
proof
  fix name
  have f: "find (names_entry m' name) (slots d m P) = find (names_entry m name) (slots d m P)"
    using assms(2) by (intro find_cong) (auto simp: names_entry_def)
  then show "dir_map d m' P name = dir_map d m P name"
    using assms by (cases "find (names_entry m name) (slots d m P)") (auto simp: dir_map_def dest: find_in_set)
qed

lemma directory_kept:
  assumes L: "ufs_layout d m" and D: "directory d m p" and c: "chg R m m'"
    and R: "R \<subseteq> {..<data_region_ptr d} - {inode_addr d p + 8..<inode_addr d p + 128} - bitmap_area d"
  shows "directory d m' p" and "slots d m' (inode_addr d p) = slots d m (inode_addr d p)"
    and "\<And>x. x \<in> set (slots d m (inode_addr d p)) \<Longrightarrow>
           entry_name m' x = entry_name m x \<and> entry_inum m' x = entry_inum m x"
proof -
  let ?P = "inode_addr d p"
  note P = layout_inode_addr [OF L directoryD(1) [OF D]]
  have "{?P + 8..<?P + 128} \<inter> R = {}" "0 \<le> ?P" using R P(1) by (auto simp: in_img_def)
  then have b: "dir_blocks m' ?P = dir_blocks m ?P" by (intro dir_blocks_chg [OF c])
  then show "slots d m' ?P = slots d m ?P" by (simp add: slots_def)
  show K: "entry_name m' x = entry_name m x \<and> entry_inum m' x = entry_inum m x" if "x \<in> set (slots d m ?P)" for x
  proof -
    have "{x..<x + 32} \<inter> R = {}" "0 \<le> x"
      using R slot_range [OF D that] by (auto simp: in_img_def)
    then show ?thesis using entry_chg [OF c] by simp
  qed
  have "bit_set m' (inode_bitmap_ptr d) p"
    using bit_set_chg [OF c layout_bitmaps(1) [OF L], of p] directoryD(2,3) [OF D] R
    by (auto simp: bitmap_area_def)
  moreover have "img_len m' = img_len m" using c by (simp add: chg_def)
  moreover have "x = y" if "x \<in> set (slots d m ?P)" "y \<in> set (slots d m ?P)" "entry_inum m' x \<noteq> - 1"
    "entry_inum m' y \<noteq> - 1" "entry_name m' x = entry_name m' y" for x y
    using that K [OF that(1)] K [OF that(2)] D by (simp add: directory_def)
  ultimately show "directory d m' p" using b by (intro directory_chg [OF D]) auto
qed


end
