(* ===== verification/Mkfs.thy ===== *)
theory Mkfs
  imports Mfs Ufs_Remove
begin

text \<open>
  The image that \<open>mkfs\<close> writes is well formed and holds an empty root directory, so that the
  server starts from a state in which the operations behave as stated.
\<close>

section \<open>Reading a freshly made image\<close>

lemma get_bytes_inside:
  assumes "0 \<le> a" and "a \<le> b" and "nat (b - a) + n \<le> length bs"
  shows "get_bytes (put_bytes m a bs) b n = get_at (nat (b - a)) n bs"
proof (rule nth_equalityI)
  show "length (get_bytes (put_bytes m a bs) b n) = length (get_at (nat (b - a)) n bs)"
    using assms by (simp add: get_at_def)
  fix i assume "i < length (get_bytes (put_bytes m a bs) b n)"
  then have i: "i < n" by simp
  have "nat b + i - nat a = nat (b - a) + i" using assms by (simp add: nat_diff_distrib)
  with i assms show "get_bytes (put_bytes m a bs) b n ! i = get_at (nat (b - a)) n bs ! i"
    by (auto simp: get_bytes_def put_bytes_def get_at_def)
qed

lemma int_at_inside:
  "0 \<le> a \<Longrightarrow> a \<le> b \<Longrightarrow> nat (b - a) + 4 \<le> length bs \<Longrightarrow>
   int_at (put_bytes m a bs) b = signed 32 (get_le (nat (b - a)) 4 bs)"
  by (simp add: int_at_def get_bytes_inside)

lemma get_le_field:
  "length xs = k \<Longrightarrow> get_le k 4 (xs @ le_bytes 4 (wrap 32 v) @ ys) = wrap 32 v"
  using wrap32_bound [of v] by (simp add: get_at_def)

text \<open>The \<open>i\<close>-th integer of a structure of integers.\<close>

lemma get_le_ints:
  "i < length vs \<Longrightarrow> get_le (4 * i) 4 (concat (map (\<lambda>v. le_bytes 4 (wrap 32 v)) vs)) = wrap 32 (vs ! i)"
proof (induction vs arbitrary: i)
  case Nil
  then show ?case by simp
next
  case (Cons v vs)
  show ?case
  proof (cases i)
    case 0
    then show ?thesis using get_le_field [of "[]" 0 v] by simp
  next
    case (Suc k)
    with Cons show ?thesis by (simp add: get_at_def)
  qed
qed

lemma length_ints: "length (concat (map (\<lambda>v. le_bytes 4 (wrap 32 v)) vs)) = 4 * length vs"
  by (induction vs) auto

text \<open>Writing zeros over the blocks from 1 on only sets the length of the file.\<close>

lemma upto_snoc: "[1..int (Suc n)] = [1..int n] @ [int (Suc n)]"
  using upto_rec2 [of 1 "int (Suc n)"] by simp

lemma put_zeros:
  assumes "4096 \<le> k" and "\<forall>x \<ge> 4096. bytes f x = 0"
  shows "put_bytes f (int k) empty_buffer = f"
proof -
  have "(\<lambda>b. if k \<le> b \<and> b < k + 4096 then replicate 4096 0 ! (b - k) else bytes f b) = bytes f"
    using assms by (intro ext) auto
  then show ?thesis unfolding put_bytes_def empty_buffer_def nat_int length_replicate by simp
qed

lemma pwrite_zeros:
  assumes "4096 \<le> k" and "\<forall>x \<ge> 4096. bytes f x = 0" and "img_len f \<le> k + 4096"
  shows "pwrite empty_buffer (int k) f = Inr (f\<lparr>img_len := k + 4096\<rparr>)"
proof -
  have "max (img_len f) (nat (int k) + length empty_buffer) = k + 4096"
    using assms(3) by (simp add: empty_buffer_def)
  then show ?thesis
    using put_zeros [OF assms(1), of "f\<lparr>img_len := k + 4096\<rparr>"] assms(2) by (simp add: pwrite_def)
qed

lemma zero_blocks:
  assumes "(int n + 1) * 4096 < 2 ^ 31" and "img_len f \<le> 4096" and "\<forall>x \<ge> 4096. bytes f x = 0"
  shows "forE (\<lambda>i. pwrite empty_buffer (w32 (i * UFS_BLOCK_SIZE))) [1..int n] f =
           Inr (f\<lparr>img_len := if n = 0 then img_len f else (n + 1) * 4096\<rparr>)"
  using assms(1)
proof (induction n)
  case 0
  then show ?case by simp
next
  case (Suc n)
  let ?f = "f\<lparr>img_len := if n = 0 then img_len f else (n + 1) * 4096\<rparr>"
  have w: "w32 (int (Suc n) * UFS_BLOCK_SIZE) = int (Suc n * 4096)"
    using Suc.prems by (simp add: UFS_BLOCK_SIZE_def)
  have "pwrite empty_buffer (int (Suc n * 4096)) ?f = Inr (?f\<lparr>img_len := Suc n * 4096 + 4096\<rparr>)"
    using assms(2,3) by (intro pwrite_zeros) auto
  then show ?case
    using Suc unfolding upto_snoc forE_snoc w [symmetric] by (simp add: add.commute)
qed

section \<open>The layout that mkfs chooses\<close>

lemma sdiv_pos: "0 \<le> n \<Longrightarrow> 0 < k \<Longrightarrow> n sdiv k = n div (k :: int)"
  by (cases "n = 0") (simp_all add: signed_divide_int_def)

lemma smod_pos: "0 \<le> n \<Longrightarrow> 0 < k \<Longrightarrow> n smod k = n mod (k :: int)"
  by (cases "n = 0") (simp_all add: signed_modulo_int_def)

lemma div_up_bounds:
  assumes "0 < n" and "0 < k"
  shows "n \<le> div_up n k * k" and "div_up n k * k < n + k" and "1 \<le> div_up n k"
proof -
  have d: "n = n div k * k + n mod k" "0 \<le> n mod k" "n mod k < k" using assms by simp_all
  have e: "div_up n k = n div k + (if n mod k \<noteq> 0 then 1 else 0)"
    using assms by (simp add: div_up_def sdiv_pos smod_pos)
  have m: "div_up n k * k = n div k * k + (if n mod k \<noteq> 0 then k else 0)"
    unfolding e by (simp add: distrib_right)
  obtain q r where q: "n div k * k = q" "n mod k = r" by blast
  show "n \<le> div_up n k * k" "div_up n k * k < n + k"
    using d assms(2) unfolding m q by (cases "r = 0"; simp)+
  show "1 \<le> div_up n k"
  proof (cases "n mod k = 0")
    case True
    with d(1) assms have "0 < n div k * k" by simp
    then have "0 < n div k" using assms(2) by (simp add: zero_less_mult_iff)
    then show ?thesis using True e by simp
  next
    case False
    have "0 \<le> n div k" using assms by (simp add: pos_imp_zdiv_nonneg_iff)
    with False e show ?thesis by simp
  qed
qed

text \<open>Sizes that \<open>mkfs\<close> can handle without overflow: up to a gigabyte of data.\<close>

definition mkfs_sizes :: "int \<Rightarrow> int \<Rightarrow> bool" where
  "mkfs_sizes ni nd \<longleftrightarrow> 32 \<le> ni \<and> ni \<le> 2 ^ 20 \<and> 32 \<le> nd \<and> nd \<le> 2 ^ 18"

lemma mkfs_geometry:
  assumes "mkfs_sizes ni nd" and "s = mkfs_super ni nd"
  shows "inode_bitmap_addr s = 1" and "1 \<le> s_inode_bitmap_len s" and "data_bitmap_addr s = 1 + s_inode_bitmap_len s"
    and "1 \<le> s_data_bitmap_len s" and "inode_region_addr s = data_bitmap_addr s + s_data_bitmap_len s"
    and "1 \<le> s_inode_region_len s" and "data_region_addr s = inode_region_addr s + s_inode_region_len s"
    and "s_data_region_len s = nd" and "num_inodes s = ni" and "num_data s = nd"
    and "ni \<le> 32768 * s_inode_bitmap_len s" and "128 * ni \<le> 4096 * s_inode_region_len s"
    and "s_inode_bitmap_len s \<le> 40" and "s_data_bitmap_len s \<le> 40" and "data_region_addr s \<le> 40000"
    and "total_blocks s = data_region_addr s + nd"
proof -
  have n: "32 \<le> ni" "ni \<le> 1048576" "32 \<le> nd" "nd \<le> 262144"
    using assms(1) by (simp_all add: mkfs_sizes_def)
  have w: "w32 (ni * 128) = ni * 128" using n by (intro w32_id) auto
  note b = div_up_bounds [of ni 32768] div_up_bounds [of nd 32768] div_up_bounds [of "ni * 128" 4096]
  note defs = mkfs_super_def Let_def bits_per_block_def UFS_BLOCK_SIZE_def sizeof_inode_def total_blocks_def
  show "inode_bitmap_addr s = 1" "1 \<le> s_inode_bitmap_len s" "data_bitmap_addr s = 1 + s_inode_bitmap_len s"
    "1 \<le> s_data_bitmap_len s" "inode_region_addr s = data_bitmap_addr s + s_data_bitmap_len s"
    "1 \<le> s_inode_region_len s" "data_region_addr s = inode_region_addr s + s_inode_region_len s"
    "s_data_region_len s = nd" "num_inodes s = ni" "num_data s = nd"
    "ni \<le> 32768 * s_inode_bitmap_len s" "128 * ni \<le> 4096 * s_inode_region_len s"
    "s_inode_bitmap_len s \<le> 40" "s_data_bitmap_len s \<le> 40" "data_region_addr s \<le> 40000"
    "total_blocks s = data_region_addr s + nd"
    unfolding assms(2) using n w b by (simp_all add: defs)
qed

text \<open>The file after the last write.\<close>

definition mkfs_image :: "super_t \<Rightarrow> byte list \<Rightarrow> byte list \<Rightarrow> image" where
  "mkfs_image s itable parent =
     put_bytes (put_bytes (put_bytes (put_bytes
       (put_bytes \<lparr>bytes = (\<lambda>_. 0), img_len = nat (4096 * total_blocks s)\<rparr> 0 (super_bytes s))
       4096 first_bitmap)
       (4096 * data_bitmap_addr s) first_bitmap)
       (4096 * inode_region_addr s) (root_inode_block s itable))
       (4096 * data_region_addr s) (root_dir_block parent)"

lemma length_super_bytes [simp]: "length (super_bytes s) = 40"
  unfolding super_bytes_def length_ints by simp

lemma length_first_bitmap [simp]: "length first_bitmap = 4096"
  by (simp add: first_bitmap_def)

lemma length_root_inode_block [simp]: "length itable = 4096 \<Longrightarrow> length (root_inode_block s itable) = 4096"
  unfolding root_inode_block_def by (subst length_put_at) (simp_all only: length_ints, simp_all add: DIRECT_PTRS_def)

lemma length_fold_put: "(\<forall>i\<in>set is. 32 * i + 32 \<le> length b) \<Longrightarrow>
  length (fold (\<lambda>i. put_le (32 * i + 28) 4 v) is b) = length b"
  by (induction "is" arbitrary: b) auto

lemma length_root_dir_block [simp]: "length parent = 4096 \<Longrightarrow> length (root_dir_block parent) = 4096"
  unfolding root_dir_block_def by (subst length_fold_put) (auto simp: dot_def dotdot_def)

lemma pwrite_inside:
  "0 \<le> a \<Longrightarrow> nat a + length bs \<le> img_len f \<Longrightarrow> pwrite bs a f = Inr (put_bytes f a bs)"
  by (simp add: pwrite_def max_def)

lemma mkfs_eq:
  assumes S: "mkfs_sizes ni nd" and len: "length itable = 4096" "length parent = 4096"
  shows "mkfs itable parent ni nd = Inr (mkfs_image (mkfs_super ni nd) itable parent)"
proof -
  define s where "s = mkfs_super ni nd"
  note g = mkfs_geometry [OF S s_def]
  have nd: "32 \<le> nd" "nd \<le> 262144" "32 \<le> ni" using S by (simp_all add: mkfs_sizes_def)
  define t where "t = nat (total_blocks s - 1)"
  have t: "total_blocks s - 1 = int t" "(int t + 1) * 4096 < 2 ^ 31" "t \<noteq> 0" "(t + 1) * 4096 = nat (4096 * total_blocks s)"
    using g nd by (auto simp: t_def)
  define f0 where "f0 = put_bytes \<lparr>bytes = (\<lambda>_. 0), img_len = 40\<rparr> 0 (super_bytes s)"
  have f0: "pwrite (super_bytes s) 0 \<lparr>bytes = (\<lambda>_. 0), img_len = 0\<rparr> = Inr f0"
    by (simp add: pwrite_def f0_def)
  have z: "forE (\<lambda>i. pwrite empty_buffer (w32 (i * UFS_BLOCK_SIZE))) [1..total_blocks s - 1] f0 =
      Inr (f0\<lparr>img_len := nat (4096 * total_blocks s)\<rparr>)"
    unfolding t(1) using t(2,3,4) by (subst zero_blocks) (auto simp: f0_def put_bytes_def)
  have f1: "f0\<lparr>img_len := nat (4096 * total_blocks s)\<rparr> =
      put_bytes \<lparr>bytes = (\<lambda>_. 0), img_len = nat (4096 * total_blocks s)\<rparr> 0 (super_bytes s)"
    by (simp add: f0_def put_bytes_def cong: if_cong)
  have w: "w32 (inode_bitmap_addr s * UFS_BLOCK_SIZE) = 4096" "w32 (data_bitmap_addr s * UFS_BLOCK_SIZE) = 4096 * data_bitmap_addr s"
    "w32 (inode_region_addr s * UFS_BLOCK_SIZE) = 4096 * inode_region_addr s"
    "w32 (data_region_addr s * UFS_BLOCK_SIZE) = 4096 * data_region_addr s"
    using g by (simp_all add: UFS_BLOCK_SIZE_def)
  have le: "nat (4096 * a) + 4096 \<le> nat (4096 * total_blocks s)" "0 \<le> 4096 * a"
    if "a \<in> {1, data_bitmap_addr s, inode_region_addr s, data_region_addr s}" for a
    using that g nd by auto
  show ?thesis
    unfolding mkfs_def s_def [symmetric] Let_def
    using nd len f0 z w le(1) [of 1] le [of "data_bitmap_addr s"] le [of "inode_region_addr s"] le [of "data_region_addr s"]
    by (simp add: f1 pwrite_inside mkfs_image_def)
qed

section \<open>What the operations find in the image\<close>

lemma le_nat_zero_bytes [simp]: "le_nat (replicate n 0) = 0"
  by (induction n) simp_all

lemma int_at_zero: "int_at \<lparr>bytes = (\<lambda>_. 0), img_len = n\<rparr> a = 0"
  by (simp add: int_at_def get_bytes_def signed_def map_replicate_const)

lemma get_le_first_bitmap: "w < 1024 \<Longrightarrow> get_le (4 * w) 4 first_bitmap = (if w = 0 then 2 ^ 31 else 0)"
proof -
  assume w: "w < 1024"
  show ?thesis
  proof (cases w)
    case 0
    then show ?thesis by (simp add: first_bitmap_def get_at_def)
  next
    case (Suc k)
    then have "get_at (4 * w) 4 first_bitmap = replicate 4 0"
      using w by (simp add: first_bitmap_def get_at_def min_def)
    then show ?thesis using Suc by (simp)
  qed
qed

text \<open>A bitmap of which only the first bit is set.\<close>

lemma bit_set_first:
  assumes "\<And>w. w < n div 32 \<Longrightarrow> int_at m (bm + 4 * int w) = (if w = 0 then - (2 ^ 31) else 0)"
    and "32 dvd n" and "j < n"
  shows "bit_set m bm j \<longleftrightarrow> j = 0"
proof -
  have "j div 32 < n div 32" using assms(2,3) by (auto simp: less_mult_imp_div_less mult.commute)
  note v = assms(1) [OF this]
  show ?thesis
  proof (cases "j div 32 = 0")
    case True
    then have j: "j < 32" by simp
    have "bit (word_of_int (- (2 ^ 31)) :: u32) k \<longleftrightarrow> k = 31" if "k < 32" for k
      unfolding bit_word_of_int_iff bit_minus_exp_iff using that by auto
    then show ?thesis
      using v True j unfolding bit_set_def by (auto simp del: power_numeral)
  next
    case False
    then show ?thesis using v by (auto simp: bit_set_def)
  qed
qed

lemma bitmap_words:
  assumes "\<And>a. base \<le> a \<Longrightarrow> int_at f a = 0" and "0 \<le> base"
  shows "int_at (put_bytes f base first_bitmap) (base + 4 * int w) = (if w = 0 then - (2 ^ 31) else 0)"
proof (cases "w < 1024")
  case True
  then have "int_at (put_bytes f base first_bitmap) (base + 4 * int w) = signed 32 (get_le (4 * w) 4 first_bitmap)"
    using assms(2) int_at_inside [of base "base + 4 * int w" first_bitmap f] by (simp add: nat_mult_distrib)
  with True show ?thesis by (simp only: get_le_first_bitmap) (simp add: signed_def)
next
  case False
  then have "int_at (put_bytes f base first_bitmap) (base + 4 * int w) = int_at f (base + 4 * int w)"
    using assms(2) by (intro int_at_put_bytes_other) auto
  with False assms show ?thesis by simp
qed

text \<open>The entries of the root directory.\<close>

lemma fold_put_inum:
  assumes "\<forall>i\<in>set is. 32 * i + 32 \<le> length b" and "32 * j + 32 \<le> length b"
  shows "get_le (32 * j + 28) 4 (fold (\<lambda>i. put_le (32 * i + 28) 4 v) is b) =
           (if j \<in> set is then v mod 256 ^ 4 else get_le (32 * j + 28) 4 b)"
  using assms
proof (induction "is" arbitrary: b)
  case Nil
  then show ?case by simp
next
  case (Cons i "is")
  have "get_le (32 * j + 28) 4 (put_le (32 * i + 28) 4 v b) = (if j = i then v mod 256 ^ 4 else get_le (32 * j + 28) 4 b)"
  proof (cases "j = i")
    case True
    with Cons.prems get_put_le_same [of "32 * i + 28" 4 b v] show ?thesis by simp
  next
    case False
    then have "32 * j + 28 + 4 \<le> 32 * i + 28 \<or> 32 * i + 28 + 4 \<le> 32 * j + 28" by linarith
    with False Cons.prems get_put_at_other [of "32 * i + 28" "le_bytes 4 v" b "32 * j + 28" 4] show ?thesis by simp
  qed
  moreover have "get_le (32 * j + 28) 4 (fold (\<lambda>i. put_le (32 * i + 28) 4 v) is (put_le (32 * i + 28) 4 v b)) =
      (if j \<in> set is then v mod 256 ^ 4 else get_le (32 * j + 28) 4 (put_le (32 * i + 28) 4 v b))"
    using Cons.prems by (intro Cons.IH) auto
  ultimately show ?case unfolding fold_Cons comp_def by (simp only: set_simps insert_iff if_cancel split: if_split) blast
qed

lemma fold_put_name:
  assumes "\<forall>i\<in>set is. 32 * i + 32 \<le> length b" and "32 * j + 32 \<le> length b"
  shows "get_at (32 * j) 28 (fold (\<lambda>i. put_le (32 * i + 28) 4 v) is b) = get_at (32 * j) 28 b"
  using assms
proof (induction "is" arbitrary: b)
  case Nil
  then show ?case by simp
next
  case (Cons i "is")
  have "32 * j + 28 \<le> 32 * i + 28 \<or> 32 * i + 28 + 4 \<le> 32 * j" by (cases "j \<le> i") simp_all
  with Cons.prems get_put_at_other [of "32 * i + 28" "le_bytes 4 v" b "32 * j" 28]
  have "get_at (32 * j) 28 (put_le (32 * i + 28) 4 v b) = get_at (32 * j) 28 b" by simp
  with Cons show ?case by simp
qed

lemma takeWhile_put_at:
  assumes "length parent = 4096" and "off + 28 \<le> 4096" and "valid_name nm"
  shows "takeWhile (\<lambda>c. c \<noteq> 0) (get_at off 28 (put_at off (nm @ [0]) parent)) = nm"
proof -
  have "get_at off 28 (put_at off (nm @ [0]) parent) = nm @ 0 # take (27 - length nm) (drop (off + length nm + 1) parent)"
    using assms by (simp add: get_at_def put_at_def valid_name_def take_Cons' Suc_diff_le [symmetric])
  moreover have "\<forall>c\<in>set nm. c \<noteq> 0" using assms(3) by (auto simp: valid_name_def)
  ultimately show ?thesis by (simp add: takeWhile_append)
qed

lemma valid_dot: "valid_name dot"
  by (simp add: valid_name_def dot_def)

lemma root_dir_entries:
  assumes len: "length parent = 4096" and j: "j < 128"
  shows "signed 32 (get_le (32 * j + 28) 4 (root_dir_block parent)) = (if j < 2 then 0 else - 1)"
    and "takeWhile (\<lambda>c. c \<noteq> 0) (get_at (32 * j) 28 (root_dir_block parent)) =
      (if j = 0 then dot else if j = 1 then dotdot else takeWhile (\<lambda>c. c \<noteq> 0) (get_at (32 * j) 28 parent))"
proof -
  define b1 where "b1 = put_at 0 (dot @ [0]) parent"
  define b2 where "b2 = put_le 28 4 0 b1"
  define b3 where "b3 = put_at 32 (dotdot @ [0]) b2"
  define b4 where "b4 = put_le 60 4 0 b3"
  have l: "length b1 = 4096" "length b2 = 4096" "length b3 = 4096" "length b4 = 4096"
    using len by (simp_all add: b1_def b2_def b3_def b4_def dot_def dotdot_def)
  have r: "root_dir_block parent = fold (\<lambda>i. put_le (32 * i + 28) 4 (wrap 32 (- 1))) [2..<128] b4"
    by (simp add: root_dir_block_def b1_def b2_def b3_def b4_def)
  have "get_le (32 * j + 28) 4 b4 = 0" if "j < 2"
  proof (cases "j = 0")
    case True
    have "get_le 28 4 b4 = get_le 28 4 b3" "get_le 28 4 b3 = get_le 28 4 b2"
      unfolding b4_def b3_def using l by (simp_all add: get_put_at_other dotdot_def)
    then show ?thesis using True l(1) get_put_le_same [of 28 4 b1 0] by (simp add: b2_def)
  next
    case False
    with that show ?thesis using l(3) get_put_le_same [of 60 4 b3 0] by (simp add: b4_def less_2_cases_iff)
  qed
  moreover have "get_le (32 * j + 28) 4 (root_dir_block parent) =
      (if j \<in> set [2..<128] then wrap 32 (- 1) mod 256 ^ 4 else get_le (32 * j + 28) 4 b4)"
    unfolding r using l(4) j by (intro fold_put_inum) (auto simp only: set_upt atLeastLessThan_iff)
  moreover have "j \<in> set [2..<128] \<longleftrightarrow> \<not> j < 2" using j by (simp only: set_upt atLeastLessThan_iff) auto
  ultimately have "get_le (32 * j + 28) 4 (root_dir_block parent) = (if j < 2 then 0 else wrap 32 (- 1))"
    using wrap32_bound [of "- 1"] j by (cases "j < 2") simp_all
  moreover have "signed 32 (wrap 32 (- 1)) = - 1" by (rule signed_wrap) simp_all
  moreover have "signed 32 0 = 0" by (simp add: signed_def)
  ultimately show "signed 32 (get_le (32 * j + 28) 4 (root_dir_block parent)) = (if j < 2 then 0 else - 1)"
    by simp
  have o4: "get_at (32 * j) 28 b4 = get_at (32 * j) 28 b3"
    unfolding b4_def using l j by (intro get_put_at_other) (cases "j < 2"; auto simp: less_2_cases_iff)+
  have o3: "get_at (32 * j) 28 b3 = get_at (32 * j) 28 b2" if "j \<noteq> 1"
    unfolding b3_def using l j that by (intro get_put_at_other) (cases "j = 0"; auto simp: dotdot_def)+
  have o2: "get_at (32 * j) 28 b2 = get_at (32 * j) 28 b1"
    unfolding b2_def using l j by (intro get_put_at_other) (cases "j = 0"; auto)+
  have o1: "get_at (32 * j) 28 b1 = get_at (32 * j) 28 parent" if "j \<noteq> 0"
    unfolding b1_def using len j that by (intro get_put_at_other) (auto simp: dot_def)
  have "takeWhile (\<lambda>c. c \<noteq> 0) (get_at (32 * j) 28 b4) =
      (if j = 0 then dot else if j = 1 then dotdot else takeWhile (\<lambda>c. c \<noteq> 0) (get_at (32 * j) 28 parent))"
    using takeWhile_put_at [OF len, of 0 dot] takeWhile_put_at [OF l(2), of 32 dotdot] valid_dot valid_dotdot o1 o2 o3 o4
    by (auto simp: b1_def [symmetric] b3_def [symmetric])
  then show "takeWhile (\<lambda>c. c \<noteq> 0) (get_at (32 * j) 28 (root_dir_block parent)) =
      (if j = 0 then dot else if j = 1 then dotdot else takeWhile (\<lambda>c. c \<noteq> 0) (get_at (32 * j) 28 parent))"
    unfolding r using l(4) j by (subst fold_put_name) (auto simp only: set_upt atLeastLessThan_iff)
qed

section \<open>The image is well formed\<close>

definition disk_of :: "super_t \<Rightarrow> disk_t" where
  "disk_of s =
     \<lparr> super_ptr = 0, inode_bitmap_ptr = 4096, inode_bitmap_len = s_inode_bitmap_len s,
       data_bitmap_ptr = 4096 * data_bitmap_addr s, data_bitmap_len = s_data_bitmap_len s,
       inode_region_ptr = 4096 * inode_region_addr s, inode_region_len = s_inode_region_len s,
       data_region_ptr = 4096 * data_region_addr s, data_region_len = s_data_region_len s,
       disk_len = total_blocks s \<rparr>"

lemma get_le_put_ints:
  assumes "i < length vs" and "4 * length vs \<le> length b"
  shows "get_le (4 * i) 4 (put_at 0 (concat (map (\<lambda>v. le_bytes 4 (wrap 32 v)) vs)) b) = wrap 32 (vs ! i)"
proof -
  let ?c = "concat (map (\<lambda>v. le_bytes 4 (wrap 32 v)) vs)"
  have "get_at (4 * i) 4 (put_at 0 ?c b) = get_at (4 * i) 4 ?c"
    using assms length_ints [of vs] by (simp add: get_at_def put_at_def)
  then show ?thesis using get_le_ints [OF assms(1)] by simp
qed

lemma root_inode_int_at:
  assumes "length itable = 4096" and "k < 32" and "0 \<le> a" and "0 \<le> data_region_addr s" "data_region_addr s < 2 ^ 31"
  shows "int_at (put_bytes f a (root_inode_block s itable)) (a + 4 * int k) =
     (if k = 0 then 0 else if k = 1 then 64 else if k = 2 then data_region_addr s else - 1)"
proof -
  let ?vs = "UFS_DIRECTORY # 2 * sizeof_dir_ent # data_region_addr s # replicate (DIRECT_PTRS - 1) (- 1)"
  have n: "length ?vs = 32" by (simp add: DIRECT_PTRS_def)
  have "int_at (put_bytes f a (root_inode_block s itable)) (a + 4 * int k) = w32 (?vs ! k)"
    using int_at_inside [of a "a + 4 * int k" "root_inode_block s itable" f] assms(1-3)
      get_le_put_ints [of k ?vs itable] n
    unfolding root_inode_block_def [symmetric] by (simp add: w32_def nat_mult_distrib)
  moreover have "?vs ! k = (if k = 0 then 0 else if k = 1 then 64 else if k = 2 then data_region_addr s else - 1)"
    using assms(2) by (auto simp: nth_Cons' UFS_DIRECTORY_def sizeof_dir_ent_def DIRECT_PTRS_def)
  ultimately show ?thesis using assms(4,5) by simp
qed

lemma super_int_at:
  assumes "i < 10"
  shows "int_at (put_bytes f 0 (super_bytes s)) (4 * int i) =
     w32 ([inode_bitmap_addr s, s_inode_bitmap_len s, data_bitmap_addr s, s_data_bitmap_len s,
        inode_region_addr s, s_inode_region_len s, data_region_addr s, s_data_region_len s,
        num_inodes s, num_data s] ! i)"
proof -
  have "get_le (4 * i) 4 (super_bytes s) = wrap 32 ([inode_bitmap_addr s, s_inode_bitmap_len s, data_bitmap_addr s,
      s_data_bitmap_len s, inode_region_addr s, s_inode_region_len s, data_region_addr s, s_data_region_len s,
      num_inodes s, num_data s] ! i)"
    unfolding super_bytes_def using assms by (intro get_le_ints) simp
  then show ?thesis
    using int_at_inside [of 0 "4 * int i" "super_bytes s" f] assms by (simp add: w32_def nat_mult_distrib)
qed

lemma nth_in:
  assumes "i < 10" and "length xs = 10" and "\<forall>x\<in>set xs. 0 \<le> x \<and> x < 2147483648"
  shows "w32 (xs ! i) = xs ! i"
proof -
  have "xs ! i \<in> set xs" using assms(1,2) by simp
  then have "0 \<le> xs ! i" "xs ! i < 2147483648" using assms(3) by blast+
  then show ?thesis by (intro w32_id) simp_all
qed

lemma mkfs_image_int_at:
  assumes S: "mkfs_sizes ni nd" "s = mkfs_super ni nd" and len: "length itable = 4096" "length parent = 4096"
  defines "m \<equiv> mkfs_image s itable parent"
  shows "i < 10 \<Longrightarrow> int_at m (4 * int i) = [1, s_inode_bitmap_len s, data_bitmap_addr s, s_data_bitmap_len s,
           inode_region_addr s, s_inode_region_len s, data_region_addr s, nd, ni, nd] ! i"
    and "w < nat (1024 * s_inode_bitmap_len s) \<Longrightarrow> int_at m (4096 + 4 * int w) = (if w = 0 then - (2 ^ 31) else 0)"
    and "w < nat (1024 * s_data_bitmap_len s) \<Longrightarrow>
           int_at m (4096 * data_bitmap_addr s + 4 * int w) = (if w = 0 then - (2 ^ 31) else 0)"
    and "k < 32 \<Longrightarrow> int_at m (4096 * inode_region_addr s + 4 * int k) =
           (if k = 0 then 0 else if k = 1 then 64 else if k = 2 then data_region_addr s else - 1)"
    and "off + n \<le> 4096 \<Longrightarrow> get_bytes m (4096 * data_region_addr s + int off) n = get_at off n (root_dir_block parent)"
proof -
  note g = mkfs_geometry [OF S]
  have nd: "32 \<le> nd" "nd \<le> 262144" "32 \<le> ni" "ni \<le> 1048576" using S by (simp_all add: mkfs_sizes_def)
  define f0 where "f0 = \<lparr>bytes = (\<lambda>_. 0), img_len = nat (4096 * total_blocks s)\<rparr>"
  define f1 where "f1 = put_bytes f0 0 (super_bytes s)"
  define f2 where "f2 = put_bytes f1 4096 first_bitmap"
  define f3 where "f3 = put_bytes f2 (4096 * data_bitmap_addr s) first_bitmap"
  define f4 where "f4 = put_bytes f3 (4096 * inode_region_addr s) (root_inode_block s itable)"
  have m: "m = put_bytes f4 (4096 * data_region_addr s) (root_dir_block parent)"
    by (simp add: m_def mkfs_image_def f0_def f1_def f2_def f3_def f4_def)
  have r4: "int_at m a = int_at f4 a" if "0 \<le> a" "a + 4 \<le> 4096 * data_region_addr s" for a
    unfolding m using that g len by (intro int_at_put_bytes_other) auto
  have r3: "int_at f4 a = int_at f3 a" if "0 \<le> a" "a + 4 \<le> 4096 * inode_region_addr s" for a
    unfolding f4_def using that g len by (intro int_at_put_bytes_other) auto
  have r2: "int_at f3 a = int_at f2 a" if "0 \<le> a" "a + 4 \<le> 4096 * data_bitmap_addr s" for a
    unfolding f3_def using that g by (intro int_at_put_bytes_other) auto
  have z1: "int_at f1 a = 0" if "4096 \<le> a" for a
    unfolding f1_def using that int_at_zero by (subst int_at_put_bytes_other) (auto simp: f0_def)
  have z2: "int_at f2 a = 0" if "4096 * data_bitmap_addr s \<le> a" for a
    unfolding f2_def using that g z1 by (subst int_at_put_bytes_other) auto
  show "int_at m (4096 + 4 * int w) = (if w = 0 then - (2 ^ 31) else 0)" if "w < nat (1024 * s_inode_bitmap_len s)"
  proof -
    have "4096 + 4 * int w + 4 \<le> 4096 * data_bitmap_addr s" using that g by linarith
    then have "int_at m (4096 + 4 * int w) = int_at f2 (4096 + 4 * int w)" using r4 r3 r2 g by simp
    then show ?thesis using bitmap_words [of 4096 f1 w] z1 by (simp add: f2_def)
  qed
  show "int_at m (4096 * data_bitmap_addr s + 4 * int w) = (if w = 0 then - (2 ^ 31) else 0)"
    if "w < nat (1024 * s_data_bitmap_len s)"
  proof -
    have "4096 * data_bitmap_addr s + 4 * int w + 4 \<le> 4096 * inode_region_addr s" using that g by linarith
    then have "int_at m (4096 * data_bitmap_addr s + 4 * int w) = int_at f3 (4096 * data_bitmap_addr s + 4 * int w)"
      using r4 r3 g by simp
    then show ?thesis using bitmap_words [of "4096 * data_bitmap_addr s" f2 w] z2 g by (simp add: f3_def)
  qed
  show "get_bytes m (4096 * data_region_addr s + int off) n = get_at off n (root_dir_block parent)" if "off + n \<le> 4096"
    unfolding m using that g len by (subst get_bytes_inside) auto
  show "int_at m (4096 * inode_region_addr s + 4 * int k) =
      (if k = 0 then 0 else if k = 1 then 64 else if k = 2 then data_region_addr s else - 1)" if "k < 32"
  proof -
    have "int_at m (4096 * inode_region_addr s + 4 * int k) = int_at f4 (4096 * inode_region_addr s + 4 * int k)"
      using that g by (intro r4) auto
    then show ?thesis unfolding f4_def using root_inode_int_at [OF len(1) that] g by simp
  qed
  show "int_at m (4 * int i) = [1, s_inode_bitmap_len s, data_bitmap_addr s, s_data_bitmap_len s,
           inode_region_addr s, s_inode_region_len s, data_region_addr s, nd, ni, nd] ! i" if "i < 10"
  proof -
    have "int_at m (4 * int i) = int_at f1 (4 * int i)"
      using that g r4 r3 r2 by (simp add: f2_def int_at_put_bytes_other)
    moreover have "\<forall>x\<in>set [inode_bitmap_addr s, s_inode_bitmap_len s, data_bitmap_addr s, s_data_bitmap_len s,
        inode_region_addr s, s_inode_region_len s, data_region_addr s, s_data_region_len s, num_inodes s, num_data s].
        0 \<le> x \<and> x < 2147483648" using g nd by auto
    ultimately show ?thesis
      unfolding f1_def using super_int_at [OF that] nth_in [OF that] g by simp
  qed
qed

lemma mkfs_init_disk:
  assumes S: "mkfs_sizes ni nd" "s = mkfs_super ni nd" and len: "length itable = 4096" "length parent = 4096"
  shows "init_disk (mkfs_image s itable parent) = Inr (disk_of s)" and "ufs_layout (disk_of s) (mkfs_image s itable parent)"
proof -
  let ?m = "mkfs_image s itable parent"
  note g = mkfs_geometry [OF S] and I = mkfs_image_int_at [OF S len]
  have nd: "32 \<le> nd" using S by (simp add: mkfs_sizes_def)
  have l: "img_len ?m = nat (4096 * total_blocks s)" by (simp add: mkfs_image_def)
  have "int (nat (4096 * total_blocks s)) sdiv 4096 = total_blocks s"
    using g nd by (simp add: sdiv_pos)
  then show "init_disk ?m = Inr (disk_of s)"
    using I(1) [of 0] I(1) [of 1] I(1) [of 2] I(1) [of 3] I(1) [of 4] I(1) [of 5] I(1) [of 6] I(1) [of 7]
      I(1) [of 8] I(1) [of 9] l g nd
    by (simp add: init_disk_def super_at_def in_img_def disk_of_def UFS_BLOCK_SIZE_def)
  show "ufs_layout (disk_of s) ?m"
    using g nd l by (simp add: ufs_layout_def disk_of_def)
qed

lemma mkfs_slots:
  assumes S: "mkfs_sizes ni nd" "s = mkfs_super ni nd" and len: "length itable = 4096" "length parent = 4096"
  shows "dir_blocks (mkfs_image s itable parent) (inode_addr (disk_of s) 0) = [data_region_addr s]"
    and "slots (disk_of s) (mkfs_image s itable parent) (inode_addr (disk_of s) 0) =
           map (\<lambda>j. 4096 * data_region_addr s + 32 * int j) [0..<128]"
proof -
  let ?m = "mkfs_image s itable parent" and ?P = "4096 * inode_region_addr s"
  note g = mkfs_geometry [OF S] and I = mkfs_image_int_at [OF S len]
  have a: "inode_addr (disk_of s) 0 = ?P" by (simp add: inode_addr_def disk_of_def)
  have p: "int_at ?m (i_direct ?P (int i)) = (if i = 0 then data_region_addr s else - 1)" if "i < 30" for i
    using I(4) [of "i + 2"] that by (simp add: i_direct_def algebra_simps)
  have "[0..<DIRECT_PTRS] = 0 # 1 # [2..<30]" by (simp add: DIRECT_PTRS_def upt_conv_Cons)
  then show "dir_blocks ?m (inode_addr (disk_of s) 0) = [data_region_addr s]"
    unfolding dir_blocks_def a using p [of 0] p [of 1] g by simp
  then show "slots (disk_of s) ?m (inode_addr (disk_of s) 0) = map (\<lambda>j. 4096 * data_region_addr s + 32 * int j) [0..<128]"
    by (simp add: slots_def block_slots_def block_ptr_def disk_of_def UFS_BLOCK_SIZE_def)
qed

lemma mkfs_entries:
  assumes S: "mkfs_sizes ni nd" "s = mkfs_super ni nd" and len: "length itable = 4096" "length parent = 4096" and j: "j < 128"
  shows "entry_inum (mkfs_image s itable parent) (4096 * data_region_addr s + 32 * int j) = (if j < 2 then 0 else - 1)"
    and "entry_name (mkfs_image s itable parent) (4096 * data_region_addr s + 32 * int j) =
           (if j = 0 then dot else if j = 1 then dotdot else takeWhile (\<lambda>c. c \<noteq> 0) (get_at (32 * j) 28 parent))"
proof -
  note I = mkfs_image_int_at(5) [OF S len]
  show "entry_inum (mkfs_image s itable parent) (4096 * data_region_addr s + 32 * int j) = (if j < 2 then 0 else - 1)"
    unfolding entry_inum_def int_at_def using I [of "32 * j + 28" 4] root_dir_entries(1) [OF len(2) j] j by (simp add: add.assoc)
  show "entry_name (mkfs_image s itable parent) (4096 * data_region_addr s + 32 * int j) =
      (if j = 0 then dot else if j = 1 then dotdot else takeWhile (\<lambda>c. c \<noteq> 0) (get_at (32 * j) 28 parent))"
    unfolding entry_name_def using I [of "32 * j" 28] root_dir_entries(2) [OF len(2) j] j by simp
qed

lemma mkfs_bits:
  assumes S: "mkfs_sizes ni nd" "s = mkfs_super ni nd" and len: "length itable = 4096" "length parent = 4096"
  shows "j < inode_bits (disk_of s) \<Longrightarrow> bit_set (mkfs_image s itable parent) (inode_bitmap_ptr (disk_of s)) j \<longleftrightarrow> j = 0"
    and "j < data_bits (disk_of s) \<Longrightarrow> bit_set (mkfs_image s itable parent) (data_bitmap_ptr (disk_of s)) j \<longleftrightarrow> j = 0"
proof -
  note I = mkfs_image_int_at [OF S len]
  show "bit_set (mkfs_image s itable parent) (inode_bitmap_ptr (disk_of s)) j \<longleftrightarrow> j = 0" if "j < inode_bits (disk_of s)"
    using that I(2) by (intro bit_set_first [of "inode_bits (disk_of s)"]) (auto simp: inode_bits_def disk_of_def nat_mult_distrib)
  show "bit_set (mkfs_image s itable parent) (data_bitmap_ptr (disk_of s)) j \<longleftrightarrow> j = 0" if "j < data_bits (disk_of s)"
    using that I(3) by (intro bit_set_first [of "data_bits (disk_of s)"]) (auto simp: data_bits_def disk_of_def nat_mult_distrib)
qed

lemma mkfs_directory:
  assumes S: "mkfs_sizes ni nd" "s = mkfs_super ni nd" and len: "length itable = 4096" "length parent = 4096"
  shows "directory (disk_of s) (mkfs_image s itable parent) 0"
    and "dir_map (disk_of s) (mkfs_image s itable parent) (inode_addr (disk_of s) 0) = [dot \<mapsto> 0, dotdot \<mapsto> 0]"
    and "q < nat ni \<Longrightarrow> inode_ok (disk_of s) q"
proof -
  let ?m = "mkfs_image s itable parent" and ?d = "disk_of s" and ?e = "\<lambda>j. 4096 * data_region_addr s + 32 * int j"
  note g = mkfs_geometry [OF S] and sl = mkfs_slots [OF S len] and en = mkfs_entries [OF S len]
  have nd: "32 \<le> nd" "32 \<le> ni" using S by (simp_all add: mkfs_sizes_def)
  have dd: "dot \<noteq> dotdot" by (simp add: dot_def dotdot_def)
  show ok: "inode_ok ?d q" if "q < nat ni" for q
    using that g by (auto simp: inode_ok_def inode_bits_def disk_of_def)
  have "inode_bits ?d > 0" using ok [of 0] nd by (simp add: inode_ok_def)
  then have b: "bit_set ?m (inode_bitmap_ptr ?d) 0" using mkfs_bits(1) [OF S len, of 0] by simp
  have u: "j < 2" if "j < 128" "entry_inum ?m (?e j) \<noteq> - 1" for j using en(1) [OF that(1)] that by (auto split: if_splits)
  have "j = k" if "j < 128" "k < 128" "entry_inum ?m (?e j) \<noteq> - 1" "entry_inum ?m (?e k) \<noteq> - 1"
    "entry_name ?m (?e j) = entry_name ?m (?e k)" for j k
    using u [OF that(1,3)] u [OF that(2,4)] that(5) en(2) [OF that(1)] en(2) [OF that(2)] dd
    by (auto simp: less_2_cases_iff)
  moreover have "in_img ?m (4096 * data_region_addr s) 4096"
    using g nd by (simp add: in_img_def mkfs_image_def)
  ultimately show "directory ?d ?m 0"
    unfolding directory_def sl using ok [of 0] b nd
    by (auto simp: block_ptr_def disk_of_def UFS_BLOCK_SIZE_def)
  show "dir_map ?d ?m (inode_addr ?d 0) = [dot \<mapsto> 0, dotdot \<mapsto> 0]"
  proof
    fix name
    define js :: "nat list" where "js = [2..<128]"
    have u: "[0..<128] = 0 # 1 # js" unfolding js_def by (simp add: upt_conv_Cons del: upt_rec_numeral)
    have "\<forall>j\<in>set js. 2 \<le> j \<and> j < 128" unfolding js_def set_upt by simp
    then have "find (names_entry ?m name) (map ?e js) = None"
      using en(1) by (auto simp: find_None_iff names_entry_def)
    then show "dir_map ?d ?m (inode_addr ?d 0) name = [dot \<mapsto> 0, dotdot \<mapsto> 0] name"
      unfolding dir_map_def sl(2) u using en(1) [of 0] en(1) [of 1] en(2) [of 0] en(2) [of 1] dd
      by (auto simp: names_entry_def)
  qed
qed

text \<open>
  C7: For every number of inodes from 32 to a million and of data blocks from 32 to 262144, and
  whatever the uninitialised parts of its buffers hold, \<open>mkfs\<close> succeeds; \<open>init_disk\<close> reads the
  layout back; the regions are disjoint and inside the image; exactly inode 0 and data block 0
  are in use; and inode 0 is a directory that holds \<open>.\<close> and \<open>..\<close>, both bound to 0.
\<close>

theorem mkfs_makes_root_directory:
  assumes "mkfs_sizes ni nd" and "length itable = 4096" and "length parent = 4096"
  shows "\<exists>m d. mkfs itable parent ni nd = Inr m \<and> init_disk m = Inr d \<and> ufs_layout d m \<and> directory d m 0 \<and>
     dir_map d m (inode_addr d 0) = [dot \<mapsto> 0, dotdot \<mapsto> 0] \<and>
     (\<forall>j < inode_bits d. bit_set m (inode_bitmap_ptr d) j = (j = 0)) \<and>
     (\<forall>j < data_bits d. bit_set m (data_bitmap_ptr d) j = (j = 0)) \<and>
     (\<forall>q < nat ni. inode_ok d q)"
  using mkfs_eq [OF assms] mkfs_init_disk [OF assms(1) refl assms(2,3)] mkfs_directory [OF assms(1) refl assms(2,3)]
    mkfs_bits [OF assms(1) refl assms(2,3)] by blast

definition blank :: "byte list" where
  "blank = replicate 4096 0"

lemma length_blank [simp]: "length blank = 4096"
  by (simp add: blank_def)

lemma sizes_default: "mkfs_sizes 32 32"
  by (simp add: mkfs_sizes_def)

theorem mkfs_makes_root_directory_witness:
  "\<exists>m d. mkfs blank blank 32 32 = Inr m \<and> init_disk m = Inr d \<and>
     dir_map d m (inode_addr d 0) = [dot \<mapsto> 0, dotdot \<mapsto> 0]"
  using mkfs_makes_root_directory [OF sizes_default length_blank length_blank] by blast

text \<open>The image of the default size, over blank memory, and its first state after a creation.\<close>

definition img0 :: image where
  "img0 = mkfs_image (mkfs_super 32 32) blank blank"

definition disk0 :: disk_t where
  "disk0 = disk_of (mkfs_super 32 32)"

lemma first_clear_1:
  assumes "\<And>j. j < n \<Longrightarrow> bit_set m bm j \<longleftrightarrow> j = 0" and "1 < n"
  shows "first_clear m bm n = int 1"
proof (cases rule: first_clear_cases [of m bm n])
  case 1
  then show ?thesis using assms(1) [OF assms(2)] assms(2) by auto
next
  case (2 i)
  then have "i \<noteq> 0" "\<not> 1 < i" using assms by auto
  with 2 show ?thesis by (cases i) auto
qed

lemma img0_data_bits:
  "j < data_bits disk0 \<Longrightarrow> bit_set img0 (data_bitmap_ptr disk0) j \<longleftrightarrow> j = 0" "1 < data_bits disk0"
proof -
  show "bit_set img0 (data_bitmap_ptr disk0) j \<longleftrightarrow> j = 0" if "j < data_bits disk0"
    using mkfs_bits(2) [OF sizes_default refl length_blank length_blank] that by (simp add: disk0_def img0_def)
  show "1 < data_bits disk0"
    using mkfs_geometry(4) [OF sizes_default refl] by (simp add: data_bits_def disk0_def disk_of_def)
qed

lemma img0_facts:
  shows "ufs_layout disk0 img0" and "directory disk0 img0 0"
    and "dir_map disk0 img0 (inode_addr disk0 0) = [dot \<mapsto> 0, dotdot \<mapsto> 0]"
    and "\<exists>e\<in>set (slots disk0 img0 (inode_addr disk0 0)). free_slot img0 e"
    and "first_clear img0 (inode_bitmap_ptr disk0) (inode_bits disk0) = int 1" and "inode_ok disk0 1" and "inode_ok disk0 0"
proof -
  note F = mkfs_init_disk(2) [OF sizes_default refl length_blank length_blank]
    mkfs_directory [OF sizes_default refl length_blank length_blank]
    mkfs_bits(1) [OF sizes_default refl length_blank length_blank]
    mkfs_slots(2) [OF sizes_default refl length_blank length_blank]
    mkfs_entries [OF sizes_default refl length_blank length_blank, of 2]
  show "ufs_layout disk0 img0" "directory disk0 img0 0" "dir_map disk0 img0 (inode_addr disk0 0) = [dot \<mapsto> 0, dotdot \<mapsto> 0]"
    and ok: "inode_ok disk0 1" "inode_ok disk0 0"
    using F(1-4) by (simp_all add: disk0_def img0_def)
  let ?e = "4096 * data_region_addr (mkfs_super 32 32) + 32 * int 2"
  have "?e \<in> set (slots disk0 img0 (inode_addr disk0 0))"
    unfolding img0_def disk0_def F(6) set_map set_upt by (rule imageI) simp
  moreover have "takeWhile (\<lambda>c. c \<noteq> 0) (get_at 64 28 blank) = []"
    by (simp add: get_at_def blank_def)
  then have "free_slot img0 ?e" using F(7,8) by (simp add: free_slot_def img0_def dotdot_def)
  ultimately show "\<exists>e\<in>set (slots disk0 img0 (inode_addr disk0 0)). free_slot img0 e" by blast
  have b: "bit_set img0 (inode_bitmap_ptr disk0) j \<longleftrightarrow> j = 0" if "j < inode_bits disk0" for j
    using F(5) that by (simp add: disk0_def img0_def)
  show "first_clear img0 (inode_bitmap_ptr disk0) (inode_bits disk0) = int 1"
    using b ok by (intro first_clear_1) (auto simp: inode_ok_def)
qed

theorem fs_creat_extends_map_witness:
  "\<exists>m. fs_creat disk0 img0 0 1 [102] = Inr (0, m) \<and>
     dir_map disk0 m (inode_addr disk0 0) = [dot \<mapsto> 0, dotdot \<mapsto> 0, [102] \<mapsto> 1]"
proof -
  have "dir_map disk0 img0 (inode_addr disk0 0) [102] = None"
    by (simp add: img0_facts(3) dot_def dotdot_def)
  moreover have "valid_name [102]" "w32 1 = 1" "1 \<noteq> UFS_DIRECTORY"
    by (simp_all add: valid_name_def UFS_DIRECTORY_def)
  ultimately show ?thesis
    using fs_creat_extends_map [OF img0_facts(1,2) _ _ img0_facts(4-6), of "[102]" 1] img0_facts(3) by auto
qed

theorem fs_lookup_reads_map_witness:
  "fs_lookup disk0 img0 0 dotdot = Inr 0 \<and> fs_lookup disk0 img0 0 [102] = Inr (- 1)"
  using fs_lookup_reads_map [OF img0_facts(1,2), of dotdot] fs_lookup_reads_map [OF img0_facts(1,2), of "[102]"] valid_dotdot
  by (simp add: img0_facts(3) valid_name_def dot_def dotdot_def)

text \<open>A file is created and removed again.\<close>

lemma img0_created:
  obtains m where "ufs_layout disk0 m" "directory disk0 m 0" "inode_ok disk0 1" "bit_set m (inode_bitmap_ptr disk0) 1"
    "dir_map disk0 m (inode_addr disk0 0) = [dot \<mapsto> 0, dotdot \<mapsto> 0, [102] \<mapsto> int 1]"
    "int_at m (inode_addr disk0 1) = 1" "blocks_owned disk0 m (inode_addr disk0 1)"
    "int_at m (inode_addr disk0 1 + 4) = 0" "int_at m (i_direct (inode_addr disk0 1) 0) = - 1"
    "first_clear m (data_bitmap_ptr disk0) (data_bits disk0) = int 1"
proof -
  have "dir_map disk0 img0 (inode_addr disk0 0) [102] = None"
    by (simp add: img0_facts(3) dot_def dotdot_def)
  moreover have "valid_name [102]" "w32 1 = 1" "1 \<noteq> UFS_DIRECTORY"
    by (simp_all add: valid_name_def UFS_DIRECTORY_def)
  ultimately obtain m where m: "ufs_layout disk0 m" "directory disk0 m 0"
    "dir_map disk0 m (inode_addr disk0 0) = (dir_map disk0 img0 (inode_addr disk0 0))([102] \<mapsto> int 1)"
    "\<forall>j < inode_bits disk0. bit_set m (inode_bitmap_ptr disk0) j = (bit_set img0 (inode_bitmap_ptr disk0) j \<or> j = 1)"
    "int_at m (inode_addr disk0 1) = 1" "\<forall>k < DIRECT_PTRS. int_at m (i_direct (inode_addr disk0 1) (int k)) = - 1"
    "int_at m (inode_addr disk0 1 + 4) = 0"
    "\<forall>j < data_bits disk0. bit_set m (data_bitmap_ptr disk0) j = bit_set img0 (data_bitmap_ptr disk0) j"
    using fs_creat_inserts [OF img0_facts(1,2) _ _ img0_facts(4-6), of "[102]" 1] by blast
  have "blocks_owned disk0 m (inode_addr disk0 1)"
    using m(6) by (simp add: blocks_owned_def direct_ptr_def)
  moreover have "bit_set m (inode_bitmap_ptr disk0) 1" using m(4) img0_facts(6) unfolding inode_ok_def by blast
  moreover have "int_at m (i_direct (inode_addr disk0 1) 0) = - 1"
    using spec [OF m(6), of 0] by (simp add: DIRECT_PTRS_def)
  moreover have "first_clear m (data_bitmap_ptr disk0) (data_bits disk0) = int 1"
    using m(8) img0_data_bits by (intro first_clear_1) auto
  ultimately show thesis using that [of m] m(1-3,5,7) img0_facts(6) unfolding img0_facts(3) by blast
qed


end
