(* ===== verification/Mfs_Spec.thy ===== *)
theory Mfs_Spec
  imports Mkfs
begin

text \<open>
  Properties that span the client library, the server and the file system, and the errors of the
  file system that the modelling showed.
\<close>

section \<open>A client and a server\<close>

text \<open>The name that a client copies into a message is the name that the server reads.\<close>

lemma name_roundtrip:
  assumes "0 \<notin> set name" and "length name < length (msg_name msg @ msg_buffer msg)"
  obtains msg' where "copy_name name msg = Inr msg'" "name_of msg' = Inr name"
    "msg' = msg\<lparr>msg_name := msg_name msg', msg_buffer := msg_buffer msg'\<rparr>"
proof -
  define bs where "bs = put_at 0 (name @ [0]) (msg_name msg @ msg_buffer msg)"
  define msg' where "msg' = msg\<lparr>msg_name := take (length (msg_name msg)) bs, msg_buffer := drop (length (msg_name msg)) bs\<rparr>"
  have b: "bs = name @ 0 # drop (length name + 1) (msg_name msg @ msg_buffer msg)"
    by (simp add: bs_def put_at_def)
  have "takeWhile (\<lambda>c. c \<noteq> 0) (name @ 0 # xs) = name" for xs
    using assms(1) by (induction name) auto
  moreover have "(msg_name msg' @ msg_buffer msg') @ stat_bytes (msg_m msg') = bs @ stat_bytes (msg_m msg)"
    by (simp add: msg'_def del: append_assoc)
  then have "msg_name msg' @ msg_buffer msg' @ stat_bytes (msg_m msg') =
      name @ 0 # (drop (length name + 1) (msg_name msg @ msg_buffer msg) @ stat_bytes (msg_m msg))"
    unfolding b by (simp only: append_assoc append_Cons)
  ultimately have "name_of msg' = Inr name" by (simp add: name_of_def Let_def del: append_assoc)
  moreover have "copy_name name msg = Inr msg'"
    using assms(2) by (simp add: copy_name_def Let_def msg'_def bs_def)
  moreover have "msg' = msg\<lparr>msg_name := msg_name msg', msg_buffer := msg_buffer msg'\<rparr>"
    by (simp add: msg'_def)
  ultimately show thesis using that by blast
qed

text \<open>
  A network that delivers every message to the server at once: its state is the server's image
  and the reply under way.
\<close>

definition net_write :: "disk_t \<Rightarrow> message_t \<Rightarrow> image \<times> message_t option \<Rightarrow> int \<times> image \<times> message_t option" where
  "net_write d msg w =
     (case serve d msg (fst w) of
        Inl _ \<Rightarrow> (- 1, fst w, None)
      | Inr (reply, m) \<Rightarrow> (4156, m, Some reply))"

definition net_read :: "message_t \<Rightarrow> image \<times> message_t option \<Rightarrow> int \<times> message_t \<times> image \<times> message_t option" where
  "net_read msg w =
     (case snd w of None \<Rightarrow> (- 1, msg, w) | Some reply \<Rightarrow> (4156, reply, fst w, None))"

text \<open>
  C33: A client's request to create an entry, end to end.  Whatever type the client asks for, a
  directory included, the server creates the file with the operation code 6 as its type: the
  call returns 0, the name is bound to the lowest free inode and that inode has type 6.
\<close>

theorem client_creat_ignores_type:
  assumes L: "ufs_layout d m" and D: "directory d m p" and n: "valid_name name"
    and new: "dir_map d m (inode_addr d p) name = None"
    and f: "\<exists>e\<in>set (slots d m (inode_addr d p)). free_slot m e"
    and q: "first_clear m (inode_bitmap_ptr d) (inode_bits d) = int q" "inode_ok d q"
    and len: "length (msg_name msg) = 28" "length (msg_buffer msg) = 4096"
  shows "\<exists>m'. MFS_Creat (net_write d) net_read msg (int p) ty name (m, None) = Inr (0, m', None) \<and>
     dir_map d m' (inode_addr d p) = (dir_map d m (inode_addr d p))(name \<mapsto> int q) \<and>
     fs_stat d m' (int q) st = Inr (0, st\<lparr>m_size := 0, m_type := 6\<rparr>)"
proof -
  let ?msg = "msg\<lparr>msg_type := MFS_CREAT, msg_inum := int p, msg_ftype := ty\<rparr>"
  have "0 \<notin> set name" "length name < length (msg_name ?msg @ msg_buffer ?msg)"
    using n len by (simp_all add: valid_name_def)
  then obtain msg' where msg': "copy_name name ?msg = Inr msg'" "name_of msg' = Inr name"
    "msg' = ?msg\<lparr>msg_name := msg_name msg', msg_buffer := msg_buffer msg'\<rparr>"
    by (rule name_roundtrip)
  have ty: "msg_type msg' = MFS_CREAT" "msg_inum msg' = int p" by (subst msg'(3), simp)+
  have c: "w32 6 = 6" "6 \<noteq> UFS_DIRECTORY" by (simp_all add: UFS_DIRECTORY_def)
  obtain m' where m': "fs_creat d m (int p) 6 name = Inr (0, m')"
    "dir_map d m' (inode_addr d p) = (dir_map d m (inode_addr d p))(name \<mapsto> int q)"
    "fs_stat d m' (int q) st = Inr (0, st\<lparr>m_size := 0, m_type := 6\<rparr>)"
    using fs_creat_inserts [OF L D n new f q c] by blast
  have "serve d msg' m = Inr (msg'\<lparr>msg_result := 0\<rparr>, m')"
    using m'(1) msg'(2) ty
    by (simp add: serve_def MFS_INIT_def MFS_LOOKUP_def MFS_STAT_def MFS_WRITE_def MFS_READ_def MFS_CREAT_def)
  then have "MFS_Creat (net_write d) net_read msg (int p) ty name (m, None) = Inr (0, m', None)"
    using msg'(1) n by (simp add: MFS_Creat_def exchange_def net_write_def net_read_def result_of_def valid_name_def)
  then show ?thesis using m' by blast
qed

definition blank_msg :: message_t where
  "blank_msg = \<lparr> msg_type = 0, msg_inum = 0, msg_offset = 0, msg_nbytes = 0, msg_ftype = 0, msg_result = 0,
     msg_name = replicate 28 0, msg_buffer = replicate 4096 0, msg_m = \<lparr> m_type = 0, m_size = 0 \<rparr> \<rparr>"

theorem client_creat_ignores_type_witness:
  "\<exists>m. MFS_Creat (net_write disk0) net_read blank_msg 0 UFS_DIRECTORY [102] (img0, None) = Inr (0, m, None) \<and>
     fs_stat disk0 m 1 \<lparr> m_type = 0, m_size = 0 \<rparr> = Inr (0, \<lparr> m_type = 6, m_size = 0 \<rparr>)"
proof -
  have "dir_map disk0 img0 (inode_addr disk0 0) [102] = None"
    by (simp add: img0_facts(3) dot_def dotdot_def)
  moreover have "valid_name [102]" by (simp add: valid_name_def)
  moreover have "length (msg_name blank_msg) = 28" "length (msg_buffer blank_msg) = 4096"
    by (simp_all add: blank_msg_def)
  ultimately obtain m where "MFS_Creat (net_write disk0) net_read blank_msg (int 0) UFS_DIRECTORY [102] (img0, None) = Inr (0, m, None)"
    "fs_stat disk0 m (int 1) \<lparr> m_type = 0, m_size = 0 \<rparr> = Inr (0, \<lparr> m_type = 0, m_size = 0 \<rparr>\<lparr>m_size := 0, m_type := 6\<rparr>)"
    using client_creat_ignores_type [OF img0_facts(1,2) _ _ img0_facts(4-6), of "[102]" blank_msg] by blast
  then show ?thesis by (intro exI [of _ m]) simp
qed

section \<open>Directories cannot be removed\<close>

lemma entries_unused_eq:
  assumes "\<forall>j\<in>set ts. in_img m (ptr + 32 * int j) 32"
  shows "entries_unused m ptr ts = Inr (\<forall>j\<in>set ts. entry_inum m (ptr + 32 * int j) = - 1)"
  using assms
proof (induction ts)
  case Nil
  then show ?case by simp
next
  case (Cons t ts)
  then have "in_img m (ptr + 32 * int t + 28) 4"
    using in_img_sub [of m "ptr + 32 * int t" 32] by simp
  with Cons show ?case by (simp add: img_simps sizeof_dir_ent_def d_inum_def entry_inum_def)
qed

lemma dir_unused_used:
  assumes "\<forall>i\<in>set is. in_img m (i_direct C (int i)) 4"
    and "\<forall>b\<in>set (takeWhile (\<lambda>b. b \<noteq> - 1) (map (\<lambda>i. int_at m (i_direct C (int i))) is)). in_img m (block_ptr d b) 4096"
    and "\<exists>e\<in>set (concat (map (block_slots d)
           (takeWhile (\<lambda>b. b \<noteq> - 1) (map (\<lambda>i. int_at m (i_direct C (int i))) is)))). entry_inum m e \<noteq> - 1"
  shows "dir_unused d m C is = Inr False"
  using assms
proof (induction "is")
  case Nil
  then show ?case by simp
next
  case (Cons i "is")
  let ?b = "int_at m (i_direct C (int i))"
  from Cons.prems have b: "?b \<noteq> - 1" by (cases "?b = - 1") auto
  have "entries_unused m (block_ptr d ?b) [0..<128] = Inr (\<forall>j\<in>set [0..<128]. entry_inum m (block_ptr d ?b + 32 * int j) = - 1)"
    by (rule entries_unused_eq) (use Cons.prems b in_img_slot [of m d ?b] in \<open>auto simp: block_slots_def\<close>)
  then have u: "entries_unused m (block_ptr d ?b) [0..<128] = Inr (\<forall>e\<in>set (block_slots d ?b). entry_inum m e = - 1)"
    by (auto simp: block_slots_def)
  show ?case
  proof (cases "\<forall>e\<in>set (block_slots d ?b). entry_inum m e = - 1")
    case True
    then have "dir_unused d m C is = Inr False" using Cons.prems b by (intro Cons.IH) auto
    then show ?thesis using Cons.prems b u True by (simp add: img_simps)
  next
    case False
    with u have "entries_unused m (block_ptr d ?b) [0..<128] = Inr False" by simp
    then show ?thesis using Cons.prems(1) b by (simp add: img_simps)
  qed
qed

text \<open>
  A directory that has any entry, and every directory has \<open>.\<close> and \<open>..\<close>, is not removed:
  \<open>fs_unlink\<close> of its name returns -1 and leaves the image as it is.
\<close>

theorem directory_is_not_removed:
  assumes L: "ufs_layout d m" and D: "directory d m p" and n: "valid_name name"
    and bound: "dir_map d m (inode_addr d p) name = Some (int c)"
    and C: "directory d m c" and ty: "int_at m (inode_addr d c) = UFS_DIRECTORY"
    and used: "dir_map d m (inode_addr d c) dot \<noteq> None"
  shows "fs_unlink d m (int p) name = Inr (- 1, m)"
proof -
  note P = layout_inode_addr(1) [OF L directoryD(1) [OF D]] and Q = layout_inode_addr(1) [OF L directoryD(1) [OF C]]
  obtain e where e: "find (names_entry m name) (slots d m (inode_addr d p)) = Some e" "entry_inum m e = int c"
    using bound by (auto simp: dir_map_def)
  have "in_img m (e + 28) 4"
    using in_img_sub [OF slot_range(2) [OF D], of e "e + 28" 4] find_in_set [OF e(1)] by simp
  moreover have "in_img m (inode_addr d c) 4" using in_img_sub [OF Q, of "inode_addr d c" 4] by simp
  moreover have "\<exists>e\<in>set (slots d m (inode_addr d c)). entry_inum m e \<noteq> - 1"
    using used by (auto simp: dir_map_None names_entry_def)
  then have "dir_unused d m (inode_addr d c) [0..<DIRECT_PTRS] = Inr False"
    using in_img_direct [OF Q] directoryD(4) [OF C] by (intro dir_unused_used) (auto simp: slots_def dir_blocks_def)
  ultimately show ?thesis
    using get_inode_ptr_eq [OF L directoryD(3) [OF D]] directoryD(2) [OF D] get_inode_ptr_eq [OF L directoryD(3) [OF C]]
      directoryD(2) [OF C] dir_find_eq [OF n P directoryD(4) [OF D]] e ty
    by (simp add: fs_unlink_def img_simps d_inum_def i_type_def entry_inum_def)
qed

theorem directory_is_not_removed_witness: "fs_unlink disk0 img0 0 dot = Inr (- 1, img0)"
proof -
  have "int_at img0 (inode_addr disk0 0) = UFS_DIRECTORY"
    using mkfs_image_int_at(4) [OF sizes_default refl length_blank length_blank, of 0]
    by (simp add: img0_def disk0_def inode_addr_def disk_of_def UFS_DIRECTORY_def)
  moreover have "dot \<noteq> dotdot" by (simp add: dot_def dotdot_def)
  ultimately show ?thesis
    using directory_is_not_removed [OF img0_facts(1,2) valid_dot, of 0] img0_facts(2,3) by simp
qed

section \<open>Blocks of a new file\<close>

lemma find_free_data_eq:
  "ufs_layout d m \<Longrightarrow>
   find_free_block m (data_bitmap_ptr d) (data_bitmap_len d) = Inr (first_clear m (data_bitmap_ptr d) (data_bits d))"
  unfolding data_bits_def
  by (rule find_free_block_eq) (auto simp: ufs_layout_def bitmap_in_def in_img_def)

text \<open>The image once direct pointer 0 of the inode at \<open>C\<close> has been given block \<open>k\<close>.\<close>

definition assigned :: "disk_t \<Rightarrow> int \<Rightarrow> nat \<Rightarrow> image \<Rightarrow> image" where
  "assigned d C k m =
     (let m2 = put_int (flipped m (data_bitmap_ptr d) k) (i_direct C 0) (int k)
      in put_int m2 (C + 4) (int_at m2 (C + 4) + 32))"

lemma assign_block_new:
  assumes L: "ufs_layout d m" and C: "in_img m C 128" and "int_at m (i_direct C 0) = - 1"
    and k: "first_clear m (data_bitmap_ptr d) (data_bits d) = int k" "k < data_bits d"
  shows "assign_block d C 0 m = Inr (int k, assigned d C k m)"
proof -
  have "in_img m (i_direct C 0) 4" "in_img m (C + 4) 4"
    using in_img_direct [OF C, of 0] in_img_sub [OF C, of "C + 4" 4] by (simp_all add: DIRECT_PTRS_def)
  then show ?thesis
    using find_free_data_eq [OF L] k flip_bit_eq [OF layout_bitmaps(2) [OF L] k(2)] assms(3)
    by (simp add: assign_block_def img_simps assigned_def Let_def i_size_def sizeof_dir_ent_def)
qed

text \<open>
  C34: The first block that a file gets is addressed by its number in the data bitmap, without the
  start of the data region.  When that block of the image is the inode bitmap, as it is for the
  first write after \<open>mkfs\<close>, a write that begins with four zero bytes succeeds and erases the
  bitmap: afterwards every lookup in the root directory fails.
\<close>

theorem first_write_erases_inode_bitmap:
  assumes L: "ufs_layout d m" and c: "inode_ok d c" "bit_set m (inode_bitmap_ptr d) c"
    and f: "int_at m (inode_addr d c) \<noteq> UFS_DIRECTORY" "int_at m (inode_addr d c + 4) = 0"
      "int_at m (i_direct (inode_addr d c) 0) = - 1"
    and k: "first_clear m (data_bitmap_ptr d) (data_bits d) = int k" "inode_bitmap_ptr d = 4096 * int k"
    and buf: "length buffer = 4096" "take 4 buffer = replicate 4 0" "4 \<le> n" "n < 4096"
  shows "\<exists>m'. fs_write d m (int c) buffer 0 n = Inr (0, m') \<and> (\<forall>name. fs_lookup d m' 0 name = Inr (- 1))"
proof -
  let ?C = "inode_addr d c"
  note C = layout_inode_addr [OF L c(1)]
  have kn: "k < data_bits d" using k(1) by (cases rule: first_clear_cases [of m "data_bitmap_ptr d" "data_bits d"]) auto
  note A = assign_block_new [OF L C(1) f(3) k(1) kn]
  define m3 where "m3 = assigned d ?C k m"
  have l3: "img_len m3 = img_len m" by (simp add: m3_def assigned_def Let_def)
  have cn: "c < inode_bits d" "0 < inode_bits d" using c(1) by (auto simp: inode_ok_def)
  then have "1 \<le> inode_bitmap_len d" by (simp add: inode_bits_def)
  then have i3: "in_img m3 (4096 * int k) (nat n)"
    using L k(2) buf(3,4) l3 by (auto simp: in_img_def ufs_layout_def)
  define m' where "m' = put_bytes m3 (4096 * int k) (take (nat n) buffer)"
  have "in_img m ?C 4" "in_img m (?C + 4) 4"
    using in_img_sub [OF C(1), of ?C 4] in_img_sub [OF C(1), of "?C + 4" 4] by simp_all
  moreover have "n sdiv 4096 = 0" "0 sdiv (4096 :: int) = 0" "0 smod (4096 :: int) = 0"
    using buf(3,4) by (simp_all add: sdiv_pos smod_pos)
  ultimately have run: "fs_write d m (int c) buffer 0 n = Inr (0, m')"
    using get_inode_ptr_eq [OF L cn(1)] c(2) f(1,2) A i3 buf L
    by (simp add: fs_write_def img_simps i_type_def i_size_def UFS_BLOCK_SIZE_def block_ptr_def copy_in_def Let_def
        ufs_layout_def m'_def m3_def min_def)
  have "get_bytes m' (4096 * int k) 4 = replicate 4 0"
    unfolding m'_def using buf by (subst get_bytes_inside) (auto simp: get_at_def min_def)
  then have "int_at m' (inode_bitmap_ptr d) = 0"
    unfolding int_at_def k(2) by (simp add: signed_def del: replicate.simps)
  then have "\<not> bit_set m' (inode_bitmap_ptr d) 0" by (simp add: bit_set_def)
  moreover have "ufs_layout d m'" using L l3 by (simp add: m'_def ufs_layout_def)
  ultimately have "fs_lookup d m' (int 0) name = Inr (- 1)" for name
    using get_inode_ptr_eq [of d m' 0] cn(2) by (simp add: fs_lookup_def)
  then show ?thesis using run by auto
qed

theorem first_write_erases_inode_bitmap_witness:
  "\<exists>m m'. dir_map disk0 m (inode_addr disk0 0) [102] = Some 1 \<and>
     fs_write disk0 m 1 (replicate 4096 0) 0 4 = Inr (0, m') \<and> fs_lookup disk0 m' 0 [102] = Inr (- 1)"
proof -
  obtain m where m: "ufs_layout disk0 m" "inode_ok disk0 1" "bit_set m (inode_bitmap_ptr disk0) 1"
    "dir_map disk0 m (inode_addr disk0 0) = [dot \<mapsto> 0, dotdot \<mapsto> 0, [102] \<mapsto> int 1]"
    "int_at m (inode_addr disk0 1) = 1" "int_at m (inode_addr disk0 1 + 4) = 0"
    "int_at m (i_direct (inode_addr disk0 1) 0) = - 1" "first_clear m (data_bitmap_ptr disk0) (data_bits disk0) = int 1"
    by (rule img0_created) blast
  have "int_at m (inode_addr disk0 1) \<noteq> UFS_DIRECTORY" "inode_bitmap_ptr disk0 = 4096 * int 1"
    "length (replicate 4096 (0 :: byte)) = 4096" "take 4 (replicate 4096 (0 :: byte)) = replicate 4 0"
    using m(5) by (simp_all add: UFS_DIRECTORY_def disk0_def disk_of_def min_def)
  then obtain m' where "fs_write disk0 m (int 1) (replicate 4096 0) 0 4 = Inr (0, m')" "\<forall>name. fs_lookup disk0 m' 0 name = Inr (- 1)"
    using first_write_erases_inode_bitmap [OF m(1-3) _ m(6-8), of "replicate 4096 0" 4] by auto
  then show ?thesis using m(4) by (intro exI [of _ m] exI [of _ m']) simp
qed

section \<open>Names of 28 bytes\<close>

lemma str_eq_zero:
  assumes "in_img m p k" and "0 \<notin> set name" and "k \<le> length name" and "0 \<in> set (get_bytes m p k)"
  shows "str_eq m name p = Inr False"
  using assms
proof (induction name arbitrary: p k)
  case Nil
  then show ?case by (simp add: get_bytes_def)
next
  case (Cons c cs)
  from Cons.prems obtain k' where k: "k = Suc k'" by (cases k) (auto simp: get_bytes_def)
  with Cons.prems have p: "in_img m (p + 1) k'" "in_img m p 1" "0 \<le> p" by (auto simp: in_img_def)
  show ?case
  proof (cases "bytes m (nat p) = c")
    case True
    then have "0 \<in> set (get_bytes m (p + 1) k')" using Cons.prems k p by (auto simp: get_bytes_Suc)
    with Cons p k True show ?thesis by simp
  next
    case False
    with p show ?thesis by simp
  qed
qed

lemma takeWhile_shorter: "length (takeWhile (\<lambda>c. c \<noteq> 0) xs) < length xs \<Longrightarrow> 0 \<in> set xs"
  by (induction xs) (auto split: if_splits)

lemma match_entry_none:
  assumes "\<forall>j\<in>set js. in_img m (ptr + 32 * int j) 32 \<and>
      (entry_inum m (ptr + 32 * int j) \<noteq> - 1 \<longrightarrow> str_eq m name (ptr + 32 * int j) = Inr False)"
  shows "match_entry m ptr name js = Inr None"
  using assms
proof (induction js)
  case Nil
  then show ?case by simp
next
  case (Cons j js)
  then have "in_img m (ptr + 32 * int j + 28) 4" using in_img_sub [of m "ptr + 32 * int j" 32] by simp
  with Cons show ?case
    by (simp add: img_simps Let_def sizeof_dir_ent_def d_inum_def d_name_def entry_inum_def)
qed

lemma match_block_none:
  assumes "\<forall>i\<in>set is. in_img m (i_direct P (int i)) 4"
    and "\<forall>b\<in>set (takeWhile (\<lambda>b. b \<noteq> - 1) (map (\<lambda>i. int_at m (i_direct P (int i))) is)).
      match_entry m (block_ptr d b) name [0..<128] = Inr None"
  shows "match_block d m P name is = Inr None"
  using assms by (induction "is") (auto simp: img_simps)

text \<open>A name of 28 bytes is not found in a directory of shorter names.\<close>

lemma long_name_not_found:
  assumes L: "ufs_layout d m" and D: "directory d m p" and n: "length name = 28" "0 \<notin> set name"
    and short: "\<forall>e\<in>set (slots d m (inode_addr d p)). entry_inum m e \<noteq> - 1 \<longrightarrow> length (entry_name m e) < 28"
  shows "dir_find d m (inode_addr d p) name = Inr None"
proof -
  let ?P = "inode_addr d p"
  have "match_entry m (block_ptr d b) name [0..<128] = Inr None" if b: "b \<in> set (dir_blocks m ?P)" for b
  proof (rule match_entry_none, intro ballI conjI impI)
    fix j assume "j \<in> set [0..<128::nat]"
    then have "block_ptr d b + 32 * int j \<in> set (block_slots d b)"
      unfolding block_slots_def set_map by (rule imageI)
    then have e: "block_ptr d b + 32 * int j \<in> set (slots d m ?P)"
      using b by (auto simp: slots_def)
    show i: "in_img m (block_ptr d b + 32 * int j) 32" using slot_range(2) [OF D e] .
    assume "entry_inum m (block_ptr d b + 32 * int j) \<noteq> - 1"
    with short e have "length (entry_name m (block_ptr d b + 32 * int j)) < 28" by blast
    then have "0 \<in> set (get_bytes m (block_ptr d b + 32 * int j) 28)"
      using takeWhile_shorter [of "get_bytes m (block_ptr d b + 32 * int j) 28"] by (simp add: entry_name_def)
    then show "str_eq m name (block_ptr d b + 32 * int j) = Inr False"
      using n in_img_sub [OF i, of "block_ptr d b + 32 * int j" 28] by (intro str_eq_zero [of m _ 28]) auto
  qed
  then show ?thesis
    unfolding dir_find_def using in_img_direct [OF layout_inode_addr(1) [OF L directoryD(1) [OF D]]]
    by (intro match_block_none) (auto simp: dir_blocks_def)
qed

lemma le_bytes_zero: "le_bytes n 0 = replicate n 0"
  by (induction n) simp_all

lemma le_bytes_small: "q < 256 \<Longrightarrow> le_bytes 4 q = of_nat q # replicate 3 0"
proof -
  assume "q < 256"
  then have "le_bytes (Suc 3) q = of_nat q # replicate 3 0"
    by (simp only: le_bytes.simps mod_less div_less le_bytes_zero)
  then show ?thesis by simp
qed

text \<open>The terminating zero of a name of 28 bytes falls on the low byte of the inode number.\<close>

lemma entered_long:
  assumes "0 \<le> e" and "length name = 28" and "q < 256"
  shows "int_at (entered d m q e name) (e + 28) = 0"
proof -
  let ?m = "put_int (flipped m (inode_bitmap_ptr d) q) (e + 28) (int q)" and ?E = "entered d m q e name"
  have w: "wrap 32 (int q) = q" using assms(3) by (simp add: wrap_def)
  have "get_bytes ?E (e + 28) 1 = [0]"
    unfolding entered_def using assms(1,2) by (subst get_bytes_inside) (simp_all add: get_at_def)
  moreover have "get_bytes ?E (e + 28 + int 1) 3 = get_bytes ?m (e + 28 + int 1) 3"
    unfolding entered_def using assms(1,2) by (intro get_put_other) auto
  moreover have "get_bytes ?m (e + 28 + int 1) 3 = get_at 1 3 (le_bytes 4 q)"
    unfolding put_int_def w using assms(1) by (subst get_bytes_inside) simp_all
  moreover have "get_bytes ?E (e + 28) (1 + 3) = get_bytes ?E (e + 28) 1 @ get_bytes ?E (e + 28 + int 1) 3"
    using assms(1) by (intro get_bytes_add) simp
  ultimately have "get_bytes ?E (e + 28) 4 = 0 # replicate 3 0"
    using le_bytes_small [OF assms(3)] by (simp add: get_at_def)
  then have "get_bytes ?E (e + 28) 4 = replicate (Suc 3) 0" by (simp only: replicate.simps)
  then show ?thesis unfolding int_at_def by (simp only: le_nat_zero_bytes) (simp add: signed_def)
qed

lemma entered_long_bits:
  assumes L: "ufs_layout d m" and q: "q < inode_bits d" "q \<noteq> 0"
    and e: "data_region_ptr d \<le> e" "in_img m e 32" and n: "length name = 28" and "bit_set m (inode_bitmap_ptr d) 0"
  shows "ufs_layout d (entered d m q e name)" and "bit_set (entered d m q e name) (inode_bitmap_ptr d) 0"
proof -
  let ?m1 = "flipped m (inode_bitmap_ptr d) q" and ?m2 = "put_int (flipped m (inode_bitmap_ptr d) q) (e + 28) (int q)"
  show L': "ufs_layout d (entered d m q e name)" using L by (simp add: entered_def ufs_layout_def)
  have e0: "0 \<le> e" using e(2) by (simp add: in_img_def)
  note bm = layout_bitmaps(1) [OF L]
  have "chg {e + 28..<e + 28 + 4} ?m1 ?m2" using e0 by (intro chg_put_int) simp
  then have c: "chg ({e + 28..<e + 28 + 4} \<union> {e..<e + int (length (name @ [0]))}) ?m1 (entered d m q e name)"
    unfolding entered_def using e0 by (rule chg_trans [OF _ chg_put_bytes])
  have "bitmap_area d \<inter> ({e + 28..<e + 28 + 4} \<union> {e..<e + int (length (name @ [0]))}) = {}"
    using layout_areas [OF L] e(1) L n by (auto simp: ufs_layout_def)
  moreover have "bitmap_in ?m1 (inode_bitmap_ptr d) (inode_bits d)" using bm by (simp add: bitmap_in_def)
  moreover have "0 < inode_bits d" using q by simp
  ultimately show "bit_set (entered d m q e name) (inode_bitmap_ptr d) 0"
    using bit_set_chg [OF c] bit_set_flipped [OF bm q(1), of 0] assms(7) q(2) by (simp add: bitmap_area_def)
qed

lemma lookup_no_blocks:
  assumes "int_at m (i_direct (inode_addr d p) 0) = - 1" and "inode_ok d p" and "bit_set m (inode_bitmap_ptr d) p" and "ufs_layout d m"
  shows "fs_lookup d m (int p) name = Inr (- 1)"
proof -
  have "[0..<DIRECT_PTRS] = 0 # [1..<30]" by (simp add: DIRECT_PTRS_def upt_conv_Cons del: upt_rec_numeral)
  moreover have "in_img m (i_direct (inode_addr d p) 0) 4"
    using in_img_direct [OF layout_inode_addr(1) [OF assms(4,2)], of 0] by (simp add: DIRECT_PTRS_def)
  ultimately have "dir_find d m (inode_addr d p) name = Inr None"
    using assms(1) by (simp add: dir_find_def img_simps)
  then show ?thesis
    using get_inode_ptr_eq [OF assms(4), of p] assms(2,3) by (simp add: fs_lookup_def inode_ok_def)
qed

text \<open>
  A name of 28 bytes passes the length check of \<open>fs_creat\<close>, but its terminating zero
  overwrites the low byte of the inode number in the entry.  While the number is below 256, the
  root inode is initialised instead of the new one: the call returns 0 and afterwards every
  lookup in the root directory fails.
\<close>

theorem long_name_erases_root:
  assumes L: "ufs_layout d m" and D: "directory d m p" and root: "inode_ok d 0" "bit_set m (inode_bitmap_ptr d) 0"
    and n: "length name = 28" "0 \<notin> set name"
    and short: "\<forall>e\<in>set (slots d m (inode_addr d p)). entry_inum m e \<noteq> - 1 \<longrightarrow> length (entry_name m e) < 28"
    and f: "\<exists>e\<in>set (slots d m (inode_addr d p)). free_slot m e"
    and q: "first_clear m (inode_bitmap_ptr d) (inode_bits d) = int q" "q < 256"
    and ty: "w32 ty = ty" "ty \<noteq> UFS_DIRECTORY"
  shows "\<exists>m'. fs_creat d m (int p) ty name = Inr (0, m') \<and> (\<forall>nm. fs_lookup d m' 0 nm = Inr (- 1))"
proof -
  let ?P = "inode_addr d p" and ?R = "inode_addr d 0"
  have "q < inode_bits d \<and> \<not> bit_set m (inode_bitmap_ptr d) q"
    using q(1) by (cases rule: first_clear_cases [of m "inode_bitmap_ptr d" "inode_bits d"]) auto
  then have qn: "q < inode_bits d" "q \<noteq> 0" using root(2) by (auto intro: ccontr)
  obtain e where e: "e \<in> set (slots d m ?P)"
    and run: "fs_creat d m (int p) ty name = creat_entry d (int p) ty name ?P e m"
    using fs_creat_run_find [OF L D _ long_name_not_found [OF L D n short] f, of ty] n by auto
  note er = slot_range [OF D e]
  define m3 where "m3 = entered d m q e name"
  note E = entered_long_bits [OF L qn er n(1) root(2), folded m3_def]
  have e0: "0 \<le> e" using er(2) by (simp add: in_img_def)
  note R = layout_inode_addr [OF E(1) root(1)] and P = layout_inode_addr [OF E(1) directoryD(1) [OF D]]
  have l3: "img_len m3 = img_len m" by (simp add: m3_def entered_def)
  obtain m4 where m4: "init_inode ?R ty m3 = Inr m4" "chg {?R..<?R + 128} m3 m4" "int_at m4 ?R = ty"
    "\<forall>k < DIRECT_PTRS. int_at m4 (i_direct ?R (int k)) = - 1"
    using init_inode_eq [OF R(1), of ty] ty(1) by auto
  define m5 where "m5 = put_int m4 (?P + 4) (int_at m4 (?P + 4) + 32)"
  have i4: "img_len m4 = img_len m" using m4(2) l3 by (simp add: chg_def)
  have "in_img m4 (?P + 4) 4" "in_img m4 ?R 4" "in_img m3 (e + 28) 4"
    using in_img_sub [OF P(1), of "?P + 4" 4] in_img_sub [OF R(1), of ?R 4] in_img_sub [OF er(2), of "e + 28" 4] l3
    by (simp_all add: i4 in_img_def)
  moreover have "get_inode_ptr d m3 0 = Inr (Some ?R)"
    using get_inode_ptr_eq [OF E(1), of 0] root(1) E(2) by (simp add: inode_ok_def)
  moreover have "int_at m3 (e + 28) = 0" unfolding m3_def by (rule entered_long [OF e0 n(1) q(2)])
  ultimately have r5: "creat_entry d (int p) ty name ?P e m = Inr (0, m5)"
    using creat_entry_enter [OF L q(1) qn(1) er(2), of name] n(1) m4(1,3) ty(2)
    by (simp add: img_simps m3_def [symmetric] i_type_def i_size_def sizeof_dir_ent_def m5_def)
  have "0 \<le> ?P" "0 \<le> ?R" using P(1) R(1) by (simp_all add: in_img_def)
  then have c5: "chg {?P + 4..<?P + 8} m4 m5"
    unfolding m5_def by (intro chg_mono [OF chg_put_int]) auto
  have "{?R + 8..<?R + 12} \<inter> {?P + 4..<?P + 8} = {}"
    by (cases "p = 0") (auto simp: inode_addr_def)
  then have "int_at m5 (i_direct ?R 0) = - 1"
    using int_at_chg [OF c5, of "i_direct ?R 0"] \<open>0 \<le> ?R\<close> spec [OF m4(4), of 0] by (simp add: i_direct_def DIRECT_PTRS_def)
  moreover have "bitmap_area d \<inter> ({?R..<?R + 128} \<union> {?P + 4..<?P + 8}) = {}"
    using layout_areas [OF L] P(2) R(2) by auto
  then have "bit_set m5 (inode_bitmap_ptr d) 0"
    using bit_set_chg [OF chg_trans [OF m4(2) c5] layout_bitmaps(1) [OF E(1)]] E(2) root(1)
    by (simp add: bitmap_area_def inode_ok_def)
  moreover have "ufs_layout d m5" using layout_chg [OF c5] layout_chg [OF m4(2)] E(1) by simp
  ultimately have "fs_lookup d m5 0 nm = Inr (- 1)" for nm
    using lookup_no_blocks [OF _ root(1)] by simp
  then show ?thesis using run r5 by auto
qed

lemma img0_short_names:
  "\<forall>e\<in>set (slots disk0 img0 (inode_addr disk0 0)). entry_inum img0 e \<noteq> - 1 \<longrightarrow> length (entry_name img0 e) < 28"
proof
  fix e assume "e \<in> set (slots disk0 img0 (inode_addr disk0 0))"
  then have "e \<in> (\<lambda>j. 4096 * data_region_addr (mkfs_super 32 32) + 32 * int j) ` {0..<128}"
    unfolding img0_def disk0_def mkfs_slots(2) [OF sizes_default refl length_blank length_blank] set_map set_upt .
  then obtain j where j: "j < 128" "e = 4096 * data_region_addr (mkfs_super 32 32) + 32 * int j" by auto
  note en = mkfs_entries [OF sizes_default refl length_blank length_blank j(1), folded img0_def j(2)]
  show "entry_inum img0 e \<noteq> - 1 \<longrightarrow> length (entry_name img0 e) < 28"
    using en by (auto simp: dot_def dotdot_def less_2_cases_iff)
qed

theorem long_name_erases_root_witness:
  "\<exists>m. fs_creat disk0 img0 0 1 (replicate 28 97) = Inr (0, m) \<and>
     fs_lookup disk0 img0 0 dot = Inr 0 \<and> fs_lookup disk0 m 0 dot = Inr (- 1)"
proof -
  have "bit_set img0 (inode_bitmap_ptr disk0) 0" using directoryD(2) [OF img0_facts(2)] .
  moreover have "length (replicate 28 (97 :: byte)) = 28" "0 \<notin> set (replicate 28 (97 :: byte))" "(1 :: nat) < 256"
    "w32 1 = 1" "1 \<noteq> UFS_DIRECTORY" by (simp_all add: UFS_DIRECTORY_def)
  ultimately obtain m where "fs_creat disk0 img0 (int 0) 1 (replicate 28 97) = Inr (0, m)" "\<forall>nm. fs_lookup disk0 m 0 nm = Inr (- 1)"
    using long_name_erases_root [OF img0_facts(1,2,7) _ _ _ img0_short_names img0_facts(4,5), of "replicate 28 97" 1] by blast
  moreover have "fs_lookup disk0 img0 (int 0) dot = Inr 0"
    using fs_lookup_eq [OF img0_facts(1,2) valid_dot] by (simp add: img0_facts(3))
  ultimately show ?thesis by auto
qed

section \<open>Reads that end at a block boundary\<close>

text \<open>
  Reading the last block of a file in full fails: \<open>fs_read\<close> of the 4096 bytes of block \<open>k\<close>
  copies the block into the buffer and then returns -1, because it takes the branch for a read
  that crosses into block \<open>k + 1\<close>, which is not there.
\<close>

theorem whole_block_read_fails:
  assumes L: "ufs_layout d m" and c: "inode_ok d c" "bit_set m (inode_bitmap_ptr d) c" and k: "k + 1 < DIRECT_PTRS"
    and sz: "4096 * int k \<le> w32 (int_at m (inode_addr d c + 4) * 4096)"
    and b: "direct_ptr m (inode_addr d c) k = b" "in_img m (4096 * b) 4096" "direct_ptr m (inode_addr d c) (k + 1) = - 1"
    and buf: "length buffer = 4096"
  shows "fs_read d m (int c) buffer (4096 * int k) 4096 = Inr (- 1, get_bytes m (4096 * b) 4096)"
proof -
  let ?C = "inode_addr d c"
  note C = layout_inode_addr(1) [OF L c(1)]
  have i: "in_img m (?C + 4) 4" "in_img m (i_direct ?C (int k)) 4" "in_img m (i_direct ?C (int (k + 1))) 4"
    using in_img_sub [OF C, of "?C + 4" 4] in_img_direct [OF C, of k] in_img_direct [OF C, of "k + 1"] k by auto
  have s: "4096 * int k sdiv 4096 = int k" "4096 * int k smod 4096 = 0"
    using sdiv_pos [of "4096 * int k" 4096] smod_pos [of "4096 * int k" 4096] by auto
  have k1: "int (k + 1) = int k + 1" by simp
  have nxt: "ld32 m (i_direct ?C (int k + 1)) = Inr (- 1)"
    using i(3) b(3) unfolding direct_ptr_def k1 by (simp add: img_simps)
  have k30: "int k < 29" using k by (simp add: DIRECT_PTRS_def)
  then have "w32 (4096 * int k + 4096) sdiv 4096 = int k + 1"
    using sdiv_pos [of "4096 * int k + 4096" 4096] by (simp add: w32_id)
  moreover have "put_at 0 (get_bytes m (4096 * b) 4096) buffer = get_bytes m (4096 * b) 4096"
    using buf by (simp add: put_at_def)
  ultimately show ?thesis
    using get_inode_ptr_eq [OF L, of c] c i(1,2) s sz b(1,2) k30 nxt buf L
    by (simp add: fs_read_def img_simps inode_ok_def i_size_def UFS_BLOCK_SIZE_def sizeof_dir_ent_def Let_def copy_out_def
        block_ptr_def ufs_layout_def direct_ptr_def DIRECT_PTRS_def)
qed

theorem whole_block_read_fails_witness:
  "fs_read disk0 img0 0 blank 0 4096 = Inr (- 1, get_bytes img0 (4096 * data_region_addr (mkfs_super 32 32)) 4096)"
proof -
  note I = mkfs_image_int_at(4) [OF sizes_default refl length_blank length_blank]
  have a: "inode_addr disk0 0 = 4096 * inode_region_addr (mkfs_super 32 32)"
    by (simp add: disk0_def inode_addr_def disk_of_def)
  have "bit_set img0 (inode_bitmap_ptr disk0) 0" using directoryD(2) [OF img0_facts(2)] .
  moreover have "4096 * int 0 \<le> w32 (int_at img0 (inode_addr disk0 0 + 4) * 4096)"
    using I [of 1] by (simp add: a img0_def)
  moreover have "direct_ptr img0 (inode_addr disk0 0) 0 = data_region_addr (mkfs_super 32 32)"
    "direct_ptr img0 (inode_addr disk0 0) (0 + 1) = - 1"
    using I [of 2] I [of 3] by (simp_all add: a img0_def direct_ptr_def i_direct_def add.assoc)
  moreover have "in_img img0 (4096 * data_region_addr (mkfs_super 32 32)) 4096"
    using directoryD(4) [OF img0_facts(2)] mkfs_slots(1) [OF sizes_default refl length_blank length_blank]
    by (simp add: img0_def disk0_def block_ptr_def disk_of_def UFS_BLOCK_SIZE_def)
  ultimately show ?thesis
    using whole_block_read_fails [OF img0_facts(1,7), of 0 _ blank] by (simp add: DIRECT_PTRS_def)
qed

end
