(* ===== verification/Spec2Isabelle.thy ===== *)
theory Spec2Isabelle
  imports Psort Wish Sh_Run Kernel Ulock Umalloc_Kernel Tickets Mfs_Spec
begin

text \<open>
  A verification library for a collection of operating-system projects in C: a parallel sort
  (\<open>p3a\<close>), the xv6 kernel extended with kernel threads (\<open>p3b/xv6-public\<close>, with the page
  protection calls of \<open>p2b\<close>) and a distributed file system (\<open>p4/Distributed-File-System\<close>).

  \<^bold>\<open>How the code is modelled.\<close>  Every C function is a definition with its own guards, early
  returns and error codes; state is passed explicitly in records that follow the C structures.
  A computation that may go wrong returns \<open>fault + result\<close>: \<open>Panic\<close> is the kernel's \<open>panic\<close>,
  \<open>OutOfBounds\<close>, \<open>NullDeref\<close>, \<open>BadAccess\<close> and \<open>BadShift\<close> are operations that C leaves
  undefined, \<open>Spins\<close> is a wait for another processor or process.  Machine integers are words
  where wrap-around matters and integers with the wrap-around written out elsewhere.  Loops are
  recursive functions with a termination proof; no fuel is used.

  \<^bold>\<open>Theories.\<close>
  \<^item> \<open>Prelude\<close>: faults and sequencing, checked arrays, search loops, little-endian fields.
  \<^item> \<open>Psort\<close> (\<open>psort.c\<close>): the merge sort on a shared array of record pointers, the worker
    threads of each phase in any order, the merge rounds, \<open>main\<close>.  Shown: stable sort, no access
    out of bounds, termination.
  \<^item> \<open>Memory\<close> (\<open>string.c\<close>, \<open>ulib.c\<close>): memory and string routines on byte-addressed memory.
  \<^item> \<open>Kalloc\<close> (\<open>kalloc.c\<close>): the free list threaded through the free pages.  \<open>Vm\<close> (\<open>vm.c\<close>):
    two-level page tables in that memory.
  \<^item> \<open>Spinlock\<close> (\<open>spinlock.c\<close>): locks and interrupt nesting for any number of processors.
  \<^item> \<open>Proc\<close> (\<open>proc.c\<close>): the process table and every call on it, with \<open>clone\<close> and \<open>join\<close>; a
    context saved by \<open>swtch\<close> is a value that says where the process resumes.  \<open>Proc_Inv\<close> holds
    the invariant, \<open>Proc_Steps\<close> its preservation under the laws of the locale \<open>file_layer\<close>.
  \<^item> \<open>Bio\<close> (\<open>bio.c\<close>, \<open>memide.c\<close>): the buffer cache, seen through the locale \<open>block_cache\<close>.
    \<open>Log\<close> (\<open>log.c\<close>): the redo log.  \<open>Journal\<close>: the log refines a disk with a visible and a
    durable version, and a commit cut off at any disk write is recovered.
  \<^item> \<open>Fs\<close> (\<open>fs.c\<close>): block allocator, inodes, directories, path names.  \<open>Fs_Spec\<close>: bitmap, inode
    encoding and path splitting.
  \<^item> \<open>Pipe\<close> (\<open>pipe.c\<close>): the ring buffer as an instance of the locale \<open>bounded_queue\<close>.  \<open>File\<close>
    (\<open>file.c\<close>): open files, and the interpretation of \<open>file_layer\<close> on them.
  \<^item> \<open>Kernel\<close>: all calls of the processes of a machine interleaved, with the properties of the
    reachable states.
  \<^item> \<open>Ufs\<close> (\<open>fs.c\<close> of \<open>p4\<close>): the on-disk file system of the file server over the mapped image
    as bytes.  \<open>Mfs\<close> (\<open>mkfs.c\<close>, \<open>server.c\<close>, \<open>libmfs.c\<close>, \<open>udp.c\<close>): making the image, the
    server loop and the client library over any network.

  \<^bold>\<open>Simplifications.\<close>  One process at a time is inside the xv6 file system; a call of the file
  layer runs to its end within its caller.  Threads of one phase of the sort run one after the
  other in any order.  Device drivers, \<open>malloc\<close>, system calls and the network are arguments.

  \<^bold>\<open>Not modelled.\<close>  The shells \<open>wish.c\<close> and \<open>sh.c\<close>, system-call argument checking
  (\<open>syscall.c\<close>, \<open>sysfile.c\<close>), \<open>exec.c\<close>, drivers (console, keyboard, interrupt controllers,
  disk, serial line), boot code, user programs, the scheduler variant of \<open>p2b\<close>, the tracing calls
  of \<open>p1b\<close>, and memcached (\<open>p1a\<close>), which is vendored.
\<close>

end
